(* ===== verification/Nexus_Prelude.thy ===== *)
theory Nexus_Prelude
  imports Main "HOL-Library.Word" "HOL-Library.Monad_Syntax"
begin

text \<open>
  Shared vocabulary of the development: the machine integers of the Rust
  sources, checked slice access, big-endian encodings, the hash maps of the
  shard tables, and the generic lemmas on them.

  A Rust panic (a failed \<^verbatim>\<open>assert!\<close>, an \<^verbatim>\<open>expect\<close> on
  \<^verbatim>\<open>None\<close>, an index or slice out of range) is the value \<^term>\<open>None\<close> of an
  option type, so a panic-freedom claim is a claim that a result is
  \<^term>\<open>Some\<close>.  Ordinary error results are values of a sum type inside it.
  \<^verbatim>\<open>debug_assert!\<close> is compiled out of release builds; the model executes it
  in the slab and the shard only.
\<close>

section \<open>Machine integers\<close>

type_synonym u8 = "8 word"
type_synonym u16 = "16 word"
type_synonym u32 = "32 word"
type_synonym u64 = "64 word"
type_synonym bytes = "u8 list"

unbundle bit_operations_syntax

named_theorems slice_simps \<open>checked slice access and overwriting\<close>
named_theorems be_simps \<open>big-endian encodings\<close>

section \<open>Checked access\<close>

definition idx :: "'a list \<Rightarrow> nat \<Rightarrow> 'a option" where
  "idx xs i = (if i < length xs then Some (xs ! i) else None)"

definition sub_slice :: "'a list \<Rightarrow> nat \<Rightarrow> nat \<Rightarrow> 'a list option" where
  "sub_slice xs a b = (if a \<le> b \<and> b \<le> length xs then Some (take (b - a) (drop a xs)) else None)"

definition copy_into :: "'a list \<Rightarrow> nat \<Rightarrow> 'a list \<Rightarrow> 'a list option" where
  "copy_into dst i src =
     (if i + length src \<le> length dst
      then Some (take i dst @ src @ drop (i + length src) dst) else None)"

definition rassert :: "bool \<Rightarrow> unit option" where
  "rassert b = (if b then Some () else None)"

lemma idx_Some [simp, slice_simps]: "i < length xs \<Longrightarrow> idx xs i = Some (xs ! i)"
  by (simp add: idx_def)

lemma idx_0 [simp]: "xs \<noteq> [] \<Longrightarrow> idx xs 0 = Some (xs ! 0)"
  by (simp add: idx_def)

lemma idx_None [simp, slice_simps]: "length xs \<le> i \<Longrightarrow> idx xs i = None"
  by (simp add: idx_def)

lemma idx_eq_Some_iff: "idx xs i = Some x \<longleftrightarrow> i < length xs \<and> xs ! i = x"
  by (auto simp: idx_def)

lemma idx_eq_None_iff: "idx xs i = None \<longleftrightarrow> length xs \<le> i"
  by (auto simp: idx_def)

lemma sub_slice_Some [simp, slice_simps]:
  "a \<le> b \<Longrightarrow> b \<le> length xs \<Longrightarrow> sub_slice xs a b = Some (take (b - a) (drop a xs))"
  by (simp add: sub_slice_def)

lemma sub_slice_eq_Some_iff:
  "sub_slice xs a b = Some ys \<longleftrightarrow> a \<le> b \<and> b \<le> length xs \<and> ys = take (b - a) (drop a xs)"
  by (auto simp: sub_slice_def)

lemma copy_into_Some [simp, slice_simps]:
  "i + length src \<le> length dst \<Longrightarrow>
   copy_into dst i src = Some (take i dst @ src @ drop (i + length src) dst)"
  by (simp add: copy_into_def)

lemma copy_into_length: "copy_into dst i src = Some dst' \<Longrightarrow> length dst' = length dst"
  by (auto simp: copy_into_def split: if_splits)

lemma copy_into_parts: "length b = length b' \<Longrightarrow> i = length a \<Longrightarrow> copy_into (a @ b @ c) i b' = Some (a @ b' @ c)"
  by (simp add: copy_into_def)

lemma rassert_simps [simp]: "rassert True = Some ()" "rassert False = None"
  by (simp_all add: rassert_def)

lemma rassert_eq_Some_iff [simp]: "rassert b = Some u \<longleftrightarrow> b"
  by (simp add: rassert_def)

lemmas panic_simps = bind_eq_Some_conv idx_eq_Some_iff Let_def

section \<open>Searching\<close>

text \<open>\<^verbatim>\<open>Iterator::position\<close>: the index of the first element with the property.\<close>

fun position :: "('a \<Rightarrow> bool) \<Rightarrow> 'a list \<Rightarrow> nat option" where
  "position P [] = None"
| "position P (x # xs) = (if P x then Some 0 else map_option Suc (position P xs))"

lemma position_Some:
  "position P xs = Some i \<Longrightarrow> i < length xs \<and> P (xs ! i) \<and> (\<forall>j<i. \<not> P (xs ! j))"
  by (induction xs arbitrary: i) (auto simp: nth_Cons less_Suc_eq_0_disj split: if_splits nat.splits)

lemma position_None: "position P xs = None \<longleftrightarrow> (\<forall>x\<in>set xs. \<not> P x)"
  by (induction xs) auto

lemma position_unique:
  assumes "i < length xs" "P (xs ! i)" "\<And>j. j < length xs \<Longrightarrow> P (xs ! j) \<Longrightarrow> j = i"
  shows "position P xs = Some i"
proof (cases "position P xs")
  case None
  then show ?thesis using assms(1,2) by (simp add: position_None)
next
  case (Some k)
  then show ?thesis using assms(3)[of k] position_Some[OF Some] by blast
qed

section \<open>Big-endian integers\<close>

definition be16 :: "u8 \<Rightarrow> u8 \<Rightarrow> u16" where
  "be16 a b = word_cat a b"

definition be32 :: "u8 \<Rightarrow> u8 \<Rightarrow> u8 \<Rightarrow> u8 \<Rightarrow> u32" where
  "be32 a b c d = word_cat (be16 a b) (be16 c d)"

definition to_be16 :: "u16 \<Rightarrow> bytes" where
  "to_be16 w = [ucast (drop_bit 8 w), ucast w]"

definition to_be32 :: "u32 \<Rightarrow> bytes" where
  "to_be32 w = [ucast (drop_bit 24 w), ucast (drop_bit 16 w), ucast (drop_bit 8 w), ucast w]"

definition to_be64 :: "u64 \<Rightarrow> bytes" where
  "to_be64 w = to_be32 (ucast (drop_bit 32 w)) @ to_be32 (ucast w)"

definition u16_at :: "bytes \<Rightarrow> nat \<Rightarrow> u16 option" where
  "u16_at d i = do { a \<leftarrow> idx d i; b \<leftarrow> idx d (i + 1); Some (be16 a b) }"

definition u32_at :: "bytes \<Rightarrow> nat \<Rightarrow> u32 option" where
  "u32_at d i = do { a \<leftarrow> idx d i; b \<leftarrow> idx d (i + 1); c \<leftarrow> idx d (i + 2); e \<leftarrow> idx d (i + 3);
     Some (be32 a b c e) }"

lemma length_to_be [simp, be_simps]:
  "length (to_be16 w) = 2" "length (to_be32 x) = 4" "length (to_be64 y) = 8"
  by (simp_all add: to_be16_def to_be32_def to_be64_def)

lemma be16_to_be16 [simp, be_simps]: "be16 (ucast (drop_bit 8 w)) (ucast w) = w"
  unfolding be16_def
  by (rule bit_word_eqI) (auto simp: bit_simps)

lemma be32_to_be32 [simp, be_simps]:
  "be32 (ucast (drop_bit 24 w)) (ucast (drop_bit 16 w)) (ucast (drop_bit 8 w)) (ucast w) = w"
  unfolding be32_def be16_def
  by (rule bit_word_eqI) (auto simp: bit_simps)

lemma to_be16_be16 [simp, be_simps]: "to_be16 (be16 a b) = [a, b]"
  unfolding to_be16_def be16_def
  by (auto simp: bit_simps intro!: bit_word_eqI)

lemma to_be32_be32 [simp, be_simps]: "to_be32 (be32 a b c d) = [a, b, c, d]"
  unfolding to_be32_def be32_def be16_def
  by (auto simp: bit_simps intro!: bit_word_eqI)

lemma unat_be16 [be_simps]: "unat (be16 a b) = unat a * 256 + unat b"
proof -
  have a: "unat a < 256" and b: "unat b < 256"
    using unsigned_less[of a] unsigned_less[of b] by simp_all
  have "be16 a b = of_nat (unat a * 256 + unat b)"
    unfolding be16_def by (simp add: word_cat_eq push_bit_eq_mult ac_simps)
  then have "unat (be16 a b) = (unat a * 256 + unat b) mod 65536"
    by (simp only: unat_of_nat) simp
  then show ?thesis using a b by simp
qed

lemma u16_at_Some [simp]: "i + 1 < length d \<Longrightarrow> u16_at d i = Some (be16 (d ! i) (d ! (i + 1)))"
  by (simp add: u16_at_def)

lemma u32_at_Some [simp]:
  "i + 3 < length d \<Longrightarrow>
   u32_at d i = Some (be32 (d ! i) (d ! (i + 1)) (d ! (i + 2)) (d ! (i + 3)))"
  by (simp add: u32_at_def)

lemma u32_at_append [be_simps]: "u32_at (xs @ to_be32 w @ ys) (length xs) = Some w"
  by (simp add: to_be32_def nth_append)

lemma u32_at_prefix: "i + 3 < k \<Longrightarrow> k \<le> length d \<Longrightarrow> take k d' = take k d \<Longrightarrow> u32_at d' i = u32_at d i"
proof -
  assume a: "i + 3 < k" "k \<le> length d" "take k d' = take k d"
  then have "length d' \<ge> k" by (metis length_take min.absorb2 min.cobounded1)
  moreover have "j < k \<Longrightarrow> d' ! j = d ! j" for j using a(3) by (metis nth_take)
  ultimately show ?thesis using a by simp
qed

lemma u16_at_append: "u16_at (xs @ to_be16 w @ ys) (length xs) = Some w"
  by (simp add: to_be16_def nth_append)

lemma u16_at_shift: "k = length xs \<Longrightarrow> u16_at (xs @ ys) (k + i) = u16_at ys i"
  by (auto simp: u16_at_def idx_def nth_append)

section \<open>Overwriting part of a buffer\<close>

definition overwrite :: "nat \<Rightarrow> 'a list \<Rightarrow> 'a list \<Rightarrow> 'a list" where
  "overwrite i bs d = take i d @ bs @ drop (i + length bs) d"

lemma copy_into_overwrite: "i + length bs \<le> length d \<Longrightarrow> copy_into d i bs = Some (overwrite i bs d)"
  by (simp add: overwrite_def)

lemma length_overwrite [simp]: "i + length bs \<le> length d \<Longrightarrow> length (overwrite i bs d) = length d"
  by (simp add: overwrite_def)

lemma overwrite_Nil [simp]: "overwrite i [] d = d"
  by (simp add: overwrite_def)

lemma overwrite_append:
  "i + length a + length b \<le> length d \<Longrightarrow> overwrite (i + length a) b (overwrite i a d) = overwrite i (a @ b) d"
  by (simp add: overwrite_def ac_simps)

lemma overwrite_prepend:
  "i + length a + length b \<le> length d \<Longrightarrow> overwrite i a (overwrite (i + length a) b d) = overwrite i (a @ b) d"
  by (simp add: overwrite_def ac_simps)

lemma take_overwrite0: "length bs \<le> length d \<Longrightarrow> take (length bs) (overwrite 0 bs d) = bs"
  by (simp add: overwrite_def)

lemmas overwrite_rules = copy_into_overwrite length_overwrite

section \<open>Wider integers\<close>

definition be64 :: "bytes \<Rightarrow> u64" where
  "be64 bs = word_cat (be32 (bs ! 0) (bs ! 1) (bs ! 2) (bs ! 3)) (be32 (bs ! 4) (bs ! 5) (bs ! 6) (bs ! 7))"

definition be128 :: "bytes \<Rightarrow> 128 word" where
  "be128 bs = word_cat (be64 (take 8 bs)) (be64 (drop 8 bs))"

definition to_be128 :: "128 word \<Rightarrow> bytes" where
  "to_be128 w = to_be64 (ucast (drop_bit 64 w)) @ to_be64 (ucast w)"

lemma length_to_be128 [simp]: "length (to_be128 w) = 16"
  by (simp add: to_be128_def)

lemma be64_to_be64 [simp]: "be64 (to_be64 w) = w"
proof -
  have "be64 (to_be64 w) = word_cat (ucast (drop_bit 32 w) :: u32) (ucast w :: u32)"
    unfolding be64_def to_be64_def to_be32_def by simp
  also have "\<dots> = w" by (rule bit_word_eqI) (auto simp: bit_simps)
  finally show ?thesis .
qed

lemma be128_to_be128 [simp]: "be128 (to_be128 w) = w"
proof -
  have "be128 (to_be128 w) = word_cat (ucast (drop_bit 64 w) :: u64) (ucast w :: u64)"
    unfolding be128_def to_be128_def by simp
  also have "\<dots> = w" by (rule bit_word_eqI) (auto simp: bit_simps)
  finally show ?thesis .
qed

section \<open>Hash maps\<close>

text \<open>
  A hash map is an association list without repeated keys.  Iteration order
  is not modelled, because no code of the shard iterates over one.
\<close>

type_synonym ('k, 'v) hmap = "('k \<times> 'v) list"

definition hm_get :: "('k, 'v) hmap \<Rightarrow> 'k \<Rightarrow> 'v option" where
  "hm_get m = map_of m"

definition hm_remove :: "'k \<Rightarrow> ('k, 'v) hmap \<Rightarrow> ('k, 'v) hmap" where
  "hm_remove k m = filter (\<lambda>p. fst p \<noteq> k) m"

definition hm_insert :: "'k \<Rightarrow> 'v \<Rightarrow> ('k, 'v) hmap \<Rightarrow> ('k, 'v) hmap" where
  "hm_insert k v m = (k, v) # hm_remove k m"

definition hm_ok :: "('k, 'v) hmap \<Rightarrow> bool" where
  "hm_ok m \<longleftrightarrow> distinct (map fst m)"

lemma hm_get_Nil [simp]: "hm_get [] k = None"
  by (simp add: hm_get_def)

lemma hm_ok_Nil [simp]: "hm_ok []"
  by (simp add: hm_ok_def)

lemma hm_get_remove [simp]: "hm_get (hm_remove k m) k' = (if k' = k then None else hm_get m k')"
  by (induction m) (auto simp: hm_get_def hm_remove_def)

lemma hm_get_insert [simp]: "hm_get (hm_insert k v m) k' = (if k' = k then Some v else hm_get m k')"
  using hm_get_remove[of k m k'] by (simp add: hm_insert_def hm_get_def)

lemma hm_ok_remove [simp]: "hm_ok m \<Longrightarrow> hm_ok (hm_remove k m)"
  unfolding hm_ok_def hm_remove_def by (induction m) auto

lemma hm_ok_insert [simp]: "hm_ok m \<Longrightarrow> hm_ok (hm_insert k v m)"
  using hm_ok_remove[of m k] by (auto simp: hm_insert_def hm_ok_def hm_remove_def)

lemma hm_len_card: "hm_ok m \<Longrightarrow> length m = card (dom (hm_get m))"
  unfolding hm_ok_def hm_get_def by (metis dom_map_of_conv_image_fst distinct_card length_map set_map)

lemma hm_finite [simp]: "finite (dom (hm_get m))"
  by (simp add: hm_get_def finite_dom_map_of)

section \<open>Runs that do not panic\<close>

text \<open>
  \<open>runs m Q\<close>: the computation \<open>m\<close> does not panic and its result has the
  property \<open>Q\<close>.  The rules below walk through a \<open>do\<close> block.
\<close>

definition runs :: "'a option \<Rightarrow> ('a \<Rightarrow> bool) \<Rightarrow> bool" where
  "runs m Q \<longleftrightarrow> (\<exists>x. m = Some x \<and> Q x)"

lemma runs_Some [simp]: "runs (Some x) Q = Q x"
  by (simp add: runs_def)

lemma runs_bind: "runs m P \<Longrightarrow> (\<And>x. P x \<Longrightarrow> runs (f x) Q) \<Longrightarrow> runs (m \<bind> f) Q"
  by (auto simp: runs_def)

lemma runs_bind_eq: "m = Some x \<Longrightarrow> runs (f x) Q \<Longrightarrow> runs (m \<bind> f) Q"
  by simp

lemma runs_mono: "runs m P \<Longrightarrow> (\<And>x. P x \<Longrightarrow> Q x) \<Longrightarrow> runs m Q"
  by (auto simp: runs_def)

lemma runs_rassert: "b \<Longrightarrow> runs (f ()) Q \<Longrightarrow> runs (rassert b \<bind> f) Q"
  by simp

lemma runs_if: "(b \<Longrightarrow> runs m Q) \<Longrightarrow> (\<not> b \<Longrightarrow> runs n Q) \<Longrightarrow> runs (if b then m else n) Q"
  by simp

lemma runs_option:
  "(x = None \<Longrightarrow> runs m Q) \<Longrightarrow> (\<And>y. x = Some y \<Longrightarrow> runs (f y) Q) \<Longrightarrow>
   runs (case x of None \<Rightarrow> m | Some y \<Rightarrow> f y) Q"
  by (cases x) simp_all

lemma runs_total: "runs m Q \<Longrightarrow> m \<noteq> None"
  by (auto simp: runs_def)

lemma runsD: "runs m Q \<Longrightarrow> m = Some x \<Longrightarrow> Q x"
  by (simp add: runs_def)

text \<open>
  \<open>ens m Q\<close>: if the computation \<open>m\<close> does not panic, its result has the
  property \<open>Q\<close>; used for what an operation leaves unchanged.
\<close>

definition ens :: "'a option \<Rightarrow> ('a \<Rightarrow> bool) \<Rightarrow> bool" where
  "ens m Q \<longleftrightarrow> (\<forall>x. m = Some x \<longrightarrow> Q x)"

lemma ens_Some [simp]: "ens (Some x) Q = Q x"
  by (simp add: ens_def)

lemma ens_bind: "ens m P \<Longrightarrow> (\<And>x. P x \<Longrightarrow> ens (f x) Q) \<Longrightarrow> ens (m \<bind> f) Q"
  by (cases m) (simp_all add: ens_def)

lemma ens_bind_any: "(\<And>x. m = Some x \<Longrightarrow> ens (f x) Q) \<Longrightarrow> ens (m \<bind> f) Q"
  by (cases m) (simp_all add: ens_def)

lemma ens_if: "(b \<Longrightarrow> ens m Q) \<Longrightarrow> (\<not> b \<Longrightarrow> ens n Q) \<Longrightarrow> ens (if b then m else n) Q"
  by simp

lemma ens_option:
  "(x = None \<Longrightarrow> ens m Q) \<Longrightarrow> (\<And>y. x = Some y \<Longrightarrow> ens (f y) Q) \<Longrightarrow>
   ens (case x of None \<Rightarrow> m | Some y \<Rightarrow> f y) Q"
  by (cases x) simp_all

lemma ens_pair: "(\<And>a b. x = (a, b) \<Longrightarrow> ens (f a b) Q) \<Longrightarrow> ens (case x of (a, b) \<Rightarrow> f a b) Q"
  by (cases x) simp

lemma ens_sum:
  "(\<And>a. x = Inl a \<Longrightarrow> ens (f a) Q) \<Longrightarrow> (\<And>b. x = Inr b \<Longrightarrow> ens (g b) Q) \<Longrightarrow>
   ens (case x of Inl a \<Rightarrow> f a | Inr b \<Rightarrow> g b) Q"
  by (cases x) simp_all

lemma ensD: "ens m Q \<Longrightarrow> m = Some x \<Longrightarrow> Q x"
  by (simp add: ens_def)

lemma ensI: "(\<And>x. m = Some x \<Longrightarrow> Q x) \<Longrightarrow> ens m Q"
  by (simp add: ens_def)

lemmas ens_intros = ens_bind_any ens_if ens_option ens_pair ens_sum

lemma runs_pair: "(\<And>a b. x = (a, b) \<Longrightarrow> runs (f a b) Q) \<Longrightarrow> runs (case x of (a, b) \<Rightarrow> f a b) Q"
  by (cases x) simp

lemma runs_sum:
  "(\<And>a. x = Inl a \<Longrightarrow> runs (f a) Q) \<Longrightarrow> (\<And>b. x = Inr b \<Longrightarrow> runs (g b) Q) \<Longrightarrow>
   runs (case x of Inl a \<Rightarrow> f a | Inr b \<Rightarrow> g b) Q"
  by (cases x) simp_all

section \<open>Bytes\<close>

lemma and_one_bit: "(drop_bit n w AND 1 \<noteq> 0) = bit (w :: u8) n"
  by (simp add: and_one_eq bit_iff_odd_drop_bit odd_iff_mod_2_eq_one)

lemma u8_masks: "(0x0F :: u8) = mask 4" "(0x7F :: u8) = mask 7" "(3 :: u8) = mask 2" "(0x80 :: u8) = push_bit 7 1"
  "(0x20 :: u8) = push_bit 5 1" "(0x10 :: u8) = push_bit 4 1" "(2 :: u8) = push_bit 1 1"
  by (simp_all add: mask_eq_exp_minus_1)

lemma byte_lt_256 [simp]: "unat (b :: u8) < 256"
  using unsigned_less[of b] by simp

lemma u32_lt_4294967296 [simp]: "unat (w :: u32) < 4294967296"
  using unsigned_less[of w] by simp

lemma u16_lt_65536 [simp]: "unat (w :: u16) < 65536"
  using unsigned_less[of w] by simp

end
