(* ===== verification/Buffer_Pool.thy ===== *)
theory Buffer_Pool
  imports Nexus_Prelude "HOL-Library.Multiset"
begin

text \<open>
  The shard's buffer pool, \<^verbatim>\<open>nexus-dataplane/src/pool.rs\<close>: one flat
  memory of \<open>BUF_SIZE\<close> buffers and a stack of free indices (top first).
  The \<open>taken\<close> bitmap exists in debug builds only and is not modelled;
  what it checks at run time is the invariant \<open>pool_owns\<close> proved here:
  the free indices and the indices handed out partition the pool.
\<close>

section \<open>Definitions\<close>

definition BUF_SIZE :: nat where
  "BUF_SIZE = 2048"

record buf_ref =
  buf_shard :: u8
  buf_index :: nat

record pool =
  pool_shard :: u8
  pool_memory :: bytes
  pool_free :: "nat list"

definition pool_capacity :: "pool \<Rightarrow> nat" where
  "pool_capacity p = length (pool_memory p) div BUF_SIZE"

definition pool_available :: "pool \<Rightarrow> nat" where
  "pool_available p = length (pool_free p)"

definition pool_new :: "u8 \<Rightarrow> nat \<Rightarrow> pool option" where
  "pool_new shard n = do {
     rassert (n > 0);
     let p = \<lparr>pool_shard = shard, pool_memory = replicate (n * BUF_SIZE) 0,
              pool_free = [0..<n]\<rparr>;
     rassert (pool_available p = n);
     Some p }"

definition pool_take :: "pool \<Rightarrow> (buf_ref \<times> pool) option" where
  "pool_take p = (case pool_free p of
     [] \<Rightarrow> None
   | i # fr \<Rightarrow> Some (\<lparr>buf_shard = pool_shard p, buf_index = i\<rparr>, p\<lparr>pool_free := fr\<rparr>))"

definition pool_put :: "buf_ref \<Rightarrow> pool \<Rightarrow> pool option" where
  "pool_put b p = do {
     rassert (length (pool_free p) < pool_capacity p);
     Some (p\<lparr>pool_free := buf_index b # pool_free p\<rparr>) }"

definition pool_buf :: "pool \<Rightarrow> buf_ref \<Rightarrow> bytes option" where
  "pool_buf p b = (let start = buf_index b * BUF_SIZE in
     sub_slice (pool_memory p) start (start + BUF_SIZE))"

text \<open>Writing \<open>d\<close> at offset \<open>i\<close> of the slice \<^verbatim>\<open>buf_mut\<close> returns.\<close>

definition pool_write :: "buf_ref \<Rightarrow> nat \<Rightarrow> bytes \<Rightarrow> pool \<Rightarrow> pool option" where
  "pool_write b i d p = do {
     cur \<leftarrow> pool_buf p b;
     new \<leftarrow> copy_into cur i d;
     mem \<leftarrow> copy_into (pool_memory p) (buf_index b * BUF_SIZE) new;
     Some (p\<lparr>pool_memory := mem\<rparr>) }"

text \<open>
  The two slices of \<^verbatim>\<open>pair_mut\<close>, each an offset and a length into the
  pool's memory: the split point decides from which half each comes.
\<close>

definition pool_pair_mut :: "buf_ref \<Rightarrow> buf_ref \<Rightarrow> pool \<Rightarrow> ((nat \<times> nat) \<times> (nat \<times> nat)) option" where
  "pool_pair_mut rd wr p = do {
     rassert (buf_index rd \<noteq> buf_index wr);
     let r = buf_index rd;
     let w = buf_index wr;
     let n = length (pool_memory p);
     if r < w then do {
       rassert (w * BUF_SIZE \<le> n);
       rassert ((r + 1) * BUF_SIZE \<le> w * BUF_SIZE);
       rassert (BUF_SIZE \<le> n - w * BUF_SIZE);
       Some ((r * BUF_SIZE, BUF_SIZE), (w * BUF_SIZE, BUF_SIZE)) }
     else do {
       rassert (r * BUF_SIZE \<le> n);
       rassert (BUF_SIZE \<le> n - r * BUF_SIZE);
       rassert ((w + 1) * BUF_SIZE \<le> r * BUF_SIZE);
       Some ((r * BUF_SIZE, BUF_SIZE), (w * BUF_SIZE, BUF_SIZE)) } }"

section \<open>Ownership\<close>

definition pool_owns :: "pool \<Rightarrow> nat list \<Rightarrow> bool" where
  "pool_owns p out \<longleftrightarrow> distinct (pool_free p @ out) \<and>
     set (pool_free p @ out) = {..<pool_capacity p} \<and>
     length (pool_memory p) = pool_capacity p * BUF_SIZE"

lemma BUF_SIZE_pos [simp]: "0 < BUF_SIZE"
  by (simp add: BUF_SIZE_def)

lemma pool_new_owns: "pool_new sh n = Some p \<Longrightarrow> pool_owns p [] \<and> pool_capacity p = n"
  by (auto simp: pool_new_def panic_simps pool_owns_def pool_capacity_def)

lemma pool_new_total: "0 < n \<Longrightarrow> \<exists>p. pool_new sh n = Some p"
  by (auto simp: pool_new_def pool_available_def)

lemma pool_owns_perm:
  "pool_owns p xs \<Longrightarrow> mset xs = mset ys \<Longrightarrow> pool_owns p ys"
  unfolding pool_owns_def
  by (metis (no_types) mset_append mset_eq_imp_distinct_iff mset_eq_setD)

lemma pool_take_owns:
  "pool_owns p out \<Longrightarrow> pool_take p = Some (b, p') \<Longrightarrow> pool_owns p' (buf_index b # out)"
  by (auto simp: pool_take_def pool_owns_def pool_capacity_def split: list.splits)

lemma pool_take_fresh:
  "pool_owns p out \<Longrightarrow> pool_take p = Some (b, p') \<Longrightarrow> buf_index b \<notin> set out \<and> buf_index b < pool_capacity p"
  by (auto simp: pool_take_def pool_owns_def split: list.splits)

lemma pool_conservation: "pool_owns p out \<Longrightarrow> pool_available p + length out = pool_capacity p"
  unfolding pool_owns_def pool_available_def
  by (metis card_lessThan distinct_card length_append)

lemma pool_take_None_iff: "pool_owns p out \<Longrightarrow> pool_take p = None \<longleftrightarrow> length out = pool_capacity p"
  using pool_conservation[of p out]
  by (auto simp: pool_take_def pool_available_def split: list.splits)

lemma pool_put_total:
  "pool_owns p (buf_index b # out) \<Longrightarrow> \<exists>p'. pool_put b p = Some p' \<and> pool_owns p' out"
proof -
  assume o: "pool_owns p (buf_index b # out)"
  from pool_conservation[OF o] have "length (pool_free p) < pool_capacity p"
    by (simp add: pool_available_def)
  then show ?thesis using o by (auto simp: pool_put_def pool_owns_def pool_capacity_def)
qed

lemma pool_slot_bound:
  "pool_owns p out \<Longrightarrow> i < pool_capacity p \<Longrightarrow> i * BUF_SIZE + BUF_SIZE \<le> length (pool_memory p)"
  unfolding pool_owns_def by (metis Suc_leI add.commute mult_Suc mult_le_mono1)

lemma pool_buf_total:
  "pool_owns p out \<Longrightarrow> buf_index b < pool_capacity p \<Longrightarrow>
   \<exists>d. pool_buf p b = Some d \<and> length d = BUF_SIZE"
  using pool_slot_bound[of p out "buf_index b"] by (auto simp: pool_buf_def Let_def)

lemma pool_pair_mut_disjoint:
  assumes "pool_owns p out" "buf_index rd < pool_capacity p" "buf_index wr < pool_capacity p"
    "buf_index rd \<noteq> buf_index wr"
  shows "pool_pair_mut rd wr p =
    Some ((buf_index rd * BUF_SIZE, BUF_SIZE), (buf_index wr * BUF_SIZE, BUF_SIZE))"
proof -
  have lt: "a < b \<Longrightarrow> (a + 1) * BUF_SIZE \<le> b * BUF_SIZE" for a b
    by (metis Suc_eq_plus1 Suc_leI mult_le_mono1)
  show ?thesis
    using assms pool_slot_bound[OF assms(1), of "buf_index rd"] pool_slot_bound[OF assms(1), of "buf_index wr"]
      lt[of "buf_index rd" "buf_index wr"] lt[of "buf_index wr" "buf_index rd"]
    by (auto simp: pool_pair_mut_def Let_def rassert_def)
qed

lemma pool_buf_as_slice:
  "pool_buf p b = Some d \<Longrightarrow> d = take BUF_SIZE (drop (buf_index b * BUF_SIZE) (pool_memory p))"
  by (auto simp: pool_buf_def Let_def sub_slice_eq_Some_iff)

lemma pool_write_shape:
  assumes "pool_write b i d p = Some p'"
  shows "\<exists>cur new. pool_buf p b = Some cur \<and> new = take i cur @ d @ drop (i + length d) cur \<and>
    i + length d \<le> BUF_SIZE \<and> length new = BUF_SIZE \<and>
    buf_index b * BUF_SIZE + BUF_SIZE \<le> length (pool_memory p) \<and>
    p' = p\<lparr>pool_memory := take (buf_index b * BUF_SIZE) (pool_memory p) @ new @
      drop (buf_index b * BUF_SIZE + BUF_SIZE) (pool_memory p)\<rparr>"
proof -
  obtain cur where cur: "pool_buf p b = Some cur"
    using assms by (auto simp: pool_write_def bind_eq_Some_conv)
  then have len: "length cur = BUF_SIZE" "buf_index b * BUF_SIZE + BUF_SIZE \<le> length (pool_memory p)"
    by (auto simp: pool_buf_def Let_def sub_slice_eq_Some_iff)
  then show ?thesis using assms cur
    by (simp add: pool_write_def copy_into_def split: if_splits)
qed

lemma pool_write_frame:
  assumes w: "pool_write b i d p = Some p'" and ne: "buf_index c \<noteq> buf_index b"
  shows "pool_buf p' c = pool_buf p c"
proof -
  let ?s = "buf_index b * BUF_SIZE" and ?c = "buf_index c * BUF_SIZE"
  obtain new where new: "length new = BUF_SIZE" "?s + BUF_SIZE \<le> length (pool_memory p)"
    and p': "p' = p\<lparr>pool_memory := take ?s (pool_memory p) @ new @ drop (?s + BUF_SIZE) (pool_memory p)\<rparr>"
    using pool_write_shape[OF w] by blast
  have "?c + BUF_SIZE \<le> ?s \<or> ?s + BUF_SIZE \<le> ?c"
    using ne by (metis Suc_leI add.commute linorder_neqE_nat mult_Suc mult_le_mono1)
  moreover have "?s + BUF_SIZE \<le> ?c \<Longrightarrow> ?s - ?c = 0" by linarith
  ultimately show ?thesis using new
    by (auto simp: pool_buf_def Let_def sub_slice_def p' drop_take simp del: diff_is_0_eq)
qed

lemma pool_write_same:
  assumes "pool_buf p b = Some cur" "i + length d \<le> BUF_SIZE"
  shows "\<exists>p'. pool_write b i d p = Some p' \<and>
     pool_buf p' b = Some (take i cur @ d @ drop (i + length d) cur)"
proof -
  have len: "length cur = BUF_SIZE" "buf_index b * BUF_SIZE + BUF_SIZE \<le> length (pool_memory p)"
    using assms by (auto simp: pool_buf_def Let_def sub_slice_eq_Some_iff)
  then show ?thesis using assms
    by (simp add: pool_write_def copy_into_def) (simp add: pool_buf_def Let_def)
qed

lemma pool_write_owns:
  assumes "pool_owns p out" "pool_write b i d p = Some p'"
  shows "pool_owns p' out \<and> pool_capacity p' = pool_capacity p"
proof -
  have "length (pool_memory p') = length (pool_memory p)" "pool_free p' = pool_free p"
    using pool_write_shape[OF assms(2)] by auto
  then show ?thesis using assms(1) by (simp add: pool_owns_def pool_capacity_def)
qed

section \<open>The allocator contract\<close>

text \<open>
  What the shard loop relies on: every buffer is either free or held by
  exactly one holder, and giving back a held buffer never panics.
\<close>

locale buffer_allocator =
  fixes al_owns :: "'p \<Rightarrow> nat list \<Rightarrow> bool"
    and al_take :: "'p \<Rightarrow> (buf_ref \<times> 'p) option"
    and al_put :: "buf_ref \<Rightarrow> 'p \<Rightarrow> 'p option"
  assumes take_owns: "al_owns p out \<Longrightarrow> al_take p = Some (b :: buf_ref, p') \<Longrightarrow> al_owns p' (buf_index b # out)"
    and put_owns: "al_owns p (buf_index (b :: buf_ref) # out) \<Longrightarrow> \<exists>p'. al_put b p = Some p' \<and> al_owns p' out"
    and owns_perm: "al_owns p xs \<Longrightarrow> mset xs = mset ys \<Longrightarrow> al_owns p ys"
    and owns_distinct: "al_owns p xs \<Longrightarrow> distinct xs"
begin

lemma no_double_take:
  "al_owns p out \<Longrightarrow> al_take p = Some (b, p1) \<Longrightarrow> al_take p1 = Some (c, p2) \<Longrightarrow>
   buf_index b \<noteq> buf_index c \<and> buf_index b \<notin> set out \<and> buf_index c \<notin> set out"
  using owns_distinct[OF take_owns[OF take_owns]] by fastforce

lemma put_any:
  "al_owns p out \<Longrightarrow> buf_index b \<in> set out \<Longrightarrow>
   \<exists>p'. al_put b p = Some p' \<and> al_owns p' (remove1 (buf_index b) out)"
  by (rule put_owns, rule owns_perm) auto

end

interpretation bp: buffer_allocator pool_owns pool_take pool_put
proof (unfold_locales, goal_cases)
  case 1 then show ?case by (rule pool_take_owns)
next
  case 2 then show ?case by (rule pool_put_total)
next
  case 3 then show ?case by (rule pool_owns_perm)
next
  case 4 then show ?case by (simp add: pool_owns_def)
qed

section \<open>Sequences of takes and puts\<close>

text \<open>
  A holder takes buffers and gives back ones it holds, by position.
  \<^verbatim>\<open>BufRef\<close> is \<^verbatim>\<open>Copy\<close>, so the type alone does not keep a caller from
  giving a buffer back twice: that every caller only gives back what it holds
  is the discipline of the shard.
\<close>

datatype pool_op = Pool_Take | Pool_Put nat

fun pool_run :: "pool_op list \<Rightarrow> buf_ref list \<Rightarrow> pool \<Rightarrow> (buf_ref list \<times> pool) option" where
  "pool_run [] held p = Some (held, p)"
| "pool_run (Pool_Take # ops) held p = (case pool_take p of
     None \<Rightarrow> pool_run ops held p
   | Some (b, p') \<Rightarrow> pool_run ops (b # held) p')"
| "pool_run (Pool_Put i # ops) held p =
     (if i < length held
      then do { p' \<leftarrow> pool_put (held ! i) p; pool_run ops (take i held @ drop (Suc i) held) p' }
      else pool_run ops held p)"

lemma pool_take_capacity: "pool_take p = Some (b, p') \<Longrightarrow> pool_capacity p' = pool_capacity p"
  by (auto simp: pool_take_def pool_capacity_def split: list.splits)

lemma pool_put_capacity: "pool_put b p = Some p' \<Longrightarrow> pool_capacity p' = pool_capacity p"
  by (auto simp: pool_put_def pool_capacity_def bind_eq_Some_conv)

lemma pool_run_owns:
  "pool_owns p (map buf_index held) \<Longrightarrow>
   \<exists>held' p'. pool_run ops held p = Some (held', p') \<and> pool_owns p' (map buf_index held') \<and>
     pool_capacity p' = pool_capacity p"
proof (induction ops held p rule: pool_run.induct)
  case (2 ops held p)
  show ?case
  proof (cases "pool_take p")
    case None
    then show ?thesis using 2 by simp
  next
    case (Some r)
    then obtain b p' where t: "pool_take p = Some (b, p')" by (cases r) auto
    have "pool_owns p' (map buf_index (b # held))" using bp.take_owns[OF "2.prems" t] by simp
    from "2.IH"(2)[OF t refl this] show ?thesis using t pool_take_capacity[OF t] by simp
  qed
next
  case (3 i ops held p)
  show ?case
  proof (cases "i < length held")
    case True
    have held: "held = take i held @ held ! i # drop (Suc i) held" by (rule id_take_nth_drop[OF True])
    have "mset (map buf_index held) = mset (buf_index (held ! i) # map buf_index (take i held @ drop (Suc i) held))"
      by (subst held) simp
    from bp.put_owns[OF bp.owns_perm[OF "3.prems" this]]
    obtain p' where p': "pool_put (held ! i) p = Some p'"
      "pool_owns p' (map buf_index (take i held @ drop (Suc i) held))" by blast
    from "3.IH"(1)[OF True p'] show ?thesis using True p'(1) pool_put_capacity[OF p'(1)] by simp
  qed (use 3 in simp)
qed simp

end
