(* ===== verification/Slab.thy ===== *)
theory Slab
  imports Nexus_Prelude
begin

text \<open>
  Generational slab storage, \<^verbatim>\<open>nexus-dataplane/src/slab.rs\<close>.  The free
  list is a Rust \<^verbatim>\<open>Vec\<close> used as a stack; its top is the head of the
  list here.  Keys are an index and a 32-bit wrapping generation; reading
  through a stale key, a debug assertion of the code, is a panic here.
  \<open>slab_lookup\<close> is the abstract view, a partial map from keys to
  entries; the contract \<open>keyed_store\<close> states the operations over it.
\<close>

section \<open>Definitions\<close>

record key =
  key_index :: nat
  key_gen :: u32

record 'a slot =
  slot_gen :: u32
  slot_entry :: "'a option"

record 'a slab =
  slab_slots :: "'a slot list"
  slab_free :: "nat list"
  slab_count :: nat

definition slab_new :: "'a slab" where
  "slab_new = \<lparr>slab_slots = [], slab_free = [], slab_count = 0\<rparr>"

definition slab_len :: "'a slab \<Rightarrow> nat" where
  "slab_len s = slab_count s"

definition slab_slot_count :: "'a slab \<Rightarrow> nat" where
  "slab_slot_count s = length (slab_slots s)"

definition slab_key_at :: "'a slab \<Rightarrow> nat \<Rightarrow> key option" where
  "slab_key_at s i = do {
     sl \<leftarrow> idx (slab_slots s) i;
     _ \<leftarrow> slot_entry sl;
     Some \<lparr>key_index = i mod 2 ^ 32, key_gen = slot_gen sl\<rparr> }"

definition slab_insert :: "'a \<Rightarrow> 'a slab \<Rightarrow> (key \<times> 'a slab) option" where
  "slab_insert v s = (case slab_free s of
     i # fr \<Rightarrow> do {
       sl \<leftarrow> idx (slab_slots s) i;
       rassert (slot_entry sl = None);
       let g = slot_gen sl + 1;
       Some (\<lparr>key_index = i, key_gen = g\<rparr>,
         s\<lparr>slab_slots := (slab_slots s)[i := \<lparr>slot_gen = g, slot_entry = Some v\<rparr>],
           slab_free := fr, slab_count := slab_count s + 1\<rparr>) }
   | [] \<Rightarrow> do {
       rassert (length (slab_slots s) < 2 ^ 32);
       Some (\<lparr>key_index = length (slab_slots s), key_gen = 0\<rparr>,
         s\<lparr>slab_slots := slab_slots s @ [\<lparr>slot_gen = 0, slot_entry = Some v\<rparr>],
           slab_count := slab_count s + 1\<rparr>) })"

definition slab_remove :: "key \<Rightarrow> 'a slab \<Rightarrow> ('a \<times> 'a slab) option" where
  "slab_remove k s = do {
     sl \<leftarrow> idx (slab_slots s) (key_index k);
     rassert (slot_gen sl = key_gen k);
     v \<leftarrow> slot_entry sl;
     Some (v, s\<lparr>slab_slots := (slab_slots s)[key_index k := sl\<lparr>slot_entry := None\<rparr>],
       slab_free := key_index k # slab_free s, slab_count := slab_count s - 1\<rparr>) }"

definition slab_get :: "'a slab \<Rightarrow> key \<Rightarrow> 'a option" where
  "slab_get s k = do {
     sl \<leftarrow> idx (slab_slots s) (key_index k);
     rassert (slot_gen sl = key_gen k);
     slot_entry sl }"

text \<open>A write through the reference \<^verbatim>\<open>get_mut\<close> returns.\<close>

definition slab_modify :: "key \<Rightarrow> ('a \<Rightarrow> 'a) \<Rightarrow> 'a slab \<Rightarrow> 'a slab option" where
  "slab_modify k f s = do {
     sl \<leftarrow> idx (slab_slots s) (key_index k);
     rassert (slot_gen sl = key_gen k);
     v \<leftarrow> slot_entry sl;
     Some (s\<lparr>slab_slots := (slab_slots s)[key_index k := sl\<lparr>slot_entry := Some (f v)\<rparr>]\<rparr>) }"

section \<open>Abstract view and invariant\<close>

definition slab_lookup :: "'a slab \<Rightarrow> key \<Rightarrow> 'a option" where
  "slab_lookup s k = (if key_index k < length (slab_slots s)
     then (let sl = slab_slots s ! key_index k in
           if slot_gen sl = key_gen k then slot_entry sl else None)
     else None)"

definition slab_ok :: "'a slab \<Rightarrow> bool" where
  "slab_ok s \<longleftrightarrow> distinct (slab_free s) \<and>
     (\<forall>i\<in>set (slab_free s). i < length (slab_slots s)) \<and>
     (\<forall>i<length (slab_slots s). i \<in> set (slab_free s) \<longleftrightarrow> slot_entry (slab_slots s ! i) = None) \<and>
     slab_count s + length (slab_free s) = length (slab_slots s) \<and>
     length (slab_slots s) \<le> 2 ^ 32"

definition key_slot :: "'a slab \<Rightarrow> nat \<Rightarrow> key" where
  "key_slot s i = \<lparr>key_index = i, key_gen = slot_gen (slab_slots s ! i)\<rparr>"

lemma slab_new_ok [simp]: "slab_ok slab_new"
  by (simp add: slab_ok_def slab_new_def)

lemma slab_lookup_new [simp]: "slab_lookup slab_new = Map.empty"
  by (rule ext) (simp add: slab_lookup_def slab_new_def)

lemma slab_get_lookup: "slab_get s k = slab_lookup s k"
  by (auto simp: slab_lookup_def slab_get_def idx_def rassert_def Let_def)

lemma slab_insert_ok: "slab_ok s \<Longrightarrow> slab_insert v s = Some (k, s') \<Longrightarrow> slab_ok s'"
  by (cases "slab_free s")
    (fastforce simp: slab_insert_def slab_ok_def panic_simps nth_list_update nth_append less_Suc_eq
      split: if_splits)+

lemma slab_insert_fresh:
  "slab_ok s \<Longrightarrow> slab_insert v s = Some (k, s') \<Longrightarrow> slab_lookup s k = None"
  by (auto simp: slab_insert_def slab_ok_def slab_lookup_def panic_simps split: list.splits)

lemma slab_insert_lookup:
  "slab_ok s \<Longrightarrow> slab_insert v s = Some (k, s') \<Longrightarrow> slab_lookup s' = (slab_lookup s)(k \<mapsto> v)"
  by (rule ext)
    (auto simp: slab_insert_def slab_ok_def slab_lookup_def panic_simps nth_append nth_list_update split: list.splits if_splits)

lemma slab_insert_total:
  "slab_ok s \<Longrightarrow> slab_count s < 2 ^ 32 \<Longrightarrow> \<exists>k s'. slab_insert v s = Some (k, s')"
  by (cases "slab_free s")
    (auto simp: slab_insert_def slab_ok_def panic_simps rassert_def)

lemma slab_insert_len:
  "slab_insert v s = Some (k, s') \<Longrightarrow> slab_len s' = slab_len s + 1"
  by (auto simp: slab_insert_def slab_len_def panic_simps split: list.splits)

lemma slab_remove_ok: "slab_ok s \<Longrightarrow> slab_remove k s = Some (v, s') \<Longrightarrow> slab_ok s'"
proof -
  assume ok: "slab_ok s" and "slab_remove k s = Some (v, s')"
  then obtain sl where sl: "key_index k < length (slab_slots s)" "slab_slots s ! key_index k = sl"
      "slot_entry sl = Some v"
    and s': "s' = s\<lparr>slab_slots := (slab_slots s)[key_index k := sl\<lparr>slot_entry := None\<rparr>],
       slab_free := key_index k # slab_free s, slab_count := slab_count s - 1\<rparr>"
    by (auto simp: slab_remove_def panic_simps)
  have nin: "key_index k \<notin> set (slab_free s)" using ok sl by (auto simp: slab_ok_def)
  have "card (insert (key_index k) (set (slab_free s))) \<le> card {..<length (slab_slots s)}"
    using ok sl by (intro card_mono) (auto simp: slab_ok_def)
  then have "length (slab_free s) < length (slab_slots s)"
    using ok nin by (simp add: slab_ok_def distinct_card)
  then show ?thesis using ok sl nin unfolding s'
    by (auto simp: slab_ok_def nth_list_update)
qed

lemma slab_remove_lookup:
  "slab_remove k s = Some (v, s') \<Longrightarrow>
   slab_lookup s k = Some v \<and> slab_lookup s' = (slab_lookup s)(k := None)"
  by (auto simp: slab_remove_def slab_lookup_def panic_simps nth_list_update fun_eq_iff split: if_splits)

lemma slab_remove_Some_iff:
  "(\<exists>s'. slab_remove k s = Some (v, s')) \<longleftrightarrow> slab_lookup s k = Some v"
  by (auto simp: slab_remove_def slab_lookup_def panic_simps
      split: if_splits)

lemma slab_modify_ok: "slab_ok s \<Longrightarrow> slab_modify k f s = Some s' \<Longrightarrow> slab_ok s'"
  by (auto simp: slab_modify_def slab_ok_def panic_simps nth_list_update split: if_splits)

lemma slab_modify_lookup:
  "slab_lookup s k = Some v \<Longrightarrow>
   \<exists>s'. slab_modify k f s = Some s' \<and> slab_lookup s' = (slab_lookup s)(k \<mapsto> f v)"
  by (auto simp: slab_modify_def slab_lookup_def Let_def nth_list_update fun_eq_iff
      split: if_splits)

lemma slab_dom:
  assumes "slab_ok s"
  shows "dom (slab_lookup s) = key_slot s ` ({..<length (slab_slots s)} - set (slab_free s))"
proof (intro equalityI subsetI)
  fix k assume "k \<in> dom (slab_lookup s)"
  then have "key_index k < length (slab_slots s)" "slot_gen (slab_slots s ! key_index k) = key_gen k"
      "slot_entry (slab_slots s ! key_index k) \<noteq> None"
    by (auto simp: slab_lookup_def Let_def split: if_splits)
  then have "k = key_slot s (key_index k)" "key_index k \<in> {..<length (slab_slots s)} - set (slab_free s)"
    using assms by (auto simp: key_slot_def slab_ok_def)
  then show "k \<in> key_slot s ` ({..<length (slab_slots s)} - set (slab_free s))" by (rule image_eqI)
qed (use assms in \<open>auto simp: key_slot_def slab_ok_def slab_lookup_def\<close>)

lemma slab_len_card:
  assumes "slab_ok s" shows "slab_len s = card (dom (slab_lookup s))" "finite (dom (slab_lookup s))"
proof -
  have "inj_on (key_slot s) A" for A by (rule inj_onI) (simp add: key_slot_def)
  moreover have "set (slab_free s) \<subseteq> {..<length (slab_slots s)}" "distinct (slab_free s)"
      "slab_count s + length (slab_free s) = length (slab_slots s)"
    using assms by (auto simp: slab_ok_def)
  ultimately show "slab_len s = card (dom (slab_lookup s))" "finite (dom (slab_lookup s))"
    unfolding slab_dom[OF assms] by (simp_all add: card_image card_Diff_subset distinct_card slab_len_def)
qed

lemma slab_key_at_lookup:
  assumes "slab_ok s" "slab_key_at s i = Some k" shows "slab_lookup s k \<noteq> None"
proof -
  have i: "i < length (slab_slots s)" "slot_entry (slab_slots s ! i) \<noteq> None"
    and k: "k = \<lparr>key_index = i mod 2 ^ 32, key_gen = slot_gen (slab_slots s ! i)\<rparr>"
    using assms(2) by (auto simp: slab_key_at_def panic_simps)
  then have "i mod 2 ^ 32 = i" using assms(1) by (simp add: slab_ok_def)
  then show ?thesis using i unfolding k by (simp add: slab_lookup_def)
qed

lemma slab_insert_slots:
  "slab_ok s \<Longrightarrow> slab_insert v s = Some (k, s') \<Longrightarrow> slab_slot_count s' \<le> max (slab_slot_count s) (slab_len s')"
  by (auto simp: slab_insert_def slab_slot_count_def slab_len_def slab_ok_def panic_simps split: list.splits)

lemma slab_remove_slots: "slab_remove k s = Some (v, s') \<Longrightarrow> slab_slot_count s' = slab_slot_count s"
  by (auto simp: slab_remove_def slab_slot_count_def panic_simps)

lemma slab_modify_slots: "slab_modify k f s = Some s' \<Longrightarrow> slab_slot_count s' = slab_slot_count s"
  by (auto simp: slab_modify_def slab_slot_count_def panic_simps)

section \<open>The store contract\<close>

locale keyed_store =
  fixes st_inv :: "'s \<Rightarrow> bool"
    and st_lookup :: "'s \<Rightarrow> key \<Rightarrow> 'v option"
    and st_insert :: "'v \<Rightarrow> 's \<Rightarrow> (key \<times> 's) option"
    and st_remove :: "key \<Rightarrow> 's \<Rightarrow> ('v \<times> 's) option"
    and st_modify :: "key \<Rightarrow> ('v \<Rightarrow> 'v) \<Rightarrow> 's \<Rightarrow> 's option"
  assumes insert_inv: "st_inv s \<Longrightarrow> st_insert v s = Some (k, s') \<Longrightarrow> st_inv s'"
    and insert_fresh: "st_inv s \<Longrightarrow> st_insert v s = Some (k, s') \<Longrightarrow> st_lookup s k = None"
    and insert_lookup: "st_inv s \<Longrightarrow> st_insert v s = Some (k, s') \<Longrightarrow>
      st_lookup s' = (st_lookup s)(k \<mapsto> v)"
    and remove_inv: "st_inv s \<Longrightarrow> st_remove k s = Some (v, s') \<Longrightarrow> st_inv s'"
    and remove_total: "st_lookup s k = Some v \<Longrightarrow> \<exists>s'. st_remove k s = Some (v, s')"
    and remove_lookup: "st_remove k s = Some (v, s') \<Longrightarrow>
      st_lookup s k = Some v \<and> st_lookup s' = (st_lookup s)(k := None)"
    and modify_inv: "st_inv s \<Longrightarrow> st_modify k f s = Some s' \<Longrightarrow> st_inv s'"
    and modify_lookup: "st_lookup s k = Some v \<Longrightarrow>
      \<exists>s'. st_modify k f s = Some s' \<and> st_lookup s' = (st_lookup s)(k \<mapsto> f v)"
begin

lemma insert_remove:
  assumes "st_inv s" "st_insert v s = Some (k, s')"
  shows "\<exists>s''. st_remove k s' = Some (v, s'') \<and> st_inv s'' \<and> st_lookup s'' = st_lookup s"
proof -
  have l: "st_lookup s' = (st_lookup s)(k \<mapsto> v)" and n: "st_lookup s k = None" and i: "st_inv s'"
    using assms insert_lookup insert_fresh insert_inv by blast+
  then obtain s'' where r: "st_remove k s' = Some (v, s'')" using remove_total[of s' k v] by auto
  then have "st_lookup s'' = st_lookup s" using remove_lookup[OF r] l n by auto
  then show ?thesis using r i remove_inv by blast
qed

lemma remove_twice:
  "st_remove k s = Some (v, s') \<Longrightarrow> st_remove k s' = None"
  using remove_lookup[of k s] remove_lookup[of k s'] by (cases "st_remove k s'") auto

lemma remove_keeps:
  "st_remove k s = Some (v, s') \<Longrightarrow> k' \<noteq> k \<Longrightarrow> st_lookup s' k' = st_lookup s k'"
  using remove_lookup[of k s v s'] by simp

lemma insert_keeps:
  "st_inv s \<Longrightarrow> st_insert v s = Some (k, s') \<Longrightarrow> st_lookup s k' = Some w \<Longrightarrow>
   k' \<noteq> k \<and> st_lookup s' k' = Some w"
  using insert_lookup[of s v k s'] insert_fresh[of s v k s'] by auto

end

interpretation sl: keyed_store slab_ok slab_lookup slab_insert slab_remove slab_modify
  by unfold_locales
    (rule slab_insert_ok slab_insert_fresh slab_insert_lookup slab_remove_ok slab_remove_lookup
      slab_modify_ok slab_modify_lookup slab_remove_Some_iff[THEN iffD2]; assumption)+

section \<open>Generations\<close>

text \<open>
  A sequence of inserts and removes on one slab, with the keys the inserts
  returned, newest first.  \<open>gen_trace\<close> relates the generation of every
  slot to the keys issued for it.
\<close>

datatype 'a slab_op = Op_Insert 'a | Op_Remove key

fun slab_run :: "'a slab_op list \<Rightarrow> key list \<Rightarrow> 'a slab \<Rightarrow> (key list \<times> 'a slab) option" where
  "slab_run [] ks s = Some (ks, s)"
| "slab_run (Op_Insert v # ops) ks s = do { (k, s') \<leftarrow> slab_insert v s; slab_run ops (k # ks) s' }"
| "slab_run (Op_Remove k # ops) ks s = do { (_, s') \<leftarrow> slab_remove k s; slab_run ops ks s' }"

definition gen_trace :: "'a slab \<Rightarrow> key list \<Rightarrow> nat list \<Rightarrow> bool" where
  "gen_trace s ks m \<longleftrightarrow> length m = length (slab_slots s) \<and>
     (\<forall>i<length m. slot_gen (slab_slots s ! i) = of_nat (m ! i)) \<and>
     length ks = sum_list (map Suc m) \<and>
     (\<forall>k\<in>set ks. key_index k < length m \<and> (\<exists>g\<le>m ! key_index k. key_gen k = of_nat g))"

lemma of_nat_u32_inj: "a < 2 ^ 32 \<Longrightarrow> b < 2 ^ 32 \<Longrightarrow> (of_nat a :: u32) = of_nat b \<Longrightarrow> a = b"
  by (drule arg_cong[where f = unat]) (simp add: unat_of_nat)

lemma gen_trace_insert:
  assumes tr: "gen_trace s ks m" and ins: "slab_insert v s = Some (k, s')"
    and len: "length ks < 2 ^ 32"
  shows "\<exists>m'. gen_trace s' (k # ks) m' \<and> k \<notin> set ks"
proof (cases "slab_free s")
  case Nil
  then show ?thesis using assms
    by (intro exI[of _ "m @ [0]"])
      (fastforce simp: gen_trace_def slab_insert_def panic_simps nth_append less_Suc_eq)
next
  case (Cons i fr)
  have i: "i < length m" and k: "k = \<lparr>key_index = i, key_gen = of_nat (Suc (m ! i))\<rparr>"
    and s': "slab_slots s' = (slab_slots s)[i := \<lparr>slot_gen = of_nat (Suc (m ! i)), slot_entry = Some v\<rparr>]"
    using tr ins Cons by (auto simp: gen_trace_def slab_insert_def panic_simps add.commute[of 1])
  have "Suc (m ! i) \<le> sum_list (map Suc m)"
    using i by (intro member_le_sum_list) auto
  then have small: "Suc (m ! i) < 2 ^ 32" using tr len by (simp add: gen_trace_def)
  have fresh: "k \<notin> set ks"
  proof
    assume "k \<in> set ks"
    then obtain g where "g \<le> m ! i" "key_gen k = of_nat g"
      using tr k unfolding gen_trace_def by (metis key.select_convs(1))
    then have "g \<le> m ! i" "of_nat (Suc (m ! i)) = (of_nat g :: u32)"
      by (simp_all add: k)
    then show False using of_nat_u32_inj[of "Suc (m ! i)" g] small by simp
  qed
  have "sum_list (map Suc (m[i := Suc (m ! i)])) = Suc (sum_list (map Suc m))"
    using i elem_le_sum_list[of i "map Suc m"] by (simp add: map_update sum_list_update)
  then have "gen_trace s' (k # ks) (m[i := Suc (m ! i)])"
    using tr i k s' by (auto simp: gen_trace_def nth_list_update le_Suc_eq)
  then show ?thesis using fresh by blast
qed

lemma gen_trace_remove:
  "gen_trace s ks m \<Longrightarrow> slab_remove k s = Some (v, s') \<Longrightarrow> gen_trace s' ks m"
  by (auto simp: gen_trace_def slab_remove_def panic_simps nth_list_update)

lemma slab_run_length: "slab_run ops ks s = Some (ks', s') \<Longrightarrow> length ks \<le> length ks'"
  by (induction ops ks s rule: slab_run.induct) (fastforce simp: panic_simps split: prod.splits)+

lemma slab_run_distinct:
  assumes "gen_trace s ks m" "distinct ks" "slab_run ops ks s = Some (ks', s')"
    "length ks' \<le> 2 ^ 32"
  shows "distinct ks'"
  using assms
proof (induction ops ks s arbitrary: m rule: slab_run.induct)
  case (2 v ops ks s)
  then obtain k s1 where ins: "slab_insert v s = Some (k, s1)"
    and run: "slab_run ops (k # ks) s1 = Some (ks', s')"
    by (auto simp: panic_simps)
  then have "length ks < 2 ^ 32" using slab_run_length[OF run] 2 by simp
  then show ?case using 2 gen_trace_insert[OF 2(2) ins] ins run by fastforce
next
  case (3 k ops ks s)
  then show ?case using gen_trace_remove by (fastforce simp: panic_simps)
qed simp

end
