(* ===== verification/Roc_Index.thy ===== *)
theory Roc_Index
  imports Nexus_Prelude
begin

text \<open>
  RFC 3711 packet index estimation, \<^verbatim>\<open>nexus-transport/src/srtp/index.rs\<close>
  and \<open>PacketIndex\<close> of \<^verbatim>\<open>types.rs\<close>.  \<open>roc_index\<close> is
  the 48-bit index the state stands at; the estimate is shown to recover every
  index closer than \<open>2^15\<close> to it, and the update to move to the larger
  of the two.
\<close>

section \<open>Definitions\<close>

datatype srtp_error =
    PacketTooShort | PacketTooLarge | InvalidRtpHeader | InvalidRtcpHeader
  | AuthenticationFailed | EncryptionFailed | DecryptionFailed | ReplayDetected
  | KeyDerivationFailed | InvalidKeyMaterial | NotInitialized | BufferTooSmall | InvalidSsrc
  | RocOverflow | SrtcpIndexOverflow | UnsupportedCipherSuite | InvalidProfile
  | SessionLimitReached | DuplicateSession | InvalidBufferLength | NonceGenerationFailed

definition packet_index :: "u32 \<Rightarrow> u16 \<Rightarrow> u64" where
  "packet_index roc sq = push_bit 16 (ucast roc) OR ucast sq"

definition packet_index_roc :: "u64 \<Rightarrow> u32" where
  "packet_index_roc i = ucast (drop_bit 16 i)"

definition packet_index_seq :: "u64 \<Rightarrow> u16" where
  "packet_index_seq i = ucast i"

record roc_state =
  rs_roc :: u32
  rs_highest_seq :: u16
  rs_initialized :: bool

definition roc_new :: roc_state where
  "roc_new = \<lparr>rs_roc = 0, rs_highest_seq = 0, rs_initialized = False\<rparr>"

definition estimate_index :: "roc_state \<Rightarrow> u16 \<Rightarrow> srtp_error + u64" where
  "estimate_index st sq =
     (if \<not> rs_initialized st then Inr (packet_index 0 sq)
      else let s_l = rs_highest_seq st; roc = rs_roc st in
        if s_l < 32768 then
          (if sq > s_l \<and> sq - s_l > 32768
           then Inr (packet_index (if roc = 0 then 0 else roc - 1) sq)
           else Inr (packet_index roc sq))
        else if s_l - 32768 > sq then
          (if roc = - 1 then Inl RocOverflow else Inr (packet_index (roc + 1) sq))
        else Inr (packet_index roc sq))"

definition roc_update :: "u16 \<Rightarrow> roc_state \<Rightarrow> srtp_error + roc_state" where
  "roc_update sq st =
     (if \<not> rs_initialized st then Inr (st\<lparr>rs_highest_seq := sq, rs_initialized := True\<rparr>)
      else let s_l = rs_highest_seq st in
        if s_l < 32768 then
          Inr (if sq - s_l \<le> 32768 \<and> sq > s_l then st\<lparr>rs_highest_seq := sq\<rparr> else st)
        else if s_l - 32768 > sq then
          (if rs_roc st = - 1 then Inl RocOverflow
           else Inr (st\<lparr>rs_roc := rs_roc st + 1, rs_highest_seq := sq\<rparr>))
        else Inr (if sq > s_l then st\<lparr>rs_highest_seq := sq\<rparr> else st))"

section \<open>The 48-bit index\<close>

definition roc_index :: "roc_state \<Rightarrow> nat" where
  "roc_index st = unat (rs_roc st) * 65536 + unat (rs_highest_seq st)"

lemma packet_index_cat: "packet_index r s = word_cat r s"
  by (simp add: packet_index_def word_cat_eq_push_bit_or)

lemma packet_index_parts [simp]:
  "packet_index_roc (packet_index r s) = r" "packet_index_seq (packet_index r s) = s"
  unfolding packet_index_roc_def packet_index_seq_def packet_index_cat
  by (auto simp: bit_simps intro!: bit_word_eqI)

lemma packet_index_inj: "packet_index r s = packet_index r' s' \<Longrightarrow> r = r' \<and> s = s'"
  by (metis packet_index_parts)

lemma unat_packet_index: "unat (packet_index r s) = unat r * 65536 + unat s"
proof -
  have "packet_index r s = of_nat (unat r * 65536 + unat s)"
    by (simp add: packet_index_cat word_cat_eq push_bit_eq_mult)
  then have "unat (packet_index r s) = (unat r * 65536 + unat s) mod 2 ^ 64"
    by (simp only: unat_of_nat) simp
  then show ?thesis using u32_lt_4294967296[of r] u16_lt_65536[of s] by simp
qed

lemma packet_index_lt: "unat (packet_index r s) < 2 ^ 48"
proof -
  have "(2 :: nat) ^ 48 = 281474976710656" by simp
  then show ?thesis
    using u32_lt_4294967296[of r] u16_lt_65536[of s] unfolding unat_packet_index by linarith
qed

lemma seq_of_index: "unat (of_nat i :: u16) = i mod 65536"
  by (simp add: unat_of_nat)

lemma packet_index_eqI:
  "unat r = i div 65536 \<Longrightarrow> i < 2 ^ 48 \<Longrightarrow> packet_index r (of_nat i) = of_nat i"
  by (subst word_unat_eq_iff) (simp add: unat_packet_index unat_of_nat)

lemmas roc_arith = word_less_nat_alt word_le_nat_alt unat_sub_if' unat_word_ariths

lemma estimate_near:
  assumes "rs_initialized st" "i < 2 ^ 48"
    "roc_index st < i + 32768" "i < roc_index st + 32768"
  shows "estimate_index st (of_nat i) = Inr (of_nat i)"
proof -
  let ?r = "unat (rs_roc st)" and ?s = "unat (rs_highest_seq st)"
  define q m where "q = i div 65536" and "m = i mod 65536"
  have i: "i = q * 65536 + m" "m < 65536" by (simp_all add: q_def m_def)
  have b: "?s < 65536" "?r < 2 ^ 32" using unsigned_less[of "rs_roc st"] by simp_all
  have sq: "unat (of_nat i :: u16) = m" by (simp add: seq_of_index m_def)
  have near: "?r * 65536 + ?s < q * 65536 + m + 32768" "q * 65536 + m < ?r * 65536 + ?s + 32768"
    using assms(3,4) i by (simp_all add: roc_index_def)
  have q: "q < 2 ^ 32" using assms(2) by (simp add: q_def less_mult_imp_div_less)
  have res: "unat r = q \<Longrightarrow> packet_index r (of_nat i) = of_nat i" for r
    using assms(2) by (intro packet_index_eqI) (simp_all add: q_def)
  show ?thesis
  proof (cases "?s < 32768")
    case True
    have "\<lbrakk>r * 65536 + s < q * 65536 + m + 32768; q * 65536 + m < r * 65536 + s + 32768; s < 32768;
        m < 65536\<rbrakk> \<Longrightarrow> if m > s \<and> m - s > 32768 then r = q + 1 else r = q" for r s :: nat
      by (split if_split, intro conjI impI; linarith)
    from this[OF near] True i have "if m > ?s \<and> m - ?s > 32768 then ?r = q + 1 else ?r = q" by blast
    then show ?thesis using assms(1) True sq b
      by (auto simp: estimate_index_def Let_def roc_arith intro!: res split: if_splits)
  next
    case False
    have "\<lbrakk>r * 65536 + s < q * 65536 + m + 32768; q * 65536 + m < r * 65536 + s + 32768; s < 65536;
        \<not> s < 32768; m < 65536\<rbrakk> \<Longrightarrow> if m < s - 32768 then q = r + 1 else r = q" for r s :: nat
      by (split if_split, intro conjI impI; linarith)
    from this[OF near] False i b have "if m < ?s - 32768 then q = ?r + 1 else ?r = q" by blast
    moreover have "rs_roc st = - 1 \<Longrightarrow> ?r = 2 ^ 32 - 1" by (simp add: unsigned_minus_1_eq_mask mask_eq_exp_minus_1)
    ultimately show ?thesis using assms(1) False sq b q
      by (auto simp: estimate_index_def Let_def roc_arith intro!: res split: if_splits)
  qed
qed

lemma update_near:
  assumes "rs_initialized st" "i < 2 ^ 48"
    "roc_index st < i + 32768" "i < roc_index st + 32768"
  shows "\<exists>st'. roc_update (of_nat i) st = Inr st' \<and> rs_initialized st' \<and>
    roc_index st' = max i (roc_index st)"
proof -
  let ?r = "unat (rs_roc st)" and ?s = "unat (rs_highest_seq st)"
  define q m where "q = i div 65536" and "m = i mod 65536"
  have i: "i = q * 65536 + m" "m < 65536" by (simp_all add: q_def m_def)
  have b: "?s < 65536" "?r < 2 ^ 32" using unsigned_less[of "rs_roc st"] by simp_all
  have sq: "unat (of_nat i :: u16) = m" by (simp add: seq_of_index m_def)
  have q: "q < 2 ^ 32" using assms(2) by (simp add: q_def less_mult_imp_div_less)
  have near: "?r * 65536 + ?s < q * 65536 + m + 32768" "q * 65536 + m < ?r * 65536 + ?s + 32768"
    using assms(3,4) i by (simp_all add: roc_index_def)
  have inc: "rs_roc st \<noteq> - 1 \<Longrightarrow> unat (rs_roc st + 1) = ?r + 1"
    by (metis Suc_eq_plus1 add.commute unatSuc add_eq_0_iff2)
  show ?thesis
  proof (cases "?s < 32768")
    case True
    have "\<lbrakk>r * 65536 + s < q * 65536 + m + 32768; q * 65536 + m < r * 65536 + s + 32768; s < 32768;
        m < 65536\<rbrakk> \<Longrightarrow> (m > s \<longrightarrow> m - s \<le> 32768 \<longrightarrow> r = q) \<and> (m \<le> s \<longrightarrow> q * 65536 + m \<le> r * 65536 + s) \<and>
        (m - s > 32768 \<longrightarrow> q * 65536 + m \<le> r * 65536 + s)" for r s :: nat
      by (cases q r rule: linorder_cases; intro conjI impI; linarith)
    from this[OF near] True i have "(m > ?s \<longrightarrow> m - ?s \<le> 32768 \<longrightarrow> ?r = q) \<and> (m \<le> ?s \<longrightarrow> i \<le> ?r * 65536 + ?s) \<and>
        (m - ?s > 32768 \<longrightarrow> i \<le> ?r * 65536 + ?s)" by blast
    then show ?thesis using assms(1) True sq b i
      by (auto simp: roc_update_def Let_def roc_arith roc_index_def max_def split: if_splits)
  next
    case False
    have "\<lbrakk>r * 65536 + s < q * 65536 + m + 32768; q * 65536 + m < r * 65536 + s + 32768; s < 65536;
        \<not> s < 32768; m < 65536\<rbrakk> \<Longrightarrow> (m < s - 32768 \<longrightarrow> q = r + 1) \<and> (\<not> m < s - 32768 \<longrightarrow> r = q)"
      for r s :: nat by (intro conjI impI; linarith)
    from this[OF near] False i b have c: "(m < ?s - 32768 \<longrightarrow> q = ?r + 1) \<and> (\<not> m < ?s - 32768 \<longrightarrow> ?r = q)"
      by blast
    have top: "rs_roc st = - 1 \<Longrightarrow> ?r = 2 ^ 32 - 1" by (simp add: unsigned_minus_1_eq_mask mask_eq_exp_minus_1)
    have w: "\<not> rs_highest_seq st < 32768" "of_nat i < rs_highest_seq st - 32768 \<longleftrightarrow> m < ?s - 32768"
      "rs_highest_seq st < of_nat i \<longleftrightarrow> ?s < m"
      using False sq by (simp_all add: word_less_nat_alt unat_sub_if')
    show ?thesis
    proof (cases "m < ?s - 32768")
      case True
      then have "rs_roc st \<noteq> - 1" using top q c by auto
      moreover have "\<not> 65536 + m \<le> ?s" using b by linarith
      ultimately show ?thesis using True w c inc sq i assms(1)
        by (simp add: roc_update_def Let_def roc_index_def max_def)
    next
      case False
      then show ?thesis using w c sq i assms(1)
        by (simp add: roc_update_def Let_def roc_index_def max_def)
    qed
  qed
qed

lemma first_packet_index:
  "\<not> rs_initialized st \<Longrightarrow> estimate_index st sq = Inr (packet_index 0 sq)"
  by (simp add: estimate_index_def)

lemma estimate_seq: "estimate_index st sq = Inr i \<Longrightarrow> packet_index_seq i = sq"
  by (auto simp: estimate_index_def Let_def split: if_splits)

lemma estimate_lt: "estimate_index st sq = Inr i \<Longrightarrow> unat i < 2 ^ 48"
  using packet_index_lt by (fastforce simp: estimate_index_def Let_def split: if_splits)

text \<open>The comment of the callers: an estimate that succeeds makes the update succeed.\<close>

lemma estimate_then_update:
  "estimate_index st sq = Inr i \<Longrightarrow> \<exists>st'. roc_update sq st = Inr st'"
  by (auto simp: estimate_index_def roc_update_def Let_def split: if_splits)

section \<open>Tracking a stream\<close>

text \<open>
  A receiver that authenticates the packets of one SSRC.  The sender numbers
  them with their true 48-bit index and only the low 16 bits are on the wire.
\<close>

fun roc_feed :: "u16 list \<Rightarrow> roc_state \<Rightarrow> srtp_error + u64 list" where
  "roc_feed [] st = Inr []"
| "roc_feed (sq # sqs) st = (case estimate_index st sq of
     Inl e \<Rightarrow> Inl e
   | Inr i \<Rightarrow> (case roc_update sq st of
       Inl e \<Rightarrow> Inl e
     | Inr st' \<Rightarrow> (case roc_feed sqs st' of Inl e \<Rightarrow> Inl e | Inr is \<Rightarrow> Inr (i # is))))"

text \<open>Every index is closer than \<open>2^15\<close> to the largest one before it.\<close>

fun near_stream :: "nat \<Rightarrow> nat list \<Rightarrow> bool" where
  "near_stream hi [] \<longleftrightarrow> True"
| "near_stream hi (i # is) \<longleftrightarrow> i < 2 ^ 48 \<and> hi < i + 32768 \<and> i < hi + 32768 \<and> near_stream (max i hi) is"

lemma roc_feed_near:
  "rs_initialized st \<Longrightarrow> near_stream (roc_index st) is \<Longrightarrow>
   roc_feed (map of_nat is) st = Inr (map of_nat is)"
proof (induction "is" arbitrary: st)
  case (Cons i "is")
  then obtain st' where "roc_update (of_nat i) st = Inr st'" "rs_initialized st'"
    "roc_index st' = max i (roc_index st)" using update_near[of st i] by auto
  then show ?case using Cons estimate_near[of st i] by simp
qed simp

end
