(* ===== verification/Srtp_Crypto.thy ===== *)
theory Srtp_Crypto
  imports Roc_Index
begin

text \<open>
  SRTP packet transforms, \<^verbatim>\<open>nexus-transport/src/srtp/crypto.rs\<close>, with the
  header parser of \<^verbatim>\<open>types.rs\<close>: AES-GCM (RFC 7714) and AES-CM with
  HMAC-SHA1 (RFC 3711), for RTP and RTCP.

  The block ciphers, GCM and HMAC come from third-party crates and are
  parameters, the fields of the record \<open>prims\<close>.  \<open>prims_ok\<close> states what
  their documentation promises: lengths, decryption inverts encryption, the
  key stream is an involution.  A packet is the whole buffer slice the Rust
  code mutates plus a length; on success the transform returns the new buffer
  and length.  After a failed decryption the buffer contents are unspecified
  in the source, and no caller reads them: the error carries no buffer.
\<close>

section \<open>Constants, primitives and headers\<close>

definition RTP_HEADER_SIZE :: nat where "RTP_HEADER_SIZE = 12"
definition RTCP_HEADER_SIZE :: nat where "RTCP_HEADER_SIZE = 8"
definition SRTP_AUTH_TAG_SIZE :: nat where "SRTP_AUTH_TAG_SIZE = 16"
definition MAX_PACKET_SIZE :: nat where "MAX_PACKET_SIZE = 8192"
definition SRTCP_INDEX_MASK :: u32 where "SRTCP_INDEX_MASK = 0x7FFFFFFF"
definition SRTCP_E_FLAG :: u32 where "SRTCP_E_FLAG = 0x80000000"

lemmas srtp_consts = RTP_HEADER_SIZE_def RTCP_HEADER_SIZE_def SRTP_AUTH_TAG_SIZE_def
  MAX_PACKET_SIZE_def SRTCP_INDEX_MASK_def SRTCP_E_FLAG_def

lemmas srtp_sizes = RTP_HEADER_SIZE_def RTCP_HEADER_SIZE_def SRTP_AUTH_TAG_SIZE_def MAX_PACKET_SIZE_def

record prims =
  pr_gcm_seal :: "bytes \<Rightarrow> bytes \<Rightarrow> bytes \<Rightarrow> bytes \<Rightarrow> (bytes \<times> bytes) option"
  pr_gcm_open :: "bytes \<Rightarrow> bytes \<Rightarrow> bytes \<Rightarrow> bytes \<Rightarrow> bytes option"
  pr_aes_ctr :: "bytes \<Rightarrow> bytes \<Rightarrow> bytes \<Rightarrow> bytes"
  pr_aes_block :: "bytes \<Rightarrow> bytes \<Rightarrow> bytes"
  pr_hmac_sha1 :: "bytes \<Rightarrow> bytes \<Rightarrow> bytes"

definition prims_ok :: "prims \<Rightarrow> bool" where
  "prims_ok P \<longleftrightarrow>
     (\<forall>k n a d c t. pr_gcm_seal P k n a d = Some (c, t) \<longrightarrow>
        length c = length d \<and> length t = 16 \<and> pr_gcm_open P k n a (c @ t) = Some d) \<and>
     (\<forall>k n a d p. pr_gcm_open P k n a d = Some p \<longrightarrow> length p + 16 = length d) \<and>
     (\<forall>k iv d. length (pr_aes_ctr P k iv d) = length d \<and> pr_aes_ctr P k iv (pr_aes_ctr P k iv d) = d) \<and>
     (\<forall>k b. length b = 16 \<longrightarrow> length (pr_aes_block P k b) = 16) \<and>
     (\<forall>k d. length (pr_hmac_sha1 P k d) = 20)"

record srtp_rtp_header =
  xh_version :: u8
  xh_padding :: bool
  xh_extension :: bool
  xh_csrc_count :: u8
  xh_marker :: bool
  xh_payload_type :: u8
  xh_sequence_number :: u16
  xh_timestamp :: u32
  xh_ssrc :: u32
  xh_header_len :: nat

text \<open>The header length with its extension; \<open>Some None\<close> is the early return.\<close>

definition srtp_ext_len :: "bytes \<Rightarrow> bool \<Rightarrow> nat \<Rightarrow> nat option option" where
  "srtp_ext_len d ext hl =
     (if ext then
        (if length d < hl + 4 then Some None
         else do { e \<leftarrow> u16_at d (hl + 2); Some (Some (hl + (4 + unat e * 4))) })
      else Some (Some hl))"

definition srtp_header_parse :: "bytes \<Rightarrow> srtp_rtp_header option option" where
  "srtp_header_parse d =
     (if length d < RTP_HEADER_SIZE then Some None
      else do {
        first \<leftarrow> idx d 0;
        if drop_bit 6 first AND 3 \<noteq> 2 then Some None
        else do {
          second \<leftarrow> idx d 1;
          sq \<leftarrow> u16_at d 2;
          ts \<leftarrow> u32_at d 4;
          ssrc \<leftarrow> u32_at d 8;
          let cc = first AND 0x0F;
          hl \<leftarrow> srtp_ext_len d (first AND 0x10 \<noteq> 0) (RTP_HEADER_SIZE + unat cc * 4);
          Some (case hl of None \<Rightarrow> None
            | Some hl \<Rightarrow> if length d < hl then None
                else Some \<lparr>xh_version = drop_bit 6 first AND 3, xh_padding = (first AND 0x20 \<noteq> 0),
                  xh_extension = (first AND 0x10 \<noteq> 0), xh_csrc_count = cc,
                  xh_marker = (second AND 0x80 \<noteq> 0), xh_payload_type = second AND 0x7F,
                  xh_sequence_number = sq, xh_timestamp = ts, xh_ssrc = ssrc,
                  xh_header_len = hl\<rparr>) } })"

section \<open>AES-GCM\<close>

record gcm_cipher =
  gc_rtp_key :: bytes
  gc_rtp_salt :: bytes
  gc_rtcp_key :: bytes
  gc_rtcp_salt :: bytes

text \<open>\<open>v[i + j] ^= bs[j]\<close> for every byte of \<open>bs\<close>.\<close>

definition xor_at :: "nat \<Rightarrow> bytes \<Rightarrow> bytes \<Rightarrow> bytes" where
  "xor_at i bs v = take i v @ map2 (XOR) (take (length bs) (drop i v)) bs @ drop (i + length bs) v"

definition index48_bytes :: "u64 \<Rightarrow> bytes" where
  "index48_bytes i = [ucast (drop_bit 40 i), ucast (drop_bit 32 i), ucast (drop_bit 24 i),
     ucast (drop_bit 16 i), ucast (drop_bit 8 i), ucast i]"

definition build_rtp_nonce :: "bytes \<Rightarrow> u32 \<Rightarrow> u64 \<Rightarrow> bytes" where
  "build_rtp_nonce salt ssrc i = xor_at 6 (index48_bytes i) (xor_at 2 (to_be32 ssrc) salt)"

definition build_rtcp_nonce :: "bytes \<Rightarrow> u32 \<Rightarrow> u32 \<Rightarrow> bytes" where
  "build_rtcp_nonce salt ssrc i = xor_at 8 (to_be32 i) (xor_at 2 (to_be32 ssrc) salt)"

definition gcm_seal :: "prims \<Rightarrow> bytes \<Rightarrow> bytes \<Rightarrow> bytes \<Rightarrow> bytes \<Rightarrow> srtp_error + (bytes \<times> bytes)" where
  "gcm_seal P k n a d = (case pr_gcm_seal P k n a d of
     None \<Rightarrow> Inl EncryptionFailed | Some r \<Rightarrow> Inr r)"

definition gcm_open :: "prims \<Rightarrow> bytes \<Rightarrow> bytes \<Rightarrow> bytes \<Rightarrow> bytes \<Rightarrow> srtp_error + bytes" where
  "gcm_open P k n a d =
     (if length d < SRTP_AUTH_TAG_SIZE then Inl PacketTooShort
      else case pr_gcm_open P k n a d of None \<Rightarrow> Inl AuthenticationFailed | Some p \<Rightarrow> Inr p)"

definition encrypt_rtp_payload ::
  "prims \<Rightarrow> gcm_cipher \<Rightarrow> bytes \<Rightarrow> nat \<Rightarrow> srtp_rtp_header \<Rightarrow> u64 \<Rightarrow> (srtp_error + (bytes \<times> nat)) option" where
  "encrypt_rtp_payload P c pkt n h i = do {
     rassert (xh_header_len h \<le> n);
     rassert (length pkt \<ge> n + SRTP_AUTH_TAG_SIZE);
     head \<leftarrow> sub_slice pkt 0 (xh_header_len h);
     payload \<leftarrow> sub_slice pkt (xh_header_len h) n;
     case gcm_seal P (gc_rtp_key c) (build_rtp_nonce (gc_rtp_salt c) (xh_ssrc h) i) head payload of
       Inl e \<Rightarrow> Some (Inl e)
     | Inr (ct, tag) \<Rightarrow> do {
         p1 \<leftarrow> copy_into pkt (xh_header_len h) ct;
         p2 \<leftarrow> copy_into p1 n tag;
         Some (Inr (p2, n + SRTP_AUTH_TAG_SIZE)) } }"

definition gcm_protect_rtp ::
  "prims \<Rightarrow> gcm_cipher \<Rightarrow> bytes \<Rightarrow> nat \<Rightarrow> u64 \<Rightarrow> (srtp_error + (bytes \<times> nat)) option" where
  "gcm_protect_rtp P c pkt n i = do {
     rassert (length pkt \<ge> n);
     if n < RTP_HEADER_SIZE then Some (Inl PacketTooShort)
     else if n > MAX_PACKET_SIZE then Some (Inl PacketTooLarge)
     else do {
       d \<leftarrow> sub_slice pkt 0 n;
       h \<leftarrow> srtp_header_parse d;
       case h of None \<Rightarrow> Some (Inl InvalidRtpHeader)
       | Some h \<Rightarrow>
           if length pkt < n + SRTP_AUTH_TAG_SIZE then Some (Inl BufferTooSmall)
           else encrypt_rtp_payload P c pkt n h i } }"

definition decrypt_rtp_payload ::
  "prims \<Rightarrow> gcm_cipher \<Rightarrow> bytes \<Rightarrow> nat \<Rightarrow> srtp_rtp_header \<Rightarrow> u64 \<Rightarrow> (srtp_error + (bytes \<times> nat)) option" where
  "decrypt_rtp_payload P c pkt n h i = do {
     rassert (xh_header_len h \<le> n);
     rassert (n \<ge> xh_header_len h + SRTP_AUTH_TAG_SIZE);
     head \<leftarrow> sub_slice pkt 0 (xh_header_len h);
     rest \<leftarrow> sub_slice pkt (xh_header_len h) n;
     case gcm_open P (gc_rtp_key c) (build_rtp_nonce (gc_rtp_salt c) (xh_ssrc h) i) head rest of
       Inl e \<Rightarrow> Some (Inl e)
     | Inr plain \<Rightarrow> do {
         p1 \<leftarrow> copy_into pkt (xh_header_len h) plain;
         Some (Inr (p1, xh_header_len h + length plain)) } }"

definition gcm_unprotect_rtp ::
  "prims \<Rightarrow> gcm_cipher \<Rightarrow> bytes \<Rightarrow> nat \<Rightarrow> u64 \<Rightarrow> (srtp_error + (bytes \<times> nat)) option" where
  "gcm_unprotect_rtp P c pkt n i = do {
     rassert (length pkt \<ge> n);
     if n < RTP_HEADER_SIZE + SRTP_AUTH_TAG_SIZE then Some (Inl PacketTooShort)
     else if n > MAX_PACKET_SIZE then Some (Inl PacketTooLarge)
     else do {
       d \<leftarrow> sub_slice pkt 0 n;
       h \<leftarrow> srtp_header_parse d;
       case h of None \<Rightarrow> Some (Inl InvalidRtpHeader)
       | Some h \<Rightarrow>
           if n < xh_header_len h + SRTP_AUTH_TAG_SIZE then Some (Inl PacketTooShort)
           else decrypt_rtp_payload P c pkt n h i } }"

definition gcm_protect_rtcp ::
  "prims \<Rightarrow> gcm_cipher \<Rightarrow> bytes \<Rightarrow> nat \<Rightarrow> u32 \<Rightarrow> (srtp_error + (bytes \<times> nat)) option" where
  "gcm_protect_rtcp P c pkt n i = do {
     rassert (length pkt \<ge> n);
     rassert (i \<le> SRTCP_INDEX_MASK);
     if n < RTCP_HEADER_SIZE then Some (Inl PacketTooShort)
     else if n > MAX_PACKET_SIZE then Some (Inl PacketTooLarge)
     else if length pkt < n + 4 + SRTP_AUTH_TAG_SIZE then Some (Inl BufferTooSmall)
     else do {
       ssrc \<leftarrow> u32_at pkt 4;
       let e_index = i OR SRTCP_E_FLAG;
       head \<leftarrow> sub_slice pkt 0 RTCP_HEADER_SIZE;
       payload \<leftarrow> sub_slice pkt RTCP_HEADER_SIZE n;
       case gcm_seal P (gc_rtcp_key c) (build_rtcp_nonce (gc_rtcp_salt c) ssrc i)
           (head @ to_be32 e_index) payload of
         Inl e \<Rightarrow> Some (Inl e)
       | Inr (ct, tag) \<Rightarrow> do {
           p1 \<leftarrow> copy_into pkt RTCP_HEADER_SIZE ct;
           p2 \<leftarrow> copy_into p1 n tag;
           p3 \<leftarrow> copy_into p2 (n + SRTP_AUTH_TAG_SIZE) (to_be32 e_index);
           Some (Inr (p3, n + SRTP_AUTH_TAG_SIZE + 4)) } } }"

definition gcm_unprotect_rtcp ::
  "prims \<Rightarrow> gcm_cipher \<Rightarrow> bytes \<Rightarrow> nat \<Rightarrow> (srtp_error + (bytes \<times> nat \<times> u32)) option" where
  "gcm_unprotect_rtcp P c pkt n = do {
     rassert (length pkt \<ge> n);
     if n < RTCP_HEADER_SIZE + 4 + SRTP_AUTH_TAG_SIZE then Some (Inl PacketTooShort)
     else if n > MAX_PACKET_SIZE then Some (Inl PacketTooLarge)
     else do {
       e_index \<leftarrow> u32_at pkt (n - 4);
       let i = e_index AND SRTCP_INDEX_MASK;
       ssrc \<leftarrow> u32_at pkt 4;
       head \<leftarrow> sub_slice pkt 0 RTCP_HEADER_SIZE;
       tail \<leftarrow> sub_slice pkt (n - 4) n;
       body \<leftarrow> sub_slice pkt RTCP_HEADER_SIZE (n - 4);
       case gcm_open P (gc_rtcp_key c) (build_rtcp_nonce (gc_rtcp_salt c) ssrc i) (head @ tail) body of
         Inl e \<Rightarrow> Some (Inl e)
       | Inr plain \<Rightarrow> do {
           rassert (RTCP_HEADER_SIZE + length plain = n - 4 - SRTP_AUTH_TAG_SIZE);
           p1 \<leftarrow> copy_into pkt RTCP_HEADER_SIZE plain;
           Some (Inr (p1, RTCP_HEADER_SIZE + length plain, i)) } } }"

section \<open>AES-CM with HMAC-SHA1\<close>

record cm_cipher =
  cm_rtp_key :: bytes
  cm_rtp_salt :: bytes
  cm_rtp_auth :: bytes
  cm_rtcp_key :: bytes
  cm_rtcp_salt :: bytes
  cm_rtcp_auth :: bytes
  cm_tag_len :: nat

definition build_rtp_iv :: "bytes \<Rightarrow> u32 \<Rightarrow> u64 \<Rightarrow> bytes" where
  "build_rtp_iv salt ssrc i = xor_at 8 (index48_bytes i) (xor_at 4 (to_be32 ssrc) (salt @ [0, 0]))"

definition build_rtcp_iv :: "bytes \<Rightarrow> u32 \<Rightarrow> u32 \<Rightarrow> bytes" where
  "build_rtcp_iv salt ssrc i = xor_at 10 (to_be32 i) (xor_at 4 (to_be32 ssrc) (salt @ [0, 0]))"

definition compute_auth_tag :: "prims \<Rightarrow> bytes \<Rightarrow> bytes \<Rightarrow> u32 \<Rightarrow> nat \<Rightarrow> bytes option" where
  "compute_auth_tag P k d roc tag_len = do {
     rassert (tag_len \<le> 20);
     Some (pr_hmac_sha1 P k (d @ to_be32 roc)) }"

definition constant_time_eq :: "bytes \<Rightarrow> bytes \<Rightarrow> bool option" where
  "constant_time_eq a b = do {
     rassert (length a = length b);
     Some (foldl (\<lambda>diff (x, y). diff OR (x XOR y)) 0 (zip a b) = 0) }"

definition cm_protect_rtp ::
  "prims \<Rightarrow> cm_cipher \<Rightarrow> bytes \<Rightarrow> nat \<Rightarrow> u64 \<Rightarrow> (srtp_error + (bytes \<times> nat)) option" where
  "cm_protect_rtp P c pkt n i = do {
     rassert (length pkt \<ge> n);
     if n < RTP_HEADER_SIZE then Some (Inl PacketTooShort)
     else if n > MAX_PACKET_SIZE then Some (Inl PacketTooLarge)
     else do {
       d \<leftarrow> sub_slice pkt 0 n;
       h \<leftarrow> srtp_header_parse d;
       case h of None \<Rightarrow> Some (Inl InvalidRtpHeader)
       | Some h \<Rightarrow>
           if length pkt < n + cm_tag_len c then Some (Inl BufferTooSmall)
           else do {
             payload \<leftarrow> sub_slice pkt (xh_header_len h) n;
             p1 \<leftarrow> copy_into pkt (xh_header_len h)
               (pr_aes_ctr P (cm_rtp_key c) (build_rtp_iv (cm_rtp_salt c) (xh_ssrc h) i) payload);
             covered \<leftarrow> sub_slice p1 0 n;
             tag \<leftarrow> compute_auth_tag P (cm_rtp_auth c) covered (packet_index_roc i) (cm_tag_len c);
             short \<leftarrow> sub_slice tag 0 (cm_tag_len c);
             p2 \<leftarrow> copy_into p1 n short;
             Some (Inr (p2, n + cm_tag_len c)) } } }"

definition cm_unprotect_rtp ::
  "prims \<Rightarrow> cm_cipher \<Rightarrow> bytes \<Rightarrow> nat \<Rightarrow> u64 \<Rightarrow> (srtp_error + (bytes \<times> nat)) option" where
  "cm_unprotect_rtp P c pkt n i = do {
     rassert (length pkt \<ge> n);
     if n < RTP_HEADER_SIZE + cm_tag_len c then Some (Inl PacketTooShort)
     else if n > MAX_PACKET_SIZE then Some (Inl PacketTooLarge)
     else do {
       d \<leftarrow> sub_slice pkt 0 n;
       h \<leftarrow> srtp_header_parse d;
       case h of None \<Rightarrow> Some (Inl InvalidRtpHeader)
       | Some h \<Rightarrow>
           if n < xh_header_len h + cm_tag_len c then Some (Inl PacketTooShort)
           else do {
             let ce = n - cm_tag_len c;
             covered \<leftarrow> sub_slice pkt 0 ce;
             tag \<leftarrow> compute_auth_tag P (cm_rtp_auth c) covered (packet_index_roc i) (cm_tag_len c);
             short \<leftarrow> sub_slice tag 0 (cm_tag_len c);
             received \<leftarrow> sub_slice pkt ce n;
             same \<leftarrow> constant_time_eq short received;
             if \<not> same then Some (Inl AuthenticationFailed)
             else do {
               body \<leftarrow> sub_slice pkt (xh_header_len h) ce;
               p1 \<leftarrow> copy_into pkt (xh_header_len h)
                 (pr_aes_ctr P (cm_rtp_key c) (build_rtp_iv (cm_rtp_salt c) (xh_ssrc h) i) body);
               Some (Inr (p1, ce)) } } } }"

definition cm_protect_rtcp ::
  "prims \<Rightarrow> cm_cipher \<Rightarrow> bytes \<Rightarrow> nat \<Rightarrow> u32 \<Rightarrow> (srtp_error + (bytes \<times> nat)) option" where
  "cm_protect_rtcp P c pkt n i = do {
     rassert (length pkt \<ge> n);
     rassert (i \<le> SRTCP_INDEX_MASK);
     if n < RTCP_HEADER_SIZE then Some (Inl PacketTooShort)
     else if n > MAX_PACKET_SIZE then Some (Inl PacketTooLarge)
     else if length pkt < n + 4 + cm_tag_len c then Some (Inl BufferTooSmall)
     else do {
       ssrc \<leftarrow> u32_at pkt 4;
       payload \<leftarrow> sub_slice pkt RTCP_HEADER_SIZE n;
       p1 \<leftarrow> copy_into pkt RTCP_HEADER_SIZE
         (pr_aes_ctr P (cm_rtcp_key c) (build_rtcp_iv (cm_rtcp_salt c) ssrc i) payload);
       p2 \<leftarrow> copy_into p1 n (to_be32 (i OR SRTCP_E_FLAG));
       covered \<leftarrow> sub_slice p2 0 (n + 4);
       short \<leftarrow> sub_slice (pr_hmac_sha1 P (cm_rtcp_auth c) covered) 0 (cm_tag_len c);
       p3 \<leftarrow> copy_into p2 (n + 4) short;
       Some (Inr (p3, n + 4 + cm_tag_len c)) } }"

definition cm_unprotect_rtcp ::
  "prims \<Rightarrow> cm_cipher \<Rightarrow> bytes \<Rightarrow> nat \<Rightarrow> (srtp_error + (bytes \<times> nat \<times> u32)) option" where
  "cm_unprotect_rtcp P c pkt n = do {
     rassert (length pkt \<ge> n);
     if n < RTCP_HEADER_SIZE + 4 + cm_tag_len c then Some (Inl PacketTooShort)
     else if n > MAX_PACKET_SIZE then Some (Inl PacketTooLarge)
     else do {
       let tag_offset = n - cm_tag_len c;
       let index_offset = tag_offset - 4;
       covered \<leftarrow> sub_slice pkt 0 tag_offset;
       short \<leftarrow> sub_slice (pr_hmac_sha1 P (cm_rtcp_auth c) covered) 0 (cm_tag_len c);
       received \<leftarrow> sub_slice pkt tag_offset n;
       same \<leftarrow> constant_time_eq short received;
       if \<not> same then Some (Inl AuthenticationFailed)
       else do {
         e_index \<leftarrow> u32_at pkt index_offset;
         let i = e_index AND SRTCP_INDEX_MASK;
         if e_index AND SRTCP_E_FLAG = 0 then Some (Inr (pkt, index_offset, i))
         else do {
           ssrc \<leftarrow> u32_at pkt 4;
           body \<leftarrow> sub_slice pkt RTCP_HEADER_SIZE index_offset;
           p1 \<leftarrow> copy_into pkt RTCP_HEADER_SIZE
             (pr_aes_ctr P (cm_rtcp_key c) (build_rtcp_iv (cm_rtcp_salt c) ssrc i) body);
           Some (Inr (p1, index_offset, i)) } } } }"

section \<open>The unified cipher\<close>

datatype srtp_cipher = AesGcm gcm_cipher | AesCmHmac cm_cipher

fun cipher_tag_len :: "srtp_cipher \<Rightarrow> nat" where
  "cipher_tag_len (AesGcm _) = SRTP_AUTH_TAG_SIZE"
| "cipher_tag_len (AesCmHmac c) = cm_tag_len c"

fun cipher_protect_rtp ::
  "prims \<Rightarrow> srtp_cipher \<Rightarrow> bytes \<Rightarrow> nat \<Rightarrow> u64 \<Rightarrow> (srtp_error + (bytes \<times> nat)) option" where
  "cipher_protect_rtp P (AesGcm c) pkt n i = gcm_protect_rtp P c pkt n i"
| "cipher_protect_rtp P (AesCmHmac c) pkt n i = cm_protect_rtp P c pkt n i"

fun cipher_unprotect_rtp ::
  "prims \<Rightarrow> srtp_cipher \<Rightarrow> bytes \<Rightarrow> nat \<Rightarrow> u64 \<Rightarrow> (srtp_error + (bytes \<times> nat)) option" where
  "cipher_unprotect_rtp P (AesGcm c) pkt n i = gcm_unprotect_rtp P c pkt n i"
| "cipher_unprotect_rtp P (AesCmHmac c) pkt n i = cm_unprotect_rtp P c pkt n i"

fun cipher_protect_rtcp ::
  "prims \<Rightarrow> srtp_cipher \<Rightarrow> bytes \<Rightarrow> nat \<Rightarrow> u32 \<Rightarrow> (srtp_error + (bytes \<times> nat)) option" where
  "cipher_protect_rtcp P (AesGcm c) pkt n i = gcm_protect_rtcp P c pkt n i"
| "cipher_protect_rtcp P (AesCmHmac c) pkt n i = cm_protect_rtcp P c pkt n i"

fun cipher_unprotect_rtcp ::
  "prims \<Rightarrow> srtp_cipher \<Rightarrow> bytes \<Rightarrow> nat \<Rightarrow> (srtp_error + (bytes \<times> nat \<times> u32)) option" where
  "cipher_unprotect_rtcp P (AesGcm c) pkt n = gcm_unprotect_rtcp P c pkt n"
| "cipher_unprotect_rtcp P (AesCmHmac c) pkt n = cm_unprotect_rtcp P c pkt n"

text \<open>The tag lengths \<open>AesCmHmacCipher::new\<close> asserts.\<close>

fun cipher_ok :: "srtp_cipher \<Rightarrow> bool" where
  "cipher_ok (AesGcm c) \<longleftrightarrow> length (gc_rtp_salt c) = 12 \<and> length (gc_rtcp_salt c) = 12"
| "cipher_ok (AesCmHmac c) \<longleftrightarrow> length (cm_rtp_salt c) = 14 \<and> length (cm_rtcp_salt c) = 14 \<and>
     (cm_tag_len c = 10 \<or> cm_tag_len c = 4)"

section \<open>Header lemmas\<close>

lemma srtp_ext_len_total: "\<exists>r. srtp_ext_len d e hl = Some r"
  by (auto simp: srtp_ext_len_def)

lemma srtp_header_parse_long:
  assumes "12 \<le> length d"
  shows "srtp_header_parse d =
    (if drop_bit 6 (d ! 0) AND 3 \<noteq> 2 then Some None
     else do {
       hl \<leftarrow> srtp_ext_len d (d ! 0 AND 0x10 \<noteq> 0) (12 + unat (d ! 0 AND 0x0F) * 4);
       Some (case hl of None \<Rightarrow> None
         | Some hl \<Rightarrow> if length d < hl then None
             else Some \<lparr>xh_version = drop_bit 6 (d ! 0) AND 3, xh_padding = (d ! 0 AND 0x20 \<noteq> 0),
               xh_extension = (d ! 0 AND 0x10 \<noteq> 0), xh_csrc_count = d ! 0 AND 0x0F,
               xh_marker = (d ! 1 AND 0x80 \<noteq> 0), xh_payload_type = d ! 1 AND 0x7F,
               xh_sequence_number = be16 (d ! 2) (d ! 3), xh_timestamp = be32 (d ! 4) (d ! 5) (d ! 6) (d ! 7),
               xh_ssrc = be32 (d ! 8) (d ! 9) (d ! 10) (d ! 11), xh_header_len = hl\<rparr>) })"
proof -
  have "d \<noteq> []" using assms by auto
  moreover obtain r where "srtp_ext_len d (d ! 0 AND 0x10 \<noteq> 0) (12 + unat (d ! 0 AND 0x0F) * 4) = Some r"
    using srtp_ext_len_total by blast
  ultimately show ?thesis using assms
    by (cases r) (simp_all add: srtp_header_parse_def RTP_HEADER_SIZE_def Let_def)
qed

lemma srtp_header_parse_short: "length d < 12 \<Longrightarrow> srtp_header_parse d = Some None"
  by (simp add: srtp_header_parse_def RTP_HEADER_SIZE_def)

lemma srtp_header_parse_total: "\<exists>r. srtp_header_parse d = Some r"
proof (cases "length d < 12")
  case False
  obtain r where "srtp_ext_len d (d ! 0 AND 0x10 \<noteq> 0) (12 + unat (d ! 0 AND 0x0F) * 4) = Some r"
    using srtp_ext_len_total by blast
  then show ?thesis using False by (simp add: srtp_header_parse_long)
qed (simp add: srtp_header_parse_short)

lemma nth_prefix_eq: "take l d' = take l d \<Longrightarrow> i < l \<Longrightarrow> d' ! i = d ! i"
  by (metis nth_take)

lemma srtp_ext_len_prefix:
  assumes "srtp_ext_len d e hl = Some (Some l)" "take l d' = take l d" "l \<le> length d'"
  shows "srtp_ext_len d' e hl = Some (Some l)"
proof (cases e)
  case True
  have l: "l \<ge> hl + 4" using assms True by (auto simp: srtp_ext_len_def bind_eq_Some_conv split: if_splits)
  have "d' ! (hl + 2) = d ! (hl + 2)" "d' ! (hl + 3) = d ! (hl + 3)"
    using nth_prefix_eq[OF assms(2)] l by simp_all
  then show ?thesis using assms True l
    by (auto simp: srtp_ext_len_def numeral_3_eq_3 split: if_splits)
qed (use assms in \<open>simp add: srtp_ext_len_def\<close>)

lemma srtp_ext_len_ge: "srtp_ext_len d e hl = Some (Some l) \<Longrightarrow> hl \<le> l"
  by (auto simp: srtp_ext_len_def bind_eq_Some_conv split: if_splits)

lemma srtp_header_parse_elim:
  assumes "srtp_header_parse d = Some (Some h)"
  shows "12 \<le> length d" "drop_bit 6 (d ! 0) AND 3 = 2"
    "srtp_ext_len d (d ! 0 AND 0x10 \<noteq> 0) (12 + unat (d ! 0 AND 0x0F) * 4) = Some (Some (xh_header_len h))"
    "xh_header_len h \<le> length d" "xh_ssrc h = be32 (d ! 8) (d ! 9) (d ! 10) (d ! 11)"
    "xh_sequence_number h = be16 (d ! 2) (d ! 3)"
proof -
  have "\<not> length d < 12" using assms srtp_header_parse_short[of d] by auto
  then show l: "12 \<le> length d" by simp
  obtain r where r: "srtp_ext_len d (d ! 0 AND 0x10 \<noteq> 0) (12 + unat (d ! 0 AND 0x0F) * 4) = Some r"
    using srtp_ext_len_total by blast
  show v: "drop_bit 6 (d ! 0) AND 3 = 2"
    by (rule ccontr) (use assms srtp_header_parse_long[OF l] in simp)
  obtain hl where hl: "r = Some hl" using assms srtp_header_parse_long[OF l] r v by (cases r) simp_all
  have le: "\<not> length d < hl"
    by (rule notI) (use assms srtp_header_parse_long[OF l] r v hl in simp)
  have "h = \<lparr>xh_version = 2, xh_padding = (d ! 0 AND 0x20 \<noteq> 0),
               xh_extension = (d ! 0 AND 0x10 \<noteq> 0), xh_csrc_count = d ! 0 AND 0x0F,
               xh_marker = (d ! 1 AND 0x80 \<noteq> 0), xh_payload_type = d ! 1 AND 0x7F,
               xh_sequence_number = be16 (d ! 2) (d ! 3), xh_timestamp = be32 (d ! 4) (d ! 5) (d ! 6) (d ! 7),
               xh_ssrc = be32 (d ! 8) (d ! 9) (d ! 10) (d ! 11), xh_header_len = hl\<rparr>"
    using assms srtp_header_parse_long[OF l] r v hl le by simp
  then show "srtp_ext_len d (d ! 0 AND 0x10 \<noteq> 0) (12 + unat (d ! 0 AND 0x0F) * 4) = Some (Some (xh_header_len h))"
    "xh_header_len h \<le> length d" "xh_ssrc h = be32 (d ! 8) (d ! 9) (d ! 10) (d ! 11)"
    "xh_sequence_number h = be16 (d ! 2) (d ! 3)"
    using r hl le by simp_all
qed

lemma srtp_header_parse_bounds:
  "srtp_header_parse d = Some (Some h) \<Longrightarrow> 12 \<le> xh_header_len h \<and> xh_header_len h \<le> length d"
  using srtp_header_parse_elim(3,4)[of d h] srtp_ext_len_ge by fastforce

lemma srtp_header_parse_prefix:
  assumes p: "srtp_header_parse d = Some (Some h)" and t: "take (xh_header_len h) d' = take (xh_header_len h) d"
    and l: "xh_header_len h \<le> length d'"
  shows "srtp_header_parse d' = Some (Some h)"
proof -
  note e = srtp_header_parse_elim[OF p] and b = srtp_header_parse_bounds[OF p]
  have eq: "i < 12 \<Longrightarrow> d' ! i = d ! i" for i using nth_prefix_eq[OF t] b by simp
  have "12 \<le> length d'" using b l by simp
  then show ?thesis using p e(1,2,4) eq srtp_ext_len_prefix[OF e(3) t l] e(3) l
    by (simp add: srtp_header_parse_long)
qed

section \<open>Nonces\<close>

lemma xor_at_length [simp]: "i + length bs \<le> length v \<Longrightarrow> length (xor_at i bs v) = length v"
  by (simp add: xor_at_def)

lemma word_xor_cancel: "(a :: 'a::len word) XOR b = a XOR c \<longleftrightarrow> b = c"
  by (metis xor.assoc xor.left_neutral xor_self_eq)

lemma map2_xor_inj:
  "length xs = length bs \<Longrightarrow> length bs = length cs \<Longrightarrow>
   map2 (XOR) (xs :: bytes) bs = map2 (XOR) xs cs \<Longrightarrow> bs = cs"
proof (induction xs arbitrary: bs cs)
  case (Cons x xs)
  obtain b bs' c cs' where e: "bs = b # bs'" "cs = c # cs'"
    using Cons.prems by (metis length_0_conv list.exhaust list.distinct(1))
  show ?case using Cons.prems Cons.IH[of bs' cs'] unfolding e by (simp add: word_xor_cancel)
qed simp

lemma xor_at_inj:
  assumes "xor_at i bs v = xor_at i cs w" "length bs = length cs" "length w = length v"
    "i + length bs \<le> length v"
  shows "take i v = take i w" "drop (i + length bs) v = drop (i + length bs) w"
    "take (length bs) (drop i v) = take (length bs) (drop i w) \<Longrightarrow> bs = cs"
proof -
  have a: "take i v @ map2 (XOR) (take (length bs) (drop i v)) bs @ drop (i + length bs) v =
      take i w @ map2 (XOR) (take (length bs) (drop i w)) cs @ drop (i + length bs) w"
    using assms(1,2) by (simp add: xor_at_def)
  show "take i v = take i w" using a assms(3) by (simp add: append_eq_append_conv)
  have b: "map2 (XOR) (take (length bs) (drop i v)) bs @ drop (i + length bs) v =
      map2 (XOR) (take (length bs) (drop i w)) cs @ drop (i + length bs) w"
    using a assms(3) by (simp add: append_eq_append_conv)
  then have c: "map2 (XOR) (take (length bs) (drop i v)) bs = map2 (XOR) (take (length bs) (drop i w)) cs \<and>
      drop (i + length bs) v = drop (i + length bs) w"
    using assms(2-4) by (subst (asm) append_eq_append_conv) simp_all
  then show "drop (i + length bs) v = drop (i + length bs) w" by simp
  show "take (length bs) (drop i v) = take (length bs) (drop i w) \<Longrightarrow> bs = cs"
    using c assms(2-4) by (rule_tac map2_xor_inj[of "take (length bs) (drop i v)"]) simp_all
qed

lemma length_index48_bytes [simp]: "length (index48_bytes i) = 6"
  by (simp add: index48_bytes_def)

lemma index48_bytes_inj:
  assumes "index48_bytes i = index48_bytes j" "unat i < 2 ^ 48" "unat j < 2 ^ 48"
  shows "i = j"
proof (rule bit_word_eqI)
  fix n assume "n < LENGTH(64)"
  have hi: "48 \<le> m \<Longrightarrow> unat k < 2 ^ 48 \<Longrightarrow> \<not> bit k m" for k :: u64 and m
  proof -
    assume "48 \<le> m" "unat k < 2 ^ 48"
    then have "unat k < 2 ^ m" by (meson less_le_trans one_le_numeral power_increasing)
    then have "\<not> bit (unat k) m" by (simp add: bit_iff_odd)
    then show "\<not> bit k m" by (auto simp: bit_unsigned_iff dest: bit_imp_possible_bit)
  qed
  have eq: "(ucast (drop_bit m i) :: u8) = ucast (drop_bit m j) \<Longrightarrow> k < 8 \<Longrightarrow> bit i (m + k) = bit j (m + k)" for m k
    by (drule arg_cong[where f = "\<lambda>w. bit w k"]) (simp add: bit_simps)
  have bytes: "(ucast (drop_bit (8 * b) i) :: u8) = ucast (drop_bit (8 * b) j)" if "b < 6" for b
  proof -
    have "b = 0 \<or> b = 1 \<or> b = 2 \<or> b = 3 \<or> b = 4 \<or> b = 5" using that by arith
    then show ?thesis using assms(1) unfolding index48_bytes_def by (elim disjE) simp_all
  qed
  show "bit i n = bit j n"
  proof (cases "n < 48")
    case True
    then have "bit i (8 * (n div 8) + n mod 8) = bit j (8 * (n div 8) + n mod 8)"
      by (intro eq bytes) auto
    then show ?thesis by simp
  next
    case False
    then show ?thesis using hi[of n i] hi[of n j] assms by simp
  qed
qed

lemma to_be32_inj: "to_be32 a = to_be32 b \<Longrightarrow> a = b"
  by (drule arg_cong[where f = "\<lambda>l. be32 (l ! 0) (l ! 1) (l ! 2) (l ! 3)"]) (simp add: to_be32_def)

lemma build_rtp_nonce_inj:
  assumes "length salt = 12" "unat i < 2 ^ 48" "unat j < 2 ^ 48"
    "build_rtp_nonce salt s i = build_rtp_nonce salt t j"
  shows "s = t \<and> i = j"
proof -
  let ?v = "xor_at 2 (to_be32 s) salt" and ?w = "xor_at 2 (to_be32 t) salt"
  note eq = assms(4)[unfolded build_rtp_nonce_def]
  have len: "length ?v = 12" "length ?w = 12" using assms(1) by simp_all
  have "take 6 ?v = take 6 ?w" using xor_at_inj(1)[OF eq] len by simp
  then have "map2 (XOR) (take 4 (drop 2 salt)) (to_be32 s) = map2 (XOR) (take 4 (drop 2 salt)) (to_be32 t)"
    using assms(1) by (simp add: xor_at_def)
  then have st: "s = t" using assms(1) by (rule_tac to_be32_inj, rule_tac map2_xor_inj[of "take 4 (drop 2 salt)"]) simp_all
  then have "index48_bytes i = index48_bytes j" using xor_at_inj(3)[OF eq] len by simp
  then show ?thesis using st index48_bytes_inj assms by blast
qed

lemma build_rtcp_nonce_inj:
  assumes "length salt = 12" "build_rtcp_nonce salt s i = build_rtcp_nonce salt t j"
  shows "s = t \<and> i = j"
proof -
  let ?v = "xor_at 2 (to_be32 s) salt" and ?w = "xor_at 2 (to_be32 t) salt"
  note eq = assms(2)[unfolded build_rtcp_nonce_def]
  have len: "length ?v = 12" "length ?w = 12" using assms(1) by simp_all
  have "take 8 ?v = take 8 ?w" using xor_at_inj(1)[OF eq] len by simp
  then have "map2 (XOR) (take 4 (drop 2 salt)) (to_be32 s) = map2 (XOR) (take 4 (drop 2 salt)) (to_be32 t)"
    using assms(1) by (simp add: xor_at_def)
  then have st: "s = t" using assms(1) by (rule_tac to_be32_inj, rule_tac map2_xor_inj[of "take 4 (drop 2 salt)"]) simp_all
  then have "to_be32 i = to_be32 j" using xor_at_inj(3)[OF eq] len by simp
  then show ?thesis using st to_be32_inj by blast
qed

lemma build_rtp_iv_inj:
  assumes "length salt = 14" "unat i < 2 ^ 48" "unat j < 2 ^ 48"
    "build_rtp_iv salt s i = build_rtp_iv salt t j"
  shows "s = t \<and> i = j"
proof -
  let ?z = "salt @ [0, 0]"
  let ?v = "xor_at 4 (to_be32 s) ?z" and ?w = "xor_at 4 (to_be32 t) ?z"
  note eq = assms(4)[unfolded build_rtp_iv_def]
  have len: "length ?v = 16" "length ?w = 16" using assms(1) by simp_all
  have "take 8 ?v = take 8 ?w" using xor_at_inj(1)[OF eq] len by simp
  then have "map2 (XOR) (take 4 (drop 4 ?z)) (to_be32 s) = map2 (XOR) (take 4 (drop 4 ?z)) (to_be32 t)"
    using assms(1) by (simp add: xor_at_def)
  then have st: "s = t" using assms(1) by (rule_tac to_be32_inj, rule_tac map2_xor_inj[of "take 4 (drop 4 ?z)"]) simp_all
  then have "index48_bytes i = index48_bytes j" using xor_at_inj(3)[OF eq] len by simp
  then show ?thesis using st index48_bytes_inj assms by blast
qed

section \<open>Tag comparison\<close>

lemma or_eq_0_iff: "(a :: 'a::len word) OR b = 0 \<longleftrightarrow> a = 0 \<and> b = 0"
  by (auto simp: or_eq_0_iff)

lemma xor_eq_0_iff: "(a :: 'a::len word) XOR b = 0 \<longleftrightarrow> a = b"
  using word_xor_cancel[of a b a] by auto

lemma diff_fold_zero:
  "length a = length b \<Longrightarrow>
   foldl (\<lambda>diff (x, y). diff OR (x XOR y)) d (zip a b) = 0 \<longleftrightarrow> d = (0 :: u8) \<and> a = b"
  by (induction a b arbitrary: d rule: list_induct2) (auto simp: or_eq_0_iff xor_eq_0_iff)

lemma constant_time_eq_iff: "length a = length b \<Longrightarrow> constant_time_eq a b = Some (a = b)"
  by (simp add: constant_time_eq_def diff_fold_zero)

section \<open>What a protected packet looks like\<close>

lemma gcm_sealE:
  assumes "prims_ok P" "gcm_seal P k n a d = Inr (ct, tag)"
  shows "length ct = length d" "length tag = 16" "gcm_open P k n a (ct @ tag) = Inr d"
  using assms unfolding prims_ok_def gcm_seal_def gcm_open_def SRTP_AUTH_TAG_SIZE_def
  by (auto split: option.splits)

lemma gcm_open_length: "prims_ok P \<Longrightarrow> gcm_open P k n a d = Inr p \<Longrightarrow> length p + 16 = length d"
  unfolding prims_ok_def gcm_open_def by (auto split: if_splits option.splits)

lemma gcm_protect_rtp_shape:
  assumes ok: "prims_ok P" and p: "gcm_protect_rtp P c pkt n i = Some (Inr (pkt', n'))"
  shows "\<exists>h ct tag. srtp_header_parse (take n pkt) = Some (Some h) \<and> n' = n + 16 \<and> n + 16 \<le> length pkt \<and>
    xh_header_len h \<le> n \<and> length ct = n - xh_header_len h \<and> length tag = 16 \<and>
    gcm_seal P (gc_rtp_key c) (build_rtp_nonce (gc_rtp_salt c) (xh_ssrc h) i)
      (take (xh_header_len h) pkt) (take (n - xh_header_len h) (drop (xh_header_len h) pkt)) = Inr (ct, tag) \<and>
    pkt' = take (xh_header_len h) pkt @ ct @ tag @ drop (n + 16) pkt"
proof -
  obtain r where r: "srtp_header_parse (take n pkt) = Some r" using srtp_header_parse_total by blast
  obtain h where h: "r = Some h"
    using p r by (cases r) (auto simp: gcm_protect_rtp_def bind_eq_Some_conv srtp_consts split: if_splits)
  have b: "12 \<le> xh_header_len h" "xh_header_len h \<le> length (take n pkt)"
    using srtp_header_parse_bounds r h by blast+
  have e: "encrypt_rtp_payload P c pkt n h i = Some (Inr (pkt', n'))" and l: "n + 16 \<le> length pkt"
    using p r h by (auto simp: gcm_protect_rtp_def bind_eq_Some_conv srtp_consts split: if_splits)
  let ?s = "gcm_seal P (gc_rtp_key c) (build_rtp_nonce (gc_rtp_salt c) (xh_ssrc h) i)
      (take (xh_header_len h) pkt) (take (n - xh_header_len h) (drop (xh_header_len h) pkt))"
  obtain ct tag where s: "?s = Inr (ct, tag)"
    using e b l by (cases ?s) (auto simp: encrypt_rtp_payload_def srtp_consts)
  have len: "length ct = n - xh_header_len h" "length tag = 16"
    using gcm_sealE[OF ok s] b l by simp_all
  then have "pkt' = take (xh_header_len h) pkt @ ct @ tag @ drop (n + 16) pkt" "n' = n + 16"
    using e b l s by (auto simp: encrypt_rtp_payload_def srtp_consts add.commute[of 16])
  then show ?thesis using r h b l s len by auto
qed

lemma gcm_rtp_roundtrip:
  assumes ok: "prims_ok P" and p: "gcm_protect_rtp P c pkt n i = Some (Inr (pkt', n'))"
    and max: "n' \<le> MAX_PACKET_SIZE"
  shows "\<exists>pkt''. gcm_unprotect_rtp P c pkt' n' i = Some (Inr (pkt'', n)) \<and> take n pkt'' = take n pkt"
proof -
  obtain h ct tag where h: "srtp_header_parse (take n pkt) = Some (Some h)" and n': "n' = n + 16"
    and l: "n + 16 \<le> length pkt" "xh_header_len h \<le> n" and len: "length ct = n - xh_header_len h" "length tag = 16"
    and s: "gcm_seal P (gc_rtp_key c) (build_rtp_nonce (gc_rtp_salt c) (xh_ssrc h) i)
      (take (xh_header_len h) pkt) (take (n - xh_header_len h) (drop (xh_header_len h) pkt)) = Inr (ct, tag)"
    and pkt': "pkt' = take (xh_header_len h) pkt @ ct @ tag @ drop (n + 16) pkt"
    using gcm_protect_rtp_shape[OF ok p] by blast
  have b: "12 \<le> xh_header_len h" using srtp_header_parse_bounds[OF h] by simp
  have d: "take n' pkt' = take (xh_header_len h) pkt @ ct @ tag"
    using l len n' by (simp add: pkt')
  have "srtp_header_parse (take n' pkt') = Some (Some h)"
    unfolding d using l by (intro srtp_header_parse_prefix[OF h]) (simp_all add: min_def)
  moreover have "length pkt' = length pkt" using l len by (simp add: pkt')
  moreover have "take (xh_header_len h) pkt' = take (xh_header_len h) pkt"
    "take (n' - xh_header_len h) (drop (xh_header_len h) pkt') = ct @ tag"
    using l len n' by (simp_all add: pkt')
  moreover have "length (take (n - xh_header_len h) (drop (xh_header_len h) pkt)) = n - xh_header_len h"
    "take (xh_header_len h) pkt @ take (n - xh_header_len h) (drop (xh_header_len h) pkt) = take n pkt"
    using l by (simp_all add: take_add[symmetric])
  ultimately show ?thesis using gcm_sealE(3)[OF ok s] b l max n'
    by (simp add: gcm_unprotect_rtp_def decrypt_rtp_payload_def srtp_consts)
qed

lemma hmac_length: "prims_ok P \<Longrightarrow> length (pr_hmac_sha1 P k d) = 20"
  by (simp add: prims_ok_def)

lemma ctr_length: "prims_ok P \<Longrightarrow> length (pr_aes_ctr P k iv d) = length d"
  by (simp add: prims_ok_def)

lemma ctr_involution: "prims_ok P \<Longrightarrow> pr_aes_ctr P k iv (pr_aes_ctr P k iv d) = d"
  by (simp add: prims_ok_def)

lemma cm_protect_rtp_shape:
  assumes ok: "prims_ok P" and tl: "cm_tag_len c \<le> 20"
    and p: "cm_protect_rtp P c pkt n i = Some (Inr (pkt', n'))"
  shows "\<exists>h ct. srtp_header_parse (take n pkt) = Some (Some h) \<and> n' = n + cm_tag_len c \<and>
    n + cm_tag_len c \<le> length pkt \<and> xh_header_len h \<le> n \<and> length ct = n - xh_header_len h \<and>
    ct = pr_aes_ctr P (cm_rtp_key c) (build_rtp_iv (cm_rtp_salt c) (xh_ssrc h) i)
      (take (n - xh_header_len h) (drop (xh_header_len h) pkt)) \<and>
    pkt' = take (xh_header_len h) pkt @ ct @
      take (cm_tag_len c) (pr_hmac_sha1 P (cm_rtp_auth c)
        (take (xh_header_len h) pkt @ ct @ to_be32 (packet_index_roc i))) @ drop (n + cm_tag_len c) pkt"
proof -
  obtain r where r: "srtp_header_parse (take n pkt) = Some r" using srtp_header_parse_total by blast
  obtain h where h: "r = Some h"
    using p r by (cases r) (auto simp: cm_protect_rtp_def bind_eq_Some_conv srtp_consts split: if_splits)
  have b: "12 \<le> xh_header_len h" "xh_header_len h \<le> n" "n \<le> length pkt"
    using srtp_header_parse_bounds[of "take n pkt" h] r h p by (simp_all add: cm_protect_rtp_def bind_eq_Some_conv)
  have l: "n + cm_tag_len c \<le> length pkt"
    using p r h by (auto simp: cm_protect_rtp_def bind_eq_Some_conv srtp_consts split: if_splits)
  define ct where "ct = pr_aes_ctr P (cm_rtp_key c) (build_rtp_iv (cm_rtp_salt c) (xh_ssrc h) i)
      (take (n - xh_header_len h) (drop (xh_header_len h) pkt))"
  have len: "length ct = n - xh_header_len h" using b by (simp add: ct_def ctr_length[OF ok])
  have mid: "sub_slice (take (xh_header_len h) pkt @ ct @ drop n pkt) 0 n = Some (take (xh_header_len h) pkt @ ct)"
    using b len by (simp add: sub_slice_def)
  have "pkt' = take (xh_header_len h) pkt @ ct @
      take (cm_tag_len c) (pr_hmac_sha1 P (cm_rtp_auth c)
        (take (xh_header_len h) pkt @ ct @ to_be32 (packet_index_roc i))) @ drop (n + cm_tag_len c) pkt \<and>
      n' = n + cm_tag_len c"
    using p r h b l len tl mid
    by (auto simp: cm_protect_rtp_def ct_def[symmetric] compute_auth_tag_def srtp_consts
        hmac_length[OF ok] add.commute[of "cm_tag_len c" n] split: if_splits)
  then show ?thesis using r h b l len ct_def by auto
qed

lemma cm_rtp_roundtrip:
  assumes ok: "prims_ok P" and tl: "cm_tag_len c \<le> 20"
    and p: "cm_protect_rtp P c pkt n i = Some (Inr (pkt', n'))" and max: "n' \<le> MAX_PACKET_SIZE"
  shows "\<exists>pkt''. cm_unprotect_rtp P c pkt' n' i = Some (Inr (pkt'', n)) \<and> take n pkt'' = take n pkt"
proof -
  obtain h ct where h: "srtp_header_parse (take n pkt) = Some (Some h)" and n': "n' = n + cm_tag_len c"
    and l: "n + cm_tag_len c \<le> length pkt" "xh_header_len h \<le> n" and len: "length ct = n - xh_header_len h"
    and ct: "ct = pr_aes_ctr P (cm_rtp_key c) (build_rtp_iv (cm_rtp_salt c) (xh_ssrc h) i)
      (take (n - xh_header_len h) (drop (xh_header_len h) pkt))"
    and pkt': "pkt' = take (xh_header_len h) pkt @ ct @
      take (cm_tag_len c) (pr_hmac_sha1 P (cm_rtp_auth c)
        (take (xh_header_len h) pkt @ ct @ to_be32 (packet_index_roc i))) @ drop (n + cm_tag_len c) pkt"
    using cm_protect_rtp_shape[OF ok tl p] by blast
  define tag where "tag = take (cm_tag_len c) (pr_hmac_sha1 P (cm_rtp_auth c)
        (take (xh_header_len h) pkt @ ct @ to_be32 (packet_index_roc i)))"
  have lt: "length tag = cm_tag_len c" using tl by (simp add: tag_def hmac_length[OF ok])
  note pkt' = pkt'[folded tag_def]
  have b: "12 \<le> xh_header_len h" using srtp_header_parse_bounds[OF h] by simp
  have d: "take n' pkt' = take (xh_header_len h) pkt @ ct @ tag"
    using l len lt n' by (simp add: pkt')
  have "srtp_header_parse (take n' pkt') = Some (Some h)"
    unfolding d using l by (intro srtp_header_parse_prefix[OF h]) (simp_all add: min_def)
  moreover have "length pkt' = length pkt" "take (xh_header_len h) pkt' = take (xh_header_len h) pkt"
    "take n pkt' = take (xh_header_len h) pkt @ ct" "take (n' - n) (drop n pkt') = tag"
    "take (n - xh_header_len h) (drop (xh_header_len h) pkt') = ct"
    using l len lt n' by (simp_all add: pkt')
  moreover have "length (take (n - xh_header_len h) (drop (xh_header_len h) pkt)) = n - xh_header_len h"
    "take (xh_header_len h) pkt @ take (n - xh_header_len h) (drop (xh_header_len h) pkt) = take n pkt"
    using l by (simp_all add: take_add[symmetric])
  moreover have "pr_aes_ctr P (cm_rtp_key c) (build_rtp_iv (cm_rtp_salt c) (xh_ssrc h) i) ct =
    take (n - xh_header_len h) (drop (xh_header_len h) pkt)"
    unfolding ct by (rule ctr_involution[OF ok])
  ultimately show ?thesis using b l max n' tl lt
    by (simp add: cm_unprotect_rtp_def compute_auth_tag_def srtp_consts Let_def hmac_length[OF ok]
        constant_time_eq_iff tag_def[symmetric])
qed

section \<open>RTCP\<close>

lemma srtcp_index_mask:
  assumes "i \<le> SRTCP_INDEX_MASK"
  shows "(i OR SRTCP_E_FLAG) AND SRTCP_INDEX_MASK = i" "(i OR SRTCP_E_FLAG) AND SRTCP_E_FLAG \<noteq> 0"
proof -
  have m: "SRTCP_INDEX_MASK = mask 31" by (simp add: SRTCP_INDEX_MASK_def mask_eq_exp_minus_1)
  have "unat i < 2 ^ 31" using assms by (simp add: SRTCP_INDEX_MASK_def word_le_nat_alt)
  then have "take_bit 31 i = i"
    by (subst word_unat_eq_iff) (simp add: unsigned_take_bit_eq take_bit_nat_eq_self)
  then have "i AND SRTCP_INDEX_MASK = i" by (simp add: m take_bit_eq_mask)
  then show "(i OR SRTCP_E_FLAG) AND SRTCP_INDEX_MASK = i"
    by (simp add: word_ao_dist) (simp add: SRTCP_E_FLAG_def SRTCP_INDEX_MASK_def)
  show "(i OR SRTCP_E_FLAG) AND SRTCP_E_FLAG \<noteq> 0"
    by (simp add: word_ao_absorbs SRTCP_E_FLAG_def)
qed

lemma rtcp_header_same:
  assumes "8 \<le> n" "n \<le> length pkt" "take 8 pkt' = take 8 pkt"
  shows "u32_at pkt' 4 = u32_at pkt 4"
  using assms by (intro u32_at_prefix[of 4 8]) simp_all

lemma gcm_rtcp_roundtrip:
  assumes ok: "prims_ok P" and p: "gcm_protect_rtcp P c pkt n i = Some (Inr (pkt', n'))"
    and max: "n' \<le> MAX_PACKET_SIZE"
  shows "\<exists>pkt''. gcm_unprotect_rtcp P c pkt' n' = Some (Inr (pkt'', n, i)) \<and> take n pkt'' = take n pkt"
proof -
  have l: "8 \<le> n" "n + 20 \<le> length pkt" "n \<le> 8192" and i: "i \<le> SRTCP_INDEX_MASK"
    using p by (auto simp: gcm_protect_rtcp_def bind_eq_Some_conv srtp_consts split: if_splits)
  define ssrc where "ssrc = be32 (pkt ! 4) (pkt ! 5) (pkt ! 6) (pkt ! 7)"
  have ssrc: "u32_at pkt 4 = Some ssrc" using l by (simp add: ssrc_def)
  let ?e = "i OR SRTCP_E_FLAG"
  let ?nonce = "build_rtcp_nonce (gc_rtcp_salt c) ssrc i"
  let ?s = "gcm_seal P (gc_rtcp_key c) ?nonce (take 8 pkt @ to_be32 ?e) (take (n - 8) (drop 8 pkt))"
  obtain ct tag where s: "?s = Inr (ct, tag)"
    using p l ssrc i by (cases ?s) (auto simp: gcm_protect_rtcp_def srtp_sizes Let_def)
  have len: "length ct = n - 8" "length tag = 16" using gcm_sealE[OF ok s] l by simp_all
  have pkt': "pkt' = (take 8 pkt @ ct @ tag) @ to_be32 ?e @ drop (n + 20) pkt" and n': "n' = n + 20"
    using p l ssrc i s len
    by (auto simp: gcm_protect_rtcp_def srtp_sizes Let_def add.commute split: if_splits)
  have "u32_at pkt' 4 = Some ssrc"
    using l len ssrc by (subst rtcp_header_same[of n pkt]) (simp_all add: pkt')
  moreover have "u32_at pkt' (n' - 4) = Some ?e"
    using l len n' u32_at_append[of "take 8 pkt @ ct @ tag" ?e "drop (n + 20) pkt"] by (simp add: pkt')
  moreover have "length pkt' = length pkt" "take 8 pkt' = take 8 pkt"
    "take 4 (drop (n' - 4) pkt') = to_be32 ?e" "take (n' - 4 - 8) (drop 8 pkt') = ct @ tag"
    using l len n' by (simp_all add: pkt')
  moreover have "length (take (n - 8) (drop 8 pkt)) = n - 8" "take 8 pkt @ take (n - 8) (drop 8 pkt) = take n pkt"
    using l by (simp_all add: take_add[symmetric])
  ultimately show ?thesis using gcm_sealE(3)[OF ok s] l i max n' srtcp_index_mask[OF i]
    by (simp add: gcm_unprotect_rtcp_def RTCP_HEADER_SIZE_def SRTP_AUTH_TAG_SIZE_def
        MAX_PACKET_SIZE_def Let_def)
qed

lemma cm_rtcp_roundtrip:
  assumes ok: "prims_ok P" and tl: "cm_tag_len c \<le> 20"
    and p: "cm_protect_rtcp P c pkt n i = Some (Inr (pkt', n'))" and max: "n' \<le> MAX_PACKET_SIZE"
  shows "\<exists>pkt''. cm_unprotect_rtcp P c pkt' n' = Some (Inr (pkt'', n, i)) \<and> take n pkt'' = take n pkt"
proof -
  have l: "8 \<le> n" "n + 4 + cm_tag_len c \<le> length pkt" "n \<le> 8192" and i: "i \<le> SRTCP_INDEX_MASK"
    using p by (auto simp: cm_protect_rtcp_def bind_eq_Some_conv srtp_consts split: if_splits)
  define ssrc where "ssrc = be32 (pkt ! 4) (pkt ! 5) (pkt ! 6) (pkt ! 7)"
  have ssrc: "u32_at pkt 4 = Some ssrc" using l by (simp add: ssrc_def)
  let ?e = "i OR SRTCP_E_FLAG"
  define ct where "ct = pr_aes_ctr P (cm_rtcp_key c) (build_rtcp_iv (cm_rtcp_salt c) ssrc i) (take (n - 8) (drop 8 pkt))"
  define tag where "tag = take (cm_tag_len c) (pr_hmac_sha1 P (cm_rtcp_auth c) (take 8 pkt @ ct @ to_be32 ?e))"
  have len: "length ct = n - 8" "length tag = cm_tag_len c"
    using l tl by (simp_all add: ct_def tag_def ctr_length[OF ok] hmac_length[OF ok])
  have pkt': "pkt' = (take 8 pkt @ ct) @ to_be32 ?e @ tag @ drop (n + 4 + cm_tag_len c) pkt"
    and n': "n' = n + 4 + cm_tag_len c"
    using p l ssrc i len tl
    by (auto simp: cm_protect_rtcp_def srtp_sizes ct_def[symmetric] tag_def[symmetric] add.commute hmac_length[OF ok]
        split: if_splits)
  have "u32_at pkt' 4 = Some ssrc"
    using l len ssrc by (subst rtcp_header_same[of n pkt]) (simp_all add: pkt')
  moreover have "u32_at pkt' n = Some ?e"
    using l len u32_at_append[of "take 8 pkt @ ct" ?e "tag @ drop (n + 4 + cm_tag_len c) pkt"] by (simp add: pkt')
  moreover have "length pkt' = length pkt" "take 8 pkt' = take 8 pkt"
    "take (n + 4) pkt' = take 8 pkt @ ct @ to_be32 ?e" "take (n' - (n + 4)) (drop (n + 4) pkt') = tag"
    "take (n - 8) (drop 8 pkt') = ct"
    using l len n' by (simp_all add: pkt')
  moreover have "length (take (n - 8) (drop 8 pkt)) = n - 8" "take 8 pkt @ take (n - 8) (drop 8 pkt) = take n pkt"
    using l by (simp_all add: take_add[symmetric])
  moreover have "pr_aes_ctr P (cm_rtcp_key c) (build_rtcp_iv (cm_rtcp_salt c) ssrc i) ct = take (n - 8) (drop 8 pkt)"
    unfolding ct_def by (rule ctr_involution[OF ok])
  ultimately show ?thesis using l i max n' tl len srtcp_index_mask[OF i]
    by (simp add: cm_unprotect_rtcp_def RTCP_HEADER_SIZE_def MAX_PACKET_SIZE_def Let_def hmac_length[OF ok]
        constant_time_eq_iff tag_def[symmetric])
qed

section \<open>No panic\<close>

lemma seal_sizes:
  assumes "prims_ok P" "gcm_seal P key nc a (take (n - k) (drop k pkt)) = Inr (ct, tag)" "n \<le> length pkt"
  shows "length ct = n - k" "length tag = 16"
  using gcm_sealE[OF assms(1,2)] assms(3) by simp_all

lemma open_sizes:
  assumes "prims_ok P" "gcm_open P key nc a (take (n - k) (drop k pkt)) = Inr p" "n \<le> length pkt"
  shows "length p + 16 = n - k"
  using gcm_open_length[OF assms(1,2)] assms(3) by simp

lemma encrypt_rtp_payload_total:
  assumes "prims_ok P" "xh_header_len h \<le> n" "n + 16 \<le> length pkt"
  shows "encrypt_rtp_payload P c pkt n h i \<noteq> None"
proof -
  let ?s = "gcm_seal P (gc_rtp_key c) (build_rtp_nonce (gc_rtp_salt c) (xh_ssrc h) i)
    (take (xh_header_len h) pkt) (take (n - xh_header_len h) (drop (xh_header_len h) pkt))"
  show ?thesis
  proof (cases ?s)
    case (Inr r)
    obtain ct tag where "r = (ct, tag)" by (cases r)
    then show ?thesis using Inr assms seal_sizes[OF assms(1) Inr[unfolded \<open>r = (ct, tag)\<close>]]
      by (simp add: encrypt_rtp_payload_def SRTP_AUTH_TAG_SIZE_def)
  qed (use assms in \<open>simp add: encrypt_rtp_payload_def SRTP_AUTH_TAG_SIZE_def\<close>)
qed

lemma gcm_protect_rtp_total:
  assumes "prims_ok P" "n \<le> length pkt" shows "gcm_protect_rtp P c pkt n i \<noteq> None"
proof -
  obtain r where r: "srtp_header_parse (take n pkt) = Some r" using srtp_header_parse_total by blast
  have "xh_header_len h \<le> n" if "r = Some h" for h
    using srtp_header_parse_bounds[of "take n pkt" h] r that assms by simp
  then show ?thesis using assms r encrypt_rtp_payload_total[OF assms(1), of _ n pkt c i]
    by (cases r) (simp_all add: gcm_protect_rtp_def srtp_sizes)
qed

lemma decrypt_rtp_payload_total:
  assumes "prims_ok P" "xh_header_len h + 16 \<le> n" "n \<le> length pkt"
  shows "decrypt_rtp_payload P c pkt n h i \<noteq> None"
proof -
  let ?s = "gcm_open P (gc_rtp_key c) (build_rtp_nonce (gc_rtp_salt c) (xh_ssrc h) i)
    (take (xh_header_len h) pkt) (take (n - xh_header_len h) (drop (xh_header_len h) pkt))"
  show ?thesis
  proof (cases ?s)
    case (Inr p)
    then show ?thesis using assms open_sizes[OF assms(1) Inr]
      by (simp add: decrypt_rtp_payload_def SRTP_AUTH_TAG_SIZE_def)
  qed (use assms in \<open>simp add: decrypt_rtp_payload_def SRTP_AUTH_TAG_SIZE_def\<close>)
qed

lemma gcm_unprotect_rtp_total:
  assumes "prims_ok P" "n \<le> length pkt" shows "gcm_unprotect_rtp P c pkt n i \<noteq> None"
proof -
  obtain r where r: "srtp_header_parse (take n pkt) = Some r" using srtp_header_parse_total by blast
  then show ?thesis using assms decrypt_rtp_payload_total[OF assms(1) _ assms(2), of _ c i]
    by (cases r) (simp_all add: gcm_unprotect_rtp_def srtp_sizes)
qed

lemma gcm_protect_rtcp_total:
  assumes "prims_ok P" "n \<le> length pkt" "i \<le> SRTCP_INDEX_MASK" shows "gcm_protect_rtcp P c pkt n i \<noteq> None"
proof (cases "8 \<le> n \<and> n + 20 \<le> length pkt")
  case True
  let ?s = "gcm_seal P (gc_rtcp_key c)
    (build_rtcp_nonce (gc_rtcp_salt c) (be32 (pkt ! 4) (pkt ! 5) (pkt ! 6) (pkt ! 7)) i)
    (take 8 pkt @ to_be32 (i OR SRTCP_E_FLAG)) (take (n - 8) (drop 8 pkt))"
  show ?thesis
  proof (cases ?s)
    case (Inr r)
    obtain ct tag where r: "r = (ct, tag)" by (cases r)
    show ?thesis using Inr r assms True seal_sizes[OF assms(1) Inr[unfolded r] assms(2)]
      by (simp add: gcm_protect_rtcp_def srtp_sizes Let_def)
  qed (use True assms in \<open>simp add: gcm_protect_rtcp_def srtp_sizes Let_def\<close>)
qed (use assms in \<open>auto simp: gcm_protect_rtcp_def srtp_sizes\<close>)

lemma gcm_unprotect_rtcp_total:
  assumes "prims_ok P" "n \<le> length pkt" shows "gcm_unprotect_rtcp P c pkt n \<noteq> None"
proof (cases "n < 28")
  case False
  then obtain e where e: "u32_at pkt (n - 4) = Some e" using assms by simp
  let ?s = "gcm_open P (gc_rtcp_key c)
    (build_rtcp_nonce (gc_rtcp_salt c) (be32 (pkt ! 4) (pkt ! 5) (pkt ! 6) (pkt ! 7)) (e AND SRTCP_INDEX_MASK))
    (take 8 pkt @ take 4 (drop (n - 4) pkt)) (take (n - 4 - 8) (drop 8 pkt))"
  show ?thesis
  proof (cases ?s)
    case (Inr p)
    have "length p + 16 = n - 12" using open_sizes[OF assms(1) Inr] assms by simp
    then have "8 + length p = n - 20" "8 + length p \<le> length pkt" using False assms by simp_all
    then show ?thesis using Inr e assms False
      by (simp add: gcm_unprotect_rtcp_def srtp_sizes Let_def del: u32_at_Some) (simp add: srtp_sizes)
  qed (use e False assms in \<open>simp add: gcm_unprotect_rtcp_def srtp_sizes Let_def del: u32_at_Some, simp\<close>)
qed (use assms in \<open>simp add: gcm_unprotect_rtcp_def srtp_sizes\<close>)

lemma cm_protect_rtp_total:
  assumes "prims_ok P" "n \<le> length pkt" "cm_tag_len c \<le> 20" shows "cm_protect_rtp P c pkt n i \<noteq> None"
proof -
  obtain r where r: "srtp_header_parse (take n pkt) = Some r" using srtp_header_parse_total by blast
  have "xh_header_len h \<le> n" if "r = Some h" for h
    using srtp_header_parse_bounds[of "take n pkt" h] r that assms by simp
  then show ?thesis using assms r
    by (auto simp: cm_protect_rtp_def compute_auth_tag_def srtp_sizes copy_into_def sub_slice_def
        ctr_length hmac_length split: option.splits)
qed

lemma cm_unprotect_rtp_total:
  assumes "prims_ok P" "n \<le> length pkt" "cm_tag_len c \<le> 20" shows "cm_unprotect_rtp P c pkt n i \<noteq> None"
proof -
  obtain r where r: "srtp_header_parse (take n pkt) = Some r" using srtp_header_parse_total by blast
  then show ?thesis using assms
    by (auto simp: cm_unprotect_rtp_def compute_auth_tag_def srtp_sizes copy_into_def sub_slice_def Let_def
        ctr_length hmac_length constant_time_eq_iff split: option.splits)
qed

lemma cm_protect_rtcp_total:
  assumes "prims_ok P" "n \<le> length pkt" "cm_tag_len c \<le> 20" "i \<le> SRTCP_INDEX_MASK"
  shows "cm_protect_rtcp P c pkt n i \<noteq> None"
  using assms
  by (auto simp: cm_protect_rtcp_def srtp_sizes copy_into_def sub_slice_def ctr_length hmac_length)

lemma cm_unprotect_rtcp_total:
  assumes "prims_ok P" "n \<le> length pkt" "cm_tag_len c \<le> 20"
  shows "cm_unprotect_rtcp P c pkt n \<noteq> None"
  using assms
  by (auto simp: cm_unprotect_rtcp_def srtp_sizes copy_into_def sub_slice_def Let_def ctr_length hmac_length
      constant_time_eq_iff)

end
