(* ===== verification/Srtp_Keys.thy ===== *)
theory Srtp_Keys
  imports Srtp_Crypto
begin

text \<open>
  Key material, the RFC 3711 / RFC 7714 key derivation and the construction of
  a cipher: \<^verbatim>\<open>nexus-transport/src/srtp/keys.rs\<close>, \<open>ProtectionProfile\<close> of
  \<^verbatim>\<open>types.rs\<close> and the constructors of \<^verbatim>\<open>crypto.rs\<close>.  A fixed array with a
  used length is the list of its used bytes.  Every cipher built from a DTLS
  export has the salt and tag lengths the packet transforms assume.
\<close>

datatype protection_profile =
  AeadAes128Gcm | AeadAes256Gcm | Aes128CmHmacSha1_80 | Aes128CmHmacSha1_32

fun profile_key_len :: "protection_profile \<Rightarrow> nat" where
  "profile_key_len AeadAes128Gcm = 16"
| "profile_key_len AeadAes256Gcm = 32"
| "profile_key_len Aes128CmHmacSha1_80 = 16"
| "profile_key_len Aes128CmHmacSha1_32 = 16"

fun profile_salt_len :: "protection_profile \<Rightarrow> nat" where
  "profile_salt_len AeadAes128Gcm = 12"
| "profile_salt_len AeadAes256Gcm = 12"
| "profile_salt_len Aes128CmHmacSha1_80 = 14"
| "profile_salt_len Aes128CmHmacSha1_32 = 14"

fun profile_tag_len :: "protection_profile \<Rightarrow> nat" where
  "profile_tag_len AeadAes128Gcm = 16"
| "profile_tag_len AeadAes256Gcm = 16"
| "profile_tag_len Aes128CmHmacSha1_80 = 10"
| "profile_tag_len Aes128CmHmacSha1_32 = 4"

fun profile_is_aead :: "protection_profile \<Rightarrow> bool" where
  "profile_is_aead AeadAes128Gcm = True"
| "profile_is_aead AeadAes256Gcm = True"
| "profile_is_aead Aes128CmHmacSha1_80 = False"
| "profile_is_aead Aes128CmHmacSha1_32 = False"

definition profile_from_u16 :: "u16 \<Rightarrow> protection_profile option" where
  "profile_from_u16 v =
     (if v = 0x0007 then Some AeadAes128Gcm
      else if v = 0x0008 then Some AeadAes256Gcm
      else if v = 0x0001 then Some Aes128CmHmacSha1_80
      else if v = 0x0002 then Some Aes128CmHmacSha1_32
      else None)"

record key_material =
  km_key :: bytes
  km_salt :: bytes
  km_profile :: protection_profile

definition from_aes128_gcm :: "bytes \<Rightarrow> bytes \<Rightarrow> srtp_error + key_material" where
  "from_aes128_gcm key salt =
     (if length key \<noteq> 16 then Inl InvalidKeyMaterial
      else if length salt \<noteq> 12 then Inl InvalidKeyMaterial
      else Inr \<lparr>km_key = key, km_salt = salt, km_profile = AeadAes128Gcm\<rparr>)"

definition from_aes256_gcm :: "bytes \<Rightarrow> bytes \<Rightarrow> srtp_error + key_material" where
  "from_aes256_gcm key salt =
     (if length key \<noteq> 32 then Inl InvalidKeyMaterial
      else if length salt \<noteq> 12 then Inl InvalidKeyMaterial
      else Inr \<lparr>km_key = key, km_salt = salt, km_profile = AeadAes256Gcm\<rparr>)"

definition from_dtls_export :: "bytes \<Rightarrow> protection_profile \<Rightarrow> srtp_error + key_material" where
  "from_dtls_export material profile =
     (let kl = profile_key_len profile; sl = profile_salt_len profile in
      if length material < kl + sl then Inl InvalidKeyMaterial
      else Inr \<lparr>km_key = take kl material, km_salt = take sl (drop kl material), km_profile = profile\<rparr>)"

record srtp_keys =
  sk_rtp_key :: bytes
  sk_rtp_salt :: bytes
  sk_rtp_auth :: bytes
  sk_rtcp_key :: bytes
  sk_rtcp_salt :: bytes
  sk_rtcp_auth :: bytes
  sk_profile :: protection_profile

text \<open>The counter-mode loop: blocks \<open>counter, counter + 1, ...\<close> until \<open>n\<close> bytes are written.\<close>

function cm_blocks :: "prims \<Rightarrow> bytes \<Rightarrow> bytes \<Rightarrow> u16 \<Rightarrow> nat \<Rightarrow> bytes" where
  "cm_blocks P key iv ctr n =
     (if n = 0 then []
      else take (min n 16) (pr_aes_block P key (take 14 iv @ to_be16 ctr)) @
        cm_blocks P key iv (ctr + 1) (n - 16))"
  by pat_completeness auto
termination by (relation "measure (\<lambda>(P, key, iv, ctr, n). n)") auto

declare cm_blocks.simps [simp del]

definition aes_cm_generate :: "prims \<Rightarrow> bytes \<Rightarrow> bytes \<Rightarrow> nat \<Rightarrow> bytes option" where
  "aes_cm_generate P key iv n = do {
     rassert (length key \<ge> 16);
     Some (cm_blocks P (if length key \<ge> 32 then take 32 key else take 16 key) iv 0 n) }"

definition derive_key_aead :: "prims \<Rightarrow> bytes \<Rightarrow> bytes \<Rightarrow> u8 \<Rightarrow> nat \<Rightarrow> bytes option" where
  "derive_key_aead P key salt label n = do {
     rassert (length key \<ge> 16);
     rassert (n \<le> 32);
     rassert (length salt \<le> 14);
     aes_cm_generate P key (xor_at 7 [label] (salt @ replicate (16 - length salt) 0)) n }"

definition derive_key_prf :: "prims \<Rightarrow> bytes \<Rightarrow> bytes \<Rightarrow> u8 \<Rightarrow> u64 \<Rightarrow> nat \<Rightarrow> bytes option" where
  "derive_key_prf P key salt label index n = do {
     rassert (length key \<ge> 16);
     rassert (n \<le> 32);
     let x = (if index = 0 then 0 else index);
     let s = take (min (length salt) 14) salt;
     let iv = xor_at 7 [label] (s @ replicate (16 - length s) 0);
     aes_cm_generate P key (if x \<noteq> 0 then xor_at 8 (drop 2 (to_be64 x)) iv else iv) n }"

definition LABEL_RTP_ENCRYPTION :: u8 where "LABEL_RTP_ENCRYPTION = 0"
definition LABEL_RTP_AUTH :: u8 where "LABEL_RTP_AUTH = 1"
definition LABEL_RTP_SALT :: u8 where "LABEL_RTP_SALT = 2"
definition LABEL_RTCP_ENCRYPTION :: u8 where "LABEL_RTCP_ENCRYPTION = 3"
definition LABEL_RTCP_AUTH :: u8 where "LABEL_RTCP_AUTH = 4"
definition LABEL_RTCP_SALT :: u8 where "LABEL_RTCP_SALT = 5"

definition derive_aead_keys :: "prims \<Rightarrow> key_material \<Rightarrow> srtp_keys option" where
  "derive_aead_keys P m = do {
     rassert (profile_is_aead (km_profile m));
     let kl = profile_key_len (km_profile m);
     let sl = profile_salt_len (km_profile m);
     k \<leftarrow> derive_key_aead P (km_key m) (km_salt m) LABEL_RTP_ENCRYPTION kl;
     s \<leftarrow> derive_key_aead P (km_key m) (km_salt m) LABEL_RTP_SALT sl;
     ck \<leftarrow> derive_key_aead P (km_key m) (km_salt m) LABEL_RTCP_ENCRYPTION kl;
     cs \<leftarrow> derive_key_aead P (km_key m) (km_salt m) LABEL_RTCP_SALT sl;
     Some \<lparr>sk_rtp_key = k, sk_rtp_salt = s, sk_rtp_auth = [], sk_rtcp_key = ck, sk_rtcp_salt = cs,
       sk_rtcp_auth = [], sk_profile = km_profile m\<rparr> }"

definition derive_prf_keys :: "prims \<Rightarrow> key_material \<Rightarrow> srtp_keys option" where
  "derive_prf_keys P m = do {
     rassert (\<not> profile_is_aead (km_profile m));
     let kl = profile_key_len (km_profile m);
     let sl = profile_salt_len (km_profile m);
     k \<leftarrow> derive_key_prf P (km_key m) (km_salt m) LABEL_RTP_ENCRYPTION 0 kl;
     s \<leftarrow> derive_key_prf P (km_key m) (km_salt m) LABEL_RTP_SALT 0 sl;
     a \<leftarrow> derive_key_prf P (km_key m) (km_salt m) LABEL_RTP_AUTH 0 20;
     ck \<leftarrow> derive_key_prf P (km_key m) (km_salt m) LABEL_RTCP_ENCRYPTION 0 kl;
     cs \<leftarrow> derive_key_prf P (km_key m) (km_salt m) LABEL_RTCP_SALT 0 sl;
     ca \<leftarrow> derive_key_prf P (km_key m) (km_salt m) LABEL_RTCP_AUTH 0 20;
     Some \<lparr>sk_rtp_key = k, sk_rtp_salt = s, sk_rtp_auth = a, sk_rtcp_key = ck, sk_rtcp_salt = cs,
       sk_rtcp_auth = ca, sk_profile = km_profile m\<rparr> }"

definition derive_keys :: "prims \<Rightarrow> key_material \<Rightarrow> srtp_keys option" where
  "derive_keys P m = do {
     rassert (length (km_key m) > 0);
     rassert (length (km_salt m) > 0);
     if profile_is_aead (km_profile m) then derive_aead_keys P m else derive_prf_keys P m }"

text \<open>
  The constructors.  \<^verbatim>\<open>UnboundKey::new\<close> only refuses a key of the wrong
  length, which the assertion before it excludes, and the HMAC constructor
  accepts every key length.
\<close>

definition gcm_cipher_new :: "srtp_keys \<Rightarrow> (srtp_error + gcm_cipher) option" where
  "gcm_cipher_new k =
     (if \<not> profile_is_aead (sk_profile k) then Some (Inl UnsupportedCipherSuite)
      else do {
        let kl = (if sk_profile k = AeadAes128Gcm then 16 else 32);
        rassert (length (sk_rtp_key k) = kl);
        rassert (length (sk_rtcp_key k) = kl);
        rassert (length (sk_rtp_salt k) = 12);
        rassert (length (sk_rtcp_salt k) = 12);
        Some (Inr \<lparr>gc_rtp_key = sk_rtp_key k, gc_rtp_salt = sk_rtp_salt k,
          gc_rtcp_key = sk_rtcp_key k, gc_rtcp_salt = sk_rtcp_salt k\<rparr>) })"

definition cm_cipher_new :: "srtp_keys \<Rightarrow> (srtp_error + cm_cipher) option" where
  "cm_cipher_new k = do {
     rassert (\<not> profile_is_aead (sk_profile k));
     rassert (length (sk_rtp_key k) = 16);
     let tag_len = profile_tag_len (sk_profile k);
     rassert (tag_len = 10 \<or> tag_len = 4);
     rassert (length (sk_rtp_salt k) = 14);
     rassert (length (sk_rtcp_salt k) = 14);
     rassert (length (sk_rtcp_key k) = 16);
     Some (Inr \<lparr>cm_rtp_key = sk_rtp_key k, cm_rtp_salt = sk_rtp_salt k, cm_rtp_auth = sk_rtp_auth k,
       cm_rtcp_key = sk_rtcp_key k, cm_rtcp_salt = sk_rtcp_salt k, cm_rtcp_auth = sk_rtcp_auth k,
       cm_tag_len = tag_len\<rparr>) }"

definition cipher_new :: "srtp_keys \<Rightarrow> (srtp_error + srtp_cipher) option" where
  "cipher_new k =
     (if profile_is_aead (sk_profile k)
      then map_option (map_sum id AesGcm) (gcm_cipher_new k)
      else map_option (map_sum id AesCmHmac) (cm_cipher_new k))"

section \<open>Lengths\<close>

lemma cm_blocks_length:
  "prims_ok P \<Longrightarrow> length iv = 16 \<Longrightarrow> length (cm_blocks P key iv ctr n) = n"
proof (induction n arbitrary: ctr rule: less_induct)
  case (less n)
  have "length (pr_aes_block P key (take 14 iv @ to_be16 ctr)) = 16"
    using less.prems by (simp add: prims_ok_def)
  then show ?case using less.IH[of "n - 16" "ctr + 1"] less.prems
    by (subst cm_blocks.simps) auto
qed

lemma derive_key_aead_length:
  "prims_ok P \<Longrightarrow> 16 \<le> length key \<Longrightarrow> n \<le> 32 \<Longrightarrow> length salt \<le> 14 \<Longrightarrow>
   \<exists>k. derive_key_aead P key salt label n = Some k \<and> length k = n"
  by (simp add: derive_key_aead_def aes_cm_generate_def cm_blocks_length)

lemma derive_key_prf_length:
  "prims_ok P \<Longrightarrow> 16 \<le> length key \<Longrightarrow> n \<le> 32 \<Longrightarrow>
   \<exists>k. derive_key_prf P key salt label 0 n = Some k \<and> length k = n"
  by (simp add: derive_key_prf_def aes_cm_generate_def cm_blocks_length Let_def)

definition material_ok :: "key_material \<Rightarrow> bool" where
  "material_ok m \<longleftrightarrow> length (km_key m) = profile_key_len (km_profile m) \<and>
     length (km_salt m) = profile_salt_len (km_profile m)"

lemma from_dtls_export_ok: "from_dtls_export d p = Inr m \<Longrightarrow> material_ok m \<and> km_profile m = p"
  by (auto simp: from_dtls_export_def material_ok_def Let_def split: if_splits)

lemma cipher_of_material:
  assumes ok: "prims_ok P" and m: "material_ok m"
  shows "\<exists>k c. derive_keys P m = Some k \<and> cipher_new k = Some (Inr c) \<and> cipher_ok c \<and>
    cipher_tag_len c = profile_tag_len (km_profile m)"
proof -
  have key: "16 \<le> length (km_key m)" and salt: "length (km_salt m) \<le> 14" "length (km_salt m) > 0"
    using m by (cases "km_profile m"; simp add: material_ok_def)+
  note a = derive_key_aead_length[OF ok key _ salt(1)] and p = derive_key_prf_length[OF ok key]
  have key0: "km_key m \<noteq> []" "km_salt m \<noteq> []" using key salt by auto
  show ?thesis
  proof (cases "profile_is_aead (km_profile m)")
    case True
    obtain k s ck cs where "derive_key_aead P (km_key m) (km_salt m) LABEL_RTP_ENCRYPTION (profile_key_len (km_profile m)) = Some k"
      "derive_key_aead P (km_key m) (km_salt m) LABEL_RTP_SALT (profile_salt_len (km_profile m)) = Some s"
      "derive_key_aead P (km_key m) (km_salt m) LABEL_RTCP_ENCRYPTION (profile_key_len (km_profile m)) = Some ck"
      "derive_key_aead P (km_key m) (km_salt m) LABEL_RTCP_SALT (profile_salt_len (km_profile m)) = Some cs"
      "length k = profile_key_len (km_profile m)" "length s = profile_salt_len (km_profile m)"
      "length ck = profile_key_len (km_profile m)" "length cs = profile_salt_len (km_profile m)"
      using a[of "profile_key_len (km_profile m)" LABEL_RTP_ENCRYPTION] a[of "profile_salt_len (km_profile m)" LABEL_RTP_SALT]
        a[of "profile_key_len (km_profile m)" LABEL_RTCP_ENCRYPTION] a[of "profile_salt_len (km_profile m)" LABEL_RTCP_SALT]
      by (cases "km_profile m") auto
    then show ?thesis using True key0
      by (cases "km_profile m")
        (simp_all add: derive_keys_def derive_aead_keys_def cipher_new_def gcm_cipher_new_def SRTP_AUTH_TAG_SIZE_def)
  next
    case False
    obtain k s au ck cs ca where "derive_key_prf P (km_key m) (km_salt m) LABEL_RTP_ENCRYPTION 0 16 = Some k"
      "derive_key_prf P (km_key m) (km_salt m) LABEL_RTP_SALT 0 14 = Some s"
      "derive_key_prf P (km_key m) (km_salt m) LABEL_RTP_AUTH 0 20 = Some au"
      "derive_key_prf P (km_key m) (km_salt m) LABEL_RTCP_ENCRYPTION 0 16 = Some ck"
      "derive_key_prf P (km_key m) (km_salt m) LABEL_RTCP_SALT 0 14 = Some cs"
      "derive_key_prf P (km_key m) (km_salt m) LABEL_RTCP_AUTH 0 20 = Some ca"
      "length k = 16" "length s = 14" "length ck = 16" "length cs = 14"
      using p[of 16 _ LABEL_RTP_ENCRYPTION] p[of 14 _ LABEL_RTP_SALT] p[of 20 _ LABEL_RTP_AUTH]
        p[of 16 _ LABEL_RTCP_ENCRYPTION] p[of 14 _ LABEL_RTCP_SALT] p[of 20 _ LABEL_RTCP_AUTH]
      by fastforce
    then show ?thesis using False key0
      by (cases "km_profile m")
        (simp_all add: derive_keys_def derive_prf_keys_def cipher_new_def cm_cipher_new_def)
  qed
qed

end
