(* ===== verification/Replay_Window.thy ===== *)
theory Replay_Window
  imports Nexus_Prelude
begin

text \<open>
  The sliding-window replay filter, \<^verbatim>\<open>nexus-transport/src/srtp/replay.rs\<close>.
  \<open>replay_abs r A\<close> is its specification: the filter state \<open>r\<close>
  represents the set \<open>A\<close> of the packet indices accepted so far.
  The contract \<open>once_filter\<close> is what the SRTP contexts rely on.
\<close>

section \<open>Definitions\<close>

definition REPLAY_WINDOW_SIZE :: u64 where
  "REPLAY_WINDOW_SIZE = 64"

record replay =
  rp_highest :: u64
  rp_window :: u64
  rp_window_size :: u64
  rp_enabled :: bool
  rp_packets_checked :: u64
  rp_replays_detected :: u64

definition replay_new :: replay where
  "replay_new = \<lparr>rp_highest = 0, rp_window = 0, rp_window_size = REPLAY_WINDOW_SIZE,
     rp_enabled = True, rp_packets_checked = 0, rp_replays_detected = 0\<rparr>"

definition replay_with_window_size :: "u64 \<Rightarrow> replay" where
  "replay_with_window_size n = (let n = (if n > 64 then 64 else n) in
     \<lparr>rp_highest = 0, rp_window = 0, rp_window_size = n,
      rp_enabled = True, rp_packets_checked = 0, rp_replays_detected = 0\<rparr>)"

definition replay_disabled :: replay where
  "replay_disabled = \<lparr>rp_highest = 0, rp_window = 0, rp_window_size = REPLAY_WINDOW_SIZE,
     rp_enabled = False, rp_packets_checked = 0, rp_replays_detected = 0\<rparr>"

definition is_first_packet :: "replay \<Rightarrow> bool" where
  "is_first_packet r \<longleftrightarrow> rp_highest r = 0 \<and> rp_window r = 0"

text \<open>Both checks return whether the index passed; \<^term>\<open>None\<close> is the failed assertion.\<close>

definition check_window_bit :: "u64 \<Rightarrow> replay \<Rightarrow> (bool \<times> replay) option" where
  "check_window_bit d r = do {
     rassert (d < 64);
     if rp_window r AND push_bit (unat d) 1 \<noteq> 0
     then Some (False, r\<lparr>rp_replays_detected := rp_replays_detected r + 1\<rparr>)
     else Some (True, r) }"

definition validate_index :: "u64 \<Rightarrow> replay \<Rightarrow> (bool \<times> replay) option" where
  "validate_index i r =
     (if i > rp_highest r then Some (True, r)
      else let d = rp_highest r - i in
        if d \<ge> rp_window_size r
        then Some (False, r\<lparr>rp_replays_detected := rp_replays_detected r + 1\<rparr>)
        else check_window_bit d r)"

definition replay_check :: "u64 \<Rightarrow> replay \<Rightarrow> (bool \<times> replay) option" where
  "replay_check i r = (let r = r\<lparr>rp_packets_checked := rp_packets_checked r + 1\<rparr> in
     if \<not> rp_enabled r then Some (True, r)
     else if is_first_packet r then Some (True, r)
     else validate_index i r)"

definition accept_first_packet :: "u64 \<Rightarrow> replay \<Rightarrow> replay option" where
  "accept_first_packet i r = do {
     rassert (rp_highest r = 0 \<and> rp_window r = 0);
     Some (r\<lparr>rp_highest := i, rp_window := 1\<rparr>) }"

definition accept_newer_packet :: "u64 \<Rightarrow> replay \<Rightarrow> replay option" where
  "accept_newer_packet i r = do {
     rassert (i > rp_highest r);
     let shift = i - rp_highest r;
     let w = (if shift \<ge> 64 then 1 else push_bit (unat shift) (rp_window r) OR 1);
     Some (r\<lparr>rp_window := w, rp_highest := i\<rparr>) }"

definition accept_older_packet :: "u64 \<Rightarrow> replay \<Rightarrow> replay option" where
  "accept_older_packet i r = do {
     rassert (i \<le> rp_highest r);
     let d = rp_highest r - i;
     Some (if d < 64 then r\<lparr>rp_window := rp_window r OR push_bit (unat d) 1\<rparr> else r) }"

definition replay_accept :: "u64 \<Rightarrow> replay \<Rightarrow> replay option" where
  "replay_accept i r =
     (if \<not> rp_enabled r then Some r
      else if is_first_packet r then accept_first_packet i r
      else if i > rp_highest r then accept_newer_packet i r
      else accept_older_packet i r)"

definition check_and_accept :: "u64 \<Rightarrow> replay \<Rightarrow> (bool \<times> replay) option" where
  "check_and_accept i r = do {
     (ok, r) \<leftarrow> replay_check i r;
     if ok then do { r \<leftarrow> replay_accept i r; Some (True, r) } else Some (False, r) }"

definition replay_reset :: "replay \<Rightarrow> replay" where
  "replay_reset r = r\<lparr>rp_highest := 0, rp_window := 0, rp_packets_checked := 0, rp_replays_detected := 0\<rparr>"

section \<open>Specification\<close>

definition replay_abs :: "replay \<Rightarrow> u64 set \<Rightarrow> bool" where
  "replay_abs r A \<longleftrightarrow> rp_enabled r \<and> rp_window_size r \<le> 64 \<and>
     (if A = {} then rp_highest r = 0 \<and> rp_window r = 0
      else rp_highest r \<in> A \<and> (\<forall>i\<in>A. i \<le> rp_highest r) \<and>
        (\<forall>d<64. bit (rp_window r) (unat d) \<longleftrightarrow> d \<le> rp_highest r \<and> rp_highest r - d \<in> A))"

text \<open>The indices the filter lets through, for a set of already accepted ones.\<close>

definition replay_admits :: "u64 set \<Rightarrow> u64 \<Rightarrow> u64 \<Rightarrow> u64 \<Rightarrow> bool" where
  "replay_admits A hi ws i \<longleftrightarrow> A = {} \<or> i > hi \<or> hi - i < ws \<and> i \<notin> A"

lemma word_diff_le: "i \<le> h \<Longrightarrow> h - i \<le> (h :: 'a::len word)"
  by (simp add: word_le_nat_alt unat_sub)

lemma replay_abs_first:
  assumes "replay_abs r A" shows "is_first_packet r \<longleftrightarrow> A = {}"
proof -
  have "\<lbrakk>A \<noteq> {}; rp_window r = 0\<rbrakk> \<Longrightarrow> False"
    using assms by (auto simp: replay_abs_def dest!: spec[of _ 0])
  then show ?thesis using assms by (auto simp: replay_abs_def is_first_packet_def)
qed

lemma replay_new_abs [simp]: "replay_abs replay_new {}"
  by (simp add: replay_abs_def replay_new_def REPLAY_WINDOW_SIZE_def)

lemma replay_with_window_size_abs: "replay_abs (replay_with_window_size n) {}"
  by (auto simp: replay_abs_def replay_with_window_size_def Let_def)

lemma replay_reset_abs: "replay_abs r A \<Longrightarrow> replay_abs (replay_reset r) {}"
  by (simp add: replay_abs_def replay_reset_def split: if_splits)

lemma replay_check_spec:
  assumes "replay_abs r A"
  shows "\<exists>r'. replay_check i r = Some (replay_admits A (rp_highest r) (rp_window_size r) i, r') \<and>
    replay_abs r' A"
proof (cases "A = {}")
  case True
  then show ?thesis using replay_abs_first[OF assms] assms
    by (simp add: replay_check_def replay_admits_def replay_abs_def is_first_packet_def Let_def)
next
  case False
  have lim: "rp_highest r - i < rp_window_size r \<Longrightarrow> rp_highest r - i < 64"
    using assms by (auto simp: replay_abs_def)
  have mem: "\<lbrakk>i \<le> rp_highest r; rp_highest r - i < 64\<rbrakk> \<Longrightarrow>
      bit (rp_window r) (unat (rp_highest r - i)) \<longleftrightarrow> i \<in> A"
    using assms False by (auto simp: replay_abs_def word_diff_le)
  have hi: "i > rp_highest r \<Longrightarrow> i \<notin> A" using assms False by (auto simp: replay_abs_def)
  show ?thesis using False assms replay_abs_first[OF assms] lim mem hi
    by (auto simp: replay_check_def validate_index_def check_window_bit_def replay_admits_def
        replay_abs_def is_first_packet_def and_exp_eq_0_iff_not_bit Let_def not_less word_diff_le)
qed

lemma newer_abs:
  assumes abs: "replay_abs r A" and ne: "A \<noteq> {}" and new: "i > rp_highest r"
  defines "w \<equiv> (if i - rp_highest r \<ge> 64 then 1
    else push_bit (unat (i - rp_highest r)) (rp_window r) OR 1)"
  shows "replay_abs (r\<lparr>rp_window := w, rp_highest := i\<rparr>) (insert i A)"
proof -
  let ?h = "rp_highest r" and ?s = "i - rp_highest r"
  have s: "unat ?s = unat i - unat ?h" using new by (simp add: unat_sub)
  have old: "x \<in> A \<Longrightarrow> x \<le> ?h" for x using abs ne by (auto simp: replay_abs_def)
  have win: "d < 64 \<Longrightarrow> bit (rp_window r) (unat d) \<longleftrightarrow> d \<le> ?h \<and> ?h - d \<in> A" for d
    using abs ne by (auto simp: replay_abs_def)
  have "bit w (unat d) \<longleftrightarrow> d \<le> i \<and> i - d \<in> insert i A" if d: "d < 64" for d
  proof (cases "d = 0")
    case True then show ?thesis by (simp add: w_def bit_simps)
  next
    case nz: False
    have ins: "d \<le> i \<Longrightarrow> i - d \<in> insert i A \<longleftrightarrow> i - d \<in> A" using nz by simp
    show ?thesis
    proof (cases "d < ?s")
      case True
      have "i - d \<notin> A" using old[of "i - d"] True new
        by (auto simp: word_le_nat_alt word_less_nat_alt unat_sub_if' split: if_splits)
      moreover have "\<not> bit w (unat d)" using True d nz
        by (auto simp: w_def bit_simps word_less_nat_alt unat_eq_0)
      ultimately show ?thesis using ins by auto
    next
      case False
      then have le: "?s \<le> d" by simp
      then have w: "bit w (unat d) \<longleftrightarrow> bit (rp_window r) (unat (d - ?s))"
        using d nz by (auto simp: w_def bit_simps word_le_nat_alt word_less_nat_alt unat_sub unat_eq_0)
      have ds: "d - ?s < 64" using le d
        by (simp add: word_le_nat_alt word_less_nat_alt unat_sub)
      have eq: "?h - (d - ?s) = i - d" by (simp add: algebra_simps)
      have "d - ?s \<le> ?h \<longleftrightarrow> d \<le> i" using le s new
        by (auto simp: word_le_nat_alt word_less_nat_alt unat_sub)
      then show ?thesis using win[OF ds] w eq ins by auto
    qed
  qed
  then show ?thesis using abs ne new old by (fastforce simp: replay_abs_def)
qed

lemma older_abs:
  assumes abs: "replay_abs r A" and ne: "A \<noteq> {}" and old: "i \<le> rp_highest r"
  defines "d \<equiv> rp_highest r - i"
  shows "replay_abs (if d < 64 then r\<lparr>rp_window := rp_window r OR push_bit (unat d) 1\<rparr> else r) (insert i A)"
proof -
  have eq: "rp_highest r - e = i \<longleftrightarrow> e = d" for e by (auto simp: d_def algebra_simps)
  have dle: "d \<le> rp_highest r" using old by (simp add: d_def word_diff_le)
  have bits: "e < 64 \<Longrightarrow> d < 64 \<Longrightarrow> bit (push_bit (unat d) (1 :: u64)) (unat e) \<longleftrightarrow> e = d" for e
    by (auto simp: bit_simps word_less_nat_alt word_unat_eq_iff)
  show ?thesis using abs ne old bits dle eq
    by (auto simp: replay_abs_def bit_or_iff)
qed

lemma replay_accept_spec:
  assumes "replay_abs r A"
  shows "\<exists>r'. replay_accept i r = Some r' \<and> replay_abs r' (insert i A) \<and>
    rp_window_size r' = rp_window_size r \<and> rp_highest r' = (if A = {} then i else max i (rp_highest r))"
proof (cases "A = {}")
  case True
  have "bit (1 :: u64) (unat d) \<longleftrightarrow> d = 0" for d :: u64
    by (simp add: bit_1_iff unat_eq_0)
  then show ?thesis using True replay_abs_first[OF assms] assms
    by (auto simp: replay_accept_def accept_first_packet_def replay_abs_def is_first_packet_def)
next
  case False
  show ?thesis
  proof (cases "i > rp_highest r")
    case True
    then show ?thesis using newer_abs[OF assms False True] False replay_abs_first[OF assms] assms
      by (auto simp: replay_accept_def accept_newer_packet_def replay_abs_def[of r] Let_def max_def)
  next
    case older: False
    then show ?thesis using older_abs[OF assms False, of i] False replay_abs_first[OF assms] assms
      by (auto simp: replay_accept_def accept_older_packet_def replay_abs_def[of r] Let_def max_def not_less)
  qed
qed

section \<open>The at-most-once contract\<close>

locale once_filter =
  fixes of_abs :: "'s \<Rightarrow> 'i set \<Rightarrow> bool"
    and of_check :: "'i \<Rightarrow> 's \<Rightarrow> (bool \<times> 's) option"
    and of_accept :: "'i \<Rightarrow> 's \<Rightarrow> 's option"
  assumes check_ok: "of_abs s A \<Longrightarrow> \<exists>b s'. of_check i s = Some (b, s') \<and> of_abs s' A \<and> (b \<longrightarrow> i \<notin> A)"
    and accept_ok: "of_abs s A \<Longrightarrow> \<exists>s'. of_accept i s = Some s' \<and> of_abs s' (insert i A)"
begin

lemma check_total: "of_abs s A \<Longrightarrow> of_check i s \<noteq> None"
  using check_ok[of s A i] by auto

lemma check_Some:
  "of_abs s A \<Longrightarrow> of_check i s = Some (b, s') \<Longrightarrow> of_abs s' A \<and> (b \<longrightarrow> i \<notin> A)"
  using check_ok[of s A i] by auto

lemma accept_Some: "of_abs s A \<Longrightarrow> of_accept i s = Some s' \<Longrightarrow> of_abs s' (insert i A)"
  using accept_ok[of s A i] by auto

end

interpretation rp: once_filter replay_abs replay_check replay_accept
proof (unfold_locales, goal_cases)
  case (1 r A i)
  have "rp_highest r < i \<Longrightarrow> A \<noteq> {} \<Longrightarrow> i \<notin> A" using 1 by (auto simp: replay_abs_def)
  then show ?case using replay_check_spec[OF 1, of i] by (auto simp: replay_admits_def)
next
  case (2 r A i)
  then show ?case using replay_accept_spec by blast
qed

text \<open>A receiver that feeds a sequence of authenticated indices through the filter.\<close>

fun replay_feed :: "u64 list \<Rightarrow> replay \<Rightarrow> (u64 list \<times> replay) option" where
  "replay_feed [] r = Some ([], r)"
| "replay_feed (i # is) r = do {
     (ok, r) \<leftarrow> check_and_accept i r;
     (acc, r) \<leftarrow> replay_feed is r;
     Some (if ok then i # acc else acc, r) }"

lemma check_and_accept_abs:
  assumes "replay_abs r A"
  shows "\<exists>b r'. check_and_accept i r = Some (b, r') \<and> replay_abs r' (if b then insert i A else A) \<and>
    (b \<longrightarrow> i \<notin> A)"
proof -
  obtain b r1 where c: "replay_check i r = Some (b, r1)" "replay_abs r1 A" "b \<longrightarrow> i \<notin> A"
    using rp.check_ok[OF assms] by blast
  then show ?thesis using rp.accept_ok[OF c(2), of i]
    by (cases b) (auto simp: check_and_accept_def)
qed

lemma replay_feed_abs:
  "replay_abs r A \<Longrightarrow> \<exists>acc r'. replay_feed is r = Some (acc, r') \<and> replay_abs r' (A \<union> set acc) \<and>
    distinct acc \<and> set acc \<inter> A = {}"
proof (induction "is" arbitrary: r A)
  case (Cons i "is")
  obtain b r1 where c: "check_and_accept i r = Some (b, r1)" "replay_abs r1 (if b then insert i A else A)"
    "b \<longrightarrow> i \<notin> A" using check_and_accept_abs[OF Cons.prems] by blast
  obtain acc r2 where f: "replay_feed is r1 = Some (acc, r2)"
    "replay_abs r2 ((if b then insert i A else A) \<union> set acc)" "distinct acc"
    "set acc \<inter> (if b then insert i A else A) = {}" using Cons.IH[OF c(2)] by blast
  then show ?case using c by (cases b) (auto simp: insert_commute)
qed simp

end
