(* ===== verification/Srtp_Direction.thy ===== *)
theory Srtp_Direction
  imports Srtp_Keys Replay_Window
begin

text \<open>
  The per-direction SRTP contexts of the shard,
  \<^verbatim>\<open>nexus-transport/src/srtp/direction.rs\<close>: \<open>srtp_inbound\<close> with its slot
  table, pinning and eviction, and \<open>srtp_outbound\<close> with registration by
  increasing offset.  Every operation returns the new context; an inner
  \<^term>\<open>None\<close> is the source's refusal, an outer one a panic.  The stateful
  part of the results is returned on every branch, because a refused packet
  still counts in the replay statistics.

  The main results: whatever sequence of operations an outbound context sees,
  it never protects the same (SSRC, index) twice, so no GCM nonce or counter
  block is reused, and no operation panics; a pinned inbound SSRC keeps its
  slot and never has an index accepted twice.
\<close>

section \<open>Slots\<close>

text \<open>The state after \<^verbatim>\<open>roc.update(seq)\<close>, whose error leaves it unchanged.\<close>

definition roc_next :: "u16 \<Rightarrow> roc_state \<Rightarrow> roc_state" where
  "roc_next sq st = (case roc_update sq st of Inl _ \<Rightarrow> st | Inr st' \<Rightarrow> st')"

definition INBOUND_SSRC_SLOTS :: nat where "INBOUND_SSRC_SLOTS = 16"
definition INBOUND_PINNED_MAX :: nat where "INBOUND_PINNED_MAX = 12"
definition OUTBOUND_SSRC_SLOTS :: nat where "OUTBOUND_SSRC_SLOTS = 32"
definition INBOUND_IDLE_EVICT_S :: u32 where "INBOUND_IDLE_EVICT_S = 30"
definition MAX_SSRC_OFFSET :: u32 where "MAX_SSRC_OFFSET = 0x7FFFFFFF"

record ssrc_in =
  si_ssrc :: u32
  si_live :: bool
  si_pinned :: bool
  si_roc :: roc_state
  si_rtp_replay :: replay
  si_rtcp_replay :: replay
  si_last_seen_s :: u32

definition ssrc_in_empty :: ssrc_in where
  "ssrc_in_empty = \<lparr>si_ssrc = 0, si_live = False, si_pinned = False, si_roc = roc_new,
     si_rtp_replay = replay_new, si_rtcp_replay = replay_new, si_last_seen_s = 0\<rparr>"

definition ssrc_in_fresh :: "u32 \<Rightarrow> u32 \<Rightarrow> ssrc_in" where
  "ssrc_in_fresh ssrc now_s = ssrc_in_empty\<lparr>si_ssrc := ssrc, si_live := True, si_last_seen_s := now_s\<rparr>"

record ssrc_out =
  so_ssrc :: u32
  so_live :: bool
  so_roc :: roc_state
  so_sent :: replay
  so_srtcp_index :: u32

definition ssrc_out_empty :: ssrc_out where
  "ssrc_out_empty = \<lparr>so_ssrc = 0, so_live = False, so_roc = roc_new, so_sent = replay_new,
     so_srtcp_index = 0\<rparr>"

definition ssrc_out_fresh :: "u32 \<Rightarrow> ssrc_out" where
  "ssrc_out_fresh ssrc = ssrc_out_empty\<lparr>so_ssrc := ssrc, so_live := True\<rparr>"

definition sat_sub32 :: "u32 \<Rightarrow> u32 \<Rightarrow> u32" where
  "sat_sub32 a b = (if b \<le> a then a - b else 0)"

definition srtcp_trailer_offset :: "srtp_cipher \<Rightarrow> nat \<Rightarrow> nat option" where
  "srtcp_trailer_offset c n =
     (let trailer = (case c of AesGcm _ \<Rightarrow> 4 | AesCmHmac _ \<Rightarrow> cipher_tag_len c + 4) in
      if trailer \<le> n \<and> n - trailer \<ge> RTCP_HEADER_SIZE then Some (n - trailer) else None)"

section \<open>Inbound\<close>

record srtp_inbound =
  in_cipher :: srtp_cipher
  in_slots :: "ssrc_in list"

definition inbound_new :: "srtp_cipher \<Rightarrow> srtp_inbound" where
  "inbound_new c = \<lparr>in_cipher = c, in_slots = replicate INBOUND_SSRC_SLOTS ssrc_in_empty\<rparr>"

definition in_ssrc_count :: "srtp_inbound \<Rightarrow> nat" where
  "in_ssrc_count x = length (filter si_live (in_slots x))"

definition in_pinned_count :: "srtp_inbound \<Rightarrow> nat" where
  "in_pinned_count x = length (filter (\<lambda>s. si_live s \<and> si_pinned s) (in_slots x))"

text \<open>\<^verbatim>\<open>min_by_key\<close> keeps the first of equal minima.\<close>

fun oldest_unpinned :: "nat \<Rightarrow> ssrc_in list \<Rightarrow> (nat \<times> u32) option" where
  "oldest_unpinned i [] = None"
| "oldest_unpinned i (s # ss) =
     (let rest = oldest_unpinned (i + 1) ss in
      if si_pinned s then rest
      else case rest of None \<Rightarrow> Some (i, si_last_seen_s s)
        | Some (j, t) \<Rightarrow> if si_last_seen_s s \<le> t then Some (i, si_last_seen_s s) else Some (j, t))"

definition slot_to_replace :: "srtp_inbound \<Rightarrow> nat option" where
  "slot_to_replace x = (case position (\<lambda>s. \<not> si_live s) (in_slots x) of
     Some i \<Rightarrow> Some i | None \<Rightarrow> map_option fst (oldest_unpinned 0 (in_slots x)))"

definition set_in_slot :: "nat \<Rightarrow> ssrc_in \<Rightarrow> srtp_inbound \<Rightarrow> srtp_inbound" where
  "set_in_slot i s x = x\<lparr>in_slots := (in_slots x)[i := s]\<rparr>"

definition inbound_pin :: "u32 \<Rightarrow> srtp_inbound \<Rightarrow> ((srtp_error + unit) \<times> srtp_inbound) option" where
  "inbound_pin ssrc x =
     (let existing = position (\<lambda>s. si_live s \<and> si_ssrc s = ssrc) (in_slots x) in
      if (case existing of Some i \<Rightarrow> si_pinned (in_slots x ! i) | None \<Rightarrow> False) then Some (Inr (), x)
      else if in_pinned_count x \<ge> INBOUND_PINNED_MAX then Some (Inl SessionLimitReached, x)
      else case (case existing of
            Some i \<Rightarrow> Some (i, x)
          | None \<Rightarrow> map_option (\<lambda>i. (i, set_in_slot i (ssrc_in_fresh ssrc 0) x)) (slot_to_replace x)) of
        None \<Rightarrow> Some (Inl SessionLimitReached, x)
      | Some (i, x) \<Rightarrow> do {
          s \<leftarrow> idx (in_slots x) i;
          let x = set_in_slot i (s\<lparr>si_pinned := True\<rparr>) x;
          rassert (in_pinned_count x \<le> INBOUND_PINNED_MAX);
          Some (Inr (), x) })"

definition inbound_unpin :: "u32 \<Rightarrow> srtp_inbound \<Rightarrow> srtp_inbound" where
  "inbound_unpin ssrc x = (case position (\<lambda>s. si_live s \<and> si_ssrc s = ssrc) (in_slots x) of
     None \<Rightarrow> x | Some i \<Rightarrow> set_in_slot i ((in_slots x ! i)\<lparr>si_pinned := False\<rparr>) x)"

text \<open>The scan of \<^verbatim>\<open>slot_for\<close>: the first free slot and the idlest unpinned one so far.\<close>

fun slot_scan :: "u32 \<Rightarrow> u32 \<Rightarrow> nat \<Rightarrow> nat option \<Rightarrow> (nat \<times> u32) option \<Rightarrow> ssrc_in list \<Rightarrow> nat option" where
  "slot_scan ssrc now_s i free idlest [] = (case free of
     Some f \<Rightarrow> Some f
   | None \<Rightarrow> (case idlest of
       Some (j, idle) \<Rightarrow> if idle > INBOUND_IDLE_EVICT_S then Some j else None
     | None \<Rightarrow> None))"
| "slot_scan ssrc now_s i free idlest (s # ss) =
     (if \<not> si_live s then slot_scan ssrc now_s (i + 1) (case free of Some f \<Rightarrow> Some f | None \<Rightarrow> Some i) idlest ss
      else if si_ssrc s = ssrc then Some i
      else if si_pinned s then slot_scan ssrc now_s (i + 1) free idlest ss
      else let idle = sat_sub32 now_s (si_last_seen_s s) in
        if (case idlest of None \<Rightarrow> True | Some (_, most) \<Rightarrow> idle > most)
        then slot_scan ssrc now_s (i + 1) free (Some (i, idle)) ss
        else slot_scan ssrc now_s (i + 1) free idlest ss)"

definition slot_for :: "u32 \<Rightarrow> u32 \<Rightarrow> srtp_inbound \<Rightarrow> nat option" where
  "slot_for ssrc now_s x = slot_scan ssrc now_s 0 None None (in_slots x)"

text \<open>The estimate and the replay check for a packet of a known SSRC.\<close>

definition known_index :: "u16 \<Rightarrow> ssrc_in \<Rightarrow> (u64 option \<times> ssrc_in) option" where
  "known_index sq s = (case estimate_index (si_roc s) sq of
     Inl _ \<Rightarrow> Some (None, s)
   | Inr i \<Rightarrow> do {
       (ok, r) \<leftarrow> replay_check i (si_rtp_replay s);
       Some (if ok then Some i else None, s\<lparr>si_rtp_replay := r\<rparr>) })"

definition accept_rtp :: "u64 \<Rightarrow> u16 \<Rightarrow> u32 \<Rightarrow> ssrc_in \<Rightarrow> ssrc_in option" where
  "accept_rtp i sq now_s s = do {
     r \<leftarrow> replay_accept i (si_rtp_replay s);
     let roc = roc_next sq (si_roc s);
     Some (s\<lparr>si_rtp_replay := r, si_roc := roc, si_last_seen_s := now_s\<rparr>) }"

definition inbound_unprotect_rtp ::
  "prims \<Rightarrow> bytes \<Rightarrow> nat \<Rightarrow> u32 \<Rightarrow> srtp_inbound \<Rightarrow> ((bytes \<times> nat) option \<times> srtp_inbound) option" where
  "inbound_unprotect_rtp P buf n now_s x =
     (if n < RTP_HEADER_SIZE \<or> n > length buf then Some (None, x)
      else do {
        sq \<leftarrow> u16_at buf 2;
        ssrc \<leftarrow> u32_at buf 8;
        case slot_for ssrc now_s x of
          None \<Rightarrow> Some (None, x)
        | Some slot \<Rightarrow> do {
            s \<leftarrow> idx (in_slots x) slot;
            let known = (si_live s \<and> si_ssrc s = ssrc);
            (i, s) \<leftarrow> (if known then known_index sq s else Some (Some (packet_index 0 sq), s));
            let x = set_in_slot slot s x;
            case i of
              None \<Rightarrow> Some (None, x)
            | Some i \<Rightarrow> do {
                r \<leftarrow> cipher_unprotect_rtp P (in_cipher x) buf n i;
                case r of
                  Inl _ \<Rightarrow> Some (None, x)
                | Inr (buf', out) \<Rightarrow> do {
                    s \<leftarrow> accept_rtp i sq now_s (if known then s else ssrc_in_fresh ssrc now_s);
                    Some (Some (buf', out), set_in_slot slot s x) } } } })"

definition inbound_unprotect_rtcp ::
  "prims \<Rightarrow> bytes \<Rightarrow> nat \<Rightarrow> u32 \<Rightarrow> srtp_inbound \<Rightarrow> ((bytes \<times> nat) option \<times> srtp_inbound) option" where
  "inbound_unprotect_rtcp P buf n now_s x =
     (if n < RTCP_HEADER_SIZE \<or> n > length buf then Some (None, x)
      else case srtcp_trailer_offset (in_cipher x) n of
        None \<Rightarrow> Some (None, x)
      | Some at \<Rightarrow> do {
          e_index \<leftarrow> u32_at buf at;
          if e_index AND SRTCP_E_FLAG = 0 then Some (None, x)
          else do {
            let i = e_index AND SRTCP_INDEX_MASK;
            ssrc \<leftarrow> u32_at buf 4;
            case slot_for ssrc now_s x of
              None \<Rightarrow> Some (None, x)
            | Some slot \<Rightarrow> do {
                s \<leftarrow> idx (in_slots x) slot;
                let known = (si_live s \<and> si_ssrc s = ssrc);
                (ok, r) \<leftarrow> (if known then replay_check (ucast i) (si_rtcp_replay s) else Some (True, si_rtcp_replay s));
                let s = s\<lparr>si_rtcp_replay := r\<rparr>;
                let x = set_in_slot slot s x;
                if \<not> ok then Some (None, x)
                else do {
                  r \<leftarrow> cipher_unprotect_rtcp P (in_cipher x) buf n;
                  case r of
                    Inl _ \<Rightarrow> Some (None, x)
                  | Inr (buf', out, _) \<Rightarrow> do {
                      let s = (if known then s else ssrc_in_fresh ssrc now_s);
                      rr \<leftarrow> replay_accept (ucast i) (si_rtcp_replay s);
                      Some (Some (buf', out),
                        set_in_slot slot (s\<lparr>si_rtcp_replay := rr, si_last_seen_s := now_s\<rparr>) x) } } } } })"

definition evict_one :: "u32 \<Rightarrow> u32 \<Rightarrow> ssrc_in \<Rightarrow> ssrc_in" where
  "evict_one now_s idle_s s =
     (if si_live s \<and> \<not> si_pinned s \<and> sat_sub32 now_s (si_last_seen_s s) > idle_s
      then s\<lparr>si_live := False\<rparr> else s)"

definition inbound_evict_idle :: "u32 \<Rightarrow> u32 \<Rightarrow> srtp_inbound \<Rightarrow> nat \<times> srtp_inbound" where
  "inbound_evict_idle now_s idle_s x =
     (length (filter (\<lambda>s. si_live s \<and> \<not> si_live (evict_one now_s idle_s s)) (in_slots x)),
      x\<lparr>in_slots := map (evict_one now_s idle_s) (in_slots x)\<rparr>)"

section \<open>Outbound\<close>

record srtp_outbound =
  out_cipher :: srtp_cipher
  out_slots :: "ssrc_out list"
  out_ssrc_base :: u32
  out_next_offset :: u32

definition outbound_new :: "srtp_cipher \<Rightarrow> u32 \<Rightarrow> srtp_outbound" where
  "outbound_new c base = \<lparr>out_cipher = c, out_slots = replicate OUTBOUND_SSRC_SLOTS ssrc_out_empty,
     out_ssrc_base = base, out_next_offset = 0\<rparr>"

definition outbound_from_material ::
  "prims \<Rightarrow> key_material \<Rightarrow> u32 \<Rightarrow> (srtp_error + srtp_outbound) option" where
  "outbound_from_material P m base = do {
     k \<leftarrow> derive_keys P m;
     c \<leftarrow> cipher_new k;
     Some (map_sum id (\<lambda>c. outbound_new c base) c) }"

definition inbound_from_material ::
  "prims \<Rightarrow> key_material \<Rightarrow> (srtp_error + srtp_inbound) option" where
  "inbound_from_material P m = do {
     k \<leftarrow> derive_keys P m;
     c \<leftarrow> cipher_new k;
     Some (map_sum id inbound_new c) }"

definition out_ssrc_count :: "srtp_outbound \<Rightarrow> nat" where
  "out_ssrc_count x = length (filter so_live (out_slots x))"

definition slot_of :: "u32 \<Rightarrow> srtp_outbound \<Rightarrow> nat option" where
  "slot_of ssrc x = position (\<lambda>s. so_live s \<and> so_ssrc s = ssrc) (out_slots x)"

definition set_out_slot :: "nat \<Rightarrow> ssrc_out \<Rightarrow> srtp_outbound \<Rightarrow> srtp_outbound" where
  "set_out_slot i s x = x\<lparr>out_slots := (out_slots x)[i := s]\<rparr>"

definition outbound_register :: "u32 \<Rightarrow> srtp_outbound \<Rightarrow> ((srtp_error + unit) \<times> srtp_outbound) option" where
  "outbound_register ssrc x =
     (let offset = ssrc - out_ssrc_base x in
      if offset < out_next_offset x \<or> offset > MAX_SSRC_OFFSET then Some (Inl InvalidSsrc, x)
      else case position (\<lambda>s. \<not> so_live s) (out_slots x) of
        None \<Rightarrow> Some (Inl SessionLimitReached, x)
      | Some i \<Rightarrow> do {
          let x = (set_out_slot i (ssrc_out_fresh ssrc) x)\<lparr>out_next_offset := offset + 1\<rparr>;
          rassert (length (filter (\<lambda>s. so_live s \<and> so_ssrc s = ssrc) (out_slots x)) = 1);
          Some (Inr (), x) })"

definition outbound_protect_rtp ::
  "prims \<Rightarrow> bytes \<Rightarrow> nat \<Rightarrow> srtp_outbound \<Rightarrow> ((bytes \<times> nat) option \<times> srtp_outbound) option" where
  "outbound_protect_rtp P buf n x =
     (if n < RTP_HEADER_SIZE \<or> n > length buf then Some (None, x)
      else do {
        sq \<leftarrow> u16_at buf 2;
        ssrc \<leftarrow> u32_at buf 8;
        case slot_of ssrc x of
          None \<Rightarrow> Some (None, x)
        | Some slot \<Rightarrow> do {
            s \<leftarrow> idx (out_slots x) slot;
            case estimate_index (so_roc s) sq of
              Inl _ \<Rightarrow> Some (None, x)
            | Inr i \<Rightarrow> do {
                (ok, sent) \<leftarrow> replay_check i (so_sent s);
                let s = s\<lparr>so_sent := sent\<rparr>;
                let x = set_out_slot slot s x;
                if \<not> ok then Some (None, x)
                else do {
                  r \<leftarrow> cipher_protect_rtp P (out_cipher x) buf n i;
                  case r of
                    Inl _ \<Rightarrow> Some (None, x)
                  | Inr (buf', out) \<Rightarrow> do {
                      sent \<leftarrow> replay_accept i (so_sent s);
                      let roc = roc_next sq (so_roc s);
                      Some (Some (buf', out), set_out_slot slot (s\<lparr>so_sent := sent, so_roc := roc\<rparr>) x) } } } } })"

definition outbound_protect_rtcp ::
  "prims \<Rightarrow> bytes \<Rightarrow> nat \<Rightarrow> srtp_outbound \<Rightarrow> ((bytes \<times> nat) option \<times> srtp_outbound) option" where
  "outbound_protect_rtcp P buf n x =
     (if n < RTCP_HEADER_SIZE \<or> n > length buf then Some (None, x)
      else do {
        ssrc \<leftarrow> u32_at buf 4;
        case slot_of ssrc x of
          None \<Rightarrow> Some (None, x)
        | Some slot \<Rightarrow> do {
            s \<leftarrow> idx (out_slots x) slot;
            let i = so_srtcp_index s;
            if i \<ge> SRTCP_INDEX_MASK then Some (None, x)
            else do {
              r \<leftarrow> cipher_protect_rtcp P (out_cipher x) buf n i;
              case r of
                Inl _ \<Rightarrow> Some (None, x)
              | Inr (buf', out) \<Rightarrow>
                  Some (Some (buf', out), set_out_slot slot (s\<lparr>so_srtcp_index := i + 1\<rparr>) x) } } })"

definition outbound_retire :: "u32 \<Rightarrow> srtp_outbound \<Rightarrow> srtp_outbound" where
  "outbound_retire ssrc x = (case slot_of ssrc x of
     None \<Rightarrow> x | Some i \<Rightarrow> set_out_slot i ((out_slots x ! i)\<lparr>so_live := False\<rparr>) x)"

lemma set_slot_sel [simp]:
  "out_cipher (set_out_slot i s x) = out_cipher x" "out_ssrc_base (set_out_slot i s x) = out_ssrc_base x"
  "in_cipher (set_in_slot i t y) = in_cipher y"
  "out_slots (set_out_slot i s x) = (out_slots x)[i := s]" "in_slots (set_in_slot i t y) = (in_slots y)[i := t]"
  "set_out_slot i s (set_out_slot i s' x) = set_out_slot i s x" "set_in_slot i t (set_in_slot i t' y) = set_in_slot i t y"
  by (simp_all add: set_out_slot_def set_in_slot_def)

section \<open>Outbound: every (SSRC, index) at most once\<close>

text \<open>
  \<open>out_inv x L M\<close>: the context \<open>x\<close> has protected RTP under the pairs in
  \<open>L\<close> and RTCP under the pairs in \<open>M\<close>.
\<close>

definition out_offset :: "srtp_outbound \<Rightarrow> u32 \<Rightarrow> u32" where
  "out_offset x ssrc = ssrc - out_ssrc_base x"

definition out_slot_ok :: "u32 \<Rightarrow> u32 \<Rightarrow> (u32 \<times> u64) set \<Rightarrow> (u32 \<times> u32) set \<Rightarrow> ssrc_out \<Rightarrow> bool" where
  "out_slot_ok base nxt L M s \<longleftrightarrow> (so_live s \<longrightarrow> so_ssrc s - base < nxt \<and>
     replay_abs (so_sent s) {i. (so_ssrc s, i) \<in> L} \<and>
     (\<forall>k. (so_ssrc s, k) \<in> M \<longrightarrow> k < so_srtcp_index s) \<and> so_srtcp_index s \<le> SRTCP_INDEX_MASK)"

definition distinct_live :: "ssrc_out list \<Rightarrow> bool" where
  "distinct_live ss \<longleftrightarrow> (\<forall>i<length ss. \<forall>j<length ss.
     so_live (ss ! i) \<and> so_live (ss ! j) \<and> so_ssrc (ss ! i) = so_ssrc (ss ! j) \<longrightarrow> i = j)"

definition out_inv :: "srtp_outbound \<Rightarrow> (u32 \<times> u64) set \<Rightarrow> (u32 \<times> u32) set \<Rightarrow> bool" where
  "out_inv x L M \<longleftrightarrow> distinct_live (out_slots x) \<and>
     (\<forall>i<length (out_slots x). out_slot_ok (out_ssrc_base x) (out_next_offset x) L M (out_slots x ! i)) \<and>
     (\<forall>s i. (s, i) \<in> L \<longrightarrow> s - out_ssrc_base x < out_next_offset x) \<and>
     (\<forall>s k. (s, k) \<in> M \<longrightarrow> s - out_ssrc_base x < out_next_offset x) \<and>
     out_next_offset x \<le> MAX_SSRC_OFFSET + 1"

lemma distinct_live_update:
  assumes "distinct_live ss" "i < length ss" "so_live s \<Longrightarrow> so_live (ss ! i) \<and> so_ssrc s = so_ssrc (ss ! i) \<or>
    (\<forall>j<length ss. so_live (ss ! j) \<longrightarrow> so_ssrc (ss ! j) \<noteq> so_ssrc s)"
  shows "distinct_live (ss[i := s])"
  using assms unfolding distinct_live_def by (auto simp: nth_list_update)

lemma distinct_live_count:
  assumes "distinct_live ss" "i < length ss" "so_live (ss ! i)"
  shows "length (filter (\<lambda>t. so_live t \<and> so_ssrc t = so_ssrc (ss ! i)) ss) = 1"
proof -
  have "{j. j < length ss \<and> so_live (ss ! j) \<and> so_ssrc (ss ! j) = so_ssrc (ss ! i)} = {i}"
    using assms unfolding distinct_live_def by blast
  then show ?thesis by (simp add: length_filter_conv_card)
qed

lemma out_inv_new: "out_inv (outbound_new c base) {} {}"
  by (simp add: out_inv_def outbound_new_def distinct_live_def out_slot_ok_def ssrc_out_empty_def
      OUTBOUND_SSRC_SLOTS_def MAX_SSRC_OFFSET_def)

lemma slot_of_Some:
  "slot_of ssrc x = Some i \<Longrightarrow> i < length (out_slots x) \<and> so_live (out_slots x ! i) \<and> so_ssrc (out_slots x ! i) = ssrc"
  using position_Some[of _ "out_slots x" i] by (fastforce simp: slot_of_def)

text \<open>A slot changes and the logs grow by pairs of its own SSRC only.\<close>

lemma out_inv_update:
  assumes inv: "out_inv x L M" and i: "i < length (out_slots x)" and live: "so_live (out_slots x ! i)"
    and s: "so_ssrc s = so_ssrc (out_slots x ! i)"
    and ok: "out_slot_ok (out_ssrc_base x) (out_next_offset x) (L \<union> L') (M \<union> M') s"
    and L': "\<And>a k. (a, k) \<in> L' \<Longrightarrow> a = so_ssrc s" and M': "\<And>a k. (a, k) \<in> M' \<Longrightarrow> a = so_ssrc s"
  shows "out_inv (set_out_slot i s x) (L \<union> L') (M \<union> M')"
proof -
  have dl0: "distinct_live (out_slots x)" using inv by (simp add: out_inv_def)
  have dl: "distinct_live ((out_slots x)[i := s])"
    using dl0 i live s by (intro distinct_live_update) auto
  have slot: "out_slot_ok (out_ssrc_base x) (out_next_offset x) (L \<union> L') (M \<union> M') ((out_slots x)[i := s] ! j)"
    if j: "j < length (out_slots x)" for j
  proof (cases "j = i")
    case False
    have "so_live (out_slots x ! j) \<Longrightarrow> so_ssrc (out_slots x ! j) \<noteq> so_ssrc s"
      using dl0 False i j live s unfolding distinct_live_def by metis
    then have "so_live (out_slots x ! j) \<Longrightarrow> (so_ssrc (out_slots x ! j), a) \<notin> L' \<and> (so_ssrc (out_slots x ! j), b) \<notin> M'" for a b
      using L' M' by blast
    then show ?thesis using inv j False by (auto simp: out_inv_def out_slot_ok_def)
  qed (use ok i in simp)
  have "so_ssrc s - out_ssrc_base x < out_next_offset x"
    using inv i live s by (auto simp: out_inv_def out_slot_ok_def)
  then have "(a, k) \<in> L' \<Longrightarrow> a - out_ssrc_base x < out_next_offset x" "(a, m) \<in> M' \<Longrightarrow> a - out_ssrc_base x < out_next_offset x" for a k m
    using L' M' by blast+
  then show ?thesis using inv dl slot unfolding out_inv_def set_out_slot_def by auto
qed

lemma word_succ_le_mask: "(a :: u32) < SRTCP_INDEX_MASK \<Longrightarrow> a < a + 1 \<and> a + 1 \<le> SRTCP_INDEX_MASK"
  by (simp add: SRTCP_INDEX_MASK_def word_less_nat_alt word_le_nat_alt unat_word_ariths)

lemma outbound_register_inv:
  assumes inv: "out_inv x L M"
  shows "\<exists>r x'. outbound_register ssrc x = Some (r, x') \<and> out_inv x' L M"
proof (cases "ssrc - out_ssrc_base x < out_next_offset x \<or> ssrc - out_ssrc_base x > MAX_SSRC_OFFSET")
  case True
  then show ?thesis using inv by (simp add: outbound_register_def)
next
  case False
  define off where "off = ssrc - out_ssrc_base x"
  have nle: "out_next_offset x \<le> off" "off \<le> MAX_SSRC_OFFSET" using False by (simp_all add: off_def not_less)
  have off: "off < off + 1" "off + 1 \<le> MAX_SSRC_OFFSET + 1"
    using nle(2) by (auto simp: MAX_SSRC_OFFSET_def word_less_nat_alt word_le_nat_alt unat_word_ariths)
  have mono: "a < out_next_offset x \<Longrightarrow> a < off + 1" for a using nle off by (meson less_le_trans less_trans)
  have new: "ssrc \<noteq> a" if "a - out_ssrc_base x < out_next_offset x" for a
    using that nle(1) by (auto simp: off_def)
  show ?thesis
  proof (cases "position (\<lambda>s. \<not> so_live s) (out_slots x)")
    case None
    then show ?thesis using inv False by (simp add: outbound_register_def)
  next
    case (Some i)
    note i = position_Some[OF Some]
    let ?f = "ssrc_out_fresh ssrc"
    let ?x = "(set_out_slot i ?f x)\<lparr>out_next_offset := off + 1\<rparr>"
    have f: "so_live ?f" "so_ssrc ?f = ssrc" by (simp_all add: ssrc_out_fresh_def)
    have fresh: "\<forall>j<length (out_slots x). so_live (out_slots x ! j) \<longrightarrow> so_ssrc (out_slots x ! j) \<noteq> ssrc"
      using inv new by (auto simp: out_inv_def out_slot_ok_def)
    have dl: "distinct_live ((out_slots x)[i := ?f])"
      using inv i fresh f by (intro distinct_live_update) (auto simp: out_inv_def)
    have none: "(ssrc, k) \<notin> L" "(ssrc, m) \<notin> M" for k m using inv new unfolding out_inv_def by blast+
    have slots: "out_slot_ok (out_ssrc_base x) (off + 1) L M ((out_slots x)[i := ?f] ! j)"
      if "j < length (out_slots x)" for j
      using that inv none mono off(1)
      by (cases "j = i") (auto simp: out_inv_def out_slot_ok_def ssrc_out_fresh_def ssrc_out_empty_def
          off_def SRTCP_INDEX_MASK_def)
    have "out_inv ?x L M"
      using inv dl slots mono off(2) unfolding out_inv_def set_out_slot_def by auto
    moreover have "length (filter (\<lambda>s. so_live s \<and> so_ssrc s = ssrc) (out_slots ?x)) = 1"
      using distinct_live_count[OF dl, of i] i f by (simp add: set_out_slot_def)
    ultimately show ?thesis using Some False
      by (simp add: outbound_register_def off_def[symmetric] Let_def)
  qed
qed

lemma cipher_protect_rtp_total:
  "prims_ok P \<Longrightarrow> cipher_ok c \<Longrightarrow> n \<le> length buf \<Longrightarrow> \<exists>r. cipher_protect_rtp P c buf n i = Some r"
  using gcm_protect_rtp_total[of P n buf] cm_protect_rtp_total[of P n buf] by (cases c) auto

lemma cipher_protect_rtcp_total:
  "prims_ok P \<Longrightarrow> cipher_ok c \<Longrightarrow> n \<le> length buf \<Longrightarrow> i \<le> SRTCP_INDEX_MASK \<Longrightarrow>
   \<exists>r. cipher_protect_rtcp P c buf n i = Some r"
  using gcm_protect_rtcp_total[of P n buf i] cm_protect_rtcp_total[of P n buf _ i] by (cases c) auto

lemma cipher_unprotect_rtp_total:
  "prims_ok P \<Longrightarrow> cipher_ok c \<Longrightarrow> n \<le> length buf \<Longrightarrow> \<exists>r. cipher_unprotect_rtp P c buf n i = Some r"
  using gcm_unprotect_rtp_total[of P n buf] cm_unprotect_rtp_total[of P n buf] by (cases c) auto

lemma cipher_unprotect_rtcp_total:
  "prims_ok P \<Longrightarrow> cipher_ok c \<Longrightarrow> n \<le> length buf \<Longrightarrow> \<exists>r. cipher_unprotect_rtcp P c buf n = Some r"
  using gcm_unprotect_rtcp_total[of P n buf] cm_unprotect_rtcp_total[of P n buf] by (cases c) auto

text \<open>The pair an RTP packet would be protected under, and the same for RTCP.\<close>

definition out_rtp_pair :: "bytes \<Rightarrow> srtp_outbound \<Rightarrow> (u32 \<times> u64) option" where
  "out_rtp_pair buf x = do {
     sq \<leftarrow> u16_at buf 2;
     ssrc \<leftarrow> u32_at buf 8;
     slot \<leftarrow> slot_of ssrc x;
     case estimate_index (so_roc (out_slots x ! slot)) sq of Inl _ \<Rightarrow> None | Inr i \<Rightarrow> Some (ssrc, i) }"

definition out_rtcp_pair :: "bytes \<Rightarrow> srtp_outbound \<Rightarrow> (u32 \<times> u32) option" where
  "out_rtcp_pair buf x = do {
     ssrc \<leftarrow> u32_at buf 4;
     slot \<leftarrow> slot_of ssrc x;
     Some (ssrc, so_srtcp_index (out_slots x ! slot)) }"

lemma outbound_protect_rtp_inv:
  assumes ok: "prims_ok P" "cipher_ok (out_cipher x)" and inv: "out_inv x L M"
  shows "\<exists>r x'. outbound_protect_rtp P buf n x = Some (r, x') \<and> out_cipher x' = out_cipher x \<and>
    (case r of None \<Rightarrow> out_inv x' L M
     | Some (buf', out) \<Rightarrow> \<exists>ssrc i. out_rtp_pair buf x = Some (ssrc, i) \<and> (ssrc, i) \<notin> L \<and>
         unat i < 2 ^ 48 \<and> u32_at buf 8 = Some ssrc \<and>
         cipher_protect_rtp P (out_cipher x) buf n i = Some (Inr (buf', out)) \<and>
         out_inv x' (insert (ssrc, i) L) M)"
proof (cases "n < RTP_HEADER_SIZE \<or> n > length buf")
  case True
  then show ?thesis using inv by (simp add: outbound_protect_rtp_def)
next
  case False
  then have len: "12 \<le> n" "n \<le> length buf" by (simp_all add: RTP_HEADER_SIZE_def)
  obtain sq where sq: "u16_at buf 2 = Some sq" using len by simp
  obtain ssrc where ssrc: "u32_at buf 8 = Some ssrc" using len by simp
  show ?thesis
  proof (cases "slot_of ssrc x")
    case None
    then show ?thesis using inv False sq ssrc by (simp add: outbound_protect_rtp_def)
  next
    case (Some slot)
    note sl = slot_of_Some[OF Some]
    define s where "s = out_slots x ! slot"
    have s: "so_live s" "so_ssrc s = ssrc" "out_slot_ok (out_ssrc_base x) (out_next_offset x) L M s"
      using sl inv by (auto simp: s_def out_inv_def)
    let ?A = "{i. (ssrc, i) \<in> L}"
    have abs: "replay_abs (so_sent s) ?A" using s by (simp add: out_slot_ok_def)
    show ?thesis
    proof (cases "estimate_index (so_roc s) sq")
      case (Inl e)
      then show ?thesis using inv False sq ssrc Some sl by (simp add: outbound_protect_rtp_def s_def)
    next
      case (Inr i)
      obtain b sent where chk: "replay_check i (so_sent s) = Some (b, sent)" and abs1: "replay_abs sent ?A"
        and new: "b \<longrightarrow> i \<notin> ?A" using rp.check_ok[OF abs] by blast
      define s1 where "s1 = s\<lparr>so_sent := sent\<rparr>"
      have inv1: "out_inv (set_out_slot slot s1 x) L M"
        using out_inv_update[OF inv, of slot s1 "{}" "{}"] sl s abs1 by (simp add: s1_def s_def out_slot_ok_def)
      show ?thesis
      proof (cases b)
        case False': False
        then show ?thesis using inv1 False sq ssrc Some sl Inr chk
          by (simp add: outbound_protect_rtp_def s_def s1_def set_out_slot_def)
      next
        case True
        obtain r where r: "cipher_protect_rtp P (out_cipher x) buf n i = Some r"
          using cipher_protect_rtp_total[OF ok len(2)] by blast
        show ?thesis
        proof (cases r)
          case (Inl e)
          then show ?thesis using inv1 False sq ssrc Some sl \<open>estimate_index (so_roc s) sq = Inr i\<close> chk True r
            by (simp add: outbound_protect_rtp_def s_def s1_def set_out_slot_def)
        next
          case res: (Inr res)
          obtain buf' out where bo: "res = (buf', out)" by (cases res)
          obtain sent' where acc: "replay_accept i sent = Some sent'" "replay_abs sent' (insert i ?A)"
            using rp.accept_ok[OF abs1] by blast
          define s2 where "s2 = s1\<lparr>so_sent := sent', so_roc := roc_next sq (so_roc s1)\<rparr>"
          have set: "{j. j = i \<or> (ssrc, j) \<in> L} = insert i ?A" by auto
          have "out_inv (set_out_slot slot s2 x) (L \<union> {(ssrc, i)}) (M \<union> {})"
            using sl s acc(2) by (intro out_inv_update[OF inv])
              (auto simp: s2_def s1_def s_def[symmetric] out_slot_ok_def set)
          moreover have "set_out_slot slot s2 (set_out_slot slot s1 x) = set_out_slot slot s2 x"
            by (simp add: set_out_slot_def)
          moreover have "out_rtp_pair buf x = Some (ssrc, i)"
            using sq ssrc Some Inr by (simp add: out_rtp_pair_def s_def)
          moreover have "(ssrc, i) \<notin> L" "unat i < 2 ^ 48" using new True estimate_lt[OF Inr] by simp_all
          ultimately show ?thesis using False sq ssrc Some sl Inr chk True r res bo acc(1)
            by (simp add: outbound_protect_rtp_def s_def[symmetric] s1_def s2_def Let_def)
        qed
      qed
    qed
  qed
qed

lemma outbound_protect_rtcp_inv:
  assumes ok: "prims_ok P" "cipher_ok (out_cipher x)" and inv: "out_inv x L M"
  shows "\<exists>r x'. outbound_protect_rtcp P buf n x = Some (r, x') \<and> out_cipher x' = out_cipher x \<and>
    (case r of None \<Rightarrow> out_inv x' L M
     | Some (buf', out) \<Rightarrow> \<exists>ssrc k. out_rtcp_pair buf x = Some (ssrc, k) \<and> (ssrc, k) \<notin> M \<and>
         k < SRTCP_INDEX_MASK \<and> u32_at buf 4 = Some ssrc \<and>
         cipher_protect_rtcp P (out_cipher x) buf n k = Some (Inr (buf', out)) \<and>
         out_inv x' L (insert (ssrc, k) M))"
proof (cases "n < RTCP_HEADER_SIZE \<or> n > length buf")
  case True
  then show ?thesis using inv by (simp add: outbound_protect_rtcp_def)
next
  case False
  then have len: "8 \<le> n" "n \<le> length buf" by (simp_all add: RTCP_HEADER_SIZE_def)
  obtain ssrc where ssrc: "u32_at buf 4 = Some ssrc" using len by simp
  show ?thesis
  proof (cases "slot_of ssrc x")
    case None
    then show ?thesis using inv False ssrc by (simp add: outbound_protect_rtcp_def)
  next
    case (Some slot)
    note sl = slot_of_Some[OF Some]
    define s where "s = out_slots x ! slot"
    define k where "k = so_srtcp_index s"
    have s: "so_live s" "so_ssrc s = ssrc" "out_slot_ok (out_ssrc_base x) (out_next_offset x) L M s"
      using sl inv by (auto simp: s_def out_inv_def)
    show ?thesis
    proof (cases "k \<ge> SRTCP_INDEX_MASK")
      case True
      then show ?thesis using inv False ssrc Some sl by (simp add: outbound_protect_rtcp_def s_def k_def)
    next
      case small: False
      then have k: "k < SRTCP_INDEX_MASK" by simp
      obtain r where r: "cipher_protect_rtcp P (out_cipher x) buf n k = Some r"
        using cipher_protect_rtcp_total[OF ok len(2)] k by (meson less_imp_le)
      show ?thesis
      proof (cases r)
        case (Inl e)
        then show ?thesis using inv False ssrc Some sl small r by (simp add: outbound_protect_rtcp_def s_def k_def)
      next
        case (Inr res)
        obtain buf' out where bo: "res = (buf', out)" by (cases res)
        define s2 where "s2 = s\<lparr>so_srtcp_index := k + 1\<rparr>"
        have kk: "k < k + 1" "k + 1 \<le> SRTCP_INDEX_MASK" using word_succ_le_mask[OF k] by simp_all
        have new: "(ssrc, k) \<notin> M" using s by (auto simp: out_slot_ok_def k_def)
        have "m < k + 1" if "(ssrc, m) \<in> M" for m
          using s that kk(1) by (auto simp: out_slot_ok_def k_def intro: less_trans)
        then have "out_inv (set_out_slot slot s2 x) (L \<union> {}) (M \<union> {(ssrc, k)})"
          using sl s kk by (intro out_inv_update[OF inv])
            (auto simp: s2_def s_def[symmetric] out_slot_ok_def)
        then show ?thesis using new False ssrc Some sl small r Inr bo k
          by (simp add: outbound_protect_rtcp_def out_rtcp_pair_def s_def[symmetric] k_def[symmetric] s2_def)
      qed
    qed
  qed
qed

lemma outbound_retire_inv: "out_inv x L M \<Longrightarrow> out_inv (outbound_retire ssrc x) L M"
proof (cases "slot_of ssrc x")
  case (Some i)
  assume inv: "out_inv x L M"
  show ?thesis using out_inv_update[OF inv, of i "(out_slots x ! i)\<lparr>so_live := False\<rparr>" "{}" "{}"] slot_of_Some[OF Some]
    by (simp add: outbound_retire_def Some out_slot_ok_def)
qed (simp add: outbound_retire_def)

section \<open>Sequences of outbound operations\<close>

datatype out_op = Out_Register u32 | Out_Rtp bytes nat | Out_Rtcp bytes nat | Out_Retire u32

text \<open>The logs hold the pairs of the packets that were protected, newest first.\<close>

fun out_step :: "prims \<Rightarrow> out_op \<Rightarrow> (u32 \<times> u64) list \<times> (u32 \<times> u32) list \<times> srtp_outbound \<Rightarrow>
    ((u32 \<times> u64) list \<times> (u32 \<times> u32) list \<times> srtp_outbound) option" where
  "out_step P (Out_Register ssrc) (L, M, x) = do { (_, x') \<leftarrow> outbound_register ssrc x; Some (L, M, x') }"
| "out_step P (Out_Retire ssrc) (L, M, x) = Some (L, M, outbound_retire ssrc x)"
| "out_step P (Out_Rtp buf n) (L, M, x) = do {
     (r, x') \<leftarrow> outbound_protect_rtp P buf n x;
     Some (case r of None \<Rightarrow> L | Some _ \<Rightarrow> (case out_rtp_pair buf x of None \<Rightarrow> L | Some p \<Rightarrow> p # L), M, x') }"
| "out_step P (Out_Rtcp buf n) (L, M, x) = do {
     (r, x') \<leftarrow> outbound_protect_rtcp P buf n x;
     Some (L, case r of None \<Rightarrow> M | Some _ \<Rightarrow> (case out_rtcp_pair buf x of None \<Rightarrow> M | Some p \<Rightarrow> p # M), x') }"

fun out_run :: "prims \<Rightarrow> out_op list \<Rightarrow> (u32 \<times> u64) list \<times> (u32 \<times> u32) list \<times> srtp_outbound \<Rightarrow>
    ((u32 \<times> u64) list \<times> (u32 \<times> u32) list \<times> srtp_outbound) option" where
  "out_run P [] st = Some st"
| "out_run P (op # ops) st = do { st' \<leftarrow> out_step P op st; out_run P ops st' }"

fun out_good :: "(u32 \<times> u64) list \<times> (u32 \<times> u32) list \<times> srtp_outbound \<Rightarrow> bool" where
  "out_good (L, M, x) \<longleftrightarrow> distinct L \<and> distinct M \<and> out_inv x (set L) (set M) \<and> cipher_ok (out_cipher x) \<and>
     (\<forall>(s, i)\<in>set L. unat i < 2 ^ 48)"

lemma out_step_good:
  assumes ok: "prims_ok P" and g: "out_good st"
  shows "\<exists>st'. out_step P op st = Some st' \<and> out_good st'"
proof -
  obtain L M x where st: "st = (L, M, x)" by (cases st)
  have inv: "out_inv x (set L) (set M)" and c: "cipher_ok (out_cipher x)" using g st by simp_all
  show ?thesis
  proof (cases op)
    case (Out_Register ssrc)
    obtain r x' where "outbound_register ssrc x = Some (r, x')" "out_inv x' (set L) (set M)"
      using outbound_register_inv[OF inv] by blast
    moreover from this(1) have "out_cipher x' = out_cipher x"
      by (auto simp: outbound_register_def Let_def set_out_slot_def bind_eq_Some_conv split: if_splits option.splits)
    ultimately show ?thesis using g st Out_Register by simp
  next
    case (Out_Rtp buf n)
    obtain r x' where "outbound_protect_rtp P buf n x = Some (r, x')" "out_cipher x' = out_cipher x"
      "case r of None \<Rightarrow> out_inv x' (set L) (set M)
       | Some (buf', out) \<Rightarrow> \<exists>ssrc i. out_rtp_pair buf x = Some (ssrc, i) \<and> (ssrc, i) \<notin> set L \<and>
         unat i < 2 ^ 48 \<and> u32_at buf 8 = Some ssrc \<and>
         cipher_protect_rtp P (out_cipher x) buf n i = Some (Inr (buf', out)) \<and>
         out_inv x' (insert (ssrc, i) (set L)) (set M)"
      using outbound_protect_rtp_inv[OF ok c inv] by blast
    then show ?thesis using g st Out_Rtp by (auto split: option.splits)
  next
    case (Out_Rtcp buf n)
    obtain r x' where "outbound_protect_rtcp P buf n x = Some (r, x')" "out_cipher x' = out_cipher x"
      "case r of None \<Rightarrow> out_inv x' (set L) (set M)
       | Some (buf', out) \<Rightarrow> \<exists>ssrc k. out_rtcp_pair buf x = Some (ssrc, k) \<and> (ssrc, k) \<notin> set M \<and>
         k < SRTCP_INDEX_MASK \<and> u32_at buf 4 = Some ssrc \<and>
         cipher_protect_rtcp P (out_cipher x) buf n k = Some (Inr (buf', out)) \<and>
         out_inv x' (set L) (insert (ssrc, k) (set M))"
      using outbound_protect_rtcp_inv[OF ok c inv] by blast
    then show ?thesis using g st Out_Rtcp by (auto split: option.splits)
  next
    case (Out_Retire ssrc)
    have "out_cipher (outbound_retire ssrc x) = out_cipher x"
      by (simp add: outbound_retire_def set_out_slot_def split: option.splits)
    then show ?thesis using g st Out_Retire outbound_retire_inv[OF inv] by simp
  qed
qed

lemma out_run_good:
  "prims_ok P \<Longrightarrow> out_good st \<Longrightarrow> \<exists>st'. out_run P ops st = Some st' \<and> out_good st'"
proof (induction ops arbitrary: st)
  case (Cons op ops)
  obtain st1 where st1: "out_step P op st = Some st1" "out_good st1" using out_step_good[OF Cons.prems] by blast
  show ?case using Cons.IH[OF Cons.prems(1) st1(2)] st1(1) by simp
qed simp

lemma out_good_new: "cipher_ok c \<Longrightarrow> out_good ([], [], outbound_new c base)"
  using out_inv_new[of c base] by (simp add: outbound_new_def)

section \<open>Inbound: pinned SSRCs\<close>

definition in_live :: "ssrc_in list \<Rightarrow> u32 \<Rightarrow> nat \<Rightarrow> bool" where
  "in_live ss ssrc i \<longleftrightarrow> i < length ss \<and> si_live (ss ! i) \<and> si_ssrc (ss ! i) = ssrc"

definition in_slot_ok :: "ssrc_in \<Rightarrow> bool" where
  "in_slot_ok s \<longleftrightarrow> (si_pinned s \<longrightarrow> si_live s) \<and>
     (\<exists>A. replay_abs (si_rtp_replay s) A) \<and> (\<exists>A. replay_abs (si_rtcp_replay s) A)"

definition in_inv :: "srtp_inbound \<Rightarrow> bool" where
  "in_inv x \<longleftrightarrow> length (in_slots x) = INBOUND_SSRC_SLOTS \<and> cipher_ok (in_cipher x) \<and>
     (\<forall>s\<in>set (in_slots x). in_slot_ok s) \<and>
     (\<forall>ssrc i j. in_live (in_slots x) ssrc i \<longrightarrow> in_live (in_slots x) ssrc j \<longrightarrow> i = j) \<and>
     in_pinned_count x \<le> INBOUND_PINNED_MAX"

text \<open>\<open>in_track x ssrc A\<close>: \<open>ssrc\<close> holds a pinned slot that has accepted the RTP indices \<open>A\<close>.\<close>

definition in_track :: "srtp_inbound \<Rightarrow> u32 \<Rightarrow> u64 set \<Rightarrow> bool" where
  "in_track x ssrc A \<longleftrightarrow> (\<exists>i. in_live (in_slots x) ssrc i \<and> si_pinned (in_slots x ! i) \<and>
     replay_abs (si_rtp_replay (in_slots x ! i)) A)"

lemma in_inv_new: "cipher_ok c \<Longrightarrow> in_inv (inbound_new c)"
  by (auto simp: in_inv_def inbound_new_def in_slot_ok_def in_live_def ssrc_in_empty_def in_pinned_count_def
      intro: exI[of _ "{}"])

lemma slot_scan_Some:
  assumes "slot_scan ssrc now i free idlest rest = Some r" "ss = pre @ rest" "i = length pre"
    "\<And>f. free = Some f \<Longrightarrow> f < length ss \<and> \<not> si_live (ss ! f)"
    "\<And>j t. idlest = Some (j, t) \<Longrightarrow> j < length ss \<and> \<not> si_pinned (ss ! j)"
    "\<And>k. k < i \<Longrightarrow> \<not> in_live ss ssrc k"
  shows "r < length ss \<and> (in_live ss ssrc r \<or>
    (\<not> si_live (ss ! r) \<or> \<not> si_pinned (ss ! r)) \<and> (\<forall>k. \<not> in_live ss ssrc k))"
  using assms
proof (induction rest arbitrary: i free idlest pre)
  case Nil
  then have "\<forall>k. \<not> in_live ss ssrc k" by (auto simp: in_live_def)
  then show ?case using Nil by (auto split: option.splits if_splits prod.splits)
next
  case (Cons s rest)
  have i: "i < length ss" and s: "ss ! i = s" using Cons.prems(2,3) by (simp_all add: nth_append)
  show ?case
  proof (cases "si_live s \<and> si_ssrc s = ssrc")
    case True
    then show ?thesis using Cons.prems(1) i s by (auto simp: in_live_def)
  next
    case False
    have low: "k < i + 1 \<Longrightarrow> \<not> in_live ss ssrc k" for k
      using Cons.prems(6) False s by (auto simp: less_Suc_eq in_live_def)
    have "\<exists>free' idlest'. slot_scan ssrc now (i + 1) free' idlest' rest = Some r \<and>
        (\<forall>f. free' = Some f \<longrightarrow> f < length ss \<and> \<not> si_live (ss ! f)) \<and>
        (\<forall>j t. idlest' = Some (j, t) \<longrightarrow> j < length ss \<and> \<not> si_pinned (ss ! j))"
    proof (cases "si_live s")
      case dead: False
      show ?thesis using Cons.prems(1,4,5) dead i s
        by (intro exI[of _ "case free of Some f \<Rightarrow> Some f | None \<Rightarrow> Some i"] exI[of _ idlest])
          (auto split: option.splits)
    next
      case live: True
      show ?thesis
      proof (cases "si_pinned s \<or> \<not> (case idlest of None \<Rightarrow> True | Some (_, most) \<Rightarrow> sat_sub32 now (si_last_seen_s s) > most)")
        case True
        then show ?thesis using Cons.prems(1,4,5) live False
          by (intro exI[of _ free] exI[of _ idlest]) (simp split: if_splits)
      next
        case False': False
        then show ?thesis using Cons.prems(1,4,5) live False i s
          by (intro exI[of _ free] exI[of _ "Some (i, sat_sub32 now (si_last_seen_s s))"]) (simp split: if_splits)
      qed
    qed
    then obtain free' idlest' where n: "slot_scan ssrc now (i + 1) free' idlest' rest = Some r"
      "\<And>f. free' = Some f \<Longrightarrow> f < length ss \<and> \<not> si_live (ss ! f)"
      "\<And>j t. idlest' = Some (j, t) \<Longrightarrow> j < length ss \<and> \<not> si_pinned (ss ! j)" by blast
    have "ss = (pre @ [s]) @ rest" "i + 1 = length (pre @ [s])" using Cons.prems(2,3) by simp_all
    from Cons.IH[OF n(1) this n(2,3) low] show ?thesis by simp
  qed
qed

lemma slot_for_Some:
  assumes "slot_for ssrc now x = Some r"
  shows "r < length (in_slots x)"
    "in_live (in_slots x) ssrc r \<or>
     (\<not> si_live (in_slots x ! r) \<or> \<not> si_pinned (in_slots x ! r)) \<and> (\<forall>k. \<not> in_live (in_slots x) ssrc k)"
  using slot_scan_Some[of ssrc now 0 None None "in_slots x" r "in_slots x" "[]"] assms
  by (simp_all add: slot_for_def)

lemma filter_update_le:
  assumes "P y \<longrightarrow> P (xs ! i)" "i < length xs"
  shows "length (filter P (xs[i := y])) \<le> length (filter P xs)"
  using assms unfolding length_filter_conv_card
  by (intro card_mono) (auto simp: nth_list_update split: if_splits)

lemma filter_update_le_Suc: "length (filter P (xs[i := y])) \<le> Suc (length (filter P xs))"
proof (cases "i < length xs")
  case True
  have "{j. j < length (xs[i := y]) \<and> P (xs[i := y] ! j)} \<subseteq> insert i {j. j < length xs \<and> P (xs ! j)}"
    by (auto simp: nth_list_update split: if_splits)
  then have "card {j. j < length (xs[i := y]) \<and> P (xs[i := y] ! j)} \<le> card (insert i {j. j < length xs \<and> P (xs ! j)})"
    by (intro card_mono) auto
  then show ?thesis unfolding length_filter_conv_card
    by (simp add: card_insert_if split: if_splits)
qed (simp add: list_update_beyond)

lemma in_inv_update:
  assumes inv: "in_inv x" and i: "i < length (in_slots x)" and ok: "in_slot_ok s"
    and uniq: "si_live s \<Longrightarrow> \<forall>k. in_live (in_slots x) (si_ssrc s) k \<longrightarrow> k = i"
    and pin: "si_live s \<and> si_pinned s \<Longrightarrow> si_live (in_slots x ! i) \<and> si_pinned (in_slots x ! i)"
  shows "in_inv (set_in_slot i s x)"
proof -
  have "in_pinned_count (set_in_slot i s x) \<le> in_pinned_count x"
    using pin i unfolding in_pinned_count_def by (simp add: filter_update_le)
  moreover have "t \<in> set ((in_slots x)[i := s]) \<Longrightarrow> in_slot_ok t" for t
    using inv ok set_update_subset_insert[of "in_slots x" i s] by (auto simp: in_inv_def)
  moreover have "j = k" if "in_live ((in_slots x)[i := s]) ssrc j" "in_live ((in_slots x)[i := s]) ssrc k" for ssrc j k
    using that inv uniq unfolding in_inv_def in_live_def
    by (cases "j = i"; cases "k = i") (auto simp: nth_list_update)
  ultimately show ?thesis using inv unfolding in_inv_def by auto
qed

lemma in_track_other:
  assumes "in_track x ssrc A" "i < length (in_slots x)" "\<not> (in_live (in_slots x) ssrc i \<and> si_pinned (in_slots x ! i))"
  shows "in_track (set_in_slot i s x) ssrc A"
proof -
  obtain j where j: "in_live (in_slots x) ssrc j" "si_pinned (in_slots x ! j)" "replay_abs (si_rtp_replay (in_slots x ! j)) A"
    using assms(1) by (auto simp: in_track_def)
  then have "j \<noteq> i" using assms(3) by auto
  then show ?thesis using j by (auto simp: in_track_def in_live_def intro!: exI[of _ j])
qed

lemma in_track_same:
  assumes "in_live (in_slots x) ssrc i" "si_live s" "si_ssrc s = ssrc" "si_pinned s" "replay_abs (si_rtp_replay s) A"
  shows "in_track (set_in_slot i s x) ssrc A"
  using assms by (auto simp: in_track_def in_live_def intro!: exI[of _ i])

lemma known_index_total:
  assumes ok: "in_slot_ok s"
  shows "\<exists>i s'. known_index sq s = Some (i, s') \<and> in_slot_ok s' \<and> si_ssrc s' = si_ssrc s \<and> si_live s' = si_live s \<and>
    si_pinned s' = si_pinned s \<and> si_roc s' = si_roc s \<and>
    (\<forall>A. replay_abs (si_rtp_replay s) A \<longrightarrow> replay_abs (si_rtp_replay s') A \<and> (\<forall>j. i = Some j \<longrightarrow> j \<notin> A))"
proof (cases "estimate_index (si_roc s) sq")
  case (Inr j)
  obtain A where A: "replay_abs (si_rtp_replay s) A" using ok by (auto simp: in_slot_ok_def)
  obtain b r where c: "replay_check j (si_rtp_replay s) = Some (b, r)" "replay_abs r A" using rp.check_ok[OF A] by blast
  have "replay_abs r B \<and> (b \<longrightarrow> j \<notin> B)" if "replay_abs (si_rtp_replay s) B" for B
    using rp.check_Some[OF that c(1)] .
  then show ?thesis using Inr ok c by (auto simp: known_index_def in_slot_ok_def)
qed (use assms in \<open>simp add: known_index_def\<close>)

lemma accept_rtp_total:
  assumes ok: "in_slot_ok s"
  shows "\<exists>s'. accept_rtp j sq now s = Some s' \<and> in_slot_ok s' \<and> si_ssrc s' = si_ssrc s \<and> si_live s' = si_live s \<and>
    si_pinned s' = si_pinned s \<and>
    (\<forall>A. replay_abs (si_rtp_replay s) A \<longrightarrow> replay_abs (si_rtp_replay s') (insert j A))"
proof -
  obtain A where A: "replay_abs (si_rtp_replay s) A" using ok by (auto simp: in_slot_ok_def)
  obtain r where r: "replay_accept j (si_rtp_replay s) = Some r" "replay_abs r (insert j A)"
    using rp.accept_ok[OF A] by blast
  have "replay_abs r (insert j B)" if "replay_abs (si_rtp_replay s) B" for B
    using rp.accept_Some[OF that r(1)] .
  then show ?thesis using ok r by (auto simp: accept_rtp_def in_slot_ok_def)
qed

lemma ssrc_in_fresh_ok:
  "in_slot_ok (ssrc_in_fresh ssrc now)" "replay_abs (si_rtp_replay (ssrc_in_fresh ssrc now)) {}"
  "replay_abs (si_rtcp_replay (ssrc_in_fresh ssrc now)) {}"
  "si_live (ssrc_in_fresh ssrc now)" "\<not> si_pinned (ssrc_in_fresh ssrc now)" "si_ssrc (ssrc_in_fresh ssrc now) = ssrc"
  by (auto simp: ssrc_in_fresh_def ssrc_in_empty_def in_slot_ok_def intro: exI[of _ "{}"])

text \<open>The index an authenticated RTP packet is accepted under.\<close>

definition in_rtp_index :: "bytes \<Rightarrow> u32 \<Rightarrow> srtp_inbound \<Rightarrow> u64 option" where
  "in_rtp_index buf now_s x = do {
     sq \<leftarrow> u16_at buf 2;
     ssrc \<leftarrow> u32_at buf 8;
     slot \<leftarrow> slot_for ssrc now_s x;
     if in_live (in_slots x) ssrc slot
     then (case estimate_index (si_roc (in_slots x ! slot)) sq of Inl _ \<Rightarrow> None | Inr i \<Rightarrow> Some i)
     else Some (packet_index 0 sq) }"

lemma known_index_value:
  "known_index sq s = Some (Some i, s') \<Longrightarrow> estimate_index (si_roc s) sq = Inr i"
  by (auto simp: known_index_def bind_eq_Some_conv split: sum.splits if_splits)

lemma in_live_unique: "in_inv x \<Longrightarrow> in_live (in_slots x) ssrc i \<Longrightarrow> in_live (in_slots x) ssrc j \<Longrightarrow> i = j"
  by (auto simp: in_inv_def)

text \<open>
  The slot a packet of \<open>ssrc\<close> uses, after the estimate and replay check:
  the state \<open>x1\<close> before decryption and the slot value \<open>s\<close> an authenticated
  packet continues with.
\<close>

lemma in_slot_step:
  assumes inv: "in_inv x" and slot: "slot_for ssrc now x = Some slot"
  defines "s \<equiv> in_slots x ! slot"
  assumes s1: "in_slot_ok s1" "si_ssrc s1 = si_ssrc s" "si_live s1 = si_live s" "si_pinned s1 = si_pinned s"
  shows "in_inv (set_in_slot slot s1 x)"
    and "s2 = (if in_live (in_slots x) ssrc slot then s1 else ssrc_in_fresh ssrc now) \<Longrightarrow>
      in_slot_ok s3 \<Longrightarrow> si_ssrc s3 = si_ssrc s2 \<Longrightarrow> si_live s3 = si_live s2 \<Longrightarrow> si_pinned s3 = si_pinned s2 \<Longrightarrow>
      in_inv (set_in_slot slot s3 x)"
proof -
  note sl = slot_for_Some[OF slot]
  have u: "si_live s \<Longrightarrow> \<forall>k. in_live (in_slots x) (si_ssrc s) k \<longrightarrow> k = slot"
    using in_live_unique[OF inv, of "si_ssrc s" _ slot] sl(1) by (auto simp: in_live_def s_def)
  show "in_inv (set_in_slot slot s1 x)"
    using u s1 sl(1) by (intro in_inv_update[OF inv]) (auto simp: s_def)
  assume s2: "s2 = (if in_live (in_slots x) ssrc slot then s1 else ssrc_in_fresh ssrc now)"
    and s3: "in_slot_ok s3" "si_ssrc s3 = si_ssrc s2" "si_live s3 = si_live s2" "si_pinned s3 = si_pinned s2"
  show "in_inv (set_in_slot slot s3 x)"
  proof (cases "in_live (in_slots x) ssrc slot")
    case True
    then show ?thesis using u s1 s2 s3 sl(1) by (intro in_inv_update[OF inv]) (auto simp: s_def)
  next
    case False
    then show ?thesis using sl s2 s3 ssrc_in_fresh_ok[of ssrc now] by (intro in_inv_update[OF inv]) auto
  qed
qed

text \<open>How a tracked SSRC fares when the slot chosen for a packet is rewritten.\<close>

lemma in_track_slot:
  assumes inv: "in_inv x" and slot: "slot_for ssrc now x = Some slot" and tr: "in_track x t B"
    and s: "si_ssrc s1 = si_ssrc (in_slots x ! slot)" "si_live s1 = si_live (in_slots x ! slot)"
      "si_pinned s1 = si_pinned (in_slots x ! slot)"
  shows "t \<noteq> ssrc \<Longrightarrow> in_track (set_in_slot slot s3 x) t B \<or> in_live (in_slots x) ssrc slot \<and> t = ssrc"
    and "t = ssrc \<Longrightarrow> in_live (in_slots x) ssrc slot \<and> replay_abs (si_rtp_replay (in_slots x ! slot)) B \<and>
      si_pinned (in_slots x ! slot)"
    and "(\<And>B. replay_abs (si_rtp_replay (in_slots x ! slot)) B \<Longrightarrow> replay_abs (si_rtp_replay s1) B) \<Longrightarrow>
      in_track (set_in_slot slot s1 x) t B"
proof -
  note sl = slot_for_Some[OF slot]
  obtain k where k: "in_live (in_slots x) t k" "si_pinned (in_slots x ! k)" "replay_abs (si_rtp_replay (in_slots x ! k)) B"
    using tr by (auto simp: in_track_def)
  show "in_track (set_in_slot slot s3 x) t B \<or> in_live (in_slots x) ssrc slot \<and> t = ssrc" if "t \<noteq> ssrc"
  proof -
    have "\<not> (in_live (in_slots x) t slot \<and> si_pinned (in_slots x ! slot))"
      using sl(2) that by (auto simp: in_live_def)
    then show ?thesis using in_track_other[OF tr sl(1)] by blast
  qed
  show same: "in_live (in_slots x) ssrc slot \<and> replay_abs (si_rtp_replay (in_slots x ! slot)) B \<and> si_pinned (in_slots x ! slot)"
    if "t = ssrc"
  proof -
    have l: "in_live (in_slots x) ssrc slot" using sl(2) k that by blast
    then have "k = slot" using in_live_unique[OF inv] k(1) that by blast
    then show ?thesis using k l by simp
  qed
  assume mono: "\<And>B. replay_abs (si_rtp_replay (in_slots x ! slot)) B \<Longrightarrow> replay_abs (si_rtp_replay s1) B"
  show "in_track (set_in_slot slot s1 x) t B"
  proof (cases "in_live (in_slots x) t slot \<and> si_pinned (in_slots x ! slot)")
    case True
    then have "k = slot" using in_live_unique[OF inv] k(1) by blast
    then show ?thesis using True s k mono by (intro in_track_same) (auto simp: in_live_def)
  qed (use in_track_other[OF tr sl(1)] in blast)
qed

lemma in_track_accept:
  assumes inv: "in_inv x" and slot: "slot_for ssrc now x = Some slot" and tr: "in_track x t B"
    and kn: "in_live (in_slots x) ssrc slot \<Longrightarrow> si_ssrc s3 = ssrc \<and> si_live s3 \<and> si_pinned s3 = si_pinned (in_slots x ! slot)"
    and grow: "in_live (in_slots x) ssrc slot \<Longrightarrow> replay_abs (si_rtp_replay (in_slots x ! slot)) B \<Longrightarrow>
      replay_abs (si_rtp_replay s3) (insert j B)"
  shows "in_track (set_in_slot slot s3 x) t (if t = ssrc then insert j B else B)"
proof (cases "t = ssrc")
  case True
  then have "in_live (in_slots x) ssrc slot" "replay_abs (si_rtp_replay (in_slots x ! slot)) B" "si_pinned (in_slots x ! slot)"
    using in_track_slot(2)[OF inv slot tr refl refl refl] by blast+
  then show ?thesis using True kn grow by (simp add: in_track_same)
next
  case False
  then show ?thesis using in_track_slot(1)[OF inv slot tr refl refl refl False] by simp
qed

lemma unprotect_index:
  assumes ok: "in_slot_ok s"
  shows "\<exists>i s1. (if known then known_index sq s else Some (Some (packet_index 0 sq), s)) = Some (i, s1) \<and>
    in_slot_ok s1 \<and> si_ssrc s1 = si_ssrc s \<and> si_live s1 = si_live s \<and> si_pinned s1 = si_pinned s \<and>
    (\<forall>B. replay_abs (si_rtp_replay s) B \<longrightarrow> replay_abs (si_rtp_replay s1) B \<and>
      (known \<longrightarrow> (\<forall>j. i = Some j \<longrightarrow> j \<notin> B)))"
proof (cases known)
  case True
  then show ?thesis using known_index_total[OF ok, of sq] by (simp only: if_True) blast
qed (use ok in simp)

lemma inbound_unprotect_rtp_inv:
  assumes ok: "prims_ok P" and inv: "in_inv x"
  shows "\<exists>r x'. inbound_unprotect_rtp P buf n now x = Some (r, x') \<and> in_inv x' \<and>
    (\<forall>t A. in_track x t A \<longrightarrow>
       (if r \<noteq> None \<and> u32_at buf 8 = Some t
        then \<exists>i. in_rtp_index buf now x = Some i \<and> i \<notin> A \<and> in_track x' t (insert i A) \<and>
          cipher_unprotect_rtp P (in_cipher x) buf n i = Some (Inr (the r))
        else in_track x' t A))"
proof (cases "n < RTP_HEADER_SIZE \<or> n > length buf")
  case True
  then show ?thesis using inv by (simp add: inbound_unprotect_rtp_def)
next
  case False
  then have len: "12 \<le> n" "n \<le> length buf" by (simp_all add: RTP_HEADER_SIZE_def)
  obtain sq where sq: "u16_at buf 2 = Some sq" using len by simp
  obtain ssrc where ssrc: "u32_at buf 8 = Some ssrc" using len by simp
  show ?thesis
  proof (cases "slot_for ssrc now x")
    case None
    then show ?thesis using inv False sq ssrc by (simp add: inbound_unprotect_rtp_def)
  next
    case (Some slot)
    note sl = slot_for_Some[OF Some]
    define s where "s = in_slots x ! slot"
    define known where "known = in_live (in_slots x) ssrc slot"
    have kn: "known \<longleftrightarrow> si_live s \<and> si_ssrc s = ssrc" using sl(1) by (simp add: known_def in_live_def s_def)
    have sok: "in_slot_ok s" using inv sl(1) by (simp add: in_inv_def s_def)
    obtain i s1 where ix: "(if known then known_index sq s else Some (Some (packet_index 0 sq), s)) = Some (i, s1)"
      and s1: "in_slot_ok s1" "si_ssrc s1 = si_ssrc s" "si_live s1 = si_live s" "si_pinned s1 = si_pinned s"
        "\<And>B. replay_abs (si_rtp_replay s) B \<Longrightarrow> replay_abs (si_rtp_replay s1) B"
        "\<And>B j. replay_abs (si_rtp_replay s) B \<Longrightarrow> known \<Longrightarrow> i = Some j \<Longrightarrow> j \<notin> B"
      using unprotect_index[OF sok, of known sq] by blast
    note st = in_slot_step[OF inv Some, folded s_def, OF s1(1-4)]
    have tr1: "in_track (set_in_slot slot s1 x) t B" if "in_track x t B" for t B
      using in_track_slot(3)[OF inv Some that, folded s_def, OF s1(2-5)] .
    show ?thesis
    proof (cases i)
      case None
      then show ?thesis using st(1) tr1 False sq ssrc Some sl(1) ix
        by (simp add: inbound_unprotect_rtp_def s_def[symmetric] kn[symmetric] Let_def)
    next
      case i: (Some j)
      obtain r where r: "cipher_unprotect_rtp P (in_cipher x) buf n j = Some r"
        using cipher_unprotect_rtp_total[OF ok _ len(2), of "in_cipher x" j] inv by (auto simp: in_inv_def)
      show ?thesis
      proof (cases r)
        case (Inl e)
        then show ?thesis using st(1) tr1 False sq ssrc Some sl(1) ix i r
          by (simp add: inbound_unprotect_rtp_def s_def[symmetric] kn[symmetric] Let_def)
      next
        case (Inr res)
        define s2 where "s2 = (if known then s1 else ssrc_in_fresh ssrc now)"
        have s2: "in_slot_ok s2" using s1 ssrc_in_fresh_ok by (simp add: s2_def)
        obtain s3 where s3: "accept_rtp j sq now s2 = Some s3" "in_slot_ok s3" "si_ssrc s3 = si_ssrc s2"
          "si_live s3 = si_live s2" "si_pinned s3 = si_pinned s2"
          "\<And>B. replay_abs (si_rtp_replay s2) B \<Longrightarrow> replay_abs (si_rtp_replay s3) (insert j B)"
          using accept_rtp_total[OF s2, of j sq now] by blast
        have inv3: "in_inv (set_in_slot slot s3 x)"
          using st(2)[of s2 s3] s3 by (simp add: s2_def known_def)
        have acc: "in_track (set_in_slot slot s3 x) t (if t = ssrc then insert j B else B)" if "in_track x t B" for t B
          using that s3 s1 kn by (intro in_track_accept[OF inv Some]) (auto simp: s2_def known_def[symmetric] s_def[symmetric])
        have acc_other: "in_track (set_in_slot slot s3 x) t B" if "in_track x t B" "ssrc \<noteq> t" for t B
          using acc[OF that(1)] that(2) by simp
        have fresh: "in_rtp_index buf now x = Some j \<and> j \<notin> B" if "in_track x ssrc B" for B
        proof -
          have k: "known" "replay_abs (si_rtp_replay s) B"
            using in_track_slot(2)[OF inv Some that refl refl refl] by (simp_all add: known_def s_def)
          then have "known_index sq s = Some (Some j, s1)" using ix i by simp
          then show ?thesis using sq ssrc Some known_index_value k s1(6) i
            by (simp add: in_rtp_index_def known_def s_def)
        qed
        have "\<forall>t B. in_track x t B \<longrightarrow> (if Some res \<noteq> None \<and> u32_at buf 8 = Some t
          then \<exists>i. in_rtp_index buf now x = Some i \<and> i \<notin> B \<and> in_track (set_in_slot slot s3 x) t (insert i B) \<and>
            cipher_unprotect_rtp P (in_cipher x) buf n i = Some (Inr (the (Some res)))
          else in_track (set_in_slot slot s3 x) t B)"
          using acc[of ssrc, simplified] acc_other fresh r Inr ssrc by auto
        moreover have "inbound_unprotect_rtp P buf n now x = Some (Some res, set_in_slot slot s3 x)"
          using False sq ssrc Some sl(1) ix i r Inr s3(1)
          by (cases res) (simp add: inbound_unprotect_rtp_def s_def[symmetric] kn[symmetric] s2_def[symmetric] Let_def)
        ultimately show ?thesis using inv3 by blast
      qed
    qed
  qed
qed

lemma inbound_unprotect_rtcp_inv:
  assumes ok: "prims_ok P" and inv: "in_inv x"
  shows "\<exists>r x'. inbound_unprotect_rtcp P buf n now x = Some (r, x') \<and> in_inv x' \<and>
    (\<forall>t A. in_track x t A \<longrightarrow> in_track x' t A)"
proof (cases "n < RTCP_HEADER_SIZE \<or> n > length buf \<or> srtcp_trailer_offset (in_cipher x) n = None")
  case True
  then show ?thesis using inv by (auto simp: inbound_unprotect_rtcp_def)
next
  case False
  then obtain at' where at: "srtcp_trailer_offset (in_cipher x) n = Some at'" and len: "8 \<le> n" "n \<le> length buf"
    by (auto simp: RTCP_HEADER_SIZE_def)
  have "at' + 4 \<le> n" using at by (auto simp: srtcp_trailer_offset_def Let_def split: if_splits srtp_cipher.splits)
  then obtain e where e: "u32_at buf at' = Some e" using len by simp
  obtain ssrc where ssrc: "u32_at buf 4 = Some ssrc" using len by simp
  show ?thesis
  proof (cases "e AND SRTCP_E_FLAG = 0 \<or> slot_for ssrc now x = None")
    case True
    then show ?thesis using inv False at e ssrc by (auto simp: inbound_unprotect_rtcp_def Let_def)
  next
    case enc: False
    then obtain slot where slot: "slot_for ssrc now x = Some slot" by auto
    note sl = slot_for_Some[OF slot]
    define i where "i = e AND SRTCP_INDEX_MASK"
    define s where "s = in_slots x ! slot"
    define known where "known = in_live (in_slots x) ssrc slot"
    have kn: "known \<longleftrightarrow> si_live s \<and> si_ssrc s = ssrc" using sl(1) by (simp add: known_def in_live_def s_def)
    have sok: "in_slot_ok s" using inv sl(1) by (simp add: in_inv_def s_def)
    obtain C where C: "replay_abs (si_rtcp_replay s) C" using sok by (auto simp: in_slot_ok_def)
    obtain b rr where chk: "(if known then replay_check (ucast i) (si_rtcp_replay s) else Some (True, si_rtcp_replay s)) = Some (b, rr)"
      and rr: "replay_abs rr C" using rp.check_ok[OF C, of "ucast i"] C by (cases known) auto
    define s1 where "s1 = s\<lparr>si_rtcp_replay := rr\<rparr>"
    have s1: "in_slot_ok s1" "si_ssrc s1 = si_ssrc s" "si_live s1 = si_live s" "si_pinned s1 = si_pinned s"
      "\<And>B. replay_abs (si_rtp_replay s) B \<Longrightarrow> replay_abs (si_rtp_replay s1) B"
      using sok rr by (auto simp: s1_def in_slot_ok_def)
    note st = in_slot_step[OF inv slot, folded s_def, OF s1(1-4)]
    have tr1: "in_track (set_in_slot slot s1 x) t B" if "in_track x t B" for t B
      using in_track_slot(3)[OF inv slot that, folded s_def, OF s1(2-5)] .
    obtain r where r: "cipher_unprotect_rtcp P (in_cipher x) buf n = Some r"
      using cipher_unprotect_rtcp_total[OF ok _ len(2), of "in_cipher x"] inv by (auto simp: in_inv_def)
    define s2 where "s2 = (if known then s1 else ssrc_in_fresh ssrc now)"
    have s2: "in_slot_ok s2" using s1(1) ssrc_in_fresh_ok(1) by (simp add: s2_def)
    then obtain D where D: "replay_abs (si_rtcp_replay s2) D" by (auto simp: in_slot_ok_def)
    obtain r2 where r2: "replay_accept (ucast i) (si_rtcp_replay s2) = Some r2" "replay_abs r2 (insert (ucast i) D)"
      using rp.accept_ok[OF D] by blast
    define s3 where "s3 = s2\<lparr>si_rtcp_replay := r2, si_last_seen_s := now\<rparr>"
    have s3: "in_slot_ok s3" "si_ssrc s3 = si_ssrc s2" "si_live s3 = si_live s2" "si_pinned s3 = si_pinned s2"
      "si_rtp_replay s3 = si_rtp_replay s2"
      using s2 r2 by (auto simp: s3_def in_slot_ok_def)
    have inv3: "in_inv (set_in_slot slot s3 x)" using st(2)[of s2 s3] s3 by (simp add: s2_def known_def)
    have tr3: "in_track (set_in_slot slot s3 x) t B" if tr: "in_track x t B" for t B
    proof (cases "t = ssrc")
      case True
      note k = in_track_slot(2)[OF inv slot tr refl refl refl True]
      then show ?thesis using True s1 s3 kn by (intro in_track_same) (auto simp: s2_def known_def s_def)
    qed (use in_track_slot(1)[OF inv slot tr refl refl refl] in blast)
    have "inbound_unprotect_rtcp P buf n now x = Some (case r of
        Inr (buf', out, _) \<Rightarrow> if b then (Some (buf', out), set_in_slot slot s3 x) else (None, set_in_slot slot s1 x)
      | Inl _ \<Rightarrow> (None, set_in_slot slot s1 x))"
      using False at e ssrc enc slot sl(1) chk r r2(1)
      by (auto simp: inbound_unprotect_rtcp_def s_def[symmetric] kn[symmetric] i_def[symmetric] s1_def[symmetric]
          s2_def s3_def Let_def split: sum.splits)
    then show ?thesis using inv3 st(1) tr1 tr3 by (auto split: sum.splits prod.splits)
  qed
qed

lemma evict_one_keeps:
  "si_ssrc (evict_one now idle s) = si_ssrc s" "si_pinned (evict_one now idle s) = si_pinned s"
  "si_live (evict_one now idle s) \<Longrightarrow> evict_one now idle s = s" "si_pinned s \<Longrightarrow> evict_one now idle s = s"
  "in_slot_ok s \<Longrightarrow> in_slot_ok (evict_one now idle s)"
  by (auto simp: evict_one_def in_slot_ok_def)

lemma inbound_evict_idle_inv:
  assumes inv: "in_inv x"
  shows "in_inv (snd (inbound_evict_idle now idle x))"
    and "in_track x t A \<Longrightarrow> in_track (snd (inbound_evict_idle now idle x)) t A"
proof -
  let ?f = "evict_one now idle"
  have live: "in_live (map ?f (in_slots x)) t i \<Longrightarrow> in_live (in_slots x) t i" for t i
    using evict_one_keeps(3)[of now idle "in_slots x ! i"] by (auto simp: in_live_def)
  have "filter (\<lambda>s. si_live s \<and> si_pinned s) (map ?f ss) = filter (\<lambda>s. si_live s \<and> si_pinned s) ss" for ss
    by (induction ss) (auto simp: evict_one_keeps evict_one_def)
  then show "in_inv (snd (inbound_evict_idle now idle x))"
    using inv live unfolding in_inv_def inbound_evict_idle_def in_pinned_count_def
    by (simp add: evict_one_keeps(5)) blast
  show "in_track x t A \<Longrightarrow> in_track (snd (inbound_evict_idle now idle x)) t A"
    by (auto simp: in_track_def inbound_evict_idle_def in_live_def evict_one_keeps(4))
qed

lemma slot_to_replace_Some:
  assumes "slot_to_replace x = Some i"
  shows "i < length (in_slots x) \<and> (\<not> si_live (in_slots x ! i) \<or> \<not> si_pinned (in_slots x ! i))"
proof -
  have old: "oldest_unpinned k ss = Some (j, t) \<Longrightarrow> k \<le> j \<and> j < k + length ss \<and> \<not> si_pinned (ss ! (j - k))" for k ss j t
  proof (induction ss arbitrary: k j t)
    case (Cons s ss)
    then show ?case
      by (cases "oldest_unpinned (k + 1) ss")
        (fastforce simp: Let_def nth_Cons' split: if_splits prod.splits)+
  qed simp
  show ?thesis
  proof (cases "position (\<lambda>s. \<not> si_live s) (in_slots x)")
    case None
    then obtain t where "oldest_unpinned 0 (in_slots x) = Some (i, t)" using assms by (auto simp: slot_to_replace_def)
    then show ?thesis using old[of 0 "in_slots x" i t] by simp
  next
    case (Some j)
    then show ?thesis using assms position_Some[OF Some] by (simp add: slot_to_replace_def)
  qed
qed

lemma inbound_pin_inv:
  assumes inv: "in_inv x"
  shows "\<exists>r x'. inbound_pin ssrc x = Some (r, x') \<and> in_inv x' \<and> (\<forall>t A. in_track x t A \<longrightarrow> in_track x' t A) \<and>
    (r = Inr () \<longrightarrow> (\<exists>A. in_track x' ssrc A))"
proof -
  let ?p = "\<lambda>s. si_live s \<and> si_ssrc s = ssrc"
  define existing where "existing = position ?p (in_slots x)"
  have ex: "in_live (in_slots x) ssrc i" if "existing = Some i" for i
    using position_Some[of ?p "in_slots x" i] that by (simp add: existing_def in_live_def)
  have nex: "\<not> in_live (in_slots x) ssrc k" if "existing = None" for k
    using that nth_mem[of k "in_slots x"] by (auto simp: existing_def position_None in_live_def)
  show ?thesis
  proof (cases "(case existing of Some i \<Rightarrow> si_pinned (in_slots x ! i) | None \<Rightarrow> False) \<or>
      in_pinned_count x \<ge> INBOUND_PINNED_MAX \<or> existing = None \<and> slot_to_replace x = None")
    case True
    have "in_track x ssrc A" if "existing = Some i" "si_pinned (in_slots x ! i)"
      "replay_abs (si_rtp_replay (in_slots x ! i)) A" for i A
      using ex[OF that(1)] that by (auto simp: in_track_def)
    moreover have "\<exists>A. replay_abs (si_rtp_replay (in_slots x ! i)) A" if "existing = Some i" for i
      using ex[OF that] inv by (auto simp: in_inv_def in_slot_ok_def in_live_def)
    ultimately show ?thesis using True inv
      by (auto simp: inbound_pin_def existing_def[symmetric] Let_def split: option.splits)
  next
    case False
    define slot where "slot = (case existing of Some i \<Rightarrow> i | None \<Rightarrow> the (slot_to_replace x))"
    define s where "s = (case existing of Some i \<Rightarrow> in_slots x ! i | None \<Rightarrow> ssrc_in_fresh ssrc 0)"
    have sl: "slot < length (in_slots x)" "\<not> (si_live (in_slots x ! slot) \<and> si_pinned (in_slots x ! slot))"
      using False ex slot_to_replace_Some[of x] by (auto simp: slot_def in_live_def split: option.splits)
    have s: "in_slot_ok s" "si_live s" "si_ssrc s = ssrc"
      using ex inv ssrc_in_fresh_ok by (auto simp: s_def in_live_def in_inv_def split: option.splits)
    have uniq: "k = slot" if "in_live (in_slots x) ssrc k" for k
    proof (cases existing)
      case None
      then show ?thesis using nex that by blast
    next
      case (Some i)
      then show ?thesis using in_live_unique[OF inv that ex[OF Some]] by (simp add: slot_def)
    qed
    let ?x = "set_in_slot slot (s\<lparr>si_pinned := True\<rparr>) x"
    have cnt: "in_pinned_count ?x \<le> INBOUND_PINNED_MAX"
      using False filter_update_le_Suc[of "\<lambda>s. si_live s \<and> si_pinned s" "in_slots x" slot "s\<lparr>si_pinned := True\<rparr>"]
      by (simp add: in_pinned_count_def)
    have upd: "in_live (in_slots ?x) t j \<longleftrightarrow> (if j = slot then t = ssrc else in_live (in_slots x) t j)" for t j
      using sl(1) s by (auto simp: in_live_def)
    have live: "j = k" if "in_live (in_slots ?x) t j" "in_live (in_slots ?x) t k" for t j k
      using that uniq in_live_unique[OF inv, of t j k] unfolding upd by (metis (full_types))
    have s': "in_slot_ok (s\<lparr>si_pinned := True\<rparr>)" using s by (auto simp: in_slot_ok_def)
    have "in_slot_ok t" if "t \<in> set (in_slots ?x)" for t
    proof -
      have "t = s\<lparr>si_pinned := True\<rparr> \<or> t \<in> set (in_slots x)"
        using that set_update_subset_insert[of "in_slots x" slot] by fastforce
      then show ?thesis using s' inv by (auto simp: in_inv_def)
    qed
    then have "in_inv ?x" using inv cnt live unfolding in_inv_def
      by (metis length_list_update set_slot_sel(3,5))
    moreover have "in_track ?x t A" if "in_track x t A" for t A
      using in_track_other[OF that sl(1)] sl(2) by (auto simp: in_live_def)
    moreover have "\<exists>A. in_track ?x ssrc A"
      using s sl(1) by (auto simp: in_track_def in_live_def in_slot_ok_def intro!: exI[of _ slot])
    moreover have "inbound_pin ssrc x = Some (Inr (), ?x)"
      using False sl(1) cnt
      by (auto simp: inbound_pin_def existing_def[symmetric] Let_def slot_def s_def split: option.splits)
    ultimately show ?thesis by blast
  qed
qed

lemma inbound_unpin_inv:
  assumes inv: "in_inv x"
  shows "in_inv (inbound_unpin ssrc x)" and "in_track x t A \<Longrightarrow> t \<noteq> ssrc \<Longrightarrow> in_track (inbound_unpin ssrc x) t A"
proof -
  let ?p = "position (\<lambda>s. si_live s \<and> si_ssrc s = ssrc) (in_slots x)"
  have live: "in_live (in_slots x) ssrc i" "in_slot_ok (in_slots x ! i)" if "?p = Some i" for i
    using position_Some[OF that] inv by (auto simp: in_live_def in_inv_def)
  show "in_inv (inbound_unpin ssrc x)"
  proof (cases ?p)
    case (Some i)
    note l = live[OF Some]
    let ?s = "(in_slots x ! i)\<lparr>si_pinned := False\<rparr>"
    have "\<forall>k. in_live (in_slots x) (si_ssrc ?s) k \<longrightarrow> k = i"
      using inv l(1) unfolding in_inv_def in_live_def by simp
    moreover have "i < length (in_slots x)" "in_slot_ok ?s" using l by (simp_all add: in_live_def in_slot_ok_def)
    ultimately have "in_inv (set_in_slot i ?s x)" by (intro in_inv_update[OF inv]) simp_all
    then show ?thesis by (simp add: inbound_unpin_def Some)
  qed (simp add: inbound_unpin_def inv)
  show "in_track (inbound_unpin ssrc x) t A" if "in_track x t A" "t \<noteq> ssrc"
  proof (cases ?p)
    case (Some i)
    then show ?thesis using in_track_other[OF that(1)] live[OF Some] that(2)
      by (auto simp: inbound_unpin_def in_live_def)
  qed (simp add: inbound_unpin_def that)
qed

section \<open>Sequences of inbound operations\<close>

datatype in_op = In_Rtp bytes nat u32 | In_Rtcp bytes nat u32 | In_Evict u32 u32 | In_Pin u32 | In_Unpin u32

text \<open>The log holds the (SSRC, index) of the RTP packets accepted, newest first.\<close>

fun in_step :: "prims \<Rightarrow> in_op \<Rightarrow> (u32 \<times> u64) list \<times> srtp_inbound \<Rightarrow> ((u32 \<times> u64) list \<times> srtp_inbound) option" where
  "in_step P (In_Rtp buf n now_s) (L, x) = do {
     (r, x') \<leftarrow> inbound_unprotect_rtp P buf n now_s x;
     Some (case (r, u32_at buf 8, in_rtp_index buf now_s x) of
         (Some _, Some ssrc, Some i) \<Rightarrow> (ssrc, i) # L | _ \<Rightarrow> L, x') }"
| "in_step P (In_Rtcp buf n now_s) (L, x) = do { (_, x') \<leftarrow> inbound_unprotect_rtcp P buf n now_s x; Some (L, x') }"
| "in_step P (In_Evict now_s idle_s) (L, x) = Some (L, snd (inbound_evict_idle now_s idle_s x))"
| "in_step P (In_Pin ssrc) (L, x) = do { (_, x') \<leftarrow> inbound_pin ssrc x; Some (L, x') }"
| "in_step P (In_Unpin ssrc) (L, x) = Some (L, inbound_unpin ssrc x)"

fun in_run :: "prims \<Rightarrow> in_op list \<Rightarrow> (u32 \<times> u64) list \<times> srtp_inbound \<Rightarrow> ((u32 \<times> u64) list \<times> srtp_inbound) option" where
  "in_run P [] st = Some st"
| "in_run P (op # ops) st = do { st' \<leftarrow> in_step P op st; in_run P ops st' }"

definition log_of :: "u32 \<Rightarrow> (u32 \<times> u64) list \<Rightarrow> u64 list" where
  "log_of t L = map snd (filter (\<lambda>p. fst p = t) L)"

lemma log_of_Cons [simp]: "log_of t ((s, i) # L) = (if s = t then i # log_of t L else log_of t L)"
  by (simp add: log_of_def)

definition in_good :: "u32 \<Rightarrow> u64 set \<Rightarrow> (u32 \<times> u64) list \<times> srtp_inbound \<Rightarrow> bool" where
  "in_good t A st \<longleftrightarrow> in_inv (snd st) \<and> distinct (log_of t (fst st)) \<and> set (log_of t (fst st)) \<inter> A = {} \<and>
     in_track (snd st) t (A \<union> set (log_of t (fst st)))"

lemma in_step_inv:
  assumes ok: "prims_ok P" and inv: "in_inv (snd st)"
  shows "\<exists>st'. in_step P op st = Some st' \<and> in_inv (snd st')"
proof -
  obtain L x where st: "st = (L, x)" by (cases st)
  have inv: "in_inv x" using inv st by simp
  show ?thesis
  proof (cases op)
    case (In_Rtp buf n now)
    obtain r x' where "inbound_unprotect_rtp P buf n now x = Some (r, x')" "in_inv x'"
      using inbound_unprotect_rtp_inv[OF ok inv, of buf n now] by blast
    then show ?thesis using st In_Rtp by simp
  next
    case (In_Rtcp buf n now)
    obtain r x' where "inbound_unprotect_rtcp P buf n now x = Some (r, x')" "in_inv x'"
      using inbound_unprotect_rtcp_inv[OF ok inv, of buf n now] by blast
    then show ?thesis using st In_Rtcp by simp
  next
    case (In_Pin ssrc)
    obtain r x' where "inbound_pin ssrc x = Some (r, x')" "in_inv x'"
      using inbound_pin_inv[OF inv, of ssrc] by blast
    then show ?thesis using st In_Pin by simp
  qed (use st inbound_evict_idle_inv(1)[OF inv] inbound_unpin_inv(1)[OF inv] in simp_all)
qed

lemma in_run_inv:
  "prims_ok P \<Longrightarrow> in_inv (snd st) \<Longrightarrow> \<exists>st'. in_run P ops st = Some st' \<and> in_inv (snd st')"
proof (induction ops arbitrary: st)
  case (Cons op ops)
  obtain st1 where st1: "in_step P op st = Some st1" "in_inv (snd st1)" using in_step_inv[OF Cons.prems] by blast
  show ?case using Cons.IH[OF Cons.prems(1) st1(2)] st1(1) by simp
qed simp

lemma in_step_good:
  assumes ok: "prims_ok P" and g: "in_good t A st" and keep: "op \<noteq> In_Unpin t"
  shows "\<exists>st'. in_step P op st = Some st' \<and> in_good t A st'"
proof -
  obtain L x where st: "st = (L, x)" by (cases st)
  let ?B = "A \<union> set (log_of t L)"
  have inv: "in_inv x" and tr: "in_track x t ?B" using g st by (simp_all add: in_good_def)
  show ?thesis
  proof (cases op)
    case (In_Rtp buf n now)
    obtain r x' where u: "inbound_unprotect_rtp P buf n now x = Some (r, x')" "in_inv x'"
      "if r \<noteq> None \<and> u32_at buf 8 = Some t
       then \<exists>i. in_rtp_index buf now x = Some i \<and> i \<notin> ?B \<and> in_track x' t (insert i ?B) \<and>
          cipher_unprotect_rtp P (in_cipher x) buf n i = Some (Inr (the r))
       else in_track x' t ?B"
      using inbound_unprotect_rtp_inv[OF ok inv, of buf n now] tr by blast
    show ?thesis
    proof (cases "r \<noteq> None \<and> u32_at buf 8 = Some t")
      case True
      then show ?thesis using u g st In_Rtp by (auto simp: in_good_def)
    next
      case False
      then have "in_track x' t ?B" using u(3) by argo
      then show ?thesis using u g st In_Rtp False
        by (auto simp: in_good_def split: option.splits)
    qed
  next
    case (In_Rtcp buf n now)
    obtain r x' where "inbound_unprotect_rtcp P buf n now x = Some (r, x')" "in_inv x'" "in_track x' t ?B"
      using inbound_unprotect_rtcp_inv[OF ok inv, of buf n now] tr by blast
    then show ?thesis using g st In_Rtcp by (simp add: in_good_def)
  next
    case (In_Evict now idle)
    then show ?thesis using g st inbound_evict_idle_inv[OF inv] tr by (simp add: in_good_def)
  next
    case (In_Pin ssrc)
    obtain r x' where "inbound_pin ssrc x = Some (r, x')" "in_inv x'" "in_track x' t ?B"
      using inbound_pin_inv[OF inv, of ssrc] tr by blast
    then show ?thesis using g st In_Pin by (simp add: in_good_def)
  next
    case (In_Unpin ssrc)
    then show ?thesis using g st inbound_unpin_inv[OF inv] tr keep by (simp add: in_good_def)
  qed
qed

lemma in_run_good:
  "prims_ok P \<Longrightarrow> in_good t A st \<Longrightarrow> In_Unpin t \<notin> set ops \<Longrightarrow>
   \<exists>st'. in_run P ops st = Some st' \<and> in_good t A st'"
proof (induction ops arbitrary: st)
  case (Cons op ops)
  then have op: "op \<noteq> In_Unpin t" and ops: "In_Unpin t \<notin> set ops" by auto
  obtain st1 where st1: "in_step P op st = Some st1" "in_good t A st1"
    using in_step_good[OF Cons.prems(1,2) op] by blast
  show ?case using Cons.IH[OF Cons.prems(1) st1(2) ops] st1(1) by simp
qed simp

end
