(* ===== verification/Plane_Types.thy ===== *)
theory Plane_Types
  imports Slab Srtp_Direction "HOL-Library.Multiset"
begin

text \<open>
  The data the shard works on: identifiers, commands and events
  (\<^verbatim>\<open>nexus-dataplane/src/ids.rs\<close>, \<^verbatim>\<open>command.rs\<close>), rewrite state and
  subscriptions (\<^verbatim>\<open>subscription.rs\<close>), tracks (\<^verbatim>\<open>track.rs\<close>), sessions with
  their fixed-capacity lists and the ring of recent STUN transactions
  (\<^verbatim>\<open>session.rs\<close>), and the random numbers (\<^verbatim>\<open>rng.rs\<close>).

  An \<^verbatim>\<open>Instant\<close> is a number of nanoseconds since some origin, a
  \<^verbatim>\<open>Duration\<close> a number of nanoseconds.  A fixed array with a used length
  (\<^verbatim>\<open>FixedVec\<close>, \<^verbatim>\<open>MidValue\<close>, \<^verbatim>\<open>PtMap\<close>) is the list of its used items, and
  its capacity an argument of the operation that checks it.
\<close>

section \<open>Time, addresses, identifiers\<close>

type_synonym instant = nat
type_synonym duration = nat

definition secs :: "nat \<Rightarrow> duration" where
  "secs n = n * 1000000000"

definition millis :: "nat \<Rightarrow> duration" where
  "millis n = n * 1000000"

text \<open>\<^verbatim>\<open>saturating_duration_since\<close>.\<close>

definition since :: "instant \<Rightarrow> instant \<Rightarrow> duration" where
  "since now past = now - past"

definition as_millis :: "duration \<Rightarrow> nat" where
  "as_millis d = d div 1000000"

definition as_secs :: "duration \<Rightarrow> nat" where
  "as_secs d = d div 1000000000"

text \<open>\<^verbatim>\<open>SocketAddr\<close>: address, port and, for IPv6, flow information and scope.\<close>

datatype sock_addr = SockV4 u32 u16 | SockV6 "128 word" u16 u32 u32

type_synonym session_id = u64
type_synonym track_id = u64
type_synonym subscription_id = u64

definition MAX_SHARDS :: nat where "MAX_SHARDS = 64"

text \<open>\<^verbatim>\<open>SessionId::new\<close> and its two siblings; \<^verbatim>\<open>ShardId::new\<close>.\<close>

definition id_new :: "u64 \<Rightarrow> u64 option" where
  "id_new v = do { rassert (v \<noteq> 0); Some v }"

definition shard_id_new :: "u8 \<Rightarrow> u8 option" where
  "shard_id_new i = do { rassert (unat i < MAX_SHARDS); Some i }"

record track_ref =
  tr_shard :: u8
  tr_track :: track_id

text \<open>\<^verbatim>\<open>MidValue\<close> holds 1 to 16 bytes, \<^verbatim>\<open>CnameValue\<close> 1 to 255.\<close>

definition short_bytes_new :: "nat \<Rightarrow> bytes \<Rightarrow> bytes option" where
  "short_bytes_new cap v = (if v = [] \<or> length v > cap then None else Some v)"

definition MID_CAPACITY :: nat where "MID_CAPACITY = 16"
definition CNAME_CAPACITY :: nat where "CNAME_CAPACITY = 255"

section \<open>Command data\<close>

record ice_params =
  ice_local_ufrag :: bytes
  ice_local_pwd :: bytes

record codec_params =
  cp_pt :: u8
  cp_clock_rate :: u32

record ext_ids =
  xi_mid :: u8
  xi_audio_level :: u8
  xi_video_orientation :: u8

datatype media_kind = Audio | Video

record track_spec =
  ts_kind :: media_kind
  ts_mid :: bytes
  ts_ssrc :: "u32 option"
  ts_codec :: codec_params
  ts_ext :: ext_ids
  ts_cname :: bytes

type_synonym pt_map = "(u8 \<times> u8) list"

definition PT_MAP_CAPACITY :: nat where "PT_MAP_CAPACITY = 2"

definition pt_map_map :: "pt_map \<Rightarrow> u8 \<Rightarrow> u8 option" where
  "pt_map_map m pt = map_option snd (find (\<lambda>p. fst p = pt) m)"

fun pt_map_add :: "(u8 \<times> u8) list \<Rightarrow> pt_map \<Rightarrow> pt_map option" where
  "pt_map_add [] m = Some m"
| "pt_map_add ((from, to) # ps) m =
     (if from > 127 \<or> to > 127 \<or> pt_map_map m from \<noteq> None then None
      else pt_map_add ps (m @ [(from, to)]))"

definition pt_map_new :: "(u8 \<times> u8) list \<Rightarrow> pt_map option" where
  "pt_map_new pairs = (if length pairs > PT_MAP_CAPACITY then None else pt_map_add pairs [])"

record ext_map =
  em_map :: bytes
  em_mid :: u8

fun ext_targets_valid :: "bool list \<Rightarrow> u8 list \<Rightarrow> bool" where
  "ext_targets_valid used [] = True"
| "ext_targets_valid used (i # is) =
     (if i > 14 \<or> used ! unat i then False else ext_targets_valid (used[unat i := True]) is)"

definition ext_map_is_valid :: "ext_map \<Rightarrow> bool" where
  "ext_map_is_valid m \<longleftrightarrow>
     ext_targets_valid (replicate 16 False) (filter (\<lambda>i. i \<noteq> 0) (em_map m @ [em_mid m])) \<and> em_map m ! 0 = 0"

record sub_spec =
  ss_out_ssrc :: u32
  ss_mid :: bytes
  ss_pt_map :: pt_map
  ss_ext_map :: ext_map
  ss_source :: track_ref

record srtp_install =
  sx_local :: key_material
  sx_remote :: key_material

datatype command =
    CreateSession session_id ice_params u32
  | SendDatagram session_id bytes
  | InstallSrtp session_id srtp_install
  | AddTrack session_id track_id track_spec
  | RemoveTrack track_id
  | Subscribe session_id subscription_id track_id sub_spec
  | Unsubscribe subscription_id
  | CloseSession session_id

datatype select_reason = Nominated | Rebound

datatype reject_reason =
    UnknownSession | UnknownTrack | UnknownSubscription | DuplicateId | SessionLimit | TrackLimit
  | SubscriptionLimit | SrtpAlreadyInstalled | SrtpSetup | OutSsrcNotMonotonic | SsrcInUse
  | WrongShard | InvalidSpec

datatype event =
    DtlsDatagram session_id bytes
  | AddressSelected session_id sock_addr select_reason
  | PeerSrtpVerified session_id
  | ConsentLost session_id
  | CommandRejected "session_id option" reject_reason

text \<open>What an event sink answers; a refused event is handed back to the shard.\<close>

datatype sink_answer = Sink_Ok | Sink_Full | Sink_Closed

section \<open>Subscriptions and tracks\<close>

record rewrite_state =
  rw_out_ssrc :: u32
  rw_seq_offset :: u16
  rw_ts_offset :: u32
  rw_started :: bool
  rw_last_out_seq :: u16
  rw_last_out_ts :: u32
  rw_last_out_at :: "instant option"
  rw_last_in_seq :: u16
  rw_layer :: u8

definition rewrite_state_new :: "u32 \<Rightarrow> rewrite_state" where
  "rewrite_state_new ssrc = \<lparr>rw_out_ssrc = ssrc, rw_seq_offset = 0, rw_ts_offset = 0, rw_started = False,
     rw_last_out_seq = 0, rw_last_out_ts = 0, rw_last_out_at = None, rw_last_in_seq = 0, rw_layer = 0\<rparr>"

record subscription =
  sb_id :: subscription_id
  sb_session :: key
  sb_track :: key
  sb_rewrite :: rewrite_state
  sb_ext_map :: ext_map
  sb_pub_mid :: u8
  sb_clock_rate :: u32
  sb_pt_map :: pt_map
  sb_mid :: bytes
  sb_sent_packets :: u32
  sb_sent_octets :: u32

record sr_info =
  sr_ntp :: u64
  sr_rtp :: u32

record layer =
  ly_ssrc :: "u32 option"
  ly_last_sr :: "sr_info option"

text \<open>A track has \<^verbatim>\<open>MAX_LAYERS\<close> = 1 layer.\<close>

record published_track =
  pt_id :: track_id
  pt_session :: key
  pt_spec :: track_spec
  pt_layer :: layer
  pt_subscribers :: "key list"
  pt_last_pli :: "instant option"

definition published_track_new :: "track_id \<Rightarrow> key \<Rightarrow> track_spec \<Rightarrow> published_track" where
  "published_track_new i s spec = \<lparr>pt_id = i, pt_session = s, pt_spec = spec,
     pt_layer = \<lparr>ly_ssrc = ts_ssrc spec, ly_last_sr = None\<rparr>, pt_subscribers = [], pt_last_pli = None\<rparr>"

section \<open>Sessions\<close>

definition MAX_TRACKS_PER_SESSION :: nat where "MAX_TRACKS_PER_SESSION = 10"
definition MAX_SUBS_PER_SESSION :: nat where "MAX_SUBS_PER_SESSION = 31"
definition MAX_OUT_SSRC_OFFSET :: u32 where "MAX_OUT_SSRC_OFFSET = 0x7FFFFFFF"
definition DTLS_BUDGET_PER_SWEEP :: u16 where "DTLS_BUDGET_PER_SWEEP = 32"
definition RECENT_TRANSACTIONS :: nat where "RECENT_TRANSACTIONS = 16"

definition fixed_push :: "nat \<Rightarrow> 'a \<Rightarrow> 'a list \<Rightarrow> bool \<times> 'a list" where
  "fixed_push cap x xs = (if length xs = cap then (False, xs) else (True, xs @ [x]))"

text \<open>\<^verbatim>\<open>Vec::swap_remove\<close>: the last item takes the place of the removed one.\<close>

definition swap_remove :: "nat \<Rightarrow> 'a list \<Rightarrow> 'a list" where
  "swap_remove i xs = butlast (xs[i := last xs])"

definition swap_remove_where :: "('a \<Rightarrow> bool) \<Rightarrow> 'a list \<Rightarrow> 'a option \<times> 'a list" where
  "swap_remove_where P xs = (case position P xs of
     None \<Rightarrow> (None, xs) | Some i \<Rightarrow> (Some (xs ! i), swap_remove i xs))"

record session =
  se_id :: session_id
  se_addr :: "sock_addr option"
  se_prev_addr :: "sock_addr option"
  se_last_rx_selected :: instant
  se_ice :: ice_params
  se_srtp_in :: "srtp_inbound option"
  se_srtp_out :: "srtp_outbound option"
  se_srtp_verified :: bool
  se_consent_lost :: bool
  se_dtls_budget :: u16
  se_last_switch :: "instant option"
  se_pending_nomination :: "sock_addr option"
  se_switch_listed :: bool
  se_unreported_switch :: "select_reason option"
  se_recent_transactions :: "bytes list"
  se_recent_len :: nat
  se_next_transaction :: nat
  se_out_ssrc_base :: u32
  se_last_out_ssrc_offset :: u32
  se_published :: "(u32 \<times> key) list"
  se_unbound :: "key list"
  se_subs :: "key list"

definition session_new :: "session_id \<Rightarrow> ice_params \<Rightarrow> u32 \<Rightarrow> instant \<Rightarrow> session" where
  "session_new i ice base now = \<lparr>se_id = i, se_addr = None, se_prev_addr = None, se_last_rx_selected = now,
     se_ice = ice, se_srtp_in = None, se_srtp_out = None, se_srtp_verified = False, se_consent_lost = False,
     se_dtls_budget = DTLS_BUDGET_PER_SWEEP, se_last_switch = None, se_pending_nomination = None,
     se_switch_listed = False, se_unreported_switch = None,
     se_recent_transactions = replicate RECENT_TRANSACTIONS (replicate 12 0), se_recent_len = 0,
     se_next_transaction = 0, se_out_ssrc_base = base, se_last_out_ssrc_offset = 0, se_published = [],
     se_unbound = [], se_subs = []\<rparr>"

definition session_rtcp_ssrc :: "session \<Rightarrow> u32" where
  "session_rtcp_ssrc s = se_out_ssrc_base s"

definition session_track_count :: "session \<Rightarrow> nat" where
  "session_track_count s = length (se_published s) + length (se_unbound s)"

definition track_of_ssrc :: "session \<Rightarrow> u32 \<Rightarrow> key option" where
  "track_of_ssrc s ssrc = map_option snd (find (\<lambda>p. fst p = ssrc) (se_published s))"

definition note_transaction :: "bytes \<Rightarrow> session \<Rightarrow> (bool \<times> session) option" where
  "note_transaction i s =
     (if i \<in> set (take (se_recent_len s) (se_recent_transactions s)) then Some (True, s)
      else do {
        rassert (se_next_transaction s < length (se_recent_transactions s));
        Some (False, s\<lparr>se_recent_transactions := (se_recent_transactions s)[se_next_transaction s := i],
          se_next_transaction := (se_next_transaction s + 1) mod RECENT_TRANSACTIONS,
          se_recent_len := min (se_recent_len s + 1) RECENT_TRANSACTIONS\<rparr>) })"

definition out_ssrc_offset :: "session \<Rightarrow> u32 \<Rightarrow> u32" where
  "out_ssrc_offset s ssrc = ssrc - se_out_ssrc_base s"

section \<open>Random numbers\<close>

text \<open>SplitMix64: the state is the last value of the counter.\<close>

definition rng_next :: "u64 \<Rightarrow> u64 \<times> u64" where
  "rng_next st = (
     let st = st + 0x9E3779B97F4A7C15;
         z = (st XOR drop_bit 30 st) * 0xBF58476D1CE4E5B9;
         z = (z XOR drop_bit 27 z) * 0x94D049BB133111EB
     in (z XOR drop_bit 31 z, st))"

section \<open>Fixed-capacity lists\<close>

lemma swap_remove_mset:
  assumes "i < length xs" shows "mset xs = add_mset (xs ! i) (mset (swap_remove i xs))"
proof -
  obtain ys z where xs: "xs = ys @ [z]" using assms by (cases xs rule: rev_cases) auto
  show ?thesis
  proof (cases "i < length ys")
    case True
    then show ?thesis unfolding xs by (simp add: swap_remove_def list_update_append nth_append mset_update)
  next
    case False
    then show ?thesis using assms unfolding xs by (simp add: swap_remove_def list_update_append nth_append)
  qed
qed

lemma swap_remove_distinct:
  assumes "i < length xs" "distinct xs"
  shows "distinct (swap_remove i xs)" "set (swap_remove i xs) = set xs - {xs ! i}"
    "length (swap_remove i xs) = length xs - 1"
proof -
  have m: "mset xs = mset (xs ! i # swap_remove i xs)" using swap_remove_mset[OF assms(1)] by simp
  then have "distinct (xs ! i # swap_remove i xs)" using assms(2) mset_eq_imp_distinct_iff by blast
  moreover have "set xs = set (xs ! i # swap_remove i xs)" using m by (rule mset_eq_setD)
  ultimately show "distinct (swap_remove i xs)" "set (swap_remove i xs) = set xs - {xs ! i}" by auto
  show "length (swap_remove i xs) = length xs - 1" using mset_eq_length[OF m] by simp
qed

lemma swap_remove_where_None: "swap_remove_where P xs = (None, ys) \<Longrightarrow> ys = xs \<and> (\<forall>x\<in>set xs. \<not> P x)"
  by (auto simp: swap_remove_where_def position_None split: option.splits)

lemma swap_remove_where_Some:
  assumes "swap_remove_where P xs = (Some x, ys)"
  shows "x \<in> set xs \<and> P x \<and> mset xs = add_mset x (mset ys)"
proof -
  obtain i where i: "position P xs = Some i" "x = xs ! i" "ys = swap_remove i xs"
    using assms by (auto simp: swap_remove_where_def split: option.splits)
  then show ?thesis using position_Some[OF i(1)] swap_remove_mset[of i xs] by auto
qed

section \<open>Payload type maps\<close>

definition pt_map_ok :: "pt_map \<Rightarrow> bool" where
  "pt_map_ok m \<longleftrightarrow> distinct (map fst m) \<and> (\<forall>(a, b)\<in>set m. a \<le> 127 \<and> b \<le> 127)"

lemma pt_map_map_iff: "pt_map_ok m \<Longrightarrow> pt_map_map m a = Some b \<longleftrightarrow> (a, b) \<in> set m"
  unfolding pt_map_map_def pt_map_ok_def
  by (induction m) (auto, (force simp: rev_image_eqI)+)

lemma pt_map_map_None: "pt_map_map m a = None \<longleftrightarrow> a \<notin> fst ` set m"
  by (force simp: pt_map_map_def find_None_iff)

lemma pt_map_add_ok: "pt_map_ok m \<Longrightarrow> pt_map_add ps m = Some m' \<Longrightarrow> pt_map_ok m' \<and> m' = m @ ps"
proof (induction ps m rule: pt_map_add.induct)
  case (2 a b ps m)
  have c: "a \<le> 127" "b \<le> 127" "a \<notin> fst ` set m"
    using 2(3) by (auto simp: pt_map_map_None[symmetric] split: if_splits)
  then have ok: "pt_map_ok (m @ [(a, b)])" using 2(2) by (auto simp: pt_map_ok_def)
  have rest: "pt_map_add ps (m @ [(a, b)]) = Some m'" using 2(3) by (simp split: if_splits)
  have "\<not> (a > 127 \<or> b > 127 \<or> pt_map_map m a \<noteq> None)"
    using c by (simp add: pt_map_map_None not_less)
  from 2(1)[OF this ok rest] show ?case by (metis append.assoc append_Cons append_Nil)
qed simp

lemma pt_map_new_ok: "pt_map_new ps = Some m \<Longrightarrow> pt_map_ok m \<and> m = ps \<and> length m \<le> PT_MAP_CAPACITY"
  using pt_map_add_ok[of "[]" ps m] by (auto simp: pt_map_new_def pt_map_ok_def split: if_splits)

section \<open>Extension maps\<close>

lemma ext_targets_valid_iff:
  assumes "length used = 16"
  shows "ext_targets_valid used is \<longleftrightarrow>
    distinct is \<and> (\<forall>i\<in>set is. i \<le> 14 \<and> \<not> used ! unat i)"
  using assms
proof (induction used "is" rule: ext_targets_valid.induct)
  case (2 used i "is")
  show ?case
  proof (cases "i \<le> 14 \<and> \<not> used ! unat i")
    case True
    then have "unat i < 16" by (simp add: word_le_nat_alt)
    then show ?thesis using True 2 by (auto simp: nth_list_update not_less simp flip: word_unat_eq_iff)
  qed (auto simp: not_le)
qed simp

text \<open>A valid map has identifiers up to 14, none used twice, and drops identifier 0.\<close>

lemma ext_map_is_valid_iff:
  "ext_map_is_valid m \<longleftrightarrow> em_map m ! 0 = 0 \<and> distinct (filter (\<lambda>i. i \<noteq> 0) (em_map m @ [em_mid m])) \<and>
     (\<forall>i\<in>set (em_map m) \<union> {em_mid m}. i \<le> 14)"
proof -
  have u: "\<not> replicate 16 False ! unat i" if "i \<le> (14 :: u8)" for i
    using that by (simp add: word_le_nat_alt)
  have z: "i \<le> 14" if "i = 0" for i :: u8 using that by simp
  show ?thesis unfolding ext_map_is_valid_def
    by (subst ext_targets_valid_iff) (auto dest: u z)
qed

section \<open>The ring of recent transactions\<close>

text \<open>\<open>ring_abs s hist\<close>: the session recorded the transactions \<open>hist\<close>, newest first.\<close>

definition ring_abs :: "session \<Rightarrow> bytes list \<Rightarrow> bool" where
  "ring_abs s hist \<longleftrightarrow> length (se_recent_transactions s) = RECENT_TRANSACTIONS \<and>
     se_recent_len s = min (length hist) RECENT_TRANSACTIONS \<and>
     se_next_transaction s = length hist mod RECENT_TRANSACTIONS \<and>
     (\<forall>j < se_recent_len s. se_recent_transactions s ! ((length hist - 1 - j) mod RECENT_TRANSACTIONS) = hist ! j)"

lemma session_new_ring: "ring_abs (session_new i ice base now) []"
  by (simp add: ring_abs_def session_new_def)

lemma ring_index_inverse:
  fixes p n :: nat assumes "p < min n 16" shows "\<exists>j<min n 16. (n - 1 - j) mod 16 = p"
proof (cases "n \<le> 16")
  case True
  then show ?thesis using assms by (intro exI[of _ "n - 1 - p"]) auto
next
  case False
  define j where "j = (n - 1 - p) mod 16"
  have "j < 16" by (simp add: j_def)
  moreover have "(n - 1 - j) mod 16 = p"
  proof -
    define q where "q = (n - 1 - p) div 16"
    have "n - 1 - p = 16 * q + j" unfolding q_def j_def by simp
    moreover have "p < 16" "16 < n" using False assms by simp_all
    ultimately have "n - 1 - j = p + 16 * q" by arith
    then show ?thesis using assms by simp
  qed
  ultimately show ?thesis using False by auto
qed

lemma ring_recent:
  assumes "ring_abs s hist"
  shows "set (take (se_recent_len s) (se_recent_transactions s)) = set (take RECENT_TRANSACTIONS hist)"
proof -
  let ?n = "min (length hist) 16" and ?r = "se_recent_transactions s"
  have a: "length ?r = 16" "se_recent_len s = ?n" "\<And>j. j < ?n \<Longrightarrow> ?r ! ((length hist - 1 - j) mod 16) = hist ! j"
    using assms by (simp_all add: ring_abs_def RECENT_TRANSACTIONS_def)
  have lt: "(length hist - 1 - j) mod 16 < ?n" if "j < ?n" for j
    using that by (cases "length hist \<le> 16") (auto simp: min_def)
  have "(\<lambda>p. ?r ! p) ` {..<?n} = (\<lambda>j. hist ! j) ` {..<?n}"
  proof (intro equalityI subsetI)
    fix x assume "x \<in> (\<lambda>p. ?r ! p) ` {..<?n}"
    then obtain p where p: "p < ?n" "x = ?r ! p" by auto
    then obtain j where "j < ?n" "(length hist - 1 - j) mod 16 = p" using ring_index_inverse by blast
    then show "x \<in> (\<lambda>j. hist ! j) ` {..<?n}" using a(3) p by auto
  next
    fix x assume "x \<in> (\<lambda>j. hist ! j) ` {..<?n}"
    then obtain j where j: "j < ?n" "x = hist ! j" by auto
    then show "x \<in> (\<lambda>p. ?r ! p) ` {..<?n}" using a(3)[OF j(1)] lt[OF j(1)] by (metis imageI lessThan_iff)
  qed
  moreover have "set (take ?n ?r) = (\<lambda>p. ?r ! p) ` {..<?n}"
    using nth_image[of ?n ?r] a(1) by (simp add: lessThan_atLeast0)
  moreover have "set (take 16 hist) = (\<lambda>j. hist ! j) ` {..<?n}"
    using nth_image[of ?n hist] by (simp add: lessThan_atLeast0 min_def split: if_splits)
  ultimately show ?thesis by (simp only: a(2) RECENT_TRANSACTIONS_def)
qed

lemma note_transaction_spec:
  assumes "ring_abs s hist"
  shows "\<exists>s'. note_transaction i s = Some (i \<in> set (take RECENT_TRANSACTIONS hist), s') \<and>
    ring_abs s' (if i \<in> set (take RECENT_TRANSACTIONS hist) then hist else i # hist)"
proof (cases "i \<in> set (take RECENT_TRANSACTIONS hist)")
  case True
  then show ?thesis using assms ring_recent[OF assms]
    by (intro exI[of _ s]) (simp only: note_transaction_def if_True simp_thms)
next
  case False
  let ?n = "length hist"
  have a: "length (se_recent_transactions s) = 16" "se_recent_len s = min ?n 16" "se_next_transaction s = ?n mod 16"
    "\<And>j. j < min ?n 16 \<Longrightarrow> se_recent_transactions s ! ((?n - 1 - j) mod 16) = hist ! j"
    using assms by (simp_all add: ring_abs_def RECENT_TRANSACTIONS_def)
  have ring: "(se_recent_transactions s)[?n mod 16 := i] ! ((Suc ?n - 1 - j) mod 16) = (i # hist) ! j"
    if "j < min (Suc ?n) 16" for j
  proof (cases j)
    case 0
    then show ?thesis using a(1) by simp
  next
    case (Suc k)
    have k: "k < ?n" "Suc k < 16" using that Suc by auto
    have "(?n - 1 - k) mod 16 \<noteq> ?n mod 16"
    proof
      assume "(?n - 1 - k) mod 16 = ?n mod 16"
      then have "16 dvd ?n - (?n - 1 - k)" using mod_eq_dvd_iff_nat[of "?n - 1 - k" ?n 16] by simp
      then show False using k by (simp add: nat_dvd_not_less)
    qed
    moreover have "Suc ?n - 1 - j = ?n - 1 - k" using Suc by simp
    ultimately show ?thesis using a(4)[of k] that Suc by simp
  qed
  let ?s = "s\<lparr>se_recent_transactions := (se_recent_transactions s)[?n mod 16 := i],
      se_next_transaction := (?n mod 16 + 1) mod 16, se_recent_len := min (min ?n 16 + 1) 16\<rparr>"
  have len: "min (min ?n 16 + 1) 16 = min (Suc ?n) 16" "(?n mod 16 + 1) mod 16 = Suc ?n mod 16"
    by (simp_all add: mod_Suc_eq)
  have "se_recent_len ?s = min (Suc ?n) 16" "se_recent_transactions ?s = (se_recent_transactions s)[?n mod 16 := i]"
    "se_next_transaction ?s = Suc ?n mod 16" by (simp_all add: len(1) mod_Suc_eq)
  note sel = this
  have "ring_abs ?s (i # hist)"
    unfolding ring_abs_def RECENT_TRANSACTIONS_def sel length_list_update a(1) list.size(4) add_Suc_right add_0_right
    using ring by (intro conjI allI impI refl)
  moreover have "note_transaction i s = Some (False, ?s)"
    using False ring_recent[OF assms] a(1-3) by (simp add: note_transaction_def RECENT_TRANSACTIONS_def)
  ultimately show ?thesis using False by (intro exI[of _ ?s] conjI) (simp_all only: if_False)
qed

end
