(* ===== verification/Rtcp_Packet.thy ===== *)
theory Rtcp_Packet
  imports Nexus_Prelude
begin

text \<open>
  The RTCP codecs of \<^verbatim>\<open>nexus-media/src/rtcp\<close>: the common header
  (\<^verbatim>\<open>header.rs\<close>), splitting a compound datagram (\<^verbatim>\<open>compound.rs\<close>), and the
  parsers and builders of sender and receiver reports, PLI, NACK, FIR, REMB
  and transport-wide feedback (\<^verbatim>\<open>packet.rs\<close>).  The outer option is a panic
  (an access out of range or a failed assertion), the sum the code's
  \<^verbatim>\<open>Result\<close>.

  The lemmas show that no input makes a parser panic, that the blocks of a
  compound are consecutive pieces of it, and that what the builders write is
  read back.
\<close>

section \<open>Header\<close>

definition RTCP_HEADER_MIN_SIZE_BYTES :: nat where "RTCP_HEADER_MIN_SIZE_BYTES = 8"
definition RTCP_VERSION :: u8 where "RTCP_VERSION = 2"

datatype rtcp_error =
    RtcpTooShort nat nat
  | RtcpInvalidVersion u8
  | RtcpInvalidPacketType u8
  | RtcpInvalidReportCount u8 nat

datatype rtcp_type =
    RtSenderReport | RtReceiverReport | RtSourceDescription | RtGoodbye | RtApplicationDefined
  | RtTransportFeedback | RtPayloadFeedback | RtExtendedReports | RtUnknown u8

definition rtcp_type_from_byte :: "u8 \<Rightarrow> rtcp_type" where
  "rtcp_type_from_byte pt =
     (if pt = 200 then RtSenderReport
      else if pt = 201 then RtReceiverReport
      else if pt = 202 then RtSourceDescription
      else if pt = 203 then RtGoodbye
      else if pt = 204 then RtApplicationDefined
      else if pt = 205 then RtTransportFeedback
      else if pt = 206 then RtPayloadFeedback
      else if pt = 207 then RtExtendedReports
      else RtUnknown pt)"

fun rtcp_type_to_byte :: "rtcp_type \<Rightarrow> u8" where
  "rtcp_type_to_byte RtSenderReport = 200"
| "rtcp_type_to_byte RtReceiverReport = 201"
| "rtcp_type_to_byte RtSourceDescription = 202"
| "rtcp_type_to_byte RtGoodbye = 203"
| "rtcp_type_to_byte RtApplicationDefined = 204"
| "rtcp_type_to_byte RtTransportFeedback = 205"
| "rtcp_type_to_byte RtPayloadFeedback = 206"
| "rtcp_type_to_byte RtExtendedReports = 207"
| "rtcp_type_to_byte (RtUnknown pt) = pt"

record rtcp_header =
  rc_version :: u8
  rc_padding :: bool
  rc_count :: u8
  rc_packet_type :: rtcp_type
  rc_length_words :: u16
  rc_ssrc :: u32

definition version_of :: "u8 \<Rightarrow> u8" where
  "version_of b = drop_bit 6 b AND 3"

definition rtcp_header_parse :: "bytes \<Rightarrow> (rtcp_error + rtcp_header) option" where
  "rtcp_header_parse d =
     (if length d < RTCP_HEADER_MIN_SIZE_BYTES
      then Some (Inl (RtcpTooShort (length d) RTCP_HEADER_MIN_SIZE_BYTES))
      else do {
        first \<leftarrow> idx d 0;
        if version_of first \<noteq> RTCP_VERSION then Some (Inl (RtcpInvalidVersion (version_of first)))
        else do {
          pt \<leftarrow> idx d 1;
          len \<leftarrow> u16_at d 2;
          ssrc \<leftarrow> u32_at d 4;
          Some (Inr \<lparr>rc_version = version_of first, rc_padding = (drop_bit 5 first AND 1 \<noteq> 0),
            rc_count = first AND 0x1F, rc_packet_type = rtcp_type_from_byte pt, rc_length_words = len,
            rc_ssrc = ssrc\<rparr>) } })"

definition packet_len_bytes :: "rtcp_header \<Rightarrow> nat" where
  "packet_len_bytes h = (unat (rc_length_words h) + 1) * 4"

section \<open>Compound packets\<close>

definition MAX_COMPOUND_PACKETS :: nat where "MAX_COMPOUND_PACKETS = 16"

type_synonym compound_entry = "rtcp_header \<times> bytes"

text \<open>The loop, at \<open>offset\<close> with the entries so far.  Every packet has at
  least four bytes, so the offset grows.\<close>

function demux_loop :: "bytes \<Rightarrow> nat \<Rightarrow> compound_entry list \<Rightarrow> (rtcp_error + compound_entry list) option" where
  "demux_loop d off es =
     (if \<not> (off + RTCP_HEADER_MIN_SIZE_BYTES \<le> length d \<and> length es < MAX_COMPOUND_PACKETS) then Some (Inr es)
      else do {
        first \<leftarrow> idx d off;
        if version_of first \<noteq> RTCP_VERSION then Some (Inl (RtcpInvalidVersion (version_of first)))
        else do {
          h \<leftarrow> rtcp_header_parse (drop off d);
          case h of
            Inl e \<Rightarrow> Some (Inl e)
          | Inr h \<Rightarrow>
              if packet_len_bytes h < 4 \<or> off + packet_len_bytes h > length d
              then Some (Inl (RtcpTooShort (length d - off) (packet_len_bytes h)))
              else do {
                p \<leftarrow> sub_slice d off (off + packet_len_bytes h);
                demux_loop d (off + packet_len_bytes h) (es @ [(h, p)]) } } })"
  by pat_completeness auto

termination by (relation "measure (\<lambda>(d, off, es). length d - off)") (auto simp: RTCP_HEADER_MIN_SIZE_BYTES_def)

declare demux_loop.simps [simp del]

definition demux_compound :: "bytes \<Rightarrow> (rtcp_error + compound_entry list) option" where
  "demux_compound d = demux_loop d 0 []"

section \<open>Sender reports\<close>

definition SENDER_REPORT_MIN_SIZE_BYTES :: nat where "SENDER_REPORT_MIN_SIZE_BYTES = 28"

record sender_report =
  srp_ssrc :: u32
  srp_ntp_timestamp :: u64
  srp_rtp_timestamp :: u32
  srp_packet_count :: u32
  srp_octet_count :: u32

text \<open>The checks every packet parser starts with: length, version, packet
  type and, for feedback messages, the format in the count bits.\<close>

definition rtcp_check :: "nat \<Rightarrow> u8 \<Rightarrow> u8 option \<Rightarrow> bytes \<Rightarrow> (rtcp_error + unit) option" where
  "rtcp_check least pt fmt d =
     (if length d < least then Some (Inl (RtcpTooShort (length d) least))
      else do {
        first \<leftarrow> idx d 0;
        if version_of first \<noteq> RTCP_VERSION then Some (Inl (RtcpInvalidVersion (version_of first)))
        else do {
          t \<leftarrow> idx d 1;
          if t \<noteq> pt then Some (Inl (RtcpInvalidPacketType t))
          else case fmt of
            None \<Rightarrow> Some (Inr ())
          | Some f \<Rightarrow> if first AND 0x1F \<noteq> f then Some (Inl (RtcpInvalidPacketType (first AND 0x1F)))
                      else Some (Inr ()) } })"

text \<open>\<^verbatim>\<open>?\<close> on a result: an error is passed on.\<close>

definition on_ok :: "('e + 'a) option \<Rightarrow> ('a \<Rightarrow> ('e + 'b) option) \<Rightarrow> ('e + 'b) option" where
  "on_ok r f = do { x \<leftarrow> r; case x of Inl e \<Rightarrow> Some (Inl e) | Inr a \<Rightarrow> f a }"

definition u64_at :: "bytes \<Rightarrow> nat \<Rightarrow> u64 option" where
  "u64_at d i = map_option be64 (sub_slice d i (i + 8))"

definition sender_report_parse :: "bytes \<Rightarrow> (rtcp_error + sender_report) option" where
  "sender_report_parse d = on_ok (rtcp_check SENDER_REPORT_MIN_SIZE_BYTES 200 None d) (\<lambda>_. do {
     ssrc \<leftarrow> u32_at d 4;
     ntp \<leftarrow> u64_at d 8;
     rtp \<leftarrow> u32_at d 16;
     packets \<leftarrow> u32_at d 20;
     octets \<leftarrow> u32_at d 24;
     Some (Inr \<lparr>srp_ssrc = ssrc, srp_ntp_timestamp = ntp, srp_rtp_timestamp = rtp,
       srp_packet_count = packets, srp_octet_count = octets\<rparr>) })"

section \<open>Receiver reports\<close>

definition RECEIVER_REPORT_MIN_SIZE_BYTES :: nat where "RECEIVER_REPORT_MIN_SIZE_BYTES = 8"
definition RECEIVER_REPORT_BLOCK_SIZE_BYTES :: nat where "RECEIVER_REPORT_BLOCK_SIZE_BYTES = 24"

record receiver_report_block =
  rrb_ssrc :: u32
  rrb_fraction_lost :: u8
  rrb_cumulative_lost :: u32
  rrb_highest_seq :: u32
  rrb_jitter :: u32
  rrb_last_sr :: u32
  rrb_delay_since_sr :: u32

text \<open>The cumulative loss is a 24-bit signed number; the \<^verbatim>\<open>i32\<close> of the code
  is the signed reading of the 32-bit word.\<close>

definition rr_block_parse :: "bytes \<Rightarrow> (rtcp_error + receiver_report_block) option" where
  "rr_block_parse d =
     (if length d < RECEIVER_REPORT_BLOCK_SIZE_BYTES
      then Some (Inl (RtcpTooShort (length d) RECEIVER_REPORT_BLOCK_SIZE_BYTES))
      else do {
        ssrc \<leftarrow> u32_at d 0;
        fraction \<leftarrow> idx d 4;
        c0 \<leftarrow> idx d 5;
        c1 \<leftarrow> idx d 6;
        c2 \<leftarrow> idx d 7;
        seq \<leftarrow> u32_at d 8;
        jitter \<leftarrow> u32_at d 12;
        lsr \<leftarrow> u32_at d 16;
        dlsr \<leftarrow> u32_at d 20;
        Some (Inr \<lparr>rrb_ssrc = ssrc, rrb_fraction_lost = fraction,
          rrb_cumulative_lost = (if c0 AND 0x80 \<noteq> 0 then be32 0xFF c0 c1 c2 else be32 0 c0 c1 c2),
          rrb_highest_seq = seq, rrb_jitter = jitter, rrb_last_sr = lsr, rrb_delay_since_sr = dlsr\<rparr>) })"

record receiver_report =
  rr_ssrc :: u32
  rr_blocks :: "receiver_report_block list"

fun rr_blocks_parse :: "bytes \<Rightarrow> nat list \<Rightarrow> receiver_report_block list \<Rightarrow>
    (rtcp_error + receiver_report_block list) option" where
  "rr_blocks_parse d [] bs = Some (Inr bs)"
| "rr_blocks_parse d (i # is) bs = do {
     s \<leftarrow> sub_slice d (8 + i * RECEIVER_REPORT_BLOCK_SIZE_BYTES)
            (8 + i * RECEIVER_REPORT_BLOCK_SIZE_BYTES + RECEIVER_REPORT_BLOCK_SIZE_BYTES);
     on_ok (rr_block_parse s) (\<lambda>b. rr_blocks_parse d is (bs @ [b])) }"

definition receiver_report_parse :: "bytes \<Rightarrow> (rtcp_error + receiver_report) option" where
  "receiver_report_parse d = on_ok (rtcp_check RECEIVER_REPORT_MIN_SIZE_BYTES 201 None d) (\<lambda>_. do {
     first \<leftarrow> idx d 0;
     let rc = unat (first AND 0x1F);
     ssrc \<leftarrow> u32_at d 4;
     if length d < 8 + rc * RECEIVER_REPORT_BLOCK_SIZE_BYTES
     then Some (Inl (RtcpInvalidReportCount (of_nat rc) (length d - 8)))
     else on_ok (rr_blocks_parse d [0..<rc] []) (\<lambda>bs. Some (Inr \<lparr>rr_ssrc = ssrc, rr_blocks = bs\<rparr>)) })"

section \<open>Feedback messages\<close>

definition RTCP_PSFB_PT :: u8 where "RTCP_PSFB_PT = 206"
definition RTCP_RTPFB_PT :: u8 where "RTCP_RTPFB_PT = 205"

text \<open>The builders start with a zeroed vector of the whole length and write
  the header (version 2, format, type, length in words minus one), the
  sender's SSRC and the media SSRC.\<close>

definition feedback_packet :: "nat \<Rightarrow> u8 \<Rightarrow> u8 \<Rightarrow> u32 \<Rightarrow> u32 \<Rightarrow> bytes option" where
  "feedback_packet n fmt pt sender media = do {
     let words = n div 4 - 1;
     p \<leftarrow> copy_into (replicate n 0) 0 [push_bit 6 RTCP_VERSION OR fmt];
     p \<leftarrow> copy_into p 1 [pt];
     p \<leftarrow> copy_into p 2 [of_nat (words div 256)];
     p \<leftarrow> copy_into p 3 [of_nat words];
     p \<leftarrow> copy_into p 4 (to_be32 sender);
     copy_into p 8 (to_be32 media) }"

record pli_packet =
  pli_sender_ssrc :: u32
  pli_media_ssrc :: u32

definition pli_parse :: "bytes \<Rightarrow> (rtcp_error + pli_packet) option" where
  "pli_parse d = on_ok (rtcp_check 12 RTCP_PSFB_PT (Some 1) d) (\<lambda>_. do {
     sender \<leftarrow> u32_at d 4;
     media \<leftarrow> u32_at d 8;
     Some (Inr \<lparr>pli_sender_ssrc = sender, pli_media_ssrc = media\<rparr>) })"

definition pli_build :: "pli_packet \<Rightarrow> bytes option" where
  "pli_build p = feedback_packet 12 1 RTCP_PSFB_PT (pli_sender_ssrc p) (pli_media_ssrc p)"

subsection \<open>NACK\<close>

definition MAX_NACK_PACKETS :: nat where "MAX_NACK_PACKETS = 64"
definition MAX_FCI_ENTRIES :: nat where "MAX_FCI_ENTRIES = 32"

record nack_packet =
  nk_sender_ssrc :: u32
  nk_media_ssrc :: u32
  nk_lost_packets :: "u16 list"

fun nack_bits :: "u16 \<Rightarrow> u16 \<Rightarrow> nat list \<Rightarrow> u16 list \<Rightarrow> u16 list" where
  "nack_bits pid blp [] lost = lost"
| "nack_bits pid blp (b # bs) lost =
     (if blp AND push_bit b 1 \<noteq> 0 then
        let lost = lost @ [pid + (of_nat b + 1)]
        in if length lost \<ge> MAX_NACK_PACKETS then lost else nack_bits pid blp bs lost
      else nack_bits pid blp bs lost)"

function nack_loop :: "bytes \<Rightarrow> nat \<Rightarrow> u16 list \<Rightarrow> u16 list option" where
  "nack_loop d off lost =
     (if off + 4 \<le> length d \<and> length lost < MAX_NACK_PACKETS then do {
        pid \<leftarrow> u16_at d off;
        blp \<leftarrow> u16_at d (off + 2);
        nack_loop d (off + 4) (nack_bits pid blp [0..<16] (lost @ [pid])) }
      else Some lost)"
  by pat_completeness auto

termination by (relation "measure (\<lambda>(d, off, lost). length d - off)") auto

declare nack_loop.simps [simp del]

definition nack_parse :: "bytes \<Rightarrow> (rtcp_error + nack_packet) option" where
  "nack_parse d = on_ok (rtcp_check 12 RTCP_RTPFB_PT (Some 1) d) (\<lambda>_. do {
     sender \<leftarrow> u32_at d 4;
     media \<leftarrow> u32_at d 8;
     lost \<leftarrow> nack_loop d 12 [];
     Some (Inr \<lparr>nk_sender_ssrc = sender, nk_media_ssrc = media, nk_lost_packets = lost\<rparr>) })"

text \<open>The inner loop of \<^verbatim>\<open>encode_fci_entries\<close> collects what fits the bit
  mask of \<open>pid\<close> and stops at the first number more than 16 ahead; the list is
  what is left from position \<^verbatim>\<open>j\<close> on.\<close>

fun blp_scan :: "u16 \<Rightarrow> u16 list \<Rightarrow> u16 \<Rightarrow> u16 \<times> u16 list" where
  "blp_scan pid [] blp = (blp, [])"
| "blp_scan pid (s # ss) blp =
     (let diff = s - pid in
      if 1 \<le> diff \<and> diff \<le> 16 then blp_scan pid ss (blp OR push_bit (unat (diff - 1)) 1)
      else if diff > 16 then (blp, s # ss)
      else blp_scan pid ss blp)"

fun fci_loop :: "nat \<Rightarrow> u16 list \<Rightarrow> (u16 \<times> u16) list" where
  "fci_loop 0 ss = []"
| "fci_loop (Suc n) [] = []"
| "fci_loop (Suc n) (pid # ss) = (let (blp, rest) = blp_scan pid ss 0 in (pid, blp) # fci_loop n rest)"

definition encode_fci_entries :: "u16 list \<Rightarrow> (u16 \<times> u16) list" where
  "encode_fci_entries lost = fci_loop MAX_FCI_ENTRIES (sort (take MAX_NACK_PACKETS lost))"

fun put_fci :: "nat \<Rightarrow> (u16 \<times> u16) list \<Rightarrow> bytes \<Rightarrow> bytes option" where
  "put_fci i [] p = Some p"
| "put_fci i ((pid, blp) # es) p = do {
     p \<leftarrow> copy_into p (12 + i * 4) (to_be16 pid);
     p \<leftarrow> copy_into p (12 + i * 4 + 2) (to_be16 blp);
     put_fci (i + 1) es p }"

definition nack_build :: "nack_packet \<Rightarrow> bytes option" where
  "nack_build k = do {
     let es = encode_fci_entries (nk_lost_packets k);
     p \<leftarrow> feedback_packet (12 + length es * 4) 1 RTCP_RTPFB_PT (nk_sender_ssrc k) (nk_media_ssrc k);
     put_fci 0 es p }"

subsection \<open>FIR\<close>

definition RTCP_PSFB_FMT_FIR :: u8 where "RTCP_PSFB_FMT_FIR = 4"

record fir_entry =
  fe_ssrc :: u32
  fe_seq_nr :: u8

record fir_packet =
  fir_sender_ssrc :: u32
  fir_entries :: "fir_entry list"

function fir_loop :: "bytes \<Rightarrow> nat \<Rightarrow> fir_entry list \<Rightarrow> fir_entry list option" where
  "fir_loop d off es =
     (if off + 8 \<le> length d \<and> length es < 31 then do {
        ssrc \<leftarrow> u32_at d off;
        s \<leftarrow> idx d (off + 4);
        fir_loop d (off + 8) (es @ [\<lparr>fe_ssrc = ssrc, fe_seq_nr = s\<rparr>]) }
      else Some es)"
  by pat_completeness auto

termination by (relation "measure (\<lambda>(d, off, es). length d - off)") auto

declare fir_loop.simps [simp del]

definition fir_parse :: "bytes \<Rightarrow> (rtcp_error + fir_packet) option" where
  "fir_parse d = on_ok (rtcp_check 20 RTCP_PSFB_PT (Some RTCP_PSFB_FMT_FIR) d) (\<lambda>_. do {
     sender \<leftarrow> u32_at d 4;
     es \<leftarrow> fir_loop d 12 [];
     Some (Inr \<lparr>fir_sender_ssrc = sender, fir_entries = es\<rparr>) })"

fun put_fir :: "nat \<Rightarrow> fir_entry list \<Rightarrow> bytes \<Rightarrow> bytes option" where
  "put_fir i [] p = Some p"
| "put_fir i (e # es) p = do {
     p \<leftarrow> copy_into p (12 + i * 8) (to_be32 (fe_ssrc e));
     p \<leftarrow> copy_into p (12 + i * 8 + 4) [fe_seq_nr e];
     put_fir (i + 1) es p }"

definition fir_build :: "fir_packet \<Rightarrow> bytes option" where
  "fir_build f = do {
     p \<leftarrow> feedback_packet (12 + length (fir_entries f) * 8) RTCP_PSFB_FMT_FIR RTCP_PSFB_PT (fir_sender_ssrc f) 0;
     put_fir 0 (fir_entries f) p }"

text \<open>\<^verbatim>\<open>FirSeqTracker\<close>: the used entries of its table, oldest first.\<close>

type_synonym fir_tracker = "(u32 \<times> u8) list"

definition FIR_MAX_TRACKED :: nat where "FIR_MAX_TRACKED = 64"

definition fir_tracker_new :: fir_tracker where "fir_tracker_new = []"

definition next_seq_nr :: "u32 \<Rightarrow> fir_tracker \<Rightarrow> u8 \<times> fir_tracker" where
  "next_seq_nr ssrc t =
     (case position (\<lambda>e. fst e = ssrc) t of
        Some i \<Rightarrow> (snd (t ! i), t[i := (ssrc, snd (t ! i) + 1)])
      | None \<Rightarrow> if length t < FIR_MAX_TRACKED then (0, t @ [(ssrc, 1)])
                else (0, List.tl t @ [(ssrc, 1)]))"

fun fir_entries_for :: "u32 list \<Rightarrow> fir_tracker \<Rightarrow> fir_entry list \<times> fir_tracker" where
  "fir_entries_for [] t = ([], t)"
| "fir_entries_for (s # ss) t =
     (let (n, t) = next_seq_nr s t; (es, t) = fir_entries_for ss t
      in (\<lparr>fe_ssrc = s, fe_seq_nr = n\<rparr> # es, t))"

definition build_fir :: "u32 \<Rightarrow> u32 list \<Rightarrow> fir_tracker \<Rightarrow> fir_packet \<times> fir_tracker" where
  "build_fir sender targets t =
     (let (es, t) = fir_entries_for (take 31 targets) t
      in (\<lparr>fir_sender_ssrc = sender, fir_entries = es\<rparr>, t))"

subsection \<open>REMB\<close>

definition RTCP_PSFB_FMT_REMB :: u8 where "RTCP_PSFB_FMT_REMB = 15"
definition REMB_IDENTIFIER :: bytes where "REMB_IDENTIFIER = [82, 69, 77, 66]"

record remb_packet =
  rb_sender_ssrc :: u32
  rb_bitrate_bps :: u64
  rb_ssrcs :: "u32 list"

fun remb_ssrcs :: "nat \<Rightarrow> bytes \<Rightarrow> nat \<Rightarrow> u32 list option" where
  "remb_ssrcs 0 d off = Some []"
| "remb_ssrcs (Suc n) d off =
     (if off + 4 > length d then Some []
      else do { s \<leftarrow> u32_at d off; ss \<leftarrow> remb_ssrcs n d (off + 4); Some (s # ss) })"

definition remb_parse :: "bytes \<Rightarrow> (rtcp_error + remb_packet) option" where
  "remb_parse d = on_ok (rtcp_check 20 RTCP_PSFB_PT (Some RTCP_PSFB_FMT_REMB) d) (\<lambda>_. do {
     sender \<leftarrow> u32_at d 4;
     ident \<leftarrow> sub_slice d 12 16;
     if ident \<noteq> REMB_IDENTIFIER then Some (Inl (RtcpInvalidPacketType 0))
     else do {
       count \<leftarrow> idx d 16;
       let num = min (unat count) 32;
       if length d < 20 + num * 4 then Some (Inl (RtcpTooShort (length d) (20 + num * 4)))
       else do {
         b17 \<leftarrow> idx d 17;
         b18 \<leftarrow> idx d 18;
         b19 \<leftarrow> idx d 19;
         let ex = drop_bit 2 b17 AND 0x3F;
         let mantissa = (push_bit 16 (ucast (b17 AND 3)) OR push_bit 8 (ucast b18) OR ucast b19 :: u32);
         ss \<leftarrow> remb_ssrcs num d 20;
         Some (Inr \<lparr>rb_sender_ssrc = sender, rb_bitrate_bps = push_bit (unat ex) (ucast mantissa), rb_ssrcs = ss\<rparr>) } } })"

text \<open>The loop of \<^verbatim>\<open>encode_bitrate\<close>; the exponent is a \<^verbatim>\<open>u8\<close> below 64.\<close>

function bitrate_loop :: "u64 \<Rightarrow> nat \<Rightarrow> nat \<times> u64" where
  "bitrate_loop m e = (if m > 0x3FFFF \<and> e < 63 then bitrate_loop (drop_bit 1 m) (e + 1) else (e, m))"
  by pat_completeness auto

termination by (relation "measure (\<lambda>(m, e). 63 - e)") auto

declare bitrate_loop.simps [simp del]

definition encode_bitrate :: "u64 \<Rightarrow> u8 \<times> u32" where
  "encode_bitrate b =
     (if b = 0 then (0, 0) else let (e, m) = bitrate_loop b 0 in (of_nat e, ucast m AND 0x3FFFF))"

fun put_ssrcs :: "nat \<Rightarrow> u32 list \<Rightarrow> bytes \<Rightarrow> bytes option" where
  "put_ssrcs i [] p = Some p"
| "put_ssrcs i (s # ss) p = do { p \<leftarrow> copy_into p (20 + i * 4) (to_be32 s); put_ssrcs (i + 1) ss p }"

definition remb_build :: "remb_packet \<Rightarrow> bytes option" where
  "remb_build r = do {
     rassert (rb_bitrate_bps r > 0);
     rassert (rb_ssrcs r \<noteq> []);
     p \<leftarrow> feedback_packet (20 + length (rb_ssrcs r) * 4) RTCP_PSFB_FMT_REMB RTCP_PSFB_PT (rb_sender_ssrc r) 0;
     p \<leftarrow> copy_into p 12 REMB_IDENTIFIER;
     let (ex, mantissa) = encode_bitrate (rb_bitrate_bps r);
     p \<leftarrow> copy_into p 16 [of_nat (length (rb_ssrcs r))];
     p \<leftarrow> copy_into p 17 [push_bit 2 ex OR ucast (drop_bit 16 mantissa AND 3)];
     p \<leftarrow> copy_into p 18 [ucast (drop_bit 8 mantissa AND 0xFF)];
     p \<leftarrow> copy_into p 19 [ucast (mantissa AND 0xFF)];
     put_ssrcs 0 (rb_ssrcs r) p }"

section \<open>Sender report generation\<close>

definition NTP_EPOCH_OFFSET :: u64 where "NTP_EPOCH_OFFSET = 2208988800"

record sr_generator =
  sg_sender_ssrc :: u32
  sg_packet_count :: u32
  sg_octet_count :: u32

definition sr_generator_new :: "u32 \<Rightarrow> sr_generator option" where
  "sr_generator_new ssrc = do {
     rassert (ssrc \<noteq> 0);
     Some \<lparr>sg_sender_ssrc = ssrc, sg_packet_count = 0, sg_octet_count = 0\<rparr> }"

text \<open>The NTP timestamp of a Unix time in whole seconds and nanoseconds.\<close>

definition calculate_ntp_timestamp :: "u64 \<Rightarrow> u64 \<Rightarrow> u64" where
  "calculate_ntp_timestamp s nanos = push_bit 32 (s + NTP_EPOCH_OFFSET) OR (push_bit 32 nanos div 1000000000)"

definition sr_generate :: "sr_generator \<Rightarrow> u64 \<Rightarrow> u64 \<Rightarrow> u32 \<Rightarrow> bytes option" where
  "sr_generate g s nanos rtp = do {
     p \<leftarrow> copy_into (replicate SENDER_REPORT_MIN_SIZE_BYTES 0) 0 [push_bit 6 RTCP_VERSION];
     p \<leftarrow> copy_into p 1 [200];
     p \<leftarrow> copy_into p 2 [0];
     p \<leftarrow> copy_into p 3 [6];
     p \<leftarrow> copy_into p 4 (to_be32 (sg_sender_ssrc g));
     p \<leftarrow> copy_into p 8 (to_be64 (calculate_ntp_timestamp s nanos));
     p \<leftarrow> copy_into p 16 (to_be32 rtp);
     p \<leftarrow> copy_into p 20 (to_be32 (sg_packet_count g));
     copy_into p 24 (to_be32 (sg_octet_count g)) }"

definition sr_update_stats :: "nat \<Rightarrow> sr_generator \<Rightarrow> sr_generator" where
  "sr_update_stats n g = g\<lparr>sg_packet_count := sg_packet_count g + 1, sg_octet_count := sg_octet_count g + of_nat n\<rparr>"

section \<open>Transport-wide feedback\<close>

record transport_cc =
  tc_sender_ssrc :: u32
  tc_media_ssrc :: u32
  tc_base_sequence :: u16
  tc_packet_status_count :: u16
  tc_reference_time :: u32
  tc_feedback_packet_count :: u8

definition transport_cc_parse :: "bytes \<Rightarrow> (rtcp_error + transport_cc) option" where
  "transport_cc_parse d = on_ok (rtcp_check 20 RTCP_RTPFB_PT (Some 15) d) (\<lambda>_. do {
     sender \<leftarrow> u32_at d 4;
     media \<leftarrow> u32_at d 8;
     base \<leftarrow> u16_at d 12;
     count \<leftarrow> u16_at d 14;
     r0 \<leftarrow> idx d 16;
     r1 \<leftarrow> idx d 17;
     r2 \<leftarrow> idx d 18;
     fb \<leftarrow> idx d 19;
     Some (Inr \<lparr>tc_sender_ssrc = sender, tc_media_ssrc = media, tc_base_sequence = base,
       tc_packet_status_count = count,
       tc_reference_time = push_bit 16 (ucast r0) OR push_bit 8 (ucast r1) OR ucast r2,
       tc_feedback_packet_count = fb\<rparr>) })"

text \<open>\<^verbatim>\<open>i64\<close> division truncates; the quotient is clamped to an \<^verbatim>\<open>i16\<close>.\<close>

definition delta_250us :: "u64 \<Rightarrow> u64 \<Rightarrow> int" where
  "delta_250us arrival ref =
     (let us = sint (arrival - ref); q = (if us < 0 then - ((- us) div 250) else us div 250)
      in max (- 32768) (min q 32767))"

fun twcc_record :: "u16 \<Rightarrow> nat \<Rightarrow> u64 \<Rightarrow> (u16 \<times> u64) list \<Rightarrow> int option list \<Rightarrow> int option list" where
  "twcc_record base n ref [] xs = xs"
| "twcc_record base n ref ((s, t) # as) xs =
     twcc_record base n ref as
       (if unat (s - base) < n then xs[unat (s - base) := Some (delta_250us t ref)] else xs)"

fun chunk_bits :: "nat \<Rightarrow> bool list \<Rightarrow> u16 \<Rightarrow> u16" where
  "chunk_bits j [] c = c"
| "chunk_bits j (r # rs) c = chunk_bits (j + 1) rs (if r then c OR push_bit (13 - j) 1 else c)"

function twcc_chunks :: "bool list \<Rightarrow> bytes" where
  "twcc_chunks rs = (if rs = [] then []
     else to_be16 (chunk_bits 0 (take 14 rs) (push_bit 15 1)) @ twcc_chunks (drop 14 rs))"
  by pat_completeness auto

termination by (relation "measure length") auto

declare twcc_chunks.simps [simp del]

definition twcc_delta :: "int option \<Rightarrow> bytes" where
  "twcc_delta x = (case x of None \<Rightarrow> []
     | Some v \<Rightarrow> if 0 \<le> v \<and> v \<le> 255 then [of_int v] else to_be16 (of_int v))"

definition twcc_build :: "u32 \<Rightarrow> u32 \<Rightarrow> u8 \<Rightarrow> (u16 \<times> u64) list \<Rightarrow> bytes option option" where
  "twcc_build sender media fb arrivals =
     (if arrivals = [] then Some None
      else do {
        first \<leftarrow> idx arrivals 0;
        final \<leftarrow> idx arrivals (length arrivals - 1);
        let base = fst first;
        let n = unat (fst final - base + 1);
        if n = 0 \<or> n > 256 then Some None
        else do {
          let t0 = (ucast (snd first div 64000) :: u32);
          let xs = twcc_record base n (snd first) arrivals (replicate n None);
          let buf = [push_bit 6 2 OR 15, 205, 0, 0] @ to_be32 sender @ to_be32 media @ to_be16 base @
                to_be16 (of_nat n) @
                [ucast (drop_bit 16 t0 AND 0xFF), ucast (drop_bit 8 t0 AND 0xFF), ucast (t0 AND 0xFF), fb] @
                twcc_chunks (map (\<lambda>x. x \<noteq> None) xs) @ concat (map twcc_delta xs);
          let buf = buf @ replicate ((4 - length buf mod 4) mod 4) 0;
          buf \<leftarrow> copy_into buf 2 (to_be16 (of_nat (length buf div 4 - 1)));
          Some (Some buf) } })"

section \<open>The parsers never panic\<close>

lemma on_ok_simps [simp]:
  "on_ok (Some (Inl e)) f = Some (Inl e)" "on_ok (Some (Inr a)) f = f a" "on_ok None f = None"
  by (simp_all add: on_ok_def)

lemma on_ok_total:
  assumes "\<exists>r. m = Some r" "\<And>a. m = Some (Inr a) \<Longrightarrow> \<exists>r. f a = Some r"
  shows "\<exists>r. on_ok m f = Some r"
proof -
  obtain r where "m = Some r" using assms(1) by blast
  then show ?thesis using assms(2) by (cases r) auto
qed

lemma on_ok_Inr: "on_ok m f = Some (Inr b) \<longleftrightarrow> (\<exists>a. m = Some (Inr a) \<and> f a = Some (Inr b))"
  by (cases m; cases "the m") (auto simp: on_ok_def)

lemma rtcp_check_ok_iff:
  "2 \<le> n \<Longrightarrow> rtcp_check n pt fmt d = Some (Inr ()) \<longleftrightarrow>
     n \<le> length d \<and> version_of (d ! 0) = 2 \<and> d ! 1 = pt \<and> (\<forall>f. fmt = Some f \<longrightarrow> d ! 0 AND 0x1F = f)"
  by (auto simp: rtcp_check_def RTCP_VERSION_def bind_eq_Some_conv idx_eq_Some_iff split: if_splits option.splits)

lemma rtcp_check_total: "2 \<le> n \<Longrightarrow> \<exists>r. rtcp_check n pt fmt d = Some r"
  by (cases "length d < n"; cases "d = []") (simp_all add: rtcp_check_def split: option.splits)

lemma rtcp_check_length: "2 \<le> n \<Longrightarrow> rtcp_check n pt fmt d = Some (Inr u) \<Longrightarrow> n \<le> length d"
  using rtcp_check_ok_iff[of n pt fmt d] by simp

lemma u64_at_Some [simp]: "i + 8 \<le> length d \<Longrightarrow> u64_at d i = Some (be64 (take 8 (drop i d)))"
  by (simp add: u64_at_def)

lemma rtcp_header_parse_ok_iff:
  "rtcp_header_parse d = Some (Inr h) \<longleftrightarrow>
     8 \<le> length d \<and> version_of (d ! 0) = 2 \<and>
     h = \<lparr>rc_version = 2, rc_padding = (drop_bit 5 (d ! 0) AND 1 \<noteq> 0), rc_count = d ! 0 AND 0x1F,
          rc_packet_type = rtcp_type_from_byte (d ! 1), rc_length_words = be16 (d ! 2) (d ! 3),
          rc_ssrc = be32 (d ! 4) (d ! 5) (d ! 6) (d ! 7)\<rparr>"
  by (cases "length d < 8"; cases "d = []")
    (auto simp: rtcp_header_parse_def RTCP_HEADER_MIN_SIZE_BYTES_def RTCP_VERSION_def)

lemma rtcp_header_parse_total: "\<exists>r. rtcp_header_parse d = Some r"
  by (cases "length d < 8"; cases "d = []") (simp_all add: rtcp_header_parse_def RTCP_HEADER_MIN_SIZE_BYTES_def)

lemma demux_loop_total: "\<exists>r. demux_loop d off es = Some r"
proof (induction d off es rule: demux_loop.induct)
  case (1 d off es)
  show ?case
  proof (cases "off + 8 \<le> length d \<and> length es < MAX_COMPOUND_PACKETS \<and> version_of (d ! off) = RTCP_VERSION")
    case True
    obtain r where r: "rtcp_header_parse (drop off d) = Some r" using rtcp_header_parse_total by blast
    show ?thesis
    proof (cases r)
      case (Inr h)
      show ?thesis
      proof (cases "packet_len_bytes h < 4 \<or> off + packet_len_bytes h > length d")
        case False
        then have "sub_slice d off (off + packet_len_bytes h) = Some (take (packet_len_bytes h) (drop off d))" by simp
        moreover have "idx d off = Some (d ! off)" using True by simp
        ultimately show ?thesis
          using 1[of "d ! off" r h "take (packet_len_bytes h) (drop off d)"] True False r Inr
          by (subst demux_loop.simps) (simp add: RTCP_HEADER_MIN_SIZE_BYTES_def)
      qed (use True r Inr in \<open>subst demux_loop.simps, simp add: RTCP_HEADER_MIN_SIZE_BYTES_def\<close>)
    qed (use True r in \<open>subst demux_loop.simps, simp add: RTCP_HEADER_MIN_SIZE_BYTES_def\<close>)
  qed (subst demux_loop.simps, auto simp: RTCP_HEADER_MIN_SIZE_BYTES_def)
qed

lemma demux_compound_total: "\<exists>r. demux_compound d = Some r"
  unfolding demux_compound_def by (rule demux_loop_total)

lemma sender_report_parse_total: "\<exists>r. sender_report_parse d = Some r"
  unfolding sender_report_parse_def
  by (rule on_ok_total) (auto simp: SENDER_REPORT_MIN_SIZE_BYTES_def rtcp_check_total dest!: rtcp_check_length[rotated])

lemma rr_block_parse_ok: "length s = 24 \<Longrightarrow> \<exists>b. rr_block_parse s = Some (Inr b)"
  by (simp add: rr_block_parse_def RECEIVER_REPORT_BLOCK_SIZE_BYTES_def)

lemma rr_blocks_parse_ok:
  "\<forall>i\<in>set is. 8 + i * 24 + 24 \<le> length d \<Longrightarrow>
   \<exists>cs. rr_blocks_parse d is bs = Some (Inr (bs @ cs)) \<and> length cs = length is"
proof (induction "is" arbitrary: bs)
  case (Cons i "is")
  obtain b where b: "rr_block_parse (take 24 (drop (8 + i * 24) d)) = Some (Inr b)"
    using rr_block_parse_ok[of "take 24 (drop (8 + i * 24) d)"] Cons.prems by auto
  obtain cs where "rr_blocks_parse d is (bs @ [b]) = Some (Inr ((bs @ [b]) @ cs)) \<and> length cs = length is"
    using Cons.IH[of "bs @ [b]"] Cons.prems by auto
  moreover have "sub_slice d (8 + i * 24) (8 + i * 24 + 24) = Some (take 24 (drop (8 + i * 24) d))"
    using Cons.prems by simp
  ultimately show ?case using b
    by (intro exI[of _ "b # cs"]) (simp add: RECEIVER_REPORT_BLOCK_SIZE_BYTES_def)
qed simp

text \<open>A receiver report has as many blocks as its header counts.\<close>

lemma receiver_report_parse_total:
  "\<exists>r. receiver_report_parse d = Some r \<and> (\<forall>rr. r = Inr rr \<longrightarrow> length (rr_blocks rr) = unat (d ! 0 AND 0x1F))"
proof (cases "rtcp_check RECEIVER_REPORT_MIN_SIZE_BYTES 201 None d = Some (Inr ())")
  case True
  then have n: "8 \<le> length d" using rtcp_check_length[of 8] by (simp add: RECEIVER_REPORT_MIN_SIZE_BYTES_def)
  then have ne: "d \<noteq> []" by auto
  show ?thesis
  proof (cases "length d < 8 + unat (d ! 0 AND 0x1F) * 24")
    case False
    have "\<forall>i\<in>set [0..<unat (d ! 0 AND 0x1F)]. 8 + i * 24 + 24 \<le> length d"
      using False by auto
    from rr_blocks_parse_ok[OF this, of "[]"] obtain cs where
      "rr_blocks_parse d [0..<unat (d ! 0 AND 0x1F)] [] = Some (Inr cs)" "length cs = unat (d ! 0 AND 0x1F)" by auto
    then show ?thesis using True False n ne
      by (simp add: receiver_report_parse_def RECEIVER_REPORT_BLOCK_SIZE_BYTES_def Let_def)
  qed (use True n ne in \<open>simp add: receiver_report_parse_def RECEIVER_REPORT_BLOCK_SIZE_BYTES_def Let_def\<close>)
next
  case False
  obtain r where r: "rtcp_check RECEIVER_REPORT_MIN_SIZE_BYTES 201 None d = Some r"
    using rtcp_check_total[of 8 201 None d] by (auto simp: RECEIVER_REPORT_MIN_SIZE_BYTES_def)
  then obtain e where "r = Inl e" using False by (cases r) auto
  with r show ?thesis by (simp add: receiver_report_parse_def)
qed

lemma pli_parse_total: "\<exists>r. pli_parse d = Some r"
  unfolding pli_parse_def by (rule on_ok_total) (auto simp: rtcp_check_total dest!: rtcp_check_length[rotated])

lemma nack_bits_length: "length lost \<le> 64 \<Longrightarrow> length (nack_bits pid blp bs lost) \<le> 65"
  by (induction pid blp bs lost rule: nack_bits.induct) (auto simp: MAX_NACK_PACKETS_def Let_def)

text \<open>The list of a parsed NACK has at most 65 numbers: the bound of 64 is
  checked before a packet identifier and after each number of its bit mask.\<close>

lemma nack_loop_total: "length lost \<le> 65 \<Longrightarrow> \<exists>l. nack_loop d off lost = Some l \<and> length l \<le> 65"
proof (induction d off lost rule: nack_loop.induct)
  case (1 d off lost)
  show ?case
  proof (cases "off + 4 \<le> length d \<and> length lost < MAX_NACK_PACKETS")
    case True
    then have at: "u16_at d off = Some (be16 (d ! off) (d ! (off + 1)))"
      "u16_at d (off + 2) = Some (be16 (d ! (off + 2)) (d ! (off + 3)))"
      by (simp_all add: numeral_3_eq_3)
    show ?thesis
      using 1(1)[OF True at] nack_bits_length[of "lost @ [be16 (d ! off) (d ! (off + 1))]"] True at
      by (subst nack_loop.simps) (simp add: MAX_NACK_PACKETS_def)
  qed (use 1(2) in \<open>subst nack_loop.simps, auto\<close>)
qed

lemma nack_parse_total: "\<exists>r. nack_parse d = Some r \<and> (\<forall>k. r = Inr k \<longrightarrow> length (nk_lost_packets k) \<le> 65)"
proof -
  obtain c where c: "rtcp_check 12 RTCP_RTPFB_PT (Some 1) d = Some c" using rtcp_check_total[of 12 RTCP_RTPFB_PT "Some 1" d] by auto
  show ?thesis
  proof (cases c)
    case (Inr u)
    then have "12 \<le> length d" using rtcp_check_length[of 12] c by auto
    then show ?thesis using c Inr nack_loop_total[of "[]" d 12] by (auto simp: nack_parse_def)
  qed (use c in \<open>simp add: nack_parse_def\<close>)
qed

lemma fir_loop_total: "\<exists>l. fir_loop d off es = Some l"
proof (induction d off es rule: fir_loop.induct)
  case (1 d off es)
  show ?case
  proof (cases "off + 8 \<le> length d \<and> length es < 31")
    case True
    then have at: "u32_at d off = Some (be32 (d ! off) (d ! (off + 1)) (d ! (off + 2)) (d ! (off + 3)))"
      "idx d (off + 4) = Some (d ! (off + 4))" by simp_all
    show ?thesis using 1[OF True at] True at by (subst fir_loop.simps) simp
  qed (subst fir_loop.simps, auto)
qed

lemma fir_parse_total: "\<exists>r. fir_parse d = Some r"
  unfolding fir_parse_def
proof (rule on_ok_total)
  show "\<exists>r. rtcp_check 20 RTCP_PSFB_PT (Some RTCP_PSFB_FMT_FIR) d = Some r" by (simp add: rtcp_check_total)
next
  fix a assume "rtcp_check 20 RTCP_PSFB_PT (Some RTCP_PSFB_FMT_FIR) d = Some (Inr a)"
  then have "20 \<le> length d" by (rule rtcp_check_length[rotated]) simp
  then show "\<exists>r. (do { sender \<leftarrow> u32_at d 4; es \<leftarrow> fir_loop d 12 [];
      Some (Inr \<lparr>fir_sender_ssrc = sender, fir_entries = es\<rparr>) }) = Some r"
    using fir_loop_total[of d 12 "[]"] by auto
qed

lemma remb_ssrcs_total: "\<exists>ss. remb_ssrcs n d off = Some ss"
proof (induction n arbitrary: off)
  case (Suc n)
  then obtain ss where "remb_ssrcs n d (off + 4) = Some ss" by blast
  then show ?case by (cases "off + 4 \<le> length d") simp_all
qed simp

lemma remb_parse_total: "\<exists>r. remb_parse d = Some r"
  unfolding remb_parse_def
proof (rule on_ok_total, goal_cases)
  case (2 a)
  then have "20 \<le> length d" by (rule rtcp_check_length[rotated]) simp
  then show ?case using remb_ssrcs_total[of "min (unat (d ! 16)) 32" d 20] by (auto simp: Let_def)
qed (simp add: rtcp_check_total)

lemma transport_cc_parse_total: "\<exists>r. transport_cc_parse d = Some r"
  unfolding transport_cc_parse_def
  by (rule on_ok_total) (auto simp: rtcp_check_total dest!: rtcp_check_length[rotated])

section \<open>Compound packets are cut into consecutive blocks\<close>

text \<open>What the demultiplexer knows of a block: its bytes, starting with the
  header it returns, and as long as the header says.\<close>

definition block_at :: "bytes \<Rightarrow> nat \<Rightarrow> compound_entry \<Rightarrow> bool" where
  "block_at d off e \<longleftrightarrow> rtcp_header_parse (drop off d) = Some (Inr (fst e)) \<and>
     length (snd e) = packet_len_bytes (fst e) \<and> off + length (snd e) \<le> length d \<and>
     snd e = take (length (snd e)) (drop off d)"

fun blocks_at :: "bytes \<Rightarrow> nat \<Rightarrow> compound_entry list \<Rightarrow> bool" where
  "blocks_at d off [] = True"
| "blocks_at d off (e # es) = (block_at d off e \<and> blocks_at d (off + length (snd e)) es)"

abbreviation covered :: "compound_entry list \<Rightarrow> nat" where
  "covered es \<equiv> sum_list (map (\<lambda>e. length (snd e)) es)"

lemma demux_step:
  assumes "off + 8 \<le> length d" "length es < 16" "rtcp_header_parse (drop off d) = Some (Inr h)"
    "off + packet_len_bytes h \<le> length d"
  shows "demux_loop d off es = demux_loop d (off + packet_len_bytes h)
      (es @ [(h, take (packet_len_bytes h) (drop off d))])"
proof -
  have "version_of (d ! off) = RTCP_VERSION" "idx d off = Some (d ! off)"
    using assms(1,3) by (auto simp: rtcp_header_parse_ok_iff RTCP_VERSION_def)
  then show ?thesis using assms
    by (subst demux_loop.simps) (simp add: RTCP_HEADER_MIN_SIZE_BYTES_def MAX_COMPOUND_PACKETS_def packet_len_bytes_def)
qed

lemma demux_loop_blocks:
  assumes "demux_loop d off es = Some (Inr fs)" "off \<le> length d" "length es \<le> 16"
  shows "\<exists>gs. fs = es @ gs \<and> blocks_at d off gs \<and> length fs \<le> 16 \<and> off + covered gs \<le> length d \<and>
    (length fs = 16 \<or> length d < off + covered gs + 8)"
  using assms
proof (induction d off es rule: demux_loop.induct)
  case (1 d off es)
  show ?case
  proof (cases "off + 8 \<le> length d \<and> length es < 16")
    case True
    obtain r where r: "rtcp_header_parse (drop off d) = Some r" using rtcp_header_parse_total by blast
    obtain h where h: "rtcp_header_parse (drop off d) = Some (Inr h)" "off + packet_len_bytes h \<le> length d"
      using 1(2) True r by (subst (asm) demux_loop.simps, cases r)
        (auto simp: RTCP_HEADER_MIN_SIZE_BYTES_def MAX_COMPOUND_PACKETS_def split: if_splits)
    have v: "version_of (d ! off) = RTCP_VERSION" "idx d off = Some (d ! off)"
      using h(1) True by (auto simp: rtcp_header_parse_ok_iff RTCP_VERSION_def)
    let ?p = "take (packet_len_bytes h) (drop off d)"
    have s: "sub_slice d off (off + packet_len_bytes h) = Some ?p" using h(2) by simp
    have run: "demux_loop d (off + packet_len_bytes h) (es @ [(h, ?p)]) = Some (Inr fs)"
      using 1(2) demux_step[of off d es h] True h by simp
    obtain gs where gs: "fs = (es @ [(h, ?p)]) @ gs" "blocks_at d (off + packet_len_bytes h) gs" "length fs \<le> 16"
      "off + packet_len_bytes h + covered gs \<le> length d"
      "length fs = 16 \<or> length d < off + packet_len_bytes h + covered gs + 8"
      using 1(1)[of "d ! off" "Inr h" h ?p] v h s run True
      by (auto simp: RTCP_HEADER_MIN_SIZE_BYTES_def MAX_COMPOUND_PACKETS_def packet_len_bytes_def)
    have "block_at d off (h, ?p)" using h by (simp add: block_at_def)
    then show ?thesis using gs h(2) by (intro exI[of _ "(h, ?p) # gs"]) auto
  next
    case False
    then have "fs = es" using 1(2) by (subst (asm) demux_loop.simps)
      (auto simp: RTCP_HEADER_MIN_SIZE_BYTES_def MAX_COMPOUND_PACKETS_def)
    then show ?thesis using False 1(3,4) by (intro exI[of _ "[]"]) auto
  qed
qed

lemma blocks_concat: "blocks_at d off gs \<Longrightarrow> concat (map snd gs) = take (covered gs) (drop off d)"
proof (induction d off gs rule: blocks_at.induct)
  case (2 d off e es)
  then show ?case by (auto simp: block_at_def take_add add.commute)
qed simp

lemma demux_compound_blocks:
  assumes "demux_compound d = Some (Inr es)"
  shows "blocks_at d 0 es \<and> length es \<le> 16 \<and> concat (map snd es) = take (covered es) d \<and>
    (length es = 16 \<or> length d < covered es + 8)"
  using demux_loop_blocks[of d 0 "[]" es] blocks_concat[of d 0 es] assms by (auto simp: demux_compound_def)

section \<open>What the builders write is read back\<close>

lemma first_bytes [simp]:
  "push_bit 6 RTCP_VERSION = 0x80" "(0x80 :: u8) OR 1 = 0x81" "(0x80 :: u8) OR 4 = 0x84" "(0x80 :: u8) OR 15 = 0x8F"
  "version_of 0x80 = 2" "version_of 0x81 = 2" "version_of 0x84 = 2" "version_of 0x8F = 2"
  "(0x81 :: u8) AND 0x1F = 1" "(0x84 :: u8) AND 0x1F = 4" "(0x8F :: u8) AND 0x1F = 15"
  by code_simp+

text \<open>The fixed part a builder writes, before the zeroed rest.\<close>

definition feedback_head :: "nat \<Rightarrow> u8 \<Rightarrow> u8 \<Rightarrow> u32 \<Rightarrow> u32 \<Rightarrow> bytes" where
  "feedback_head n first pt sender media =
     [first, pt, of_nat ((n div 4 - 1) div 256), of_nat (n div 4 - 1)] @ to_be32 sender @ to_be32 media"

lemma length_feedback_head [simp]: "length (feedback_head n first pt sender media) = 12"
  by (simp add: feedback_head_def)

lemma feedback_packet_eq:
  assumes "12 \<le> n"
  shows "feedback_packet n fmt pt sender media = Some (feedback_head n (0x80 OR fmt) pt sender media @ replicate (n - 12) 0)"
proof -
  have "replicate n (0 :: u8) = replicate 12 0 @ replicate (n - 12) 0" using assms by (simp flip: replicate_add)
  also have "replicate 12 (0 :: u8) = [0,0,0,0,0,0,0,0,0,0,0,0]" by (simp add: numeral_eq_Suc)
  finally show ?thesis
    by (simp add: feedback_packet_def feedback_head_def to_be32_def Let_def)
qed

lemma head_fields [simp]:
  fixes n first pt sender media
  defines "d \<equiv> feedback_head n first pt sender media"
  shows "(d @ r) ! 0 = first" "(d @ r) ! 1 = pt" "u32_at (d @ r) 4 = Some sender" "u32_at (d @ r) 8 = Some media"
    "(d @ r) ! Suc 0 = pt"
  by (simp_all add: d_def feedback_head_def to_be32_def)

lemma head_check:
  "2 \<le> k \<Longrightarrow> k \<le> 12 + length r \<Longrightarrow> version_of first = 2 \<Longrightarrow> first AND 0x1F = f \<Longrightarrow>
   rtcp_check k pt (Some f) (feedback_head n first pt sender media @ r) = Some (Inr ())"
  by (simp add: rtcp_check_ok_iff)

lemma pli_roundtrip: "\<exists>b. pli_build p = Some b \<and> pli_parse b = Some (Inr p)"
  by (simp add: pli_build_def feedback_packet_eq pli_parse_def head_check[where r = "[]", simplified]
      head_fields[where r = "[]", simplified])

lemma put_fci_eq:
  "length pre = 12 + i * 4 \<Longrightarrow> length rest = 4 * length es \<Longrightarrow>
   put_fci i es (pre @ rest) = Some (pre @ concat (map (\<lambda>(pid, blp). to_be16 pid @ to_be16 blp) es))"
proof (induction es arbitrary: i pre rest)
  case (Cons x es)
  obtain pid blp where x: "x = (pid, blp)" by (cases x)
  obtain a b c e r where r: "rest = a # b # c # e # r" "length r = 4 * length es"
    using Cons(3) by (auto simp: length_Suc_conv numeral_eq_Suc)
  have "put_fci (i + 1) es ((pre @ to_be16 pid @ to_be16 blp) @ r) =
      Some ((pre @ to_be16 pid @ to_be16 blp) @ concat (map (\<lambda>(pid, blp). to_be16 pid @ to_be16 blp) es))"
    by (rule Cons(1)) (use Cons(2) r in simp_all)
  moreover have "copy_into (pre @ [a, b] @ c # e # r) (12 + i * 4) (to_be16 pid) = Some (pre @ to_be16 pid @ c # e # r)"
    by (rule copy_into_parts) (use Cons(2) in simp_all)
  moreover have "copy_into ((pre @ to_be16 pid) @ [c, e] @ r) (12 + i * 4 + 2) (to_be16 blp) =
      Some ((pre @ to_be16 pid) @ to_be16 blp @ r)"
    by (rule copy_into_parts) (use Cons(2) in simp_all)
  ultimately show ?case using r x by (simp del: copy_into_Some)
qed simp

definition nack_decode :: "u16 \<times> u16 \<Rightarrow> u16 list" where
  "nack_decode e = fst e # map (\<lambda>b. fst e + (of_nat b + 1)) (filter (bit (snd e)) [0..<16])"

lemma nack_bits_eq:
  "\<forall>b\<in>set bs. b < 16 \<Longrightarrow> length lost + length (filter (bit blp) bs) \<le> 64 \<Longrightarrow>
   nack_bits pid blp bs lost = lost @ map (\<lambda>b. pid + (of_nat b + 1)) (filter (bit blp) bs)"
proof (induction pid blp bs lost rule: nack_bits.induct)
  case (2 pid blp b bs lost)
  then show ?case
    by (cases "length lost = 63"; cases "bit blp b")
      (simp_all add: MAX_NACK_PACKETS_def and_exp_eq_0_iff_not_bit Let_def)
qed simp

lemma nack_loop_entries:
  "length lost + length (concat (map nack_decode es)) \<le> 64 \<Longrightarrow>
   nack_loop (pre @ concat (map (\<lambda>(pid, blp). to_be16 pid @ to_be16 blp) es)) (length pre) lost =
     Some (lost @ concat (map nack_decode es))"
proof (induction es arbitrary: pre lost)
  case (Cons e es)
  obtain pid blp where e: "e = (pid, blp)" by (cases e)
  let ?r = "concat (map (\<lambda>(pid, blp). to_be16 pid @ to_be16 blp) es)"
  have at: "u16_at (pre @ to_be16 pid @ to_be16 blp @ ?r) (length pre) = Some pid"
    "u16_at (pre @ to_be16 pid @ to_be16 blp @ ?r) (length pre + 2) = Some blp"
    using u16_at_append[of pre pid "to_be16 blp @ ?r"] u16_at_append[of "pre @ to_be16 pid" blp ?r] by simp_all
  have "length (lost @ [pid]) + length (filter (bit blp) [0..<16]) \<le> 64"
    using Cons.prems by (simp add: e nack_decode_def)
  from nack_bits_eq[OF _ this, of pid]
  have bits: "nack_bits pid blp [0..<16] (lost @ [pid]) = lost @ nack_decode e" by (simp add: e nack_decode_def)
  have "nack_loop ((pre @ to_be16 pid @ to_be16 blp) @ ?r) (length (pre @ to_be16 pid @ to_be16 blp)) (lost @ nack_decode e) =
      Some ((lost @ nack_decode e) @ concat (map nack_decode es))"
    by (rule Cons.IH) (use Cons.prems in simp)
  then show ?case using at bits Cons.prems
    by (subst nack_loop.simps) (simp add: e MAX_NACK_PACKETS_def nack_decode_def)
qed (subst nack_loop.simps, simp)

lemma blp_scan_eq:
  "sorted (pid # ss) \<Longrightarrow> snd (blp_scan pid ss blp) = dropWhile (\<lambda>s. s - pid \<le> 16) ss \<and>
   (\<forall>b<16. bit (fst (blp_scan pid ss blp)) b \<longleftrightarrow> bit blp b \<or>
      (\<exists>s\<in>set (takeWhile (\<lambda>s. s - pid \<le> 16) ss). unat s = unat pid + b + 1))"
proof (induction ss arbitrary: blp)
  case (Cons s ss)
  have d: "unat (s - pid) = unat s - unat pid" "unat pid \<le> unat s"
    using Cons.prems by (simp_all add: unat_sub word_le_nat_alt)
  have IH: "snd (blp_scan pid ss c) = dropWhile (\<lambda>s. s - pid \<le> 16) ss \<and>
     (\<forall>b<16. bit (fst (blp_scan pid ss c)) b \<longleftrightarrow> bit c b \<or>
      (\<exists>s\<in>set (takeWhile (\<lambda>s. s - pid \<le> 16) ss). unat s = unat pid + b + 1))" for c
    using Cons.IH[of c] Cons.prems by simp
  consider "s = pid" | "1 \<le> s - pid" "s - pid \<le> 16" | "s - pid > 16"
    using d by (metis linorder_not_less right_minus_eq word_less_1)
  then show ?case
  proof cases
    case 1
    then show ?thesis using IH[of blp] by auto
  next
    case 2
    have k: "unat (s - pid - 1) = unat s - unat pid - 1" using 2 d by (subst unat_minus_one) auto
    have le: "1 \<le> unat s - unat pid" "unat s - unat pid \<le> 16" using 2 d by (simp_all add: word_le_nat_alt)
    have "bit (push_bit (unat (s - pid - 1)) (1 :: u16)) b \<longleftrightarrow> unat s = unat pid + b + 1" if "b < 16" for b
      using that le by (auto simp: k bit_simps)
    then show ?thesis using 2 IH[of "blp OR push_bit (unat (s - pid - 1)) 1"]
      by (auto simp: Let_def bit_simps)
  next
    case 3
    then have "\<not> s - pid \<le> 16" "1 \<le> s - pid" by (auto simp: not_le intro: order_trans[OF _ less_imp_le[OF 3]])
    then show ?thesis using 3 by (simp add: Let_def)
  qed
qed simp

text \<open>One entry stands for its packet identifier and the numbers its bit mask
  takes from the sorted rest.\<close>

lemma nack_decode_scan:
  fixes pid ss
  defines "taken \<equiv> takeWhile (\<lambda>s. s - pid \<le> 16) ss" and "e \<equiv> (pid, fst (blp_scan pid ss 0))"
  assumes "sorted (pid # ss)"
  shows "set (nack_decode e) = insert pid (set taken)" "sorted_wrt (<) (nack_decode e)"
proof -
  have bit: "bit (snd e) b \<longleftrightarrow> (\<exists>s\<in>set taken. unat s = unat pid + b + 1)" if "b < 16" for b
    using blp_scan_eq[OF assms(3), of 0] that by (simp add: taken_def e_def)
  have near: "unat s \<le> unat pid + 16 \<and> unat pid \<le> unat s" if "s \<in> set taken" for s
    using that assms(3) set_takeWhileD[of s _ ss] unfolding taken_def
    by (fastforce simp: word_le_nat_alt unat_sub)
  have val: "unat (pid + (of_nat b + 1)) = unat pid + b + 1" if b: "b < 16" "bit (snd e) b" for b
  proof -
    obtain s :: u16 where "unat s = unat pid + b + 1" using bit[OF b(1)] b(2) by blast
    then have "of_nat (unat s) = (of_nat (unat pid + b + 1) :: u16)" by simp
    then have "s = pid + (of_nat b + 1)" by (simp add: add.commute)
    then show ?thesis using \<open>unat s = _\<close> by simp
  qed
  have "s \<in> (\<lambda>b. pid + (of_nat b + 1)) ` {b. b < 16 \<and> bit (snd e) b}" if "s \<in> set taken" "s \<noteq> pid" for s
  proof (rule image_eqI)
    have gt: "unat pid < unat s" using near[OF that(1)] that(2) by (auto simp: word_unat_eq_iff)
    then show "unat s - unat pid - 1 \<in> {b. b < 16 \<and> bit (snd e) b}"
      using near[OF that(1)] bit[of "unat s - unat pid - 1"] that(1) by auto
    then show "s = pid + (of_nat (unat s - unat pid - 1) + 1)"
      using val[of "unat s - unat pid - 1"] gt by (simp add: word_unat_eq_iff)
  qed
  moreover have "pid + (of_nat b + 1) \<in> set taken" if b: "b < 16" "bit (snd e) b" for b
  proof -
    obtain s where "s \<in> set taken" "unat s = unat (pid + (of_nat b + 1))" using bit[of b] b val[OF b] by auto
    moreover from this have "s = pid + (of_nat b + 1)" unfolding word_unat_eq_iff by blast
    ultimately show ?thesis by simp
  qed
  ultimately show "set (nack_decode e) = insert pid (set taken)" by (auto simp: nack_decode_def e_def)
  have "sorted_wrt (<) (filter (bit (snd e)) [0..<16])" by (simp add: sorted_wrt_filter)
  then have "sorted_wrt (<) (map (\<lambda>b. pid + (of_nat b + 1)) (filter (bit (snd e)) [0..<16]))"
    unfolding sorted_wrt_map by (rule sorted_wrt_mono_rel[rotated]) (auto simp: word_less_nat_alt val)
  moreover have "pid < pid + (of_nat b + 1)" if "b < 16" "bit (snd e) b" for b
    using val[OF that] by (simp add: word_less_nat_alt)
  ultimately show "sorted_wrt (<) (nack_decode e)" by (auto simp: nack_decode_def e_def)
qed

lemma fci_loop_decode:
  "sorted ss \<Longrightarrow> card (set ss) \<le> n \<Longrightarrow> concat (map nack_decode (fci_loop n ss)) = sorted_list_of_set (set ss)"
proof (induction n ss rule: fci_loop.induct)
  case (3 n pid ss)
  let ?rest = "dropWhile (\<lambda>s. s - pid \<le> 16) ss" and ?taken = "takeWhile (\<lambda>s. s - pid \<le> 16) ss"
  let ?e = "(pid, fst (blp_scan pid ss 0))"
  have scan: "blp_scan pid ss 0 = (fst (blp_scan pid ss 0), ?rest)"
    using blp_scan_eq[OF 3(2), of 0] by (metis prod.collapse)
  note e = nack_decode_scan[OF 3(2)]
  have ss: "set ss = set ?taken \<union> set ?rest" by (metis set_append takeWhile_dropWhile_id)
  have "sorted (?taken @ ?rest)" using 3(2) by simp
  then have srt: "sorted ?rest" "\<forall>a\<in>set ?taken. \<forall>b\<in>set ?rest. a \<le> b" unfolding sorted_append by blast+
  have far: "\<not> s - pid \<le> 16" if "s \<in> set ?rest" for s
  proof (cases ?rest)
    case (Cons t r)
    then have "\<not> t - pid \<le> 16" by (metis hd_dropWhile list.distinct(1) list.sel(1))
    moreover have "t \<le> s" "pid \<le> t" "pid \<le> s" using that srt(1) Cons 3(2) ss by auto
    ultimately show ?thesis by (simp add: word_le_nat_alt unat_sub)
  qed (use that in \<open>simp del: dropWhile_eq_Nil_conv\<close>)
  have less: "s < t" if "s \<in> insert pid (set ?taken)" "t \<in> set ?rest" for s t
  proof -
    have "s \<le> t" using that srt(2) 3(2) ss by auto
    moreover have "s - pid \<le> 16" using that(1) by (auto dest: set_takeWhileD)
    ultimately show ?thesis using far[OF that(2)] by (metis order_le_imp_less_or_eq)
  qed
  have pid: "pid \<notin> set ?rest" using less by blast
  then have "card (insert pid (set ?rest)) \<le> card (set (pid # ss))" by (intro card_mono) (use ss in auto)
  then have "card (set ?rest) \<le> n" using 3(3) pid by simp
  then have IH: "concat (map nack_decode (fci_loop n ?rest)) = sorted_list_of_set (set ?rest)"
    using 3(1)[OF scan[symmetric]] srt(1) by simp
  let ?l = "nack_decode ?e @ sorted_list_of_set (set ?rest)"
  have "sorted_wrt (<) ?l" unfolding sorted_wrt_append using e less by simp
  then have "sorted ?l" "distinct ?l" unfolding strict_sorted_iff by blast+
  from sorted_list_of_set.idem_if_sorted_distinct[OF this]
  have "?l = sorted_list_of_set (set ?l)" by (rule sym)
  also have "set ?l = set (pid # ss)" using e(1) ss by simp
  finally have "?l = sorted_list_of_set (set (pid # ss))" .
  moreover have "fci_loop (Suc n) (pid # ss) = ?e # fci_loop n ?rest" by (subst fci_loop.simps(3), subst scan) simp
  ultimately show ?case using IH by (simp del: fci_loop.simps)
qed (simp_all add: card_gt_0_iff)

text \<open>What a NACK asks for is what its entries decode to.\<close>

lemma nack_build_parse:
  assumes "length (concat (map nack_decode (encode_fci_entries (nk_lost_packets k)))) \<le> 64"
  shows "\<exists>b. nack_build k = Some b \<and>
    nack_parse b = Some (Inr (k\<lparr>nk_lost_packets := concat (map nack_decode (encode_fci_entries (nk_lost_packets k)))\<rparr>))"
proof -
  define es where "es = encode_fci_entries (nk_lost_packets k)"
  define h where "h = feedback_head (12 + length es * 4) 0x81 RTCP_RTPFB_PT (nk_sender_ssrc k) (nk_media_ssrc k)"
  define fs where "fs = concat (map (\<lambda>(pid, blp). to_be16 pid @ to_be16 blp) es)"
  have "put_fci 0 es (h @ replicate (length es * 4) 0) = Some (h @ fs)"
    unfolding fs_def by (rule put_fci_eq) (simp_all add: h_def)
  then have build: "nack_build k = Some (h @ fs)"
    by (simp add: nack_build_def feedback_packet_eq h_def es_def Let_def)
  have "nack_loop (h @ fs) (length h) [] = Some ([] @ concat (map nack_decode es))"
    unfolding fs_def by (rule nack_loop_entries) (use assms in \<open>simp add: es_def\<close>)
  then have loop: "nack_loop (h @ fs) 12 [] = Some (concat (map nack_decode es))" by (simp add: h_def)
  have check: "rtcp_check 12 RTCP_RTPFB_PT (Some 1) (h @ fs) = Some (Inr ())"
    unfolding h_def by (rule head_check) simp_all
  have "nack_parse (h @ fs) = Some (Inr (k\<lparr>nk_lost_packets := concat (map nack_decode es)\<rparr>))"
    using loop check unfolding nack_parse_def h_def by simp
  with build show ?thesis by (simp add: es_def)
qed

text \<open>A NACK for up to 32 different numbers is read back as the sorted list
  of them.\<close>

lemma nack_roundtrip:
  assumes "length (nk_lost_packets k) \<le> 64" "card (set (nk_lost_packets k)) \<le> 32"
  shows "\<exists>b. nack_build k = Some b \<and>
    nack_parse b = Some (Inr (k\<lparr>nk_lost_packets := sorted_list_of_set (set (nk_lost_packets k))\<rparr>))"
proof -
  have dec: "concat (map nack_decode (encode_fci_entries (nk_lost_packets k))) = sorted_list_of_set (set (nk_lost_packets k))"
    using fci_loop_decode[of "sort (nk_lost_packets k)" 32] assms
    by (simp add: encode_fci_entries_def MAX_FCI_ENTRIES_def MAX_NACK_PACKETS_def)
  show ?thesis using nack_build_parse[of k] assms(2) by (simp add: dec)
qed

lemma put_fir_eq:
  "length pre = 12 + i * 8 \<Longrightarrow>
   put_fir i es (pre @ replicate (8 * length es) 0) =
     Some (pre @ concat (map (\<lambda>e. to_be32 (fe_ssrc e) @ [fe_seq_nr e, 0, 0, 0]) es))"
proof (induction es arbitrary: i pre)
  case (Cons e es)
  let ?z = "replicate (8 * length es) 0"
  have "put_fir (i + 1) es ((pre @ to_be32 (fe_ssrc e) @ [fe_seq_nr e, 0, 0, 0]) @ ?z) =
      Some ((pre @ to_be32 (fe_ssrc e) @ [fe_seq_nr e, 0, 0, 0]) @
        concat (map (\<lambda>e. to_be32 (fe_ssrc e) @ [fe_seq_nr e, 0, 0, 0]) es))"
    by (rule Cons.IH) (use Cons.prems in simp)
  moreover have "copy_into (pre @ [0, 0, 0, 0] @ [0, 0, 0, 0] @ ?z) (12 + i * 8) (to_be32 (fe_ssrc e)) =
      Some (pre @ to_be32 (fe_ssrc e) @ [0, 0, 0, 0] @ ?z)"
    by (rule copy_into_parts) (use Cons.prems in simp_all)
  moreover have "copy_into ((pre @ to_be32 (fe_ssrc e)) @ [0] @ [0, 0, 0] @ ?z) (12 + i * 8 + 4) [fe_seq_nr e] =
      Some ((pre @ to_be32 (fe_ssrc e)) @ [fe_seq_nr e] @ [0, 0, 0] @ ?z)"
    by (rule copy_into_parts) (use Cons.prems in simp_all)
  moreover have z: "replicate (8 * length (e # es)) 0 = [0, 0, 0, 0] @ [0, 0, 0, 0] @ ?z"
    by (simp add: numeral_eq_Suc)
  ultimately show ?case unfolding z by (simp del: copy_into_Some)
qed simp

lemma fir_loop_entries:
  "length acc + length es \<le> 31 \<Longrightarrow>
   fir_loop (pre @ concat (map (\<lambda>e. to_be32 (fe_ssrc e) @ [fe_seq_nr e, 0, 0, 0]) es)) (length pre) acc = Some (acc @ es)"
proof (induction es arbitrary: pre acc)
  case (Cons e es)
  obtain s n where e: "e = \<lparr>fe_ssrc = s, fe_seq_nr = n\<rparr>" by (cases e)
  let ?b = "to_be32 (fe_ssrc e) @ [fe_seq_nr e, 0, 0, 0]"
  let ?r = "concat (map (\<lambda>e. to_be32 (fe_ssrc e) @ [fe_seq_nr e, 0, 0, 0]) es)"
  have "u32_at (pre @ to_be32 (fe_ssrc e) @ [fe_seq_nr e, 0, 0, 0] @ ?r) (length pre) = Some (fe_ssrc e)"
    by (rule u32_at_append)
  moreover have "idx (pre @ ?b @ ?r) (length pre + 4) = Some (fe_seq_nr e)"
    by (simp add: nth_append)
  moreover have "fir_loop ((pre @ ?b) @ ?r) (length (pre @ ?b)) (acc @ [e]) = Some ((acc @ [e]) @ es)"
    by (rule Cons.IH) (use Cons.prems in simp)
  ultimately show ?case using Cons.prems by (subst fir_loop.simps) (simp add: e del: u32_at_Some idx_Some)
qed (subst fir_loop.simps, simp)

lemma fir_roundtrip:
  assumes "fir_entries f \<noteq> []" "length (fir_entries f) \<le> 31"
  shows "\<exists>b. fir_build f = Some b \<and> fir_parse b = Some (Inr f)"
proof -
  let ?es = "fir_entries f"
  define h where "h = feedback_head (12 + length ?es * 8) 0x84 RTCP_PSFB_PT (fir_sender_ssrc f) 0"
  define fs where "fs = concat (map (\<lambda>e. to_be32 (fe_ssrc e) @ [fe_seq_nr e, 0, 0, 0]) ?es)"
  have len: "length fs = 8 * length ?es" by (simp add: fs_def length_concat comp_def sum_list_triv)
  have "put_fir 0 ?es (h @ replicate (8 * length ?es) 0) = Some (h @ fs)"
    unfolding fs_def by (rule put_fir_eq) (simp add: h_def)
  then have build: "fir_build f = Some (h @ fs)"
    by (simp add: fir_build_def feedback_packet_eq h_def RTCP_PSFB_FMT_FIR_def mult.commute)
  have "fir_loop (h @ fs) (length h) [] = Some ([] @ ?es)"
    unfolding fs_def by (rule fir_loop_entries) (use assms(2) in simp)
  then have loop: "fir_loop (h @ fs) 12 [] = Some ?es" by (simp add: h_def)
  have "rtcp_check 20 RTCP_PSFB_PT (Some RTCP_PSFB_FMT_FIR) (h @ fs) = Some (Inr ())"
    unfolding h_def by (rule head_check) (use assms(1) len in \<open>cases ?es; simp add: RTCP_PSFB_FMT_FIR_def\<close>)+
  then have "fir_parse (h @ fs) = Some (Inr f)" using loop unfolding fir_parse_def h_def by simp
  with build show ?thesis by blast
qed

subsection \<open>REMB bit rates\<close>

text \<open>The loop halves the rate until it fits 18 bits; what it drops is less
  than one unit of the exponent it counted.\<close>

lemma bitrate_loop_bounds:
  assumes "bitrate_loop m e = (e', m')" "unat m < 2 ^ (81 - e)" "e \<le> 63"
  shows "e \<le> e' \<and> e' \<le> 63 \<and> unat m' < 2 ^ 18 \<and> m' = drop_bit (e' - e) m \<and> (e' = e \<or> 2 ^ 17 \<le> unat m')"
  using assms
proof (induction m e rule: bitrate_loop.induct)
  case (1 m e)
  show ?case
  proof (cases "m > 0x3FFFF \<and> e < 63")
    case True
    have half: "unat (drop_bit 1 m) < 2 ^ (81 - (e + 1))"
    proof -
      have "81 - e = Suc (81 - (e + 1))" using conjunct2[OF True] by simp
      then have "unat m < 2 * 2 ^ (81 - (e + 1))" using 1(3) by (metis power_Suc)
      then have "unat m div 2 < 2 ^ (81 - (e + 1))" by linarith
      then show ?thesis by (simp add: drop_bit_eq_div unat_div)
    qed
    have "bitrate_loop (drop_bit 1 m) (e + 1) = (e', m')" using 1(2) True by (subst (asm) bitrate_loop.simps) simp
    note IH = 1(1)[OF True this half]
    have "2 ^ 17 \<le> unat m div 2" using conjunct1[OF True] by (simp add: word_less_nat_alt)
    then have "2 ^ 17 \<le> unat m'" if "e' = e + 1" using IH True that by (auto simp: drop_bit_eq_div unat_div)
    then show ?thesis using IH True by (auto simp: drop_bit_drop_bit Suc_diff_Suc)
  next
    case False
    then have e: "e' = e" "m' = m" using 1(2) by (subst (asm) bitrate_loop.simps, auto split: if_splits)+
    have "unat m < 2 ^ 18"
    proof (cases "e < 63")
      case True
      then have "m \<le> 0x3FFFF" using False by simp
      then have "unat m \<le> 262143" by (simp add: word_le_nat_alt)
      then show ?thesis by simp
    next
      case False
      then show ?thesis using 1(3,4) by simp
    qed
    then show ?thesis using e 1(4) by simp
  qed
qed

lemma put_ssrcs_eq:
  "length pre = 20 + i * 4 \<Longrightarrow> length rest = 4 * length ss \<Longrightarrow>
   put_ssrcs i ss (pre @ rest) = Some (pre @ concat (map to_be32 ss))"
proof (induction ss arbitrary: i pre rest)
  case (Cons s ss)
  obtain a b c e r where r: "rest = [a, b, c, e] @ r" "length r = 4 * length ss"
    using Cons(3) by (auto simp: length_Suc_conv numeral_eq_Suc)
  have "put_ssrcs (i + 1) ss ((pre @ to_be32 s) @ r) = Some ((pre @ to_be32 s) @ concat (map to_be32 ss))"
    by (rule Cons(1)) (use Cons(2) r in simp_all)
  moreover have "copy_into (pre @ [a, b, c, e] @ r) (20 + i * 4) (to_be32 s) = Some (pre @ to_be32 s @ r)"
    by (rule copy_into_parts) (use Cons(2) in simp_all)
  ultimately show ?case using r by (simp del: copy_into_Some)
qed simp

lemma remb_ssrcs_read:
  "remb_ssrcs (length ss) (pre @ concat (map to_be32 ss)) (length pre) = Some ss"
proof (induction ss arbitrary: pre)
  case (Cons s ss)
  have "u32_at (pre @ to_be32 s @ concat (map to_be32 ss)) (length pre) = Some s" by (rule u32_at_append)
  moreover have "remb_ssrcs (length ss) ((pre @ to_be32 s) @ concat (map to_be32 ss)) (length (pre @ to_be32 s)) = Some ss"
    by (rule Cons.IH)
  ultimately show ?case by (simp del: u32_at_Some)
qed simp

lemma small_bits: "w < 2 ^ n \<Longrightarrow> bit w m \<Longrightarrow> m < n" for w :: "'a :: len word"
proof (cases "n < LENGTH('a)")
  case True
  assume w: "w < 2 ^ n" and b: "bit w m"
  have "unat (of_nat (2 ^ n) :: 'a word) = 2 ^ n" unfolding unat_of_nat using True by simp
  then have "unat w < 2 ^ n" using w by (simp add: word_less_nat_alt)
  then have "take_bit n (unat w) = unat w" by (rule take_bit_nat_eq_self)
  moreover have "bit (unat w) m" using b by (simp add: bit_unsigned_iff)
  ultimately show ?thesis by (metis bit_take_bit_iff)
next
  case False
  assume "bit w m"
  then show ?thesis using False by (meson bit_imp_le_length less_le_trans not_less)
qed

text \<open>The three bytes of exponent and mantissa.\<close>

lemma bitrate_bytes:
  fixes ex :: u8 and mantissa :: u32
  assumes "ex < 2 ^ 6" "mantissa < 2 ^ 18"
  defines "b17 \<equiv> push_bit 2 ex OR ucast (drop_bit 16 mantissa AND 3)"
  shows "drop_bit 2 b17 AND 0x3F = ex"
    "(push_bit 16 (ucast (b17 AND 3)) OR push_bit 8 (ucast (ucast (drop_bit 8 mantissa AND 0xFF) :: u8)) OR
      ucast (ucast (mantissa AND 0xFF) :: u8) :: u32) = mantissa"
proof -
  have m: "(3 :: u8) = mask 2" "(3 :: u32) = mask 2" "(0x3F :: u8) = mask 6" "(0xFF :: u32) = mask 8"
    by (simp_all add: mask_numeral)
  note small = small_bits[OF assms(1)] small_bits[OF assms(2)]
  show "drop_bit 2 b17 AND 0x3F = ex" unfolding b17_def m
    by (rule bit_eqI) (auto simp: bit_simps dest: small)
  show "(push_bit 16 (ucast (b17 AND 3)) OR push_bit 8 (ucast (ucast (drop_bit 8 mantissa AND 0xFF) :: u8)) OR
      ucast (ucast (mantissa AND 0xFF) :: u8) :: u32) = mantissa" unfolding b17_def m
    apply (rule bit_word_eqI)
    subgoal for n by (cases "16 \<le> n"; cases "8 \<le> n") (auto simp: bit_simps dest: small)
    done
qed

lemma encode_bitrate_bounds:
  assumes "b > 0" "encode_bitrate b = (ex, mantissa)"
  shows "ex < 2 ^ 6 \<and> mantissa < 2 ^ 18 \<and> ucast mantissa = drop_bit (unat ex) b \<and> (ex = 0 \<or> 2 ^ 17 \<le> mantissa)"
proof -
  obtain e m where em: "bitrate_loop b 0 = (e, m)" by (cases "bitrate_loop b 0")
  have "unat b < 2 ^ 64" using unsigned_less[of b] by simp
  then have "unat b < 2 ^ (81 - 0)" by simp
  then have B: "e \<le> 63" "unat m < 2 ^ 18" "m = drop_bit e b" "e = 0 \<or> 2 ^ 17 \<le> unat m"
    using bitrate_loop_bounds[OF em] by auto
  have u: "unat (ucast m :: u32) = unat m" using B(2) by (simp add: unsigned_ucast_eq take_bit_nat_eq_self)
  have "ucast m AND (0x3FFFF :: u32) = ucast m"
  proof -
    have "(0x3FFFF :: u32) = mask 18" by (simp add: mask_numeral)
    then have "ucast m AND (0x3FFFF :: u32) = take_bit 18 (ucast m)" by (simp add: take_bit_eq_mask)
    also have "unat (take_bit 18 (ucast m :: u32)) = unat m" using B(2) u by (simp add: unsigned_take_bit_eq take_bit_nat_eq_self)
    ultimately show ?thesis using u by (simp add: word_unat_eq_iff)
  qed
  moreover have "b \<noteq> 0" using assms(1) by auto
  ultimately have ex: "ex = of_nat e" "mantissa = ucast m" using assms(2) em by (simp_all add: encode_bitrate_def)
  have ue: "unat ex = e" unfolding ex(1) unat_of_nat using B(1) by simp
  have "ucast mantissa = m" unfolding ex(2)
    using B(2) by (simp add: word_unat_eq_iff unsigned_ucast_eq unsigned_take_bit_eq take_bit_nat_eq_self)
  then show ?thesis using B ue u ex by (auto simp: word_less_nat_alt word_le_nat_alt)
qed

text \<open>The rate read back is the rate sent, rounded down to 18 significant bits.\<close>

lemma remb_roundtrip:
  assumes "rb_bitrate_bps r > 0" "rb_ssrcs r \<noteq> []" "length (rb_ssrcs r) \<le> 32"
  shows "\<exists>b e. remb_build r = Some b \<and> e < 64 \<and>
    remb_parse b = Some (Inr (r\<lparr>rb_bitrate_bps := push_bit e (drop_bit e (rb_bitrate_bps r))\<rparr>)) \<and>
    (e = 0 \<or> 2 ^ 17 \<le> unat (drop_bit e (rb_bitrate_bps r)))"
proof -
  let ?ss = "rb_ssrcs r"
  obtain ex mantissa where enc: "encode_bitrate (rb_bitrate_bps r) = (ex, mantissa)" by (cases "encode_bitrate (rb_bitrate_bps r)")
  note B = encode_bitrate_bounds[OF assms(1) enc]
  define h where "h = feedback_head (20 + length ?ss * 4) 0x8F RTCP_PSFB_PT (rb_sender_ssrc r) 0"
  define b17 where "b17 = push_bit 2 ex OR ucast (drop_bit 16 mantissa AND 3)"
  define t where "t = REMB_IDENTIFIER @ [of_nat (length ?ss), b17, ucast (drop_bit 8 mantissa AND 0xFF), ucast (mantissa AND 0xFF)]"
  have z: "replicate (8 + length ?ss * 4) 0 = [0,0,0,0,0,0,0,0] @ replicate (length ?ss * 4) (0 :: u8)"
    by (simp add: numeral_eq_Suc)
  have "put_ssrcs 0 ?ss ((h @ t) @ replicate (length ?ss * 4) 0) = Some ((h @ t) @ concat (map to_be32 ?ss))"
    by (rule put_ssrcs_eq) (simp_all add: h_def t_def REMB_IDENTIFIER_def)
  then have build: "remb_build r = Some (h @ t @ concat (map to_be32 ?ss))"
    using assms(1,2) by (simp add: remb_build_def feedback_packet_eq enc z b17_def t_def REMB_IDENTIFIER_def RTCP_PSFB_FMT_REMB_def
        flip: h_def) (simp add: h_def copy_into_def)
  let ?d = "h @ t @ concat (map to_be32 ?ss)"
  have lens: "length ?d = 20 + length ?ss * 4" by (simp add: h_def t_def REMB_IDENTIFIER_def length_concat comp_def sum_list_triv)
  have cnt: "unat (of_nat (length ?ss) :: u8) = length ?ss" unfolding unat_of_nat using assms(3) by simp
  have tl: "?d ! 16 = of_nat (length ?ss)" "?d ! 17 = b17" "?d ! 18 = ucast (drop_bit 8 mantissa AND 0xFF)"
    "?d ! 19 = ucast (mantissa AND 0xFF)" "take 4 (drop 12 ?d) = REMB_IDENTIFIER"
    by (simp_all add: h_def t_def REMB_IDENTIFIER_def nth_append)
  have ss: "remb_ssrcs (length ?ss) ?d 20 = Some ?ss"
    using remb_ssrcs_read[of ?ss "h @ t"] by (simp add: h_def t_def REMB_IDENTIFIER_def)
  have check: "rtcp_check 20 RTCP_PSFB_PT (Some RTCP_PSFB_FMT_REMB) ?d = Some (Inr ())"
    unfolding h_def by (rule head_check) (simp_all add: t_def REMB_IDENTIFIER_def RTCP_PSFB_FMT_REMB_def)
  have s4: "u32_at ?d 4 = Some (rb_sender_ssrc r)" unfolding h_def by simp
  note bytes = bitrate_bytes[OF conjunct1[OF B] conjunct1[OF conjunct2[OF B]], folded b17_def]
  have "remb_parse ?d = Some (Inr (r\<lparr>rb_bitrate_bps := push_bit (unat ex) (drop_bit (unat ex) (rb_bitrate_bps r))\<rparr>))"
    unfolding remb_parse_def check on_ok_simps s4 bind.simps
    using lens tl ss cnt bytes B assms(3) by (simp add: min_def)
  moreover have "unat ex < 64" using B by (simp add: word_less_nat_alt)
  moreover have "unat (ucast mantissa :: u64) = unat mantissa"
    using take_bit_nat_eq_self[of "unat mantissa" 64] u32_lt_4294967296[of mantissa]
    by (simp add: unsigned_ucast_eq)
  then have "unat ex = 0 \<or> 2 ^ 17 \<le> unat (drop_bit (unat ex) (rb_bitrate_bps r))"
    using B by (auto simp: word_le_nat_alt)
  ultimately show ?thesis using build by blast
qed

subsection \<open>Sender reports\<close>

text \<open>The 28 bytes of a sender report without blocks.\<close>

definition sr_bytes :: "u32 \<Rightarrow> u64 \<Rightarrow> u32 \<Rightarrow> u32 \<Rightarrow> u32 \<Rightarrow> bytes" where
  "sr_bytes ssrc ntp rtp packets octets =
     [0x80, 200, 0, 6] @ to_be32 ssrc @ to_be64 ntp @ to_be32 rtp @ to_be32 packets @ to_be32 octets"

lemma length_sr_bytes [simp]: "length (sr_bytes ssrc ntp rtp packets octets) = 28"
  by (simp add: sr_bytes_def)

lemma sr_bytes_parse:
  "sender_report_parse (sr_bytes ssrc ntp rtp packets octets @ r) =
     Some (Inr \<lparr>srp_ssrc = ssrc, srp_ntp_timestamp = ntp, srp_rtp_timestamp = rtp, srp_packet_count = packets,
       srp_octet_count = octets\<rparr>)"
proof -
  let ?d = "sr_bytes ssrc ntp rtp packets octets @ r"
  have "rtcp_check 28 200 None ?d = Some (Inr ())" by (simp add: rtcp_check_ok_iff) (simp add: sr_bytes_def)
  moreover have "take 8 (drop 8 ?d) = to_be64 ntp" by (simp add: sr_bytes_def to_be32_def to_be64_def)
  then have "u64_at ?d 8 = Some ntp" by simp
  moreover have "u32_at ?d 4 = Some ssrc" "u32_at ?d 16 = Some rtp" "u32_at ?d 20 = Some packets" "u32_at ?d 24 = Some octets"
    by (simp_all add: sr_bytes_def to_be32_def to_be64_def)
  ultimately show ?thesis
    by (simp add: sender_report_parse_def SENDER_REPORT_MIN_SIZE_BYTES_def del: u32_at_Some u64_at_Some)
qed

lemma sr_generate_eq:
  "sr_generate g s nanos rtp =
     Some (sr_bytes (sg_sender_ssrc g) (calculate_ntp_timestamp s nanos) rtp (sg_packet_count g) (sg_octet_count g))"
proof -
  have "replicate SENDER_REPORT_MIN_SIZE_BYTES (0 :: u8) = [0,0,0,0,0,0,0,0,0,0,0,0,0,0,0,0,0,0,0,0,0,0,0,0,0,0,0,0]"
    by (simp add: SENDER_REPORT_MIN_SIZE_BYTES_def numeral_eq_Suc)
  then show ?thesis by (simp add: sr_generate_def sr_bytes_def to_be32_def to_be64_def)
qed

subsection \<open>FIR sequence numbers\<close>

text \<open>While the table has room, the tracker is a map from SSRCs to their next number.\<close>

lemma next_seq_nr_map:
  assumes "distinct (map fst t)" "length t < 64 \<or> ssrc \<in> fst ` set t" "next_seq_nr ssrc t = (n, t')"
  shows "n = (case map_of t ssrc of None \<Rightarrow> 0 | Some k \<Rightarrow> k)" "map_of t' = (map_of t)(ssrc \<mapsto> n + 1)"
    "distinct (map fst t')" "fst ` set t' = insert ssrc (fst ` set t)"
proof -
  have "n = (case map_of t ssrc of None \<Rightarrow> 0 | Some k \<Rightarrow> k) \<and> map_of t' = (map_of t)(ssrc \<mapsto> n + 1) \<and>
    distinct (map fst t') \<and> fst ` set t' = insert ssrc (fst ` set t)"
  proof (cases "position (\<lambda>e. fst e = ssrc) t")
    case None
    then have new: "ssrc \<notin> fst ` set t" by (auto simp: position_None)
    then have "n = 0" "t' = t @ [(ssrc, 1)]" using assms None by (auto simp: next_seq_nr_def FIR_MAX_TRACKED_def)
    moreover have "map_of t ssrc = None" using new by (simp add: map_of_eq_None_iff)
    moreover have "map_of (t @ [(ssrc, 1)]) = (map_of t)(ssrc \<mapsto> 1)"
      using new by (simp add: map_of_eq_None_iff map_add_upd_left dom_map_of_conv_image_fst)
    ultimately show ?thesis using assms(1) new by auto
  next
    case (Some i)
    then have i: "i < length t" "fst (t ! i) = ssrc" using position_Some by fastforce+
    obtain a k b where t: "t = a @ (ssrc, k) # b" "length a = i"
      using id_take_nth_drop[OF i(1)] i by (metis length_take less_imp_le_nat min.absorb2 prod.collapse)
    then have "n = k" "t' = a @ (ssrc, k + 1) # b" using assms(3) Some by (auto simp: next_seq_nr_def)
    moreover have "ssrc \<notin> fst ` set a" using assms(1) t by auto
    then have "map_of a ssrc = None" by (simp add: map_of_eq_None_iff)
    ultimately show ?thesis using assms(1) t by (auto simp: fun_eq_iff map_add_def split: option.splits)
  qed
  then show "n = (case map_of t ssrc of None \<Rightarrow> 0 | Some k \<Rightarrow> k)" "map_of t' = (map_of t)(ssrc \<mapsto> n + 1)"
    "distinct (map fst t')" "fst ` set t' = insert ssrc (fst ` set t)" by blast+
qed

text \<open>Numbers for one SSRC are consecutive, as long as no more than 64 SSRCs are asked for.\<close>

lemma fir_entries_numbers:
  assumes "distinct (map fst t)" "card (fst ` set t \<union> set ss) \<le> 64" "fir_entries_for ss t = (es, t')" "i < length ss"
  shows "length es = length ss \<and> fe_ssrc (es ! i) = ss ! i \<and>
    fe_seq_nr (es ! i) = (case map_of t (ss ! i) of None \<Rightarrow> 0 | Some k \<Rightarrow> k) + of_nat (count_list (take i ss) (ss ! i))"
  using assms
proof (induction ss arbitrary: t es i)
  case (Cons s ss)
  obtain n t1 where n: "next_seq_nr s t = (n, t1)" by (cases "next_seq_nr s t")
  obtain es1 where es: "fir_entries_for ss t1 = (es1, t')" "es = \<lparr>fe_ssrc = s, fe_seq_nr = n\<rparr> # es1"
    using Cons.prems(3) n by (auto split: prod.splits)
  have room: "length t < 64 \<or> s \<in> fst ` set t"
  proof (rule ccontr)
    assume "\<not> ?thesis"
    then have "card (insert s (fst ` set t)) > 64" using distinct_card[OF Cons.prems(1)] by simp
    moreover have "card (insert s (fst ` set t)) \<le> card (fst ` set t \<union> set (s # ss))" by (intro card_mono) auto
    ultimately show False using Cons.prems(2) by simp
  qed
  note N = next_seq_nr_map[OF Cons.prems(1) room n]
  have "card (fst ` set t1 \<union> set ss) \<le> 64" using Cons.prems(2) N(4) by simp
  note IH = Cons.IH[OF N(3) this es(1)]
  show ?case
  proof (cases i)
    case 0
    have "length es1 = length ss"
      using IH[of 0] es(1) by (cases ss) auto
    then show ?thesis using 0 es(2) N(1) by simp
  next
    case (Suc j)
    have "(case map_of t1 x of None \<Rightarrow> 0 | Some k \<Rightarrow> k) =
        (case map_of t x of None \<Rightarrow> 0 | Some k \<Rightarrow> k) + (if x = s then 1 else 0)" for x
      using N(1,2) by simp
    then show ?thesis using IH[of j] Cons.prems(4) es(2) Suc by simp
  qed
qed simp

end
