(* ===== verification/Rtcp_Write.thy ===== *)
theory Rtcp_Write
  imports Plane_Types Rtcp_Packet
begin

text \<open>
  The RTCP the shard writes and reads without allocation
  (\<^verbatim>\<open>nexus-dataplane/src/rtcp.rs\<close>): sender reports, a source description
  with one CNAME, PLI, and the targets of a FIR.  A writer returns the length
  and the buffer with the packet at its start, or the inner \<open>None\<close> when the
  buffer is too short.

  The lemmas give the bytes written and show that the codecs of
  \<open>Rtcp_Packet\<close> read them back.
\<close>

section \<open>Definitions\<close>

definition PT_SR :: u8 where "PT_SR = 200"
definition PT_SDES :: u8 where "PT_SDES = 202"
definition PT_PSFB :: u8 where "PT_PSFB = 206"
definition FMT_PLI :: u8 where "FMT_PLI = 1"
definition FMT_FIR :: u8 where "FMT_FIR = 4"
definition SR_LEN :: nat where "SR_LEN = 28"
definition PLI_LEN :: nat where "PLI_LEN = 12"
definition MAX_FIR_ENTRIES :: nat where "MAX_FIR_ENTRIES = 16"

definition rtcp_write_header :: "bytes \<Rightarrow> u8 \<Rightarrow> u8 \<Rightarrow> nat \<Rightarrow> bytes option" where
  "rtcp_write_header dst n pt len = do {
     dst \<leftarrow> copy_into dst 0 [0x80 OR n];
     dst \<leftarrow> copy_into dst 1 [pt];
     copy_into dst 2 (to_be16 (of_nat (len div 4 - 1))) }"

definition write_sr :: "bytes \<Rightarrow> u32 \<Rightarrow> sr_info \<Rightarrow> u32 \<Rightarrow> u32 \<Rightarrow> (nat \<times> bytes) option option" where
  "write_sr dst ssrc sr packets octets =
     (if length dst < SR_LEN then Some None
      else do {
        out \<leftarrow> rtcp_write_header (take SR_LEN dst) 0 PT_SR SR_LEN;
        out \<leftarrow> copy_into out 4 (to_be32 ssrc);
        out \<leftarrow> copy_into out 8 (to_be64 (sr_ntp sr));
        out \<leftarrow> copy_into out 16 (to_be32 (sr_rtp sr));
        out \<leftarrow> copy_into out 20 (to_be32 packets);
        out \<leftarrow> copy_into out 24 (to_be32 octets);
        Some (Some (SR_LEN, out @ drop SR_LEN dst)) })"

definition sdes_len :: "bytes \<Rightarrow> nat" where
  "sdes_len name = ((4 + 4 + 2 + length name + 1) + 3) div 4 * 4"

definition write_sdes_cname :: "bytes \<Rightarrow> u32 \<Rightarrow> bytes \<Rightarrow> (nat \<times> bytes) option option" where
  "write_sdes_cname dst ssrc name =
     (let len = sdes_len name in
      if length dst < len then Some None
      else do {
        out \<leftarrow> rtcp_write_header (take len dst) 1 PT_SDES len;
        out \<leftarrow> copy_into out 4 (to_be32 ssrc);
        out \<leftarrow> copy_into out 8 [1];
        out \<leftarrow> copy_into out 9 [of_nat (length name)];
        out \<leftarrow> copy_into out 10 name;
        out \<leftarrow> copy_into out (10 + length name) (replicate (len - (10 + length name)) 0);
        Some (Some (len, out @ drop len dst)) })"

definition write_pli :: "bytes \<Rightarrow> u32 \<Rightarrow> u32 \<Rightarrow> (nat \<times> bytes) option option" where
  "write_pli dst sender media =
     (if length dst < PLI_LEN then Some None
      else do {
        out \<leftarrow> rtcp_write_header (take PLI_LEN dst) FMT_PLI PT_PSFB PLI_LEN;
        out \<leftarrow> copy_into out 4 (to_be32 sender);
        out \<leftarrow> copy_into out 8 (to_be32 media);
        Some (Some (PLI_LEN, out @ drop PLI_LEN dst)) })"

text \<open>\<^verbatim>\<open>slice::chunks_exact\<close>: the pieces of exactly \<open>n\<close> items; a shorter rest is left out.\<close>

function chunks_exact :: "nat \<Rightarrow> 'a list \<Rightarrow> 'a list list" where
  "chunks_exact n xs = (if n = 0 \<or> length xs < n then [] else take n xs # chunks_exact n (drop n xs))"
  by pat_completeness auto

termination by (relation "measure (\<lambda>(n, xs). length xs)") auto

declare chunks_exact.simps [simp del]

definition fir_targets :: "bytes \<Rightarrow> u32 list" where
  "fir_targets p = map (\<lambda>e. be32 (e ! 0) (e ! 1) (e ! 2) (e ! 3)) (take MAX_FIR_ENTRIES (chunks_exact 8 (drop 12 p)))"

section \<open>The bytes written\<close>

definition sdes_bytes :: "u32 \<Rightarrow> bytes \<Rightarrow> bytes" where
  "sdes_bytes ssrc name =
     [0x81, 202] @ to_be16 (of_nat (sdes_len name div 4 - 1)) @ to_be32 ssrc @ [1, of_nat (length name)] @ name @
     replicate (sdes_len name - (10 + length name)) 0"

lemma sdes_len_bounds: "10 + length name < sdes_len name" "sdes_len name mod 4 = 0"
  unfolding sdes_len_def by simp_all

lemma length_sdes_bytes [simp]: "length (sdes_bytes ssrc name) = sdes_len name"
  using sdes_len_bounds(1)[of name] by (simp add: sdes_bytes_def)

text \<open>A buffer written from its start, piece by piece.\<close>

lemma copy_first: "length b \<le> length out \<Longrightarrow> copy_into out 0 b = Some (b @ drop (length b) out)"
  by simp

lemma copy_next:
  "k = length a \<Longrightarrow> n = k \<Longrightarrow> k + length b \<le> length out \<Longrightarrow>
   copy_into (a @ drop n out) k b = Some ((a @ b) @ drop (k + length b) out)"
  by (simp add: add.commute)

lemma write_sr_eq:
  "write_sr dst ssrc sr packets octets =
     (if length dst < 28 then Some None
      else Some (Some (28, sr_bytes ssrc (sr_ntp sr) (sr_rtp sr) packets octets @ drop 28 dst)))"
proof (cases "length dst < 28")
  case False
  then show ?thesis
    by (simp add: write_sr_def rtcp_write_header_def SR_LEN_def copy_first copy_next
        del: append_assoc append_Cons append_Nil copy_into_Some)
      (simp add: sr_bytes_def PT_SR_def to_be16_def)
qed (simp add: write_sr_def SR_LEN_def)

lemma write_pli_eq:
  "write_pli dst sender media =
     (if length dst < 12 then Some None
      else Some (Some (12, feedback_head 12 0x81 206 sender media @ drop 12 dst)))"
  by (simp add: write_pli_def rtcp_write_header_def feedback_head_def PLI_LEN_def FMT_PLI_def PT_PSFB_def to_be16_def)

lemma write_sdes_cname_eq:
  "write_sdes_cname dst ssrc name =
     (if length dst < sdes_len name then Some None
      else Some (Some (sdes_len name, sdes_bytes ssrc name @ drop (sdes_len name) dst)))"
proof (cases "length dst < sdes_len name")
  case False
  note B = sdes_len_bounds[of name]
  show ?thesis using False B
    by (simp add: write_sdes_cname_def rtcp_write_header_def copy_first copy_next Let_def
        del: append_assoc append_Cons append_Nil copy_into_Some)
      (simp add: sdes_bytes_def PT_SDES_def)
qed (simp add: write_sdes_cname_def)

section \<open>Reading back\<close>

text \<open>A translated report is a compound of two blocks: the sender report with
  its fields, and the source description.\<close>

lemma report_demux:
  assumes "length name \<le> 255"
  shows "\<exists>h1 h2. demux_compound (sr_bytes ssrc ntp rtp packets octets @ sdes_bytes ssrc name) =
    Some (Inr [(h1, sr_bytes ssrc ntp rtp packets octets), (h2, sdes_bytes ssrc name)]) \<and>
    rc_packet_type h1 = RtSenderReport \<and> rc_count h1 = 0 \<and> rc_packet_type h2 = RtSourceDescription \<and> rc_count h2 = 1"
proof -
  let ?a = "sr_bytes ssrc ntp rtp packets octets" and ?b = "sdes_bytes ssrc name"
  note B = sdes_len_bounds[of name]
  have max: "sdes_len name div 4 - 1 < 65536" using assms by (simp add: sdes_len_def)
  have w: "unat (of_nat (sdes_len name div 4 - 1) :: u16) = sdes_len name div 4 - 1"
    unfolding unat_of_nat using max by simp
  obtain h1 where h1: "rtcp_header_parse (drop 0 (?a @ ?b)) = Some (Inr h1)" "rc_packet_type h1 = RtSenderReport"
    "rc_count h1 = 0" "packet_len_bytes h1 = 28"
    by (simp add: rtcp_header_parse_ok_iff packet_len_bytes_def)
      (simp add: sr_bytes_def rtcp_type_from_byte_def be16_def)
  have "4 * (sdes_len name div 4) = sdes_len name" using B(2) by auto
  then have l: "4 + (sdes_len name div 4 - Suc 0) * 4 = sdes_len name" using B(1) by linarith
  obtain h2 where h2: "rtcp_header_parse (drop 28 (?a @ ?b)) = Some (Inr h2)" "rc_packet_type h2 = RtSourceDescription"
    "rc_count h2 = 1" "packet_len_bytes h2 = sdes_len name"
    using B w l by (simp add: rtcp_header_parse_ok_iff packet_len_bytes_def)
      (simp add: sdes_bytes_def to_be16_def rtcp_type_from_byte_def)
  have "demux_loop (?a @ ?b) 0 [] = demux_loop (?a @ ?b) 28 [(h1, ?a)]"
    using demux_step[of 0 "?a @ ?b" "[]" h1] h1 B by simp
  also have "\<dots> = demux_loop (?a @ ?b) (28 + sdes_len name) [(h1, ?a), (h2, ?b)]"
    using demux_step[of 28 "?a @ ?b" "[(h1, ?a)]" h2] h2 B by simp
  also have "\<dots> = Some (Inr [(h1, ?a), (h2, ?b)])" by (subst demux_loop.simps) (simp add: RTCP_HEADER_MIN_SIZE_BYTES_def)
  finally show ?thesis using h1 h2 by (auto simp: demux_compound_def)
qed

text \<open>A written PLI is read back.\<close>

lemma pli_head_parse:
  "pli_parse (feedback_head 12 0x81 206 sender media @ r) =
     Some (Inr \<lparr>pli_sender_ssrc = sender, pli_media_ssrc = media\<rparr>)"
  using head_check[where k = 12 and r = r and first = "0x81" and f = 1 and n = 12] by (simp add: pli_parse_def RTCP_PSFB_PT_def)

text \<open>The allocation-free FIR reader sees the first 16 SSRCs the parser sees.\<close>

lemma fir_loop_chunks:
  "fir_loop d off es = Some fs \<Longrightarrow> map fe_ssrc fs =
     map fe_ssrc es @ map (\<lambda>e. be32 (e ! 0) (e ! 1) (e ! 2) (e ! 3)) (take (31 - length es) (chunks_exact 8 (drop off d)))"
proof (induction d off es rule: fir_loop.induct)
  case (1 d off es)
  show ?case
  proof (cases "off + 8 \<le> length d \<and> length es < 31")
    case True
    let ?w = "be32 (d ! off) (d ! (off + 1)) (d ! (off + 2)) (d ! (off + 3))"
    let ?e = "\<lparr>fe_ssrc = ?w, fe_seq_nr = d ! (off + 4)\<rparr>"
    have at: "u32_at d off = Some ?w" "idx d (off + 4) = Some (d ! (off + 4))" using True by simp_all
    have run: "fir_loop d (off + 8) (es @ [?e]) = Some fs"
      using 1(2) True at by (subst (asm) fir_loop.simps) simp
    have ch: "chunks_exact 8 (drop off d) = take 8 (drop off d) # chunks_exact 8 (drop (off + 8) d)"
      using conjunct1[OF True] by (subst chunks_exact.simps) (simp add: add.commute)
    have "31 - length es = Suc (31 - Suc (length es))" using conjunct2[OF True] by simp
    then show ?thesis using 1(1)[OF True at run] True by (simp add: ch)
  next
    case False
    then have "fs = es" using 1(2) by (subst (asm) fir_loop.simps) (auto split: if_splits)
    moreover have "take (31 - length es) (chunks_exact 8 (drop off d)) = []"
      using False by (cases "length es < 31") (auto simp: chunks_exact.simps[of 8])
    ultimately show ?thesis by simp
  qed
qed

lemma fir_targets_eq:
  assumes "fir_parse d = Some (Inr f)"
  shows "fir_targets d = take 16 (map fe_ssrc (fir_entries f))"
proof -
  obtain s es where "fir_loop d 12 [] = Some es" "f = \<lparr>fir_sender_ssrc = s, fir_entries = es\<rparr>"
    using assms by (auto simp: fir_parse_def on_ok_Inr bind_eq_Some_conv)
  then show ?thesis using fir_loop_chunks[of d 12 "[]" es]
    by (simp add: fir_targets_def MAX_FIR_ENTRIES_def take_map)
qed

lemma fir_targets_length: "length (fir_targets d) \<le> 16"
  by (simp add: fir_targets_def MAX_FIR_ENTRIES_def)

end
