(* ===== verification/Shard_State.thy ===== *)
theory Shard_State
  imports Buffer_Pool Plane_Types Rtcp_Write
begin

text \<open>
  The state of a shard and the operations that do not depend on the packet
  path: settings (\<^verbatim>\<open>nexus-dataplane/src/config.rs\<close>), datagram batches and
  the in-memory backend (\<^verbatim>\<open>shard/io.rs\<close>), counters (\<^verbatim>\<open>shard/stats.rs\<close>),
  and of \<^verbatim>\<open>shard/mod.rs\<close> the shard itself, sending, flushing and handing
  out events.

  The socket backend, the event sink and the cryptographic primitives are the
  fields of an environment.  The contract \<open>datagram_io\<close> states what the
  shard relies on of a backend; the in-memory backend fulfils it.  Every
  assertion of the shard, the debug ones included, is a panic of the model.
\<close>

section \<open>Settings\<close>

record shard_config =
  sc_shard :: u8
  sc_pool_buffers :: u32
  sc_max_sessions :: u32
  sc_consent_timeout :: duration
  sc_rebind_silence :: duration
  sc_rng_seed :: u64
  sc_dtls_budget_per_sweep :: u32

definition RECV_BATCH :: nat where "RECV_BATCH = 64"
definition SEND_BATCH :: nat where "SEND_BATCH = 256"
definition MAX_POOL_BUFFERS :: u32 where "MAX_POOL_BUFFERS = 0x100000"

definition config_default :: shard_config where
  "config_default = \<lparr>sc_shard = 0, sc_pool_buffers = 1024, sc_max_sessions = 1000, sc_consent_timeout = secs 30,
     sc_rebind_silence = secs 2, sc_rng_seed = 0x6E657875735F7366, sc_dtls_budget_per_sweep = 1024\<rparr>"

definition config_validate :: "shard_config \<Rightarrow> string + unit" where
  "config_validate c =
     (if unat (sc_pool_buffers c) < RECV_BATCH + SEND_BATCH
      then Inl ''pool_buffers must cover a receive and a send batch''
      else if sc_pool_buffers c > MAX_POOL_BUFFERS then Inl ''pool_buffers too large''
      else if sc_max_sessions c = 0 then Inl ''max_sessions must be positive''
      else if sc_consent_timeout c = 0 \<or> sc_rebind_silence c = 0 then Inl ''timeouts must be positive''
      else if sc_dtls_budget_per_sweep c = 0 then Inl ''dtls_budget_per_sweep must be positive''
      else if sc_rebind_silence c \<ge> sc_consent_timeout c then Inl ''rebind_silence must be below consent_timeout''
      else Inr ())"

section \<open>Datagrams\<close>

record datagram =
  dg_buf :: buf_ref
  dg_len :: nat
  dg_addr :: sock_addr

text \<open>\<^verbatim>\<open>push\<close> of a batch with capacity \<open>cap\<close>.\<close>

definition batch_push :: "nat \<Rightarrow> datagram \<Rightarrow> datagram list \<Rightarrow> datagram list option" where
  "batch_push cap d b = do {
     rassert (length b \<noteq> cap);
     rassert (dg_len d \<le> BUF_SIZE);
     Some (b @ [d]) }"

record recv_result =
  rv_received :: nat
  rv_would_block :: bool
  rv_truncated :: nat
  rv_unreadable :: nat

definition recv_default :: recv_result where
  "recv_default = \<lparr>rv_received = 0, rv_would_block = False, rv_truncated = 0, rv_unreadable = 0\<rparr>"

definition recv_taken :: "recv_result \<Rightarrow> nat" where
  "recv_taken r = rv_received r + rv_truncated r + rv_unreadable r"

record sent =
  st_datagrams :: nat
  st_bytes :: nat

text \<open>Source and destination addresses of a dual-stack socket.\<close>

definition to_ipv4_mapped :: "128 word \<Rightarrow> u32 option" where
  "to_ipv4_mapped ip = (if drop_bit 32 ip = 0xFFFF then Some (ucast ip) else None)"

definition to_ipv6_mapped :: "u32 \<Rightarrow> 128 word" where
  "to_ipv6_mapped ip = push_bit 32 0xFFFF OR ucast ip"

definition normalize_source :: "sock_addr \<Rightarrow> sock_addr" where
  "normalize_source a = (case a of
     SockV6 ip port flow scope \<Rightarrow> (case to_ipv4_mapped ip of Some v4 \<Rightarrow> SockV4 v4 port | None \<Rightarrow> a)
   | SockV4 _ _ \<Rightarrow> a)"

definition socket_destination :: "sock_addr \<Rightarrow> bool \<Rightarrow> sock_addr" where
  "socket_destination a v6 = (case a of
     SockV4 ip port \<Rightarrow> if v6 then SockV6 (to_ipv6_mapped ip) port 0 0 else a
   | SockV6 _ _ _ _ \<Rightarrow> a)"

section \<open>The in-memory backend\<close>

record mem_io =
  mi_inbound :: "(sock_addr \<times> bytes) list"
  mi_out_bytes :: bytes
  mi_out :: "(sock_addr \<times> nat \<times> nat) list"
  mi_dropped_oversize :: u64

fun mem_recv_loop ::
  "(sock_addr \<times> bytes) list \<Rightarrow> u64 \<Rightarrow> nat \<Rightarrow> datagram list \<Rightarrow> pool \<Rightarrow>
   ((sock_addr \<times> bytes) list \<times> u64 \<times> nat \<times> datagram list \<times> pool) option" where
  "mem_recv_loop [] dropped received rx p = Some ([], dropped, received, rx, p)"
| "mem_recv_loop ((addr, bytes) # inb) dropped received rx p =
     (if length rx = RECV_BATCH then Some ((addr, bytes) # inb, dropped, received, rx, p)
      else if length bytes > BUF_SIZE then mem_recv_loop inb (dropped + 1) received rx p
      else case pool_take p of
        None \<Rightarrow> Some ((addr, bytes) # inb, dropped, received, rx, p)
      | Some (buf, p) \<Rightarrow> do {
          p \<leftarrow> pool_write buf 0 bytes p;
          rx \<leftarrow> batch_push RECV_BATCH \<lparr>dg_buf = buf, dg_len = length bytes, dg_addr = addr\<rparr> rx;
          mem_recv_loop inb dropped (received + 1) rx p })"

definition mem_recv_batch ::
  "mem_io \<Rightarrow> datagram list \<Rightarrow> pool \<Rightarrow> (recv_result option \<times> datagram list \<times> pool \<times> mem_io) option" where
  "mem_recv_batch m rx p = do {
     (inb, dropped, received, rx, p) \<leftarrow> mem_recv_loop (mi_inbound m) (mi_dropped_oversize m) 0 rx p;
     Some (Some \<lparr>rv_received = received, rv_would_block = (inb = []),
         rv_truncated = unat (dropped - mi_dropped_oversize m), rv_unreadable = 0\<rparr>,
       rx, p, m\<lparr>mi_inbound := inb, mi_dropped_oversize := dropped\<rparr>) }"

fun mem_flush_loop :: "datagram list \<Rightarrow> mem_io \<Rightarrow> pool \<Rightarrow> (mem_io \<times> pool) option" where
  "mem_flush_loop [] m p = Some (m, p)"
| "mem_flush_loop (d # ds) m p = do {
     buf \<leftarrow> pool_buf p (dg_buf d);
     bytes \<leftarrow> sub_slice buf 0 (dg_len d);
     p \<leftarrow> pool_put (dg_buf d) p;
     mem_flush_loop ds (m\<lparr>mi_out_bytes := mi_out_bytes m @ bytes,
       mi_out := mi_out m @ [(dg_addr d, length (mi_out_bytes m), dg_len d)]\<rparr>) p }"

definition mem_flush :: "mem_io \<Rightarrow> datagram list \<Rightarrow> pool \<Rightarrow> (sent \<times> datagram list \<times> pool \<times> mem_io) option" where
  "mem_flush m tx p = do {
     (m, p) \<leftarrow> mem_flush_loop tx m p;
     Some (\<lparr>st_datagrams = length tx, st_bytes = sum_list (map dg_len tx)\<rparr>, [], p, m) }"

text \<open>\<^verbatim>\<open>outbound\<close>: the captured datagrams.\<close>

definition mem_outbound :: "mem_io \<Rightarrow> (sock_addr \<times> bytes option) list" where
  "mem_outbound m = map (\<lambda>(a, start, n). (a, sub_slice (mi_out_bytes m) start (start + n))) (mi_out m)"

section \<open>Counters\<close>

datatype counter =
    Iterations | Parks | Rx_datagrams | Rx_bytes | Rx_truncated | Rx_errors | Rx_unreadable | Tx_datagrams | Tx_bytes
  | Drop_send_failed | Tx_full_flushes | Drop_unclassified | Drop_stun | Drop_stun_auth | Drop_unknown_addr
  | Drop_dtls_unselected | Drop_dtls_verified | Drop_dtls_budget | Drop_dtls_shard_budget | Drop_no_srtp
  | Drop_srtp_auth | Drop_malformed | Drop_no_route | Drop_unmapped_pt | Drop_too_large | Drop_srtp_protect
  | Drop_pool_empty | Drop_event_full | Drop_event_closed | Drop_after_consent | Drop_send_datagram
  | Drop_rtcp_malformed | Stun_answered | Nominations | Rebinds | Switch_throttled | Stun_repeated | Rebased_count
  | Ssrcs_learned | Rtcp_received | Rtcp_ignored | Sr_translated | Keyframe_requests | Keyframe_throttled
  | Consent_lost_count | Commands_count | Commands_rejected

type_synonym counters = "counter \<Rightarrow> u64"

record gauges =
  ga_sessions :: u64
  ga_tracks :: u64
  ga_subscriptions :: u64
  ga_rx_pps :: u64

section \<open>Environment and shard\<close>

text \<open>
  \<open>ev_recv\<close> and \<open>ev_flush\<close> are the two operations of \<^verbatim>\<open>DatagramIo\<close> (the
  inner \<open>None\<close> of a receive is an I/O error), \<open>ev_try_send\<close> that of
  \<^verbatim>\<open>EventSink\<close>.
\<close>

record ('io, 'snk) env =
  ev_prims :: prims
  ev_hmac :: "bytes \<Rightarrow> bytes \<Rightarrow> bytes"
  ev_crc :: "bytes \<Rightarrow> u32"
  ev_recv :: "'io \<Rightarrow> datagram list \<Rightarrow> pool \<Rightarrow> (recv_result option \<times> datagram list \<times> pool \<times> 'io) option"
  ev_flush :: "'io \<Rightarrow> datagram list \<Rightarrow> pool \<Rightarrow> (sent \<times> datagram list \<times> pool \<times> 'io) option"
  ev_try_send :: "event \<Rightarrow> 'snk \<Rightarrow> sink_answer \<times> 'snk"

definition COMMAND_QUEUE_CAPACITY :: nat where "COMMAND_QUEUE_CAPACITY = 4096"
definition COMMAND_BUDGET :: nat where "COMMAND_BUDGET = 64"
definition EVENT_RETENTION :: nat where "EVENT_RETENTION = 256"
definition HOUSEKEEPING_INTERVAL :: duration where "HOUSEKEEPING_INTERVAL = secs 1"
definition MIN_SWITCH_INTERVAL :: duration where "MIN_SWITCH_INTERVAL = millis 100"
definition PREV_ADDR_GRACE :: duration where "PREV_ADDR_GRACE = secs 1"
definition PARK_RETRY_INTERVAL :: duration where "PARK_RETRY_INTERVAL = millis 10"

record iteration_stats =
  is_received :: nat
  is_taken :: nat
  is_would_block :: bool
  is_commands :: nat

record ('io, 'snk) shard =
  sh_config :: shard_config
  sh_epoch :: instant
  sh_io :: 'io
  sh_events :: 'snk
  sh_commands :: "command list"
  sh_pool :: pool
  sh_rx :: "datagram list"
  sh_tx :: "datagram list"
  sh_sessions :: "session slab"
  sh_tracks :: "published_track slab"
  sh_subs :: "subscription slab"
  sh_session_ids :: "(session_id, key) hmap"
  sh_track_ids :: "(track_id, key) hmap"
  sh_sub_ids :: "(subscription_id, key) hmap"
  sh_by_addr :: "(sock_addr, key) hmap"
  sh_by_ufrag :: "(bytes, key) hmap"
  sh_rng :: u64
  sh_counters :: counters
  sh_stats :: "counters \<times> gauges"
  sh_pending_switches :: "key list"
  sh_pending :: "event list"
  sh_next_housekeeping :: instant
  sh_dtls_budget :: u32
  sh_last_sweep :: "u64 \<times> instant"
  sh_rx_pps :: u64

definition shard_new :: "shard_config \<Rightarrow> 'io \<Rightarrow> 'snk \<Rightarrow> instant \<Rightarrow> (string + ('io, 'snk) shard) option" where
  "shard_new c io events now = (case config_validate c of
     Inl e \<Rightarrow> Some (Inl e)
   | Inr _ \<Rightarrow> do {
       p \<leftarrow> pool_new (sc_shard c) (unat (sc_pool_buffers c));
       Some (Inr \<lparr>sh_config = c, sh_epoch = now, sh_io = io, sh_events = events, sh_commands = [], sh_pool = p,
         sh_rx = [], sh_tx = [], sh_sessions = slab_new, sh_tracks = slab_new, sh_subs = slab_new,
         sh_session_ids = [], sh_track_ids = [], sh_sub_ids = [], sh_by_addr = [], sh_by_ufrag = [],
         sh_rng = sc_rng_seed c, sh_counters = (\<lambda>_. 0),
         sh_stats = (\<lambda>_. 0, \<lparr>ga_sessions = 0, ga_tracks = 0, ga_subscriptions = 0, ga_rx_pps = 0\<rparr>),
         sh_pending_switches = [], sh_pending = [], sh_next_housekeeping = now + HOUSEKEEPING_INTERVAL,
         sh_dtls_budget = sc_dtls_budget_per_sweep c, sh_last_sweep = (0, now), sh_rx_pps = 0\<rparr>) })"

text \<open>\<^verbatim>\<open>ArrayQueue::push\<close> gives the command back when the queue is full.\<close>

definition push_command :: "command \<Rightarrow> ('io, 'snk) shard \<Rightarrow> bool \<times> ('io, 'snk) shard" where
  "push_command c s =
     (if length (sh_commands s) \<ge> COMMAND_QUEUE_CAPACITY then (False, s)
      else (True, s\<lparr>sh_commands := sh_commands s @ [c]\<rparr>))"

definition count_by :: "counter \<Rightarrow> nat \<Rightarrow> ('io, 'snk) shard \<Rightarrow> ('io, 'snk) shard" where
  "count_by c n s = s\<lparr>sh_counters := (sh_counters s)(c := sh_counters s c + of_nat n)\<rparr>"

abbreviation count1 :: "counter \<Rightarrow> ('io, 'snk) shard \<Rightarrow> ('io, 'snk) shard" where
  "count1 c \<equiv> count_by c 1"

text \<open>Writes through the references the slabs hand out.\<close>

definition update_session :: "key \<Rightarrow> (session \<Rightarrow> session) \<Rightarrow> ('io, 'snk) shard \<Rightarrow> ('io, 'snk) shard option" where
  "update_session k f s = do { t \<leftarrow> slab_modify k f (sh_sessions s); Some (s\<lparr>sh_sessions := t\<rparr>) }"

definition update_track :: "key \<Rightarrow> (published_track \<Rightarrow> published_track) \<Rightarrow> ('io, 'snk) shard \<Rightarrow> ('io, 'snk) shard option" where
  "update_track k f s = do { t \<leftarrow> slab_modify k f (sh_tracks s); Some (s\<lparr>sh_tracks := t\<rparr>) }"

definition update_sub :: "key \<Rightarrow> (subscription \<Rightarrow> subscription) \<Rightarrow> ('io, 'snk) shard \<Rightarrow> ('io, 'snk) shard option" where
  "update_sub k f s = do { t \<leftarrow> slab_modify k f (sh_subs s); Some (s\<lparr>sh_subs := t\<rparr>) }"

definition put_buf :: "buf_ref \<Rightarrow> ('io, 'snk) shard \<Rightarrow> ('io, 'snk) shard option" where
  "put_buf b s = do { p \<leftarrow> pool_put b (sh_pool s); Some (s\<lparr>sh_pool := p\<rparr>) }"

definition write_buf :: "buf_ref \<Rightarrow> bytes \<Rightarrow> ('io, 'snk) shard \<Rightarrow> ('io, 'snk) shard option" where
  "write_buf b d s = do { p \<leftarrow> pool_write b 0 d (sh_pool s); Some (s\<lparr>sh_pool := p\<rparr>) }"

definition tx_push :: "datagram \<Rightarrow> ('io, 'snk) shard \<Rightarrow> ('io, 'snk) shard option" where
  "tx_push d s = do { tx \<leftarrow> batch_push SEND_BATCH d (sh_tx s); Some (s\<lparr>sh_tx := tx\<rparr>) }"

definition now_s :: "('io, 'snk) shard \<Rightarrow> instant \<Rightarrow> u32" where
  "now_s s now = (let t = as_secs (since now (sh_epoch s)) in if t < 2 ^ 32 then of_nat t else - 1)"

section \<open>Sending\<close>

definition flush :: "('io, 'snk) env \<Rightarrow> ('io, 'snk) shard \<Rightarrow> ('io, 'snk) shard option" where
  "flush E s =
     (if sh_tx s = [] then Some s
      else do {
        (sent, tx, p, io) \<leftarrow> ev_flush E (sh_io s) (sh_tx s) (sh_pool s);
        rassert (st_datagrams sent \<le> length (sh_tx s) \<and> tx = []);
        Some (count_by Drop_send_failed (length (sh_tx s) - st_datagrams sent)
          (count_by Tx_bytes (st_bytes sent)
            (count_by Tx_datagrams (st_datagrams sent) (s\<lparr>sh_tx := tx, sh_pool := p, sh_io := io\<rparr>)))) })"

definition flush_if_full :: "('io, 'snk) env \<Rightarrow> ('io, 'snk) shard \<Rightarrow> ('io, 'snk) shard option" where
  "flush_if_full E s = (if length (sh_tx s) = SEND_BATCH then flush E (count1 Tx_full_flushes s) else Some s)"

definition send :: "('io, 'snk) env \<Rightarrow> buf_ref \<Rightarrow> nat \<Rightarrow> sock_addr \<Rightarrow> ('io, 'snk) shard \<Rightarrow> ('io, 'snk) shard option" where
  "send E buf len addr s = do {
     s \<leftarrow> flush_if_full E s;
     tx_push \<lparr>dg_buf = buf, dg_len = len, dg_addr = addr\<rparr> s }"

section \<open>Events\<close>

fun event_session :: "event \<Rightarrow> session_id option" where
  "event_session (DtlsDatagram i _) = Some i"
| "event_session (AddressSelected i _ _) = Some i"
| "event_session (PeerSrtpVerified i) = Some i"
| "event_session (ConsentLost i) = Some i"
| "event_session (CommandRejected i _) = i"

definition consent_was_lost :: "event \<Rightarrow> ('io, 'snk) shard \<Rightarrow> bool option" where
  "consent_was_lost e s = (case event_session e of
     None \<Rightarrow> Some False
   | Some i \<Rightarrow> (case hm_get (sh_session_ids s) i of
       None \<Rightarrow> Some False
     | Some k \<Rightarrow> do { se \<leftarrow> slab_get (sh_sessions s) k; Some (se_consent_lost se) }))"

fun is_dtls_event :: "event \<Rightarrow> bool" where
  "is_dtls_event (DtlsDatagram _ _) = True"
| "is_dtls_event _ = False"

definition retain :: "event \<Rightarrow> ('io, 'snk) shard \<Rightarrow> (bool \<times> ('io, 'snk) shard) option" where
  "retain e s =
     (if is_dtls_event e \<or> length (sh_pending s) = EVENT_RETENTION then Some (False, count1 Drop_event_full s)
      else do {
        let s = s\<lparr>sh_pending := sh_pending s @ [e]\<rparr>;
        rassert (length (sh_pending s) \<le> EVENT_RETENTION);
        Some (True, s) })"

definition emit :: "('io, 'snk) env \<Rightarrow> event \<Rightarrow> ('io, 'snk) shard \<Rightarrow> (bool \<times> ('io, 'snk) shard) option" where
  "emit E e s = do {
     lost \<leftarrow> consent_was_lost e s;
     if lost then Some (True, count1 Drop_after_consent s)
     else if sh_pending s = [] \<or> is_dtls_event e then
       case ev_try_send E e (sh_events s) of
         (Sink_Ok, snk) \<Rightarrow> Some (True, s\<lparr>sh_events := snk\<rparr>)
       | (Sink_Full, snk) \<Rightarrow> retain e (s\<lparr>sh_events := snk\<rparr>)
       | (Sink_Closed, snk) \<Rightarrow> Some (True, count1 Drop_event_closed (s\<lparr>sh_events := snk\<rparr>))
     else retain e s }"

text \<open>The loop of \<^verbatim>\<open>push_pending\<close>: what stays, the sink, and how many a closed sink dropped.\<close>

fun push_pending_loop :: "('io, 'snk) env \<Rightarrow> event list \<Rightarrow> 'snk \<Rightarrow> nat \<Rightarrow> event list \<times> 'snk \<times> nat" where
  "push_pending_loop E [] snk n = ([], snk, n)"
| "push_pending_loop E (e # es) snk n = (case ev_try_send E e snk of
     (Sink_Ok, snk) \<Rightarrow> push_pending_loop E es snk n
   | (Sink_Full, snk) \<Rightarrow> (e # es, snk, n)
   | (Sink_Closed, snk) \<Rightarrow> push_pending_loop E es snk (n + 1))"

definition push_pending :: "('io, 'snk) env \<Rightarrow> ('io, 'snk) shard \<Rightarrow> ('io, 'snk) shard" where
  "push_pending E s = (case push_pending_loop E (sh_pending s) (sh_events s) 0 of
     (es, snk, n) \<Rightarrow> count_by Drop_event_closed n (s\<lparr>sh_pending := es, sh_events := snk\<rparr>))"

definition park_deadline :: "('io, 'snk) shard \<Rightarrow> instant \<Rightarrow> instant option" where
  "park_deadline s now = do {
     let retry = (sh_pending s \<noteq> [] \<or> sh_pending_switches s \<noteq> []);
     let deadline = (if retry then min (sh_next_housekeeping s) (now + PARK_RETRY_INTERVAL) else sh_next_housekeeping s);
     rassert (deadline \<le> max now (sh_next_housekeeping s) + PARK_RETRY_INTERVAL);
     Some deadline }"

definition session_addr :: "session_id \<Rightarrow> ('io, 'snk) shard \<Rightarrow> sock_addr option option" where
  "session_addr i s = (case hm_get (sh_session_ids s) i of
     None \<Rightarrow> Some None
   | Some k \<Rightarrow> do { se \<leftarrow> slab_get (sh_sessions s) k; Some (se_addr se) })"

definition shard_gauges :: "('io, 'snk) shard \<Rightarrow> gauges" where
  "shard_gauges s = \<lparr>ga_sessions = of_nat (slab_len (sh_sessions s)), ga_tracks = of_nat (slab_len (sh_tracks s)),
     ga_subscriptions = of_nat (slab_len (sh_subs s)), ga_rx_pps = sh_rx_pps s\<rparr>"

definition publish_stats :: "('io, 'snk) shard \<Rightarrow> ('io, 'snk) shard" where
  "publish_stats s = s\<lparr>sh_stats := (sh_counters s, shard_gauges s)\<rparr>"

section \<open>Loops\<close>

text \<open>A loop that runs a fallible step for each item in turn.\<close>

fun for_each :: "('a \<Rightarrow> 's \<Rightarrow> 's option) \<Rightarrow> 'a list \<Rightarrow> 's \<Rightarrow> 's option" where
  "for_each f [] s = Some s"
| "for_each f (x # xs) s = do { s \<leftarrow> f x s; for_each f xs s }"

section \<open>What the operations leave unchanged\<close>

lemma update_session_frame: "update_session k f s = Some s' \<Longrightarrow> s' = s\<lparr>sh_sessions := sh_sessions s'\<rparr>"
  by (auto simp: update_session_def bind_eq_Some_conv)

lemma update_track_frame: "update_track k f s = Some s' \<Longrightarrow> s' = s\<lparr>sh_tracks := sh_tracks s'\<rparr>"
  by (auto simp: update_track_def bind_eq_Some_conv)

lemma update_sub_frame: "update_sub k f s = Some s' \<Longrightarrow> s' = s\<lparr>sh_subs := sh_subs s'\<rparr>"
  by (auto simp: update_sub_def bind_eq_Some_conv)

lemma buf_frame:
  "put_buf b s = Some s' \<Longrightarrow> s' = s\<lparr>sh_pool := sh_pool s'\<rparr>"
  "write_buf b d s = Some s' \<Longrightarrow> s' = s\<lparr>sh_pool := sh_pool s'\<rparr>"
  by (auto simp: put_buf_def write_buf_def bind_eq_Some_conv)

lemma tx_push_frame: "tx_push d s = Some s' \<Longrightarrow> s' = s\<lparr>sh_tx := sh_tx s'\<rparr>"
  by (auto simp: tx_push_def bind_eq_Some_conv)

lemma flush_frame:
  assumes "flush E s = Some s'"
  shows "s' = s\<lparr>sh_tx := sh_tx s', sh_pool := sh_pool s', sh_io := sh_io s', sh_counters := sh_counters s'\<rparr>"
  using assms by (cases "sh_tx s = []") (auto simp: flush_def bind_eq_Some_conv count_by_def split: prod.splits)

lemma flush_if_full_frame:
  assumes "flush_if_full E s = Some s'"
  shows "s' = s\<lparr>sh_tx := sh_tx s', sh_pool := sh_pool s', sh_io := sh_io s', sh_counters := sh_counters s'\<rparr>"
proof (cases "length (sh_tx s) = SEND_BATCH")
  case True
  then have "flush E (count1 Tx_full_flushes s) = Some s'" using assms by (simp add: flush_if_full_def)
  from flush_frame[OF this] show ?thesis by (simp add: count_by_def)
qed (use assms in \<open>simp add: flush_if_full_def\<close>)

lemma send_frame:
  assumes "send E b n a s = Some s'"
  shows "s' = s\<lparr>sh_tx := sh_tx s', sh_pool := sh_pool s', sh_io := sh_io s', sh_counters := sh_counters s'\<rparr>"
proof -
  obtain t where t: "flush_if_full E s = Some t" "tx_push \<lparr>dg_buf = b, dg_len = n, dg_addr = a\<rparr> t = Some s'"
    using assms by (auto simp: send_def bind_eq_Some_conv)
  obtain x p io c where "t = s\<lparr>sh_tx := x, sh_pool := p, sh_io := io, sh_counters := c\<rparr>"
    using flush_if_full_frame[OF t(1)] by blast
  moreover obtain y where "s' = t\<lparr>sh_tx := y\<rparr>" using tx_push_frame[OF t(2)] by blast
  ultimately show ?thesis by simp
qed

lemma retain_ens:
  "ens (retain e s) (\<lambda>(b, s'). s' = s\<lparr>sh_pending := sh_pending s', sh_counters := sh_counters s'\<rparr>)"
  unfolding retain_def by (intro ens_intros) (simp_all add: count_by_def Let_def ens_def bind_eq_Some_conv)

lemma emit_frame:
  assumes "emit E e s = Some (b, s')"
  shows "s' = s\<lparr>sh_events := sh_events s', sh_pending := sh_pending s', sh_counters := sh_counters s'\<rparr>"
proof -
  have r: "\<exists>pe co. t' = t\<lparr>sh_pending := pe, sh_counters := co\<rparr>" if "retain e t = Some (b, t')" for t t'
    using ensD[OF retain_ens that] by auto
  obtain ans snk where a: "ev_try_send E e (sh_events s) = (ans, snk)" by (cases "ev_try_send E e (sh_events s)")
  obtain lost where l: "consent_was_lost e s = Some lost" using assms by (cases "consent_was_lost e s") (auto simp: emit_def)
  show ?thesis
  proof (cases "lost \<or> \<not> (sh_pending s = [] \<or> is_dtls_event e)")
    case True
    then show ?thesis using assms l r[of s s'] by (cases lost) (auto simp: emit_def count_by_def)
  next
    case False
    then show ?thesis using assms l a r[of "s\<lparr>sh_events := snk\<rparr>" s']
      by (cases ans) (auto simp: emit_def count_by_def)
  qed
qed

section \<open>The backend contract\<close>

abbreviation dg_index :: "datagram \<Rightarrow> nat" where
  "dg_index d \<equiv> buf_index (dg_buf d)"

locale datagram_io =
  fixes io_recv :: "'io \<Rightarrow> datagram list \<Rightarrow> pool \<Rightarrow> (recv_result option \<times> datagram list \<times> pool \<times> 'io) option"
    and io_flush :: "'io \<Rightarrow> datagram list \<Rightarrow> pool \<Rightarrow> (sent \<times> datagram list \<times> pool \<times> 'io) option"
  assumes recv_ok: "pool_owns p held \<Longrightarrow>
      \<exists>r rx p' io'. io_recv io [] p = Some (r, rx, p', io') \<and> pool_owns p' (map dg_index rx @ held) \<and>
        (\<forall>d\<in>set rx. dg_len d \<le> BUF_SIZE) \<and> length rx = (case r of None \<Rightarrow> 0 | Some r \<Rightarrow> rv_received r)"
    and flush_ok: "pool_owns p (held @ map dg_index tx) \<Longrightarrow> \<forall>d\<in>set tx. dg_len d \<le> BUF_SIZE \<Longrightarrow>
      \<exists>sent p' io'. io_flush io tx p = Some (sent, [], p', io') \<and> pool_owns p' held \<and>
        st_datagrams sent \<le> length tx \<and> (\<forall>b. buf_index b \<in> set held \<longrightarrow> pool_buf p' b = pool_buf p b)"
begin

text \<open>A batch that is received and sent again gives every buffer back.\<close>

lemma recv_flush:
  assumes "pool_owns p held"
  shows "\<exists>r rx p1 io1 sent p2 io2. io_recv io [] p = Some (r, rx, p1, io1) \<and>
    io_flush io1 rx p1 = Some (sent, [], p2, io2) \<and> pool_owns p2 held"
proof -
  obtain r rx p1 io1 where r: "io_recv io [] p = Some (r, rx, p1, io1)" "pool_owns p1 (map dg_index rx @ held)"
    "\<forall>d\<in>set rx. dg_len d \<le> BUF_SIZE" using recv_ok[OF assms] by blast
  have "pool_owns p1 (held @ map dg_index rx)" by (rule pool_owns_perm[OF r(2)]) simp
  from flush_ok[OF this r(3)] r(1) show ?thesis by blast
qed

end

section \<open>The in-memory backend fulfils the contract\<close>

lemma pool_put_buf: "pool_put b p = Some p' \<Longrightarrow> pool_buf p' c = pool_buf p c"
  by (auto simp: pool_put_def pool_buf_def bind_eq_Some_conv)

lemma mem_flush_loop_ok:
  assumes "pool_owns p (held @ map dg_index tx)" "\<forall>d\<in>set tx. dg_len d \<le> BUF_SIZE"
  shows "\<exists>m' p'. mem_flush_loop tx m p = Some (m', p') \<and> pool_owns p' held \<and> (\<forall>b. pool_buf p' b = pool_buf p b)"
  using assms
proof (induction tx m p rule: mem_flush_loop.induct)
  case (2 d ds m p)
  have o: "pool_owns p (dg_index d # held @ map dg_index ds)" by (rule pool_owns_perm[OF 2(2)]) simp
  then have "dg_index d < pool_capacity p" by (auto simp: pool_owns_def)
  then obtain buf where buf: "pool_buf p (dg_buf d) = Some buf" "length buf = BUF_SIZE"
    using pool_buf_total[OF o] by blast
  obtain p' where p': "pool_put (dg_buf d) p = Some p'" "pool_owns p' (held @ map dg_index ds)"
    using pool_put_total[OF o] by blast
  have sl: "sub_slice buf 0 (dg_len d) = Some (take (dg_len d) buf)" using buf(2) 2(3) by simp
  then show ?case using 2(1)[OF buf(1) sl p'(1,2)] 2(3) buf(1) p'(1) pool_put_buf[OF p'(1)] by auto
qed simp

lemma mem_recv_loop_ok:
  assumes "pool_owns p (map dg_index rx @ held)" "length rx \<le> RECV_BATCH" "\<forall>d\<in>set rx. dg_len d \<le> BUF_SIZE"
  shows "\<exists>inb' dr n' rx' p'. mem_recv_loop inb dropped n rx p = Some (inb', dr, n', rx', p') \<and>
    pool_owns p' (map dg_index rx' @ held) \<and> (\<forall>d\<in>set rx'. dg_len d \<le> BUF_SIZE) \<and> n' + length rx = n + length rx'"
  using assms
proof (induction inb dropped n rx p rule: mem_recv_loop.induct)
  case (2 addr bytes inb dropped n rx p)
  show ?case
  proof (cases "length rx = RECV_BATCH \<or> length bytes > BUF_SIZE \<or> pool_take p = None")
    case True
    then show ?thesis using 2(1,3-5) by (cases "length rx = RECV_BATCH"; cases "length bytes > BUF_SIZE") auto
  next
    case False
    then obtain b p1 where t: "pool_take p = Some (b, p1)" by auto
    have o: "pool_owns p1 (buf_index b # map dg_index rx @ held)" by (rule pool_take_owns[OF 2(3) t])
    then have "buf_index b < pool_capacity p1" by (auto simp: pool_owns_def)
    then obtain cur where cur: "pool_buf p1 b = Some cur" using pool_buf_total[OF o] by blast
    obtain p2 where p2: "pool_write b 0 bytes p1 = Some p2" using pool_write_same[OF cur, of 0 bytes] False by auto
    define d where "d = \<lparr>dg_buf = b, dg_len = length bytes, dg_addr = addr\<rparr>"
    have o2: "pool_owns p2 (map dg_index (rx @ [d]) @ held)"
      by (rule pool_owns_perm[OF conjunct1[OF pool_write_owns[OF o p2]]]) (simp add: d_def)
    have push: "batch_push RECV_BATCH d rx = Some (rx @ [d])" using False by (simp add: batch_push_def d_def)
    have "\<not> length rx = RECV_BATCH" "\<not> length bytes > BUF_SIZE" using False by simp_all
    from 2(2)[OF this t refl p2 push[unfolded d_def], folded d_def, OF o2] 2(4,5) False
    show ?thesis using t p2 push by (auto simp: d_def)
  qed
qed simp

interpretation mio: datagram_io mem_recv_batch mem_flush
proof (unfold_locales, goal_cases)
  case (1 p held io)
  then show ?case
    using mem_recv_loop_ok[of p "[]" held "mi_inbound io" "mi_dropped_oversize io" 0] by (auto simp: mem_recv_batch_def)
next
  case (2 p held tx io)
  then show ?case using mem_flush_loop_ok[OF 2, of io] by (auto simp: mem_flush_def)
qed

end
