(* ===== verification/Shard_Rtcp.thy ===== *)
theory Shard_Rtcp
  imports Shard_State
begin

text \<open>
  RTCP on the shard (\<^verbatim>\<open>nexus-dataplane/src/shard/rtcp.rs\<close>): reading an
  authenticated compound, translating sender reports toward subscribers, and
  keyframe requests toward publishers.
\<close>

definition PLI_THROTTLE :: duration where "PLI_THROTTLE = millis 500"
definition MAX_WANTED :: nat where "MAX_WANTED = 32"
definition MAX_SRS :: nat where "MAX_SRS = 16"

record requests =
  rq_srs :: "(u32 \<times> sr_info) list"
  rq_keyframes :: "u32 list"

text \<open>One sender report per SSRC, the last of the compound.\<close>

definition note_sr :: "u32 \<Rightarrow> sr_info \<Rightarrow> requests \<Rightarrow> requests" where
  "note_sr ssrc info r = (case position (\<lambda>e. fst e = ssrc) (rq_srs r) of
     Some i \<Rightarrow> r\<lparr>rq_srs := (rq_srs r)[i := (ssrc, info)]\<rparr>
   | None \<Rightarrow> r\<lparr>rq_srs := snd (fixed_push MAX_SRS (ssrc, info) (rq_srs r))\<rparr>)"

definition note_keyframe :: "u32 \<Rightarrow> requests \<Rightarrow> requests" where
  "note_keyframe ssrc r = r\<lparr>rq_keyframes := snd (fixed_push MAX_WANTED ssrc (rq_keyframes r))\<rparr>"

text \<open>One block of the compound: the requests so far and the ignored blocks, or a malformed block.\<close>

definition read_block :: "compound_entry \<Rightarrow> requests \<times> nat \<Rightarrow> (requests \<times> nat) option option" where
  "read_block e st = (case st of (r, ignored) \<Rightarrow>
     if rc_packet_type (fst e) = RtSenderReport then do {
       p \<leftarrow> sender_report_parse (snd e);
       Some (case p of Inl _ \<Rightarrow> None
         | Inr sr \<Rightarrow> Some (note_sr (srp_ssrc sr) \<lparr>sr_ntp = srp_ntp_timestamp sr, sr_rtp = srp_rtp_timestamp sr\<rparr> r, ignored)) }
     else if rc_packet_type (fst e) = RtPayloadFeedback \<and> rc_count (fst e) = FMT_PLI then do {
       p \<leftarrow> pli_parse (snd e);
       Some (case p of Inl _ \<Rightarrow> None | Inr pli \<Rightarrow> Some (note_keyframe (pli_media_ssrc pli) r, ignored)) }
     else if rc_packet_type (fst e) = RtPayloadFeedback \<and> rc_count (fst e) = FMT_FIR then
       Some (Some (fold note_keyframe (fir_targets (snd e)) r, ignored))
     else Some (Some (r, ignored + 1)))"

fun read_blocks :: "compound_entry list \<Rightarrow> requests \<times> nat \<Rightarrow> (requests \<times> nat) option option" where
  "read_blocks [] st = Some (Some st)"
| "read_blocks (e # es) st = do {
     r \<leftarrow> read_block e st;
     case r of None \<Rightarrow> Some None | Some st \<Rightarrow> read_blocks es st }"

definition read_compound ::
  "buf_ref \<Rightarrow> nat \<Rightarrow> ('io, 'snk) shard \<Rightarrow> (requests option \<times> ('io, 'snk) shard) option" where
  "read_compound buf len s = do {
     b \<leftarrow> pool_buf (sh_pool s) buf;
     data \<leftarrow> sub_slice b 0 len;
     c \<leftarrow> demux_compound data;
     case c of
       Inl _ \<Rightarrow> Some (None, s)
     | Inr es \<Rightarrow>
         if sum_list (map (\<lambda>e. length (snd e)) es) \<noteq> len then Some (None, s)
         else do {
           r \<leftarrow> read_blocks es (\<lparr>rq_srs = [], rq_keyframes = []\<rparr>, 0);
           case r of
             None \<Rightarrow> Some (None, s)
           | Some (r, ignored) \<Rightarrow> Some (Some r, count_by Rtcp_ignored ignored s) } }"

text \<open>
  Protecting the RTCP packet in \<open>dst[..n]\<close> with the outbound context of
  session \<open>k\<close>: the new context is stored, and on success the protected
  packet is in the buffer.
\<close>

definition protect_rtcp_of ::
  "('io, 'snk) env \<Rightarrow> key \<Rightarrow> srtp_outbound \<Rightarrow> buf_ref \<Rightarrow> bytes \<Rightarrow> nat \<Rightarrow> ('io, 'snk) shard \<Rightarrow>
   (nat option \<times> ('io, 'snk) shard) option" where
  "protect_rtcp_of E k outbound buf dst n s = do {
     (r, outbound) \<leftarrow> outbound_protect_rtcp (ev_prims E) dst n outbound;
     s \<leftarrow> update_session k (\<lambda>se. se\<lparr>se_srtp_out := Some outbound\<rparr>) s;
     case r of
       None \<Rightarrow> Some (None, s)
     | Some (dst, n) \<Rightarrow> do { s \<leftarrow> write_buf buf dst s; Some (Some n, s) } }"

text \<open>A translated sender report with its source description for one subscription.\<close>

definition write_report :: "bytes \<Rightarrow> subscription \<Rightarrow> sr_info \<Rightarrow> bytes \<Rightarrow> (nat \<times> bytes) option option" where
  "write_report dst sub sr cname = do {
     let ssrc = rw_out_ssrc (sb_rewrite sub);
     let translated = \<lparr>sr_ntp = sr_ntp sr, sr_rtp = sr_rtp sr + rw_ts_offset (sb_rewrite sub)\<rparr>;
     w \<leftarrow> write_sr dst ssrc translated (sb_sent_packets sub) (sb_sent_octets sub);
     case w of
       None \<Rightarrow> Some None
     | Some (n, dst) \<Rightarrow> do {
         rassert (n \<le> length dst);
         w \<leftarrow> write_sdes_cname (drop n dst) ssrc cname;
         Some (case w of None \<Rightarrow> None | Some (m, t) \<Rightarrow> Some (n + m, take n dst @ t)) } }"

definition translate_one ::
  "('io, 'snk) env \<Rightarrow> key \<Rightarrow> sr_info \<Rightarrow> nat \<Rightarrow> ('io, 'snk) shard \<Rightarrow> ('io, 'snk) shard option" where
  "translate_one E tidx sr i s = do {
     s \<leftarrow> flush_if_full E s;
     track \<leftarrow> slab_get (sh_tracks s) tidx;
     sidx \<leftarrow> idx (pt_subscribers track) i;
     sub \<leftarrow> slab_get (sh_subs s) sidx;
     se \<leftarrow> slab_get (sh_sessions s) (sb_session sub);
     case (se_srtp_out se, se_addr se) of
       (Some outbound, Some addr) \<Rightarrow>
         if \<not> rw_started (sb_rewrite sub) \<or> rw_layer (sb_rewrite sub) \<noteq> 0 then Some s
         else (case pool_take (sh_pool s) of
           None \<Rightarrow> Some (count1 Drop_pool_empty s)
         | Some (out, p) \<Rightarrow> do {
             let s = s\<lparr>sh_pool := p\<rparr>;
             dst \<leftarrow> pool_buf p out;
             w \<leftarrow> write_report dst sub sr (ts_cname (pt_spec track));
             (protected, s) \<leftarrow> (case w of
               None \<Rightarrow> Some (None, s)
             | Some (n, dst) \<Rightarrow> protect_rtcp_of E (sb_session sub) outbound out dst n s);
             case protected of
               Some n \<Rightarrow> tx_push \<lparr>dg_buf = out, dg_len = n, dg_addr = addr\<rparr> (count1 Sr_translated s)
             | None \<Rightarrow> put_buf out (count1 Drop_srtp_protect s) })
     | _ \<Rightarrow> Some s }"

definition translate_sr ::
  "('io, 'snk) env \<Rightarrow> key \<Rightarrow> u32 \<Rightarrow> sr_info \<Rightarrow> ('io, 'snk) shard \<Rightarrow> ('io, 'snk) shard option" where
  "translate_sr E publisher ssrc sr s = do {
     se \<leftarrow> slab_get (sh_sessions s) publisher;
     case track_of_ssrc se ssrc of
       None \<Rightarrow> Some s
     | Some tidx \<Rightarrow> do {
         s \<leftarrow> update_track tidx (\<lambda>t. t\<lparr>pt_layer := (pt_layer t)\<lparr>ly_last_sr := Some sr\<rparr>\<rparr>) s;
         track \<leftarrow> slab_get (sh_tracks s) tidx;
         for_each (translate_one E tidx sr) [0..<length (pt_subscribers track)] s } }"

definition request_keyframe ::
  "('io, 'snk) env \<Rightarrow> key \<Rightarrow> instant \<Rightarrow> ('io, 'snk) shard \<Rightarrow> ('io, 'snk) shard option" where
  "request_keyframe E tidx now s = do {
     s \<leftarrow> flush_if_full E s;
     track \<leftarrow> slab_get (sh_tracks s) tidx;
     if (case pt_last_pli track of None \<Rightarrow> False | Some at \<Rightarrow> since now at < PLI_THROTTLE)
     then Some (count1 Keyframe_throttled s)
     else case ly_ssrc (pt_layer track) of
       None \<Rightarrow> Some s
     | Some media \<Rightarrow> do {
         se \<leftarrow> slab_get (sh_sessions s) (pt_session track);
         case (se_srtp_out se, se_addr se) of
           (Some outbound, Some addr) \<Rightarrow>
             (case pool_take (sh_pool s) of
               None \<Rightarrow> Some (count1 Drop_pool_empty s)
             | Some (out, p) \<Rightarrow> do {
                 let s = s\<lparr>sh_pool := p\<rparr>;
                 dst \<leftarrow> pool_buf p out;
                 w \<leftarrow> write_pli dst (se_out_ssrc_base se) media;
                 (protected, s) \<leftarrow> (case w of
                   None \<Rightarrow> Some (None, s)
                 | Some (n, dst) \<Rightarrow> protect_rtcp_of E (pt_session track) outbound out dst n s);
                 case protected of
                   None \<Rightarrow> put_buf out (count1 Drop_srtp_protect s)
                 | Some n \<Rightarrow> do {
                     s \<leftarrow> tx_push \<lparr>dg_buf = out, dg_len = n, dg_addr = addr\<rparr> s;
                     s \<leftarrow> update_track tidx (\<lambda>t. t\<lparr>pt_last_pli := Some now\<rparr>) s;
                     Some (count1 Keyframe_requests s) } })
         | _ \<Rightarrow> Some s } }"

text \<open>\<^verbatim>\<open>find\<close> over the session's subscriptions.\<close>

fun find_sub_by_ssrc :: "u32 \<Rightarrow> key list \<Rightarrow> ('io, 'snk) shard \<Rightarrow> key option option" where
  "find_sub_by_ssrc ssrc [] s = Some None"
| "find_sub_by_ssrc ssrc (k # ks) s = do {
     sub \<leftarrow> slab_get (sh_subs s) k;
     if rw_out_ssrc (sb_rewrite sub) = ssrc then Some (Some k) else find_sub_by_ssrc ssrc ks s }"

definition keyframe_wanted ::
  "('io, 'snk) env \<Rightarrow> key \<Rightarrow> u32 \<Rightarrow> instant \<Rightarrow> ('io, 'snk) shard \<Rightarrow> ('io, 'snk) shard option" where
  "keyframe_wanted E subscriber media_ssrc now s = do {
     se \<leftarrow> slab_get (sh_sessions s) subscriber;
     found \<leftarrow> find_sub_by_ssrc media_ssrc (se_subs se) s;
     case found of
       None \<Rightarrow> Some s
     | Some sidx \<Rightarrow> do { sub \<leftarrow> slab_get (sh_subs s) sidx; request_keyframe E (sb_track sub) now s } }"

definition handle_rtcp_compound ::
  "('io, 'snk) env \<Rightarrow> key \<Rightarrow> buf_ref \<Rightarrow> nat \<Rightarrow> instant \<Rightarrow> ('io, 'snk) shard \<Rightarrow> ('io, 'snk) shard option" where
  "handle_rtcp_compound E k buf len now s = do {
     (r, s) \<leftarrow> read_compound buf len s;
     case r of
       None \<Rightarrow> Some (count1 Drop_rtcp_malformed s)
     | Some r \<Rightarrow> do {
         s \<leftarrow> for_each (\<lambda>(ssrc, sr). translate_sr E k ssrc sr) (rq_srs r) s;
         for_each (\<lambda>ssrc. keyframe_wanted E k ssrc now) (rq_keyframes r) s } }"

end
