(* ===== verification/Shard_Commands.thy ===== *)
theory Shard_Commands
  imports Shard_Rtcp
begin

text \<open>
  Command handling (\<^verbatim>\<open>nexus-dataplane/src/shard/commands.rs\<close>).  A handler
  returns the outcome, \<open>Inl\<close> with the reason of a refusal, and the new state.
\<close>

type_synonym ('io, 'snk) outcome = "((reject_reason + unit) \<times> ('io, 'snk) shard) option"

definition create_session ::
  "session_id \<Rightarrow> ice_params \<Rightarrow> u32 \<Rightarrow> instant \<Rightarrow> ('io, 'snk) shard \<Rightarrow> ('io, 'snk) outcome" where
  "create_session i ice base now s =
     (if hm_get (sh_session_ids s) i \<noteq> None \<or> hm_get (sh_by_ufrag s) (ice_local_ufrag ice) \<noteq> None
      then Some (Inl DuplicateId, s)
      else if slab_len (sh_sessions s) \<ge> unat (sc_max_sessions (sh_config s)) then Some (Inl SessionLimit, s)
      else do {
        (k, t) \<leftarrow> slab_insert (session_new i ice base now) (sh_sessions s);
        Some (Inr (), s\<lparr>sh_sessions := t, sh_session_ids := hm_insert i k (sh_session_ids s),
          sh_by_ufrag := hm_insert (ice_local_ufrag ice) k (sh_by_ufrag s)\<rparr>) })"

definition send_datagram ::
  "('io, 'snk) env \<Rightarrow> session_id \<Rightarrow> bytes \<Rightarrow> ('io, 'snk) shard \<Rightarrow> ('io, 'snk) outcome" where
  "send_datagram E i bytes s = (case hm_get (sh_session_ids s) i of
     None \<Rightarrow> Some (Inl UnknownSession, s)
   | Some k \<Rightarrow> do {
       se \<leftarrow> slab_get (sh_sessions s) k;
       case se_addr se of
         None \<Rightarrow> Some (Inr (), count1 Drop_send_datagram s)
       | Some addr \<Rightarrow>
           if bytes = [] \<or> length bytes > BUF_SIZE then Some (Inr (), count1 Drop_send_datagram s)
           else case pool_take (sh_pool s) of
             None \<Rightarrow> Some (Inr (), count1 Drop_pool_empty s)
           | Some (buf, p) \<Rightarrow> do {
               s \<leftarrow> write_buf buf bytes (s\<lparr>sh_pool := p\<rparr>);
               s \<leftarrow> send E buf (length bytes) addr s;
               Some (Inr (), s) } })"

text \<open>The registrations and pins of \<^verbatim>\<open>install_srtp\<close>; the inner \<open>None\<close> is a refusal.\<close>

fun register_all :: "key list \<Rightarrow> ('io, 'snk) shard \<Rightarrow> srtp_outbound \<Rightarrow> srtp_outbound option option" where
  "register_all [] s x = Some (Some x)"
| "register_all (k # ks) s x = do {
     sub \<leftarrow> slab_get (sh_subs s) k;
     (r, x) \<leftarrow> outbound_register (rw_out_ssrc (sb_rewrite sub)) x;
     case r of Inl _ \<Rightarrow> Some None | Inr _ \<Rightarrow> register_all ks s x }"

fun pin_all :: "u32 list \<Rightarrow> srtp_inbound \<Rightarrow> srtp_inbound option option" where
  "pin_all [] x = Some (Some x)"
| "pin_all (ssrc # ssrcs) x = do {
     (r, x) \<leftarrow> inbound_pin ssrc x;
     case r of Inl _ \<Rightarrow> Some None | Inr _ \<Rightarrow> pin_all ssrcs x }"

definition srtp_contexts ::
  "prims \<Rightarrow> session \<Rightarrow> srtp_install \<Rightarrow> ('io, 'snk) shard \<Rightarrow> (srtp_inbound \<times> srtp_outbound) option option" where
  "srtp_contexts P se keys s = do {
     i \<leftarrow> inbound_from_material P (sx_remote keys);
     case i of Inl _ \<Rightarrow> Some None
     | Inr inbound \<Rightarrow> do {
         out \<leftarrow> outbound_from_material P (sx_local keys) (se_out_ssrc_base se);
         case out of Inl _ \<Rightarrow> Some None
         | Inr outbound \<Rightarrow> do {
             (r, outbound) \<leftarrow> outbound_register (session_rtcp_ssrc se) outbound;
             case r of Inl _ \<Rightarrow> Some None
             | Inr _ \<Rightarrow> do {
                 x \<leftarrow> register_all (se_subs se) s outbound;
                 case x of None \<Rightarrow> Some None
                 | Some outbound \<Rightarrow> do {
                     y \<leftarrow> pin_all (map fst (se_published se)) inbound;
                     case y of None \<Rightarrow> Some None
                     | Some inbound \<Rightarrow> Some (Some (inbound, outbound)) } } } } }"

text \<open>The \<open>i\<close>-th keyframe request after an installation.\<close>

definition keyframe_for_sub ::
  "('io, 'snk) env \<Rightarrow> key \<Rightarrow> instant \<Rightarrow> nat \<Rightarrow> ('io, 'snk) shard \<Rightarrow> ('io, 'snk) shard option" where
  "keyframe_for_sub E k now i s = do {
     se \<leftarrow> slab_get (sh_sessions s) k;
     sidx \<leftarrow> idx (se_subs se) i;
     sub \<leftarrow> slab_get (sh_subs s) sidx;
     request_keyframe E (sb_track sub) now s }"

definition install_srtp ::
  "('io, 'snk) env \<Rightarrow> session_id \<Rightarrow> srtp_install \<Rightarrow> instant \<Rightarrow> ('io, 'snk) shard \<Rightarrow> ('io, 'snk) outcome" where
  "install_srtp E i keys now s = (case hm_get (sh_session_ids s) i of
     None \<Rightarrow> Some (Inl UnknownSession, s)
   | Some k \<Rightarrow> do {
       se \<leftarrow> slab_get (sh_sessions s) k;
       if se_srtp_in se \<noteq> None then Some (Inl SrtpAlreadyInstalled, s)
       else do {
         rassert (se_srtp_out se = None);
         c \<leftarrow> srtp_contexts (ev_prims E) se keys s;
         case c of
           None \<Rightarrow> Some (Inl SrtpSetup, s)
         | Some (inbound, outbound) \<Rightarrow> do {
             s \<leftarrow> update_session k (\<lambda>se. se\<lparr>se_srtp_in := Some inbound, se_srtp_out := Some outbound\<rparr>) s;
             se \<leftarrow> slab_get (sh_sessions s) k;
             s \<leftarrow> for_each (keyframe_for_sub E k now) [0..<length (se_subs se)] s;
             Some (Inr (), s) } } })"

text \<open>The second half of \<^verbatim>\<open>add_track\<close>, after its checks.\<close>

definition insert_track :: "key \<Rightarrow> track_id \<Rightarrow> track_spec \<Rightarrow> ('io, 'snk) shard \<Rightarrow> ('io, 'snk) outcome" where
  "insert_track k track spec s = do {
     (t, ts) \<leftarrow> slab_insert (published_track_new track k spec) (sh_tracks s);
     let s = s\<lparr>sh_tracks := ts\<rparr>;
     se \<leftarrow> slab_get (sh_sessions s) k;
     s \<leftarrow> (case ts_ssrc spec of
        Some ssrc \<Rightarrow> (case fixed_push MAX_TRACKS_PER_SESSION (ssrc, t) (se_published se) of (added, ps) \<Rightarrow>
          do { rassert added; update_session k (\<lambda>se. se\<lparr>se_published := ps\<rparr>) s })
      | None \<Rightarrow> (case fixed_push MAX_TRACKS_PER_SESSION t (se_unbound se) of (added, us) \<Rightarrow>
          do { rassert added; update_session k (\<lambda>se. se\<lparr>se_unbound := us\<rparr>) s }));
     Some (Inr (), s\<lparr>sh_track_ids := hm_insert track t (sh_track_ids s)\<rparr>) }"

definition add_track ::
  "session_id \<Rightarrow> track_id \<Rightarrow> track_spec \<Rightarrow> ('io, 'snk) shard \<Rightarrow> ('io, 'snk) outcome" where
  "add_track i track spec s = (case hm_get (sh_session_ids s) i of
     None \<Rightarrow> Some (Inl UnknownSession, s)
   | Some k \<Rightarrow>
       if hm_get (sh_track_ids s) track \<noteq> None then Some (Inl DuplicateId, s)
       else do {
         se \<leftarrow> slab_get (sh_sessions s) k;
         if session_track_count se \<ge> MAX_TRACKS_PER_SESSION then Some (Inl TrackLimit, s)
         else (case ts_ssrc spec of
           None \<Rightarrow> insert_track k track spec s
         | Some ssrc \<Rightarrow>
             if track_of_ssrc se ssrc \<noteq> None then Some (Inl SsrcInUse, s)
             else (case se_srtp_in se of
               None \<Rightarrow> insert_track k track spec s
             | Some inbound \<Rightarrow> do {
                 (r, inbound) \<leftarrow> inbound_pin ssrc inbound;
                 s \<leftarrow> update_session k (\<lambda>se. se\<lparr>se_srtp_in := Some inbound\<rparr>) s;
                 case r of Inl _ \<Rightarrow> Some (Inl SrtpSetup, s) | Inr _ \<Rightarrow> insert_track k track spec s })) })"

definition remove_subscription :: "key \<Rightarrow> ('io, 'snk) shard \<Rightarrow> ('io, 'snk) shard option" where
  "remove_subscription sidx s = do {
     (sub, bs) \<leftarrow> slab_remove sidx (sh_subs s);
     let s = s\<lparr>sh_subs := bs\<rparr>;
     se \<leftarrow> slab_get (sh_sessions s) (sb_session sub);
     pos \<leftarrow> position (\<lambda>k. k = sidx) (se_subs se);
     s \<leftarrow> update_session (sb_session sub) (\<lambda>se. se\<lparr>
        se_srtp_out := map_option (outbound_retire (rw_out_ssrc (sb_rewrite sub))) (se_srtp_out se),
        se_subs := take pos (se_subs se) @ drop (pos + 1) (se_subs se)\<rparr>) s;
     track \<leftarrow> slab_get (sh_tracks s) (sb_track sub);
     pos \<leftarrow> position (\<lambda>k. k = sidx) (pt_subscribers track);
     s \<leftarrow> update_track (sb_track sub) (\<lambda>t. t\<lparr>pt_subscribers := swap_remove pos (pt_subscribers t)\<rparr>) s;
     rassert (hm_get (sh_sub_ids s) (sb_id sub) = Some sidx);
     Some (s\<lparr>sh_sub_ids := hm_remove (sb_id sub) (sh_sub_ids s)\<rparr>) }"

subsection \<open>Loops that remove\<close>

text \<open>Each pass of the removal loops empties a slot of a slab, so they end.\<close>

definition slab_used :: "'a slab \<Rightarrow> nat" where
  "slab_used s = length (filter (\<lambda>sl. slot_entry sl \<noteq> None) (slab_slots s))"

lemma filter_update_count:
  "i < length xs \<Longrightarrow>
   length (filter P (xs[i := y])) + (if P (xs ! i) then 1 else 0) = length (filter P xs) + (if P y then 1 else 0)"
proof -
  assume i: "i < length xs"
  have "length (filter P xs) = length (filter P (take i xs @ xs ! i # drop (Suc i) xs))"
    using id_take_nth_drop[OF i] by metis
  then show ?thesis by (simp add: upd_conv_take_nth_drop[OF i])
qed

lemma slab_remove_used: "slab_remove k s = Some (v, s') \<Longrightarrow> slab_used s' < slab_used s"
  using filter_update_count[of "key_index k" "slab_slots s" "\<lambda>sl. slot_entry sl \<noteq> None"
      "(slab_slots s ! key_index k)\<lparr>slot_entry := None\<rparr>"]
  by (auto simp: slab_remove_def slab_used_def panic_simps)

lemma slab_modify_used: "slab_modify k f s = Some s' \<Longrightarrow> slab_used s' = slab_used s"
  using filter_update_count[of "key_index k" "slab_slots s" "\<lambda>sl. slot_entry sl \<noteq> None"
      "(slab_slots s ! key_index k)\<lparr>slot_entry := Some (f (the (slot_entry (slab_slots s ! key_index k))))\<rparr>"]
  by (auto simp: slab_modify_def slab_used_def panic_simps)

lemma remove_subscription_used:
  assumes "remove_subscription k s = Some s'"
  shows "slab_used (sh_subs s') < slab_used (sh_subs s)" "slab_used (sh_tracks s') = slab_used (sh_tracks s)"
  using assms by (auto simp: remove_subscription_def panic_simps update_session_def update_track_def
      dest!: slab_remove_used slab_modify_used)

function remove_subscribers :: "key \<Rightarrow> ('io, 'snk) shard \<Rightarrow> ('io, 'snk) shard option" where
  "remove_subscribers tidx s = do {
     track \<leftarrow> slab_get (sh_tracks s) tidx;
     if pt_subscribers track = [] then Some s
     else do {
       s \<leftarrow> remove_subscription (last (pt_subscribers track)) s;
       remove_subscribers tidx s } }"
  by pat_completeness auto

termination
  by (relation "measure (\<lambda>(tidx, s). slab_used (sh_subs s))") (auto dest: remove_subscription_used(1))

declare remove_subscribers.simps [simp del]

definition remove_track :: "key \<Rightarrow> ('io, 'snk) shard \<Rightarrow> ('io, 'snk) shard option" where
  "remove_track tidx s = do {
     s \<leftarrow> remove_subscribers tidx s;
     (track, ts) \<leftarrow> slab_remove tidx (sh_tracks s);
     let s = s\<lparr>sh_tracks := ts\<rparr>;
     se \<leftarrow> slab_get (sh_sessions s) (pt_session track);
     let (bound, ps) = swap_remove_where (\<lambda>p. snd p = tidx) (se_published se);
     let (unbound, us) = swap_remove_where (\<lambda>t. t = tidx) (se_unbound se);
     rassert ((bound \<noteq> None) \<noteq> (unbound \<noteq> None));
     s \<leftarrow> update_session (pt_session track) (\<lambda>se. se\<lparr>se_published := ps, se_unbound := us,
        se_srtp_in := (case bound of None \<Rightarrow> se_srtp_in se
          | Some (ssrc, _) \<Rightarrow> map_option (inbound_unpin ssrc) (se_srtp_in se))\<rparr>) s;
     rassert (hm_get (sh_track_ids s) (pt_id track) = Some tidx);
     Some (s\<lparr>sh_track_ids := hm_remove (pt_id track) (sh_track_ids s)\<rparr>) }"

lemma remove_subscribers_used:
  "remove_subscribers tidx s = Some s' \<Longrightarrow> slab_used (sh_tracks s') = slab_used (sh_tracks s)"
proof (induction tidx s rule: remove_subscribers.induct)
  case (1 tidx s)
  then show ?case
    by (subst (asm) (2) remove_subscribers.simps)
      (auto simp: bind_eq_Some_conv split: if_splits dest: remove_subscription_used(2))
qed

lemma remove_track_used: "remove_track k s = Some s' \<Longrightarrow> slab_used (sh_tracks s') < slab_used (sh_tracks s)"
  by (auto simp: remove_track_def panic_simps update_session_def case_prod_beta
      dest!: remove_subscribers_used slab_remove_used)

definition remove_track_cmd :: "track_id \<Rightarrow> ('io, 'snk) shard \<Rightarrow> ('io, 'snk) outcome" where
  "remove_track_cmd track s = (case hm_get (sh_track_ids s) track of
     None \<Rightarrow> Some (Inl UnknownTrack, s)
   | Some t \<Rightarrow> do { s \<leftarrow> remove_track t s; Some (Inr (), s) })"

text \<open>The second half of \<^verbatim>\<open>subscribe\<close>, after its checks and the registration.\<close>

definition insert_subscription ::
  "('io, 'snk) env \<Rightarrow> key \<Rightarrow> subscription_id \<Rightarrow> key \<Rightarrow> sub_spec \<Rightarrow> instant \<Rightarrow> ('io, 'snk) shard \<Rightarrow> ('io, 'snk) outcome" where
  "insert_subscription E k sub t spec now s = do {
     track \<leftarrow> slab_get (sh_tracks s) t;
     (b, bs) \<leftarrow> slab_insert \<lparr>sb_id = sub, sb_session = k, sb_track = t,
        sb_rewrite = rewrite_state_new (ss_out_ssrc spec), sb_ext_map = ss_ext_map spec,
        sb_pub_mid = xi_mid (ts_ext (pt_spec track)), sb_clock_rate = cp_clock_rate (ts_codec (pt_spec track)),
        sb_pt_map = ss_pt_map spec, sb_mid = ss_mid spec, sb_sent_packets = 0, sb_sent_octets = 0\<rparr> (sh_subs s);
     let s = s\<lparr>sh_subs := bs\<rparr>;
     s \<leftarrow> update_session k (\<lambda>se. se\<lparr>se_subs := se_subs se @ [b]\<rparr>) s;
     s \<leftarrow> update_track t (\<lambda>t. t\<lparr>pt_subscribers := pt_subscribers t @ [b]\<rparr>) s;
     let s = s\<lparr>sh_sub_ids := hm_insert sub b (sh_sub_ids s)\<rparr>;
     se \<leftarrow> slab_get (sh_sessions s) k;
     s \<leftarrow> (if se_srtp_out se \<noteq> None then request_keyframe E t now s else Some s);
     Some (Inr (), s) }"

definition subscribe ::
  "('io, 'snk) env \<Rightarrow> session_id \<Rightarrow> subscription_id \<Rightarrow> track_id \<Rightarrow> sub_spec \<Rightarrow> instant \<Rightarrow>
   ('io, 'snk) shard \<Rightarrow> ('io, 'snk) outcome" where
  "subscribe E i sub track spec now s = (case hm_get (sh_session_ids s) i of
     None \<Rightarrow> Some (Inl UnknownSession, s)
   | Some k \<Rightarrow> (case hm_get (sh_track_ids s) track of
       None \<Rightarrow> Some (Inl UnknownTrack, s)
     | Some t \<Rightarrow>
         if hm_get (sh_sub_ids s) sub \<noteq> None then Some (Inl DuplicateId, s)
         else if tr_shard (ss_source spec) \<noteq> sc_shard (sh_config s) \<or> tr_track (ss_source spec) \<noteq> track
         then Some (Inl WrongShard, s)
         else if \<not> ext_map_is_valid (ss_ext_map spec) then Some (Inl InvalidSpec, s)
         else do {
           se \<leftarrow> slab_get (sh_sessions s) k;
           if length (se_subs se) \<ge> MAX_SUBS_PER_SESSION then Some (Inl SubscriptionLimit, s)
           else do {
             let offset = out_ssrc_offset se (ss_out_ssrc spec);
             if offset \<le> se_last_out_ssrc_offset se \<or> offset > MAX_OUT_SSRC_OFFSET
             then Some (Inl OutSsrcNotMonotonic, s)
             else (case se_srtp_out se of
               None \<Rightarrow> do {
                 s \<leftarrow> update_session k (\<lambda>se. se\<lparr>se_last_out_ssrc_offset := offset\<rparr>) s;
                 insert_subscription E k sub t spec now s }
             | Some outbound \<Rightarrow> do {
                 (r, outbound) \<leftarrow> outbound_register (ss_out_ssrc spec) outbound;
                 s \<leftarrow> update_session k (\<lambda>se. se\<lparr>se_srtp_out := Some outbound\<rparr>) s;
                 case r of
                   Inl _ \<Rightarrow> Some (Inl SrtpSetup, s)
                 | Inr _ \<Rightarrow> do {
                     s \<leftarrow> update_session k (\<lambda>se. se\<lparr>se_last_out_ssrc_offset := offset\<rparr>) s;
                     insert_subscription E k sub t spec now s } }) } }))"

definition unsubscribe :: "subscription_id \<Rightarrow> ('io, 'snk) shard \<Rightarrow> ('io, 'snk) outcome" where
  "unsubscribe sub s = (case hm_get (sh_sub_ids s) sub of
     None \<Rightarrow> Some (Inl UnknownSubscription, s)
   | Some b \<Rightarrow> do { s \<leftarrow> remove_subscription b s; Some (Inr (), s) })"

function remove_tracks_of :: "key \<Rightarrow> ('io, 'snk) shard \<Rightarrow> ('io, 'snk) shard option" where
  "remove_tracks_of k s = do {
     se \<leftarrow> slab_get (sh_sessions s) k;
     case map snd (se_published se) @ se_unbound se of
       [] \<Rightarrow> Some s
     | t # _ \<Rightarrow> do { s \<leftarrow> remove_track t s; remove_tracks_of k s } }"
  by pat_completeness auto

termination
  by (relation "measure (\<lambda>(k, s). slab_used (sh_tracks s))") (auto dest: remove_track_used)

declare remove_tracks_of.simps [simp del]

function remove_subs_of :: "key \<Rightarrow> ('io, 'snk) shard \<Rightarrow> ('io, 'snk) shard option" where
  "remove_subs_of k s = do {
     se \<leftarrow> slab_get (sh_sessions s) k;
     if se_subs se = [] then Some s
     else do { s \<leftarrow> remove_subscription (last (se_subs se)) s; remove_subs_of k s } }"
  by pat_completeness auto

termination
  by (relation "measure (\<lambda>(k, s). slab_used (sh_subs s))") (auto dest: remove_subscription_used(1))

declare remove_subs_of.simps [simp del]

definition unmap_addr :: "key \<Rightarrow> sock_addr option \<Rightarrow> ('io, 'snk) shard \<Rightarrow> ('io, 'snk) shard" where
  "unmap_addr k a s = (case a of
     None \<Rightarrow> s
   | Some addr \<Rightarrow> if hm_get (sh_by_addr s) addr = Some k then s\<lparr>sh_by_addr := hm_remove addr (sh_by_addr s)\<rparr> else s)"

definition close_session :: "session_id \<Rightarrow> ('io, 'snk) shard \<Rightarrow> ('io, 'snk) outcome" where
  "close_session i s = (case hm_get (sh_session_ids s) i of
     None \<Rightarrow> Some (Inl UnknownSession, s)
   | Some k \<Rightarrow> do {
       s \<leftarrow> remove_tracks_of k s;
       s \<leftarrow> remove_subs_of k s;
       let s = s\<lparr>sh_pending_switches := filter (\<lambda>j. j \<noteq> k) (sh_pending_switches s)\<rparr>;
       (se, t) \<leftarrow> slab_remove k (sh_sessions s);
       let s = s\<lparr>sh_sessions := t\<rparr>;
       let s = unmap_addr k (se_prev_addr se) (unmap_addr k (se_addr se) s);
       rassert (hm_get (sh_by_ufrag s) (ice_local_ufrag (se_ice se)) = Some k);
       let s = s\<lparr>sh_by_ufrag := hm_remove (ice_local_ufrag (se_ice se)) (sh_by_ufrag s)\<rparr>;
       Some (Inr (), s\<lparr>sh_session_ids := hm_remove i (sh_session_ids s)\<rparr>) })"

definition check_tables :: "('io, 'snk) shard \<Rightarrow> unit option" where
  "check_tables s = do {
     rassert (length (sh_session_ids s) = slab_len (sh_sessions s));
     rassert (length (sh_by_ufrag s) = slab_len (sh_sessions s));
     rassert (length (sh_track_ids s) = slab_len (sh_tracks s));
     rassert (length (sh_sub_ids s) = slab_len (sh_subs s));
     rassert (length (sh_by_addr s) \<le> 2 * slab_len (sh_sessions s)) }"

text \<open>The session a command names and its outcome.\<close>

fun command_session :: "command \<Rightarrow> session_id option" where
  "command_session (CreateSession i _ _) = Some i"
| "command_session (SendDatagram i _) = Some i"
| "command_session (InstallSrtp i _) = Some i"
| "command_session (AddTrack i _ _) = Some i"
| "command_session (RemoveTrack _) = None"
| "command_session (Subscribe i _ _ _) = Some i"
| "command_session (Unsubscribe _) = None"
| "command_session (CloseSession i) = Some i"

fun apply_command :: "('io, 'snk) env \<Rightarrow> command \<Rightarrow> instant \<Rightarrow> ('io, 'snk) shard \<Rightarrow> ('io, 'snk) outcome" where
  "apply_command E (CreateSession i ice base) now s = create_session i ice base now s"
| "apply_command E (SendDatagram i bytes) now s = send_datagram E i bytes s"
| "apply_command E (InstallSrtp i keys) now s = install_srtp E i keys now s"
| "apply_command E (AddTrack i track spec) now s = add_track i track spec s"
| "apply_command E (RemoveTrack track) now s = remove_track_cmd track s"
| "apply_command E (Subscribe i sub track spec) now s = subscribe E i sub track spec now s"
| "apply_command E (Unsubscribe sub) now s = unsubscribe sub s"
| "apply_command E (CloseSession i) now s = close_session i s"

definition handle_command :: "('io, 'snk) env \<Rightarrow> command \<Rightarrow> instant \<Rightarrow> ('io, 'snk) shard \<Rightarrow> ('io, 'snk) shard option" where
  "handle_command E c now s = do {
     (r, s) \<leftarrow> apply_command E c now (count1 Commands_count s);
     s \<leftarrow> (case r of
        Inr _ \<Rightarrow> Some s
      | Inl reason \<Rightarrow> do {
          (_, s) \<leftarrow> emit E (CommandRejected (command_session c) reason) (count1 Commands_rejected s);
          Some s });
     check_tables s;
     Some s }"

fun drain_loop :: "nat \<Rightarrow> ('io, 'snk) env \<Rightarrow> instant \<Rightarrow> nat \<Rightarrow> ('io, 'snk) shard \<Rightarrow> (nat \<times> ('io, 'snk) shard) option" where
  "drain_loop 0 E now handled s = Some (handled, s)"
| "drain_loop (Suc n) E now handled s = (case sh_commands s of
     [] \<Rightarrow> Some (handled, s)
   | c # cs \<Rightarrow> do {
       s \<leftarrow> handle_command E c now (s\<lparr>sh_commands := cs\<rparr>);
       drain_loop n E now (handled + 1) s })"

definition drain_commands :: "('io, 'snk) env \<Rightarrow> instant \<Rightarrow> ('io, 'snk) shard \<Rightarrow> (nat \<times> ('io, 'snk) shard) option" where
  "drain_commands E now s = drain_loop COMMAND_BUDGET E now 0 s"

end
