(* ===== verification/Rtp_Header.thy ===== *)
theory Rtp_Header
  imports Nexus_Prelude
begin

text \<open>
  The RTP header of the media crate, \<^verbatim>\<open>nexus-media/src/rtp/header.rs\<close>:
  the byte-by-byte parser, the SSE4.1 parser (a 16-byte vector load, lane
  extracts and byte swaps, unchecked reads) and the NEON parser, the
  serializer, the CSRC list and the extension lookup.  An unchecked read out
  of range is undefined behaviour in the source and \<^term>\<open>None\<close> here, so the
  equivalence with the checked parser also shows that it never happens.
\<close>

section \<open>Parsing\<close>

datatype rtp_error =
    TooShort nat nat
  | InvalidVersion u8
  | InvalidCsrcCount u8 nat
  | InvalidExtension
  | InvalidPadding u8 nat

record rtp_header =
  rh_version :: u8
  rh_padding :: bool
  rh_extension :: bool
  rh_csrc_count :: u8
  rh_marker :: bool
  rh_payload_type :: u8
  rh_sequence_number :: u16
  rh_timestamp :: u32
  rh_ssrc :: u32
  rh_header_len :: u16
  rh_padding_len :: u8

definition RTP_HEADER_MIN_SIZE_BYTES :: nat where "RTP_HEADER_MIN_SIZE_BYTES = 12"
definition MAX_HEADER_LEN_BYTES :: nat where "MAX_HEADER_LEN_BYTES = 65535"

definition rtp_ext_end :: "bytes \<Rightarrow> bool \<Rightarrow> nat \<Rightarrow> (rtp_error + nat) option" where
  "rtp_ext_end d ext start =
     (if \<not> ext then Some (Inr start)
      else if length d < start + 4 then Some (Inl InvalidExtension)
      else do {
        w \<leftarrow> u16_at d (start + 2);
        let hl = start + (4 + unat w * 4);
        if hl > MAX_HEADER_LEN_BYTES then Some (Inl InvalidExtension)
        else if length d < hl then Some (Inl InvalidExtension)
        else Some (Inr hl) })"

definition rtp_padding_len :: "bytes \<Rightarrow> bool \<Rightarrow> nat \<Rightarrow> (rtp_error + u8) option" where
  "rtp_padding_len d padding hl =
     (if \<not> padding then Some (Inr 0)
      else if length d \<le> hl then Some (Inl (InvalidPadding 0 (length d - hl)))
      else do {
        pad \<leftarrow> idx d (length d - 1);
        if pad = 0 \<or> unat pad > length d - hl then Some (Inl (InvalidPadding pad (length d - hl)))
        else Some (Inr pad) })"

definition rtp_parse :: "bytes \<Rightarrow> (rtp_error + rtp_header) option" where
  "rtp_parse d =
     (if length d < RTP_HEADER_MIN_SIZE_BYTES then Some (Inl (TooShort (length d) RTP_HEADER_MIN_SIZE_BYTES))
      else do {
        first \<leftarrow> idx d 0;
        let version = drop_bit 6 first AND 3;
        let padding = (drop_bit 5 first AND 1 \<noteq> 0);
        let ext = (drop_bit 4 first AND 1 \<noteq> 0);
        let cc = first AND 0x0F;
        if version \<noteq> 2 then Some (Inl (InvalidVersion version))
        else do {
          second \<leftarrow> idx d 1;
          sq \<leftarrow> u16_at d 2;
          ts \<leftarrow> u32_at d 4;
          ssrc \<leftarrow> u32_at d 8;
          let start = RTP_HEADER_MIN_SIZE_BYTES + unat cc * 4;
          if length d < start then Some (Inl (InvalidCsrcCount cc (length d - RTP_HEADER_MIN_SIZE_BYTES)))
          else do {
            e \<leftarrow> rtp_ext_end d ext start;
            case e of Inl err \<Rightarrow> Some (Inl err)
            | Inr hl \<Rightarrow> do {
                p \<leftarrow> rtp_padding_len d padding hl;
                case p of Inl err \<Rightarrow> Some (Inl err)
                | Inr pl \<Rightarrow> Some (Inr \<lparr>rh_version = version, rh_padding = padding, rh_extension = ext,
                    rh_csrc_count = cc, rh_marker = (drop_bit 7 second AND 1 \<noteq> 0),
                    rh_payload_type = second AND 0x7F, rh_sequence_number = sq, rh_timestamp = ts,
                    rh_ssrc = ssrc, rh_header_len = of_nat hl, rh_padding_len = pl\<rparr>) } } } })"

section \<open>SIMD parsing\<close>

text \<open>A 128-bit register, byte 0 first; the 16- and 32-bit lanes are little-endian.\<close>

definition vec_load :: "bytes \<Rightarrow> bytes" where
  "vec_load d = (if length d \<ge> 16 then take 16 d else d @ replicate (16 - length d) 0)"

definition lane8 :: "bytes \<Rightarrow> nat \<Rightarrow> u8" where
  "lane8 v i = v ! i"

definition lane16 :: "bytes \<Rightarrow> nat \<Rightarrow> u16" where
  "lane16 v i = word_cat (v ! (2 * i + 1)) (v ! (2 * i))"

definition lane32 :: "bytes \<Rightarrow> nat \<Rightarrow> u32" where
  "lane32 v i = word_cat (lane16 v (2 * i + 1)) (lane16 v (2 * i))"

definition swap_bytes16 :: "u16 \<Rightarrow> u16" where
  "swap_bytes16 w = word_cat (ucast w :: u8) (ucast (drop_bit 8 w) :: u8)"

definition swap_bytes32 :: "u32 \<Rightarrow> u32" where
  "swap_bytes32 w = word_cat (swap_bytes16 (ucast w)) (swap_bytes16 (ucast (drop_bit 16 w)))"

definition simd_ext_end :: "bytes \<Rightarrow> bool \<Rightarrow> nat \<Rightarrow> nat option option" where
  "simd_ext_end d ext start =
     (if \<not> ext then Some (Some start)
      else if length d < start + 4 then Some None
      else do {
        w \<leftarrow> u16_at d (start + 2);
        let hl = start + (4 + unat w * 4);
        Some (if hl > MAX_HEADER_LEN_BYTES then None else if length d < hl then None else Some hl) })"

definition simd_padding_len :: "bytes \<Rightarrow> bool \<Rightarrow> nat \<Rightarrow> u8 option option" where
  "simd_padding_len d padding hl =
     (if \<not> padding then Some (Some 0)
      else if length d \<le> hl then Some None
      else do {
        pad \<leftarrow> idx d (length d - 1);
        Some (if pad = 0 \<or> unat pad > length d - hl then None else Some pad) })"

definition simd_finish ::
  "bytes \<Rightarrow> u8 \<Rightarrow> u8 \<Rightarrow> u16 \<Rightarrow> u32 \<Rightarrow> u32 \<Rightarrow> rtp_header option option" where
  "simd_finish d first second sq ts ssrc = (
     let padding = (drop_bit 5 first AND 1 \<noteq> 0);
         ext = (drop_bit 4 first AND 1 \<noteq> 0);
         cc = first AND 0x0F;
         start = RTP_HEADER_MIN_SIZE_BYTES + unat cc * 4 in
     if length d < start then Some None
     else do {
       e \<leftarrow> simd_ext_end d ext start;
       case e of None \<Rightarrow> Some None
       | Some hl \<Rightarrow> do {
           p \<leftarrow> simd_padding_len d padding hl;
           case p of None \<Rightarrow> Some None
           | Some pl \<Rightarrow> Some (Some \<lparr>rh_version = drop_bit 6 first AND 3, rh_padding = padding, rh_extension = ext,
               rh_csrc_count = cc, rh_marker = (drop_bit 7 second AND 1 \<noteq> 0),
               rh_payload_type = second AND 0x7F, rh_sequence_number = sq, rh_timestamp = ts,
               rh_ssrc = ssrc, rh_header_len = of_nat hl, rh_padding_len = pl\<rparr>) } })"

definition parse_simd_x86 :: "bytes \<Rightarrow> rtp_header option option" where
  "parse_simd_x86 d = (
     let v = vec_load d; first = lane8 v 0 in
     if drop_bit 6 first AND 3 \<noteq> 2 then Some None
     else simd_finish d first (lane8 v 1) (swap_bytes16 (lane16 v 1)) (swap_bytes32 (lane32 v 1))
       (swap_bytes32 (lane32 v 2)))"

definition parse_simd_neon :: "bytes \<Rightarrow> rtp_header option option" where
  "parse_simd_neon d = (
     let v = vec_load d; first = lane8 v 0 in
     if drop_bit 6 first AND 3 \<noteq> 2 then Some None
     else simd_finish d first (lane8 v 1) (be16 (lane8 v 2) (lane8 v 3))
       (be32 (lane8 v 4) (lane8 v 5) (lane8 v 6) (lane8 v 7))
       (be32 (lane8 v 8) (lane8 v 9) (lane8 v 10) (lane8 v 11)))"

datatype simd_arch = X86_SSE41 | Aarch64 | Other_Arch

definition parse_simd :: "simd_arch \<Rightarrow> bytes \<Rightarrow> rtp_header option option" where
  "parse_simd arch d =
     (if length d < RTP_HEADER_MIN_SIZE_BYTES then Some None
      else case arch of
        X86_SSE41 \<Rightarrow> parse_simd_x86 d
      | Aarch64 \<Rightarrow> parse_simd_neon d
      | Other_Arch \<Rightarrow> map_option (case_sum (\<lambda>_. None) Some) (rtp_parse d))"

section \<open>Serializing and accessors\<close>

definition bool_bit :: "bool \<Rightarrow> u8" where
  "bool_bit b = (if b then 1 else 0)"

definition rtp_serialize :: "rtp_header \<Rightarrow> bytes \<Rightarrow> (nat \<times> bytes) option" where
  "rtp_serialize h buf = do {
     rassert (length buf \<ge> RTP_HEADER_MIN_SIZE_BYTES);
     buf' \<leftarrow> copy_into buf 0
       ([(push_bit 6 (rh_version h) OR push_bit 5 (bool_bit (rh_padding h))) OR
           push_bit 4 (bool_bit (rh_extension h)) OR (rh_csrc_count h AND 0x0F),
         push_bit 7 (bool_bit (rh_marker h)) OR (rh_payload_type h AND 0x7F)] @
        to_be16 (rh_sequence_number h) @ to_be32 (rh_timestamp h) @ to_be32 (rh_ssrc h));
     Some (RTP_HEADER_MIN_SIZE_BYTES, buf') }"

definition rtp_payload_len :: "rtp_header \<Rightarrow> nat \<Rightarrow> nat" where
  "rtp_payload_len h n = n - unat (rh_header_len h) - unat (rh_padding_len h)"

definition rtp_csrc_list :: "rtp_header \<Rightarrow> bytes \<Rightarrow> u32 list option" where
  "rtp_csrc_list h d = those (map (\<lambda>i. u32_at d (RTP_HEADER_MIN_SIZE_BYTES + i * 4)) [0..<unat (rh_csrc_count h)])"

text \<open>The two walks of \<^verbatim>\<open>get_extension_value\<close>, from \<open>pos\<close> to \<open>lim\<close>.\<close>

function one_byte_walk :: "bytes \<Rightarrow> u8 \<Rightarrow> nat \<Rightarrow> nat \<Rightarrow> bytes option option" where
  "one_byte_walk d ext_id lim pos =
     (if pos < lim then do {
        byte \<leftarrow> idx d pos;
        if byte = 0 then one_byte_walk d ext_id lim (pos + 1)
        else do {
          let i = drop_bit 4 byte AND 0x0F;
          let len = unat (byte AND 0x0F) + 1;
          if i = 0x0F then Some None
          else if pos + 1 + len > lim then Some None
          else if i = ext_id then map_option Some (sub_slice d (pos + 1) (pos + 1 + len))
          else one_byte_walk d ext_id lim (pos + 1 + len) } }
      else Some None)"
  by pat_completeness auto
termination by (relation "measure (\<lambda>(d, e, lim, pos). lim - pos)") auto

function two_byte_walk :: "bytes \<Rightarrow> u8 \<Rightarrow> nat \<Rightarrow> nat \<Rightarrow> bytes option option" where
  "two_byte_walk d ext_id lim pos =
     (if pos + 1 < lim then do {
        i \<leftarrow> idx d pos;
        if i = 0 then two_byte_walk d ext_id lim (pos + 1)
        else do {
          l \<leftarrow> idx d (pos + 1);
          let len = unat l;
          if pos + 2 + len > lim then Some None
          else if i = ext_id then map_option Some (sub_slice d (pos + 2) (pos + 2 + len))
          else two_byte_walk d ext_id lim (pos + 2 + len) } }
      else Some None)"
  by pat_completeness auto
termination by (relation "measure (\<lambda>(d, e, lim, pos). lim - pos)") auto

declare one_byte_walk.simps [simp del] two_byte_walk.simps [simp del]

definition get_extension_value :: "rtp_header \<Rightarrow> bytes \<Rightarrow> u8 \<Rightarrow> bytes option option" where
  "get_extension_value h d ext_id =
     (if \<not> rh_extension h then Some None
      else let start = RTP_HEADER_MIN_SIZE_BYTES + unat (rh_csrc_count h) * 4 in
        if length d < start + 4 then Some None
        else do {
          profile \<leftarrow> u16_at d start;
          w \<leftarrow> u16_at d (start + 2);
          let lim = start + 4 + unat w * 4;
          if lim > length d then Some None
          else if profile = 0xBEDE then one_byte_walk d ext_id lim (start + 4)
          else if profile AND 0xFFF0 = 0x1000 then two_byte_walk d ext_id lim (start + 4)
          else Some None })"


section \<open>Batches\<close>

text \<open>The batch parsers of \<^verbatim>\<open>nexus-media/src/rtp/packet.rs\<close>; prefetches have no effect on results.\<close>

fun batch_from :: "(bytes \<Rightarrow> rtp_header option option) \<Rightarrow> nat \<Rightarrow> bytes list \<Rightarrow> rtp_header option list \<Rightarrow>
    (nat \<times> rtp_header option list) option" where
  "batch_from parse written [] out = Some (written, out)"
| "batch_from parse written (p # ps) out = do {
     r \<leftarrow> parse p;
     rassert (written < length out);
     batch_from parse (written + 1) ps (out[written := r]) }"

function chunks :: "nat \<Rightarrow> 'a list \<Rightarrow> 'a list list" where
  "chunks k xs = (if k = 0 \<or> xs = [] then [] else take k xs # chunks k (drop k xs))"
  by pat_completeness auto
termination by (relation "measure (\<lambda>(k, xs). length xs)") auto

declare chunks.simps [simp del]

fun batch_chunks :: "(bytes \<Rightarrow> rtp_header option option) \<Rightarrow> nat \<Rightarrow> bytes list list \<Rightarrow> rtp_header option list \<Rightarrow>
    (nat \<times> rtp_header option list) option" where
  "batch_chunks parse written [] out = Some (written, out)"
| "batch_chunks parse written (c # cs) out = do {
     (written', out') \<leftarrow> batch_from parse written c out;
     batch_chunks parse written' cs out' }"

definition parse_batch_scalar :: "bytes list \<Rightarrow> rtp_header option list \<Rightarrow> (nat \<times> rtp_header option list) option" where
  "parse_batch_scalar packets out = (
     let n = min (length packets) (length out) in
     batch_from (\<lambda>d. map_option (case_sum (\<lambda>_. None) Some) (rtp_parse d)) 0 (take n packets) out)"

definition parse_batch_avx2_impl :: "simd_arch \<Rightarrow> bytes list \<Rightarrow> rtp_header option list \<Rightarrow> (nat \<times> rtp_header option list) option" where
  "parse_batch_avx2_impl arch packets out = (
     let n = min (length packets) (length out) in
     batch_chunks (parse_simd arch) 0 (chunks 8 (take n packets)) out)"

definition parse_batch_avx512_impl :: "simd_arch \<Rightarrow> bytes list \<Rightarrow> rtp_header option list \<Rightarrow> (nat \<times> rtp_header option list) option" where
  "parse_batch_avx512_impl arch packets out = (
     let n = min (length packets) (length out) in
     batch_chunks (parse_simd arch) 0 (chunks 16 (take n packets)) out)"

datatype batch_cpu = Avx512f | Avx2 | No_Avx

definition parse_batch_optimal :: "batch_cpu \<Rightarrow> simd_arch \<Rightarrow> bytes list \<Rightarrow> rtp_header option list \<Rightarrow> (nat \<times> rtp_header option list) option" where
  "parse_batch_optimal cpu arch packets out = (case cpu of
     Avx512f \<Rightarrow> parse_batch_avx512_impl arch packets out
   | Avx2 \<Rightarrow> parse_batch_avx2_impl arch packets out
   | No_Avx \<Rightarrow> parse_batch_scalar packets out)"

section \<open>The parser is total and its lengths are in bounds\<close>

lemma rtp_ext_end_iff:
  "rtp_ext_end d ext start = Some (Inr hl) \<longleftrightarrow>
     (if ext then start + 4 \<le> length d \<and> hl = start + 4 + unat (be16 (d ! (start + 2)) (d ! (start + 3))) * 4 \<and>
        hl \<le> MAX_HEADER_LEN_BYTES \<and> hl \<le> length d
      else hl = start)"
  by (auto simp: rtp_ext_end_def Let_def eval_nat_numeral)

lemma rtp_ext_end_total: "\<exists>r. rtp_ext_end d ext start = Some r"
  by (simp add: rtp_ext_end_def Let_def)

lemma rtp_padding_len_iff:
  "rtp_padding_len d padding hl = Some (Inr pl) \<longleftrightarrow>
     (if padding then hl < length d \<and> pl = last d \<and> pl \<noteq> 0 \<and> unat pl \<le> length d - hl else pl = 0)"
proof (cases "padding \<and> hl < length d")
  case True
  then have "d \<noteq> []" "length d - 1 < length d" by auto
  then show ?thesis using True by (auto simp: rtp_padding_len_def last_conv_nth)
qed (auto simp: rtp_padding_len_def)

lemma rtp_padding_len_total: "\<exists>r. rtp_padding_len d padding hl = Some r"
proof (cases "padding \<and> hl < length d")
  case True
  then have "length d - 1 < length d" by auto
  then show ?thesis using True by (simp add: rtp_padding_len_def)
qed (auto simp: rtp_padding_len_def)

definition rtp_fields :: "bytes \<Rightarrow> nat \<Rightarrow> u8 \<Rightarrow> rtp_header" where
  "rtp_fields d hl pl = \<lparr>rh_version = drop_bit 6 (d ! 0) AND 3,
     rh_padding = (drop_bit 5 (d ! 0) AND 1 \<noteq> 0), rh_extension = (drop_bit 4 (d ! 0) AND 1 \<noteq> 0),
     rh_csrc_count = d ! 0 AND 0x0F, rh_marker = (drop_bit 7 (d ! 1) AND 1 \<noteq> 0),
     rh_payload_type = d ! 1 AND 0x7F, rh_sequence_number = be16 (d ! 2) (d ! 3),
     rh_timestamp = be32 (d ! 4) (d ! 5) (d ! 6) (d ! 7),
     rh_ssrc = be32 (d ! 8) (d ! 9) (d ! 10) (d ! 11),
     rh_header_len = of_nat hl, rh_padding_len = pl\<rparr>"

definition csrc_end :: "bytes \<Rightarrow> nat" where
  "csrc_end d = 12 + 4 * unat (d ! 0 AND 0x0F)"

lemma rtp_parse_unfold:
  assumes "12 \<le> length d"
  shows "rtp_parse d =
    (if drop_bit 6 (d ! 0) AND 3 \<noteq> 2 then Some (Inl (InvalidVersion (drop_bit 6 (d ! 0) AND 3)))
     else if length d < csrc_end d then Some (Inl (InvalidCsrcCount (d ! 0 AND 0x0F) (length d - 12)))
     else do {
       e \<leftarrow> rtp_ext_end d (drop_bit 4 (d ! 0) AND 1 \<noteq> 0) (csrc_end d);
       case e of Inl err \<Rightarrow> Some (Inl err)
       | Inr hl \<Rightarrow> do {
           p \<leftarrow> rtp_padding_len d (drop_bit 5 (d ! 0) AND 1 \<noteq> 0) hl;
           case p of Inl err \<Rightarrow> Some (Inl err) | Inr pl \<Rightarrow> Some (Inr (rtp_fields d hl pl)) } })"
proof -
  have "d \<noteq> []" using assms by auto
  then show ?thesis
    using assms by (simp add: rtp_parse_def RTP_HEADER_MIN_SIZE_BYTES_def csrc_end_def rtp_fields_def Let_def
      mult.commute eval_nat_numeral cong: if_cong)
qed

lemma rtp_parse_total: "\<exists>r. rtp_parse d = Some r"
proof (cases "12 \<le> length d")
  case True
  obtain e where e: "rtp_ext_end d (drop_bit 4 (d ! 0) AND 1 \<noteq> 0) (csrc_end d) = Some e"
    using rtp_ext_end_total by blast
  show ?thesis
  proof (cases e)
    case (Inl x)
    then show ?thesis by (simp add: rtp_parse_unfold[OF True] e)
  next
    case (Inr hl)
    obtain p where p: "rtp_padding_len d (drop_bit 5 (d ! 0) AND 1 \<noteq> 0) hl = Some p"
      using rtp_padding_len_total by blast
    show ?thesis by (cases p) (simp_all add: rtp_parse_unfold[OF True] e p Inr)
  qed
qed (simp add: rtp_parse_def RTP_HEADER_MIN_SIZE_BYTES_def)

lemma rtp_parse_Inr_iff:
  "rtp_parse d = Some (Inr h) \<longleftrightarrow>
     12 \<le> length d \<and> drop_bit 6 (d ! 0) AND 3 = 2 \<and> csrc_end d \<le> length d \<and>
     (\<exists>hl pl. rtp_ext_end d (drop_bit 4 (d ! 0) AND 1 \<noteq> 0) (csrc_end d) = Some (Inr hl) \<and>
        rtp_padding_len d (drop_bit 5 (d ! 0) AND 1 \<noteq> 0) hl = Some (Inr pl) \<and> h = rtp_fields d hl pl)"
proof (cases "12 \<le> length d")
  case True
  obtain e where e: "rtp_ext_end d (drop_bit 4 (d ! 0) AND 1 \<noteq> 0) (csrc_end d) = Some e"
    using rtp_ext_end_total by blast
  show ?thesis
  proof (cases e)
    case (Inl x)
    then show ?thesis using e by (simp add: rtp_parse_unfold[OF True])
  next
    case (Inr hl)
    obtain p where p: "rtp_padding_len d (drop_bit 5 (d ! 0) AND 1 \<noteq> 0) hl = Some p"
      using rtp_padding_len_total by blast
    show ?thesis
      using True e p Inr by (cases p) (auto simp: rtp_parse_unfold[OF True])
  qed
qed (simp add: rtp_parse_def RTP_HEADER_MIN_SIZE_BYTES_def)

lemma csrc_end_max: "csrc_end d \<le> 72"
proof -
  have "unat (d ! 0 AND 0x0F) \<le> unat (0x0F :: u8)"
    by (rule word_le_nat_alt[THEN iffD1]) (rule word_and_le1)
  then show ?thesis by (simp add: csrc_end_def)
qed

text \<open>What a parsed header guarantees of the packet it came from.\<close>

lemma rtp_parse_bounds:
  assumes "rtp_parse d = Some (Inr h)"
  shows "rh_version h = 2"
    and "12 + 4 * unat (rh_csrc_count h) \<le> unat (rh_header_len h)"
    and "unat (rh_header_len h) + rtp_payload_len h (length d) + unat (rh_padding_len h) = length d"
    and "rh_extension h \<Longrightarrow> 12 + 4 * unat (rh_csrc_count h) + 4 \<le> unat (rh_header_len h)"
    and "rh_padding h \<longleftrightarrow> rh_padding_len h \<noteq> 0"
proof -
  obtain hl pl where p: "12 \<le> length d" "drop_bit 6 (d ! 0) AND 3 = 2" "csrc_end d \<le> length d"
      "rtp_ext_end d (drop_bit 4 (d ! 0) AND 1 \<noteq> 0) (csrc_end d) = Some (Inr hl)"
      "rtp_padding_len d (drop_bit 5 (d ! 0) AND 1 \<noteq> 0) hl = Some (Inr pl)" "h = rtp_fields d hl pl"
    using assms rtp_parse_Inr_iff by blast
  have hl: "csrc_end d \<le> hl" "hl \<le> length d" "hl \<le> 65535"
    using p(3,4) csrc_end_max[of d]
    by (auto simp: rtp_ext_end_iff MAX_HEADER_LEN_BYTES_def split: if_splits)
  have ext: "drop_bit 4 (d ! 0) AND 1 \<noteq> 0 \<Longrightarrow> csrc_end d + 4 \<le> hl"
    using p(4) by (simp add: rtp_ext_end_iff split: if_splits)
  have pl: "unat pl \<le> length d - hl" "(drop_bit 5 (d ! 0) AND 1 \<noteq> 0) = (pl \<noteq> 0)"
    using p(5) by (auto simp: rtp_padding_len_iff split: if_splits)
  have u: "unat (of_nat hl :: u16) = hl" using hl(3) by (simp add: unat_of_nat)
  show "rh_version h = 2" using p by (simp add: rtp_fields_def)
  show "12 + 4 * unat (rh_csrc_count h) \<le> unat (rh_header_len h)"
    using p(6) hl u by (simp add: rtp_fields_def csrc_end_def)
  show "unat (rh_header_len h) + rtp_payload_len h (length d) + unat (rh_padding_len h) = length d"
    using p(6) hl u pl by (simp add: rtp_fields_def rtp_payload_len_def)
  show "12 + 4 * unat (rh_csrc_count h) + 4 \<le> unat (rh_header_len h)" if "rh_extension h"
    using that p(6) ext u by (simp add: rtp_fields_def csrc_end_def)
  show "rh_padding h \<longleftrightarrow> rh_padding_len h \<noteq> 0"
    using p(6) pl(2) by (simp add: rtp_fields_def)
qed

section \<open>The SIMD parsers compute the same function\<close>

lemma simd_ext_end_eq:
  "simd_ext_end d ext start = map_option (case_sum (\<lambda>_. None) Some) (rtp_ext_end d ext start)"
  by (cases "start + 4 \<le> length d")
    (simp_all add: simd_ext_end_def rtp_ext_end_def Let_def eval_nat_numeral)

lemma simd_padding_len_eq:
  "simd_padding_len d padding hl = map_option (case_sum (\<lambda>_. None) Some) (rtp_padding_len d padding hl)"
proof (cases "hl < length d")
  case True
  then have "length d - 1 < length d" by auto
  then show ?thesis by (simp add: simd_padding_len_def rtp_padding_len_def)
qed (simp add: simd_padding_len_def rtp_padding_len_def)

lemma swap_lane16 [simp]: "swap_bytes16 (lane16 v i) = be16 (v ! (2 * i)) (v ! (2 * i + 1))"
  unfolding swap_bytes16_def lane16_def be16_def
  by (rule bit_word_eqI) (auto simp: bit_simps)

lemma swap_lane32 [simp]:
  "swap_bytes32 (lane32 v i) = be32 (v ! (4 * i)) (v ! (4 * i + 1)) (v ! (4 * i + 2)) (v ! (4 * i + 3))"
proof -
  have h: "ucast (drop_bit 16 (lane32 v i)) = lane16 v (2 * i + 1)"
    unfolding lane32_def by (rule bit_word_eqI) (auto simp: bit_simps)
  have l: "ucast (lane32 v i) = lane16 v (2 * i)"
    unfolding lane32_def by (rule bit_word_eqI) (auto simp: bit_simps)
  show ?thesis
    unfolding swap_bytes32_def h l be32_def by (simp add: algebra_simps eval_nat_numeral)
qed

lemma vec_load_nth [simp]: "12 \<le> length d \<Longrightarrow> i < 12 \<Longrightarrow> vec_load d ! i = d ! i"
  by (simp add: vec_load_def nth_append)

lemma simd_finish_eq:
  assumes "12 \<le> length d" "drop_bit 6 (d ! 0) AND 3 = 2"
  shows "simd_finish d (d ! 0) (d ! 1) (be16 (d ! 2) (d ! 3)) (be32 (d ! 4) (d ! 5) (d ! 6) (d ! 7))
      (be32 (d ! 8) (d ! 9) (d ! 10) (d ! 11)) = map_option (case_sum (\<lambda>_. None) Some) (rtp_parse d)"
proof -
  obtain e where e: "rtp_ext_end d (drop_bit 4 (d ! 0) AND 1 \<noteq> 0) (csrc_end d) = Some e"
    using rtp_ext_end_total by blast
  have start: "RTP_HEADER_MIN_SIZE_BYTES + unat (d ! 0 AND 0x0F) * 4 = csrc_end d"
    by (simp add: csrc_end_def RTP_HEADER_MIN_SIZE_BYTES_def)
  show ?thesis
  proof (cases e)
    case (Inl x)
    then show ?thesis
      by (simp add: simd_finish_def rtp_parse_unfold[OF assms(1)] assms(2) start simd_ext_end_eq e Let_def)
  next
    case (Inr hl)
    obtain p where p: "rtp_padding_len d (drop_bit 5 (d ! 0) AND 1 \<noteq> 0) hl = Some p"
      using rtp_padding_len_total by blast
    show ?thesis
      by (cases p) (simp_all add: simd_finish_def rtp_parse_unfold[OF assms(1)] assms(2) start
        simd_ext_end_eq simd_padding_len_eq e p Inr rtp_fields_def Let_def)
  qed
qed

lemma parse_simd_eq: "parse_simd arch d = map_option (case_sum (\<lambda>_. None) Some) (rtp_parse d)"
proof (cases "12 \<le> length d")
  case True
  show ?thesis
  proof (cases "drop_bit 6 (d ! 0) AND 3 = 2")
    case v: True
    show ?thesis
      using True v simd_finish_eq[OF True v]
      by (cases arch) (simp_all add: parse_simd_def parse_simd_x86_def parse_simd_neon_def lane8_def
        RTP_HEADER_MIN_SIZE_BYTES_def Let_def)
  next
    case False
    then show ?thesis
      using True by (cases arch) (simp_all add: parse_simd_def parse_simd_x86_def parse_simd_neon_def lane8_def
        RTP_HEADER_MIN_SIZE_BYTES_def rtp_parse_unfold Let_def)
  qed
qed (simp add: parse_simd_def rtp_parse_def RTP_HEADER_MIN_SIZE_BYTES_def)

section \<open>Accessors\<close>

lemma those_Some_map: "(\<And>x. x \<in> set xs \<Longrightarrow> f x = Some (g x)) \<Longrightarrow> those (map f xs) = Some (map g xs)"
  by (induction xs) auto

lemma rtp_csrc_list_parsed:
  assumes "rtp_parse d = Some (Inr h)"
  shows "\<exists>cs. rtp_csrc_list h d = Some cs \<and> length cs = unat (rh_csrc_count h) \<and>
    concat (map to_be32 cs) = take (4 * length cs) (drop 12 d)"
proof -
  define n where "n = unat (rh_csrc_count h)"
  have len: "12 + 4 * n \<le> length d"
    using rtp_parse_bounds(2,3)[OF assms] by (simp add: n_def)
  define g where "g = (\<lambda>i. be32 (d ! (12 + i * 4)) (d ! (12 + i * 4 + 1)) (d ! (12 + i * 4 + 2)) (d ! (12 + i * 4 + 3)))"
  have "rtp_csrc_list h d = Some (map g [0..<n])"
    unfolding rtp_csrc_list_def n_def[symmetric] RTP_HEADER_MIN_SIZE_BYTES_def
    by (rule those_Some_map) (use len in \<open>simp add: g_def\<close>)
  moreover have "m \<le> n \<Longrightarrow> concat (map to_be32 (map g [0..<m])) = take (4 * m) (drop 12 d)" for m
  proof (induction m)
    case (Suc m)
    have "to_be32 (g m) = take 4 (drop (12 + 4 * m) d)"
      using Suc.prems len
      by (simp add: g_def list_eq_iff_nth_eq less_Suc_eq numeral_eq_Suc mult.commute add.commute)
    moreover have "take (4 * Suc m) (drop 12 d) = take (4 * m) (drop 12 d) @ take 4 (drop (12 + 4 * m) d)"
      using take_add[of "4 * m" 4 "drop 12 d"] by (simp add: add.commute)
    ultimately show ?case using Suc by (simp del: mult_Suc_right)
  qed simp
  ultimately show ?thesis by (simp add: n_def)
qed

lemma one_byte_walk_total:
  "lim \<le> length d \<Longrightarrow> \<exists>r. one_byte_walk d e lim pos = Some r"
proof (induction d e lim pos rule: one_byte_walk.induct)
  case (1 d e lim pos)
  show ?case
  proof (cases "pos < lim")
    case True
    then have "pos < length d" using "1.prems" by simp
    then show ?thesis
      using True "1.IH" "1.prems" by (subst one_byte_walk.simps) (simp add: Let_def)
  qed (simp add: one_byte_walk.simps)
qed

lemma two_byte_walk_total:
  "lim \<le> length d \<Longrightarrow> \<exists>r. two_byte_walk d e lim pos = Some r"
proof (induction d e lim pos rule: two_byte_walk.induct)
  case (1 d e lim pos)
  show ?case
  proof (cases "pos + 1 < lim")
    case True
    then have "pos + 1 < length d" using "1.prems" by simp
    then show ?thesis
      using True "1.IH" "1.prems" by (subst two_byte_walk.simps) (simp add: Let_def)
  qed (simp add: two_byte_walk.simps)
qed

lemma get_extension_value_total: "\<exists>r. get_extension_value h d e = Some r"
  unfolding get_extension_value_def Let_def
  by (simp add: one_byte_walk_total two_byte_walk_total)

section \<open>Round trips\<close>

lemma drop_bit_byte_split:
  fixes b :: u8
  shows "(push_bit 6 (drop_bit 6 b AND 3) OR push_bit 5 (bool_bit (drop_bit 5 b AND 1 \<noteq> 0))) OR
     push_bit 4 (bool_bit (drop_bit 4 b AND 1 \<noteq> 0)) OR ((b AND 0x0F) AND 0x0F) = b"
    and "push_bit 7 (bool_bit (drop_bit 7 b AND 1 \<noteq> 0)) OR ((b AND 0x7F) AND 0x7F) = b"
proof -
  have *: "bool_bit (drop_bit n b AND 1 \<noteq> 0) = drop_bit n b AND 1" for n
    by (auto simp: bool_bit_def and_one_eq odd_iff_mod_2_eq_one)
  have m: "(3 :: u8) = mask 2" "(1 :: u8) = mask 1" "(0x0F :: u8) = mask 4" "(0x7F :: u8) = mask 7"
    by (simp_all add: mask_eq_exp_minus_1)
  have lt8: "n < 8 \<Longrightarrow> n = 0 \<or> n = 1 \<or> n = 2 \<or> n = 3 \<or> n = 4 \<or> n = 5 \<or> n = 6 \<or> n = 7" for n :: nat
    by auto
  show "(push_bit 6 (drop_bit 6 b AND 3) OR push_bit 5 (bool_bit (drop_bit 5 b AND 1 \<noteq> 0))) OR
     push_bit 4 (bool_bit (drop_bit 4 b AND 1 \<noteq> 0)) OR ((b AND 0x0F) AND 0x0F) = b"
    unfolding * unfolding m
    by (rule bit_word_eqI) (auto simp: bit_simps dest!: lt8)
  show "push_bit 7 (bool_bit (drop_bit 7 b AND 1 \<noteq> 0)) OR ((b AND 0x7F) AND 0x7F) = b"
    unfolding * unfolding m
    by (rule bit_word_eqI) (auto simp: bit_simps dest!: lt8)
qed

lemma take12_bytes:
  "12 \<le> length d \<Longrightarrow>
   take 12 d = [d ! 0, d ! 1, d ! 2, d ! 3, d ! 4, d ! 5, d ! 6, d ! 7, d ! 8, d ! 9, d ! 10, d ! 11]"
  by (rule nth_equalityI) (auto simp: less_Suc_eq numeral_eq_Suc)

lemma rtp_serialize_eq:
  "12 \<le> length buf \<Longrightarrow> rtp_serialize h buf = Some (12,
    ([(push_bit 6 (rh_version h) OR push_bit 5 (bool_bit (rh_padding h))) OR
        push_bit 4 (bool_bit (rh_extension h)) OR (rh_csrc_count h AND 0x0F),
      push_bit 7 (bool_bit (rh_marker h)) OR (rh_payload_type h AND 0x7F)] @
     to_be16 (rh_sequence_number h) @ to_be32 (rh_timestamp h) @ to_be32 (rh_ssrc h)) @ drop 12 buf)"
  by (simp add: rtp_serialize_def RTP_HEADER_MIN_SIZE_BYTES_def eval_nat_numeral)

lemma rtp_serialize_parsed:
  assumes "rtp_parse d = Some (Inr h)" "12 \<le> length buf"
  shows "rtp_serialize h buf = Some (12, take 12 d @ drop 12 buf)"
proof -
  obtain hl pl where p: "12 \<le> length d" "h = rtp_fields d hl pl"
    using assms rtp_parse_Inr_iff by blast
  show ?thesis
    unfolding rtp_serialize_eq[OF assms(2)] p(2) rtp_fields_def rtp_header.simps drop_bit_byte_split
      to_be16_be16 to_be32_be32
    by (simp add: take12_bytes[OF p(1)])
qed

lemma batch_from_eq:
  assumes "\<And>d. parse d = Some (ok d)"
  shows "written + length ps \<le> length out \<Longrightarrow>
    batch_from parse written ps out =
      Some (written + length ps, take written out @ map ok ps @ drop (written + length ps) out)"
proof (induction ps arbitrary: written out)
  case (Cons p ps)
  have "out[written := ok p] = take written out @ ok p # drop (Suc written) out"
    using Cons.prems by (simp add: upd_conv_take_nth_drop)
  then show ?case using Cons by (simp add: assms min_def)
qed simp

lemma concat_chunks: "0 < k \<Longrightarrow> concat (chunks k xs) = xs"
proof (induction k xs rule: chunks.induct)
  case (1 k xs)
  then show ?case by (subst chunks.simps) simp
qed

lemma batch_chunks_eq:
  assumes "\<And>d. parse d = Some (ok d)"
  shows "written + length (concat cs) \<le> length out \<Longrightarrow>
    batch_chunks parse written cs out = batch_from parse written (concat cs) out"
proof (induction cs arbitrary: written out)
  case (Cons c cs)
  have split: "batch_from parse w (xs @ ys) o' = do { (w', o'') \<leftarrow> batch_from parse w xs o'; batch_from parse w' ys o'' }"
    for w xs ys o'
    by (induction xs arbitrary: w o') (auto simp: Option.bind_assoc intro!: Option.bind_cong)
  show ?case
    using Cons by (simp add: split batch_from_eq[OF assms])
qed simp

lemma rtp_parse_ok:
  obtains ok where "\<And>d. map_option (case_sum (\<lambda>_. None) Some) (rtp_parse d) = Some (ok d)"
    "\<And>d. ok d = (case rtp_parse d of Some (Inr h) \<Rightarrow> Some h | _ \<Rightarrow> None)"
proof
  show "map_option (case_sum (\<lambda>_. None) Some) (rtp_parse d) =
    Some (case rtp_parse d of Some (Inr h) \<Rightarrow> Some h | _ \<Rightarrow> None)" for d
    using rtp_parse_total[of d] by (auto split: sum.splits)
qed simp

lemma parse_batch_optimal_eq:
  assumes "n = min (length packets) (length out)"
  shows "parse_batch_optimal cpu arch packets out =
    Some (n, map (\<lambda>d. case rtp_parse d of Some (Inr h) \<Rightarrow> Some h | _ \<Rightarrow> None) (take n packets) @ drop n out)"
proof -
  obtain ok where ok: "\<And>d. map_option (case_sum (\<lambda>_. None) Some) (rtp_parse d) = Some (ok d)"
    "\<And>d. ok d = (case rtp_parse d of Some (Inr h) \<Rightarrow> Some h | _ \<Rightarrow> None)"
    using rtp_parse_ok by blast
  have simd: "\<And>d. parse_simd arch d = Some (ok d)" by (simp add: parse_simd_eq ok(1))
  show ?thesis
    unfolding ok(2)[symmetric] using assms
    by (cases cpu) (simp_all add: parse_batch_optimal_def parse_batch_scalar_def parse_batch_avx2_impl_def
      parse_batch_avx512_impl_def Let_def batch_chunks_eq[OF simd] concat_chunks batch_from_eq[OF simd]
      batch_from_eq[OF ok(1)])
qed

end
