(* ===== verification/Rtp_Ext.thy ===== *)
theory Rtp_Ext
  imports Rtp_Header
begin

text \<open>
  The extension element iterator of the data plane,
  \<^verbatim>\<open>nexus-dataplane/src/ext.rs\<close>: the one-byte and two-byte forms of
  RFC 8285, padding between elements, the element limit, and the lookup by
  identifier.  The lemmas show that the iterator never panics, that it ends
  after at most \<open>MAX_ELEMENTS\<close> elements, and that it reads back a block of
  one-byte elements exactly as they were encoded.
\<close>

section \<open>The iterator\<close>

definition MAX_ELEMENTS :: nat where "MAX_ELEMENTS = 16"
definition MAX_ONE_BYTE_LEN :: nat where "MAX_ONE_BYTE_LEN = 16"

record element =
  elem_id :: u8
  elem_data :: bytes

record elements =
  el_block :: bytes
  el_at :: nat
  el_two_byte :: bool
  el_seen :: nat

definition elements_empty :: elements where
  "elements_empty = \<lparr>el_block = [], el_at = 0, el_two_byte = False, el_seen = 0\<rparr>"

definition elements_of :: "bytes \<Rightarrow> rtp_header \<Rightarrow> elements option" where
  "elements_of packet h =
     (if \<not> rh_extension h then Some elements_empty
      else do {
        let start = 12 + 4 * unat (rh_csrc_count h);
        let lim = unat (rh_header_len h);
        if lim < start + 4 \<or> lim > length packet then Some elements_empty
        else do {
          profile \<leftarrow> u16_at packet start;
          block \<leftarrow> sub_slice packet (start + 4) lim;
          Some (if profile = 0xBEDE then \<lparr>el_block = block, el_at = 0, el_two_byte = False, el_seen = 0\<rparr>
            else if profile AND 0xFFF0 = 0x1000 then \<lparr>el_block = block, el_at = 0, el_two_byte = True, el_seen = 0\<rparr>
            else elements_empty) } })"

function skip_padding :: "bytes \<Rightarrow> bool \<Rightarrow> nat \<Rightarrow> nat" where
  "skip_padding block two_byte at =
     (if at < length block \<and> (if two_byte then block ! at = 0 else drop_bit 4 (block ! at) = 0)
      then skip_padding block two_byte (at + 1) else at)"
  by pat_completeness auto
termination by (relation "measure (\<lambda>(b, t, a). length b - a)") auto

declare skip_padding.simps [simp del]

text \<open>
  \<^verbatim>\<open>Elements::next\<close>: the inner part, from the first byte after the
  padding: identifier, data length and data offset.
\<close>

definition element_head :: "bytes \<Rightarrow> bool \<Rightarrow> nat \<Rightarrow> (u8 \<times> nat \<times> nat) option" where
  "element_head block two_byte at = do {
     first \<leftarrow> idx block at;
     if two_byte then do { l \<leftarrow> idx block (at + 1); Some (first, unat l, at + 2) }
     else if drop_bit 4 first = 15 then None
     else Some (drop_bit 4 first, unat (first AND 0x0F) + 1, at + 1) }"

definition elements_next :: "elements \<Rightarrow> element option \<times> elements" where
  "elements_next es =
     (if el_seen es = MAX_ELEMENTS then (None, es)
      else
        let at = skip_padding (el_block es) (el_two_byte es) (el_at es);
            es = es\<lparr>el_at := at\<rparr> in
        case do {
          (i, len, data_at) \<leftarrow> element_head (el_block es) (el_two_byte es) at;
          data \<leftarrow> sub_slice (el_block es) data_at (data_at + len);
          Some (\<lparr>elem_id = i, elem_data = data\<rparr>, data_at + len) } of
          None \<Rightarrow> (None, es)
        | Some (e, at') \<Rightarrow> (Some e, es\<lparr>el_at := at', el_seen := el_seen es + 1\<rparr>))"

lemma skip_padding_ge: "at \<le> skip_padding block two_byte at"
proof (induction block two_byte at rule: skip_padding.induct)
  case (1 block two_byte at)
  show ?case
  proof (cases "at < length block \<and> (if two_byte then block ! at = 0 else drop_bit 4 (block ! at) = 0)")
    case True
    have "skip_padding block two_byte at = skip_padding block two_byte (at + 1)"
      by (subst skip_padding.simps) (rule if_P[OF True])
    then show ?thesis using "1.IH"[OF True] by simp
  next
    case False
    then show ?thesis by (subst skip_padding.simps) (simp only: if_False order_refl)
  qed
qed

lemma element_head_gt: "element_head block two_byte at = Some (i, len, data_at) \<Longrightarrow> at < data_at"
  by (auto simp: element_head_def bind_eq_Some_conv split: if_splits)

lemma elements_next_Some:
  assumes "elements_next es = (Some e, es')"
  shows "el_block es' = el_block es" "el_two_byte es' = el_two_byte es" "el_seen es' = el_seen es + 1"
    "el_seen es \<noteq> MAX_ELEMENTS" "el_at es < el_at es'" "el_at es' \<le> length (el_block es)"
    "length (elem_data e) < el_at es'" "elem_data e = take (length (elem_data e)) (drop (el_at es' - length (elem_data e)) (el_block es))"
  using assms skip_padding_ge[of "el_at es" "el_block es" "el_two_byte es"]
  by (fastforce simp: elements_next_def Let_def bind_eq_Some_conv sub_slice_eq_Some_iff
      dest: element_head_gt split: if_splits option.splits)+

function collect_elements :: "elements \<Rightarrow> element list" where
  "collect_elements es = (case elements_next es of
     (None, _) \<Rightarrow> []
   | (Some e, es') \<Rightarrow> e # collect_elements es')"
  by pat_completeness auto
termination
proof (relation "measure (\<lambda>es. length (el_block es) - el_at es)")
  fix es r es' e
  assume "(r, es') = elements_next es" "r = Some e"
  then have "elements_next es = (Some e, es')" by simp
  from elements_next_Some(1,5,6)[OF this]
  show "(es', es) \<in> measure (\<lambda>es. length (el_block es) - el_at es)" by simp
qed simp

declare collect_elements.simps [simp del]

definition ext_find :: "bytes \<Rightarrow> rtp_header \<Rightarrow> u8 \<Rightarrow> bytes option option" where
  "ext_find packet h i =
     (if i = 0 then Some None
      else do {
        es \<leftarrow> elements_of packet h;
        Some (map_option elem_data (find (\<lambda>e. elem_id e = i) (collect_elements es))) })"

section \<open>Bounds\<close>

lemma elements_of_total: "\<exists>es. elements_of packet h = Some es \<and> el_seen es = 0 \<and> el_at es = 0"
  by (auto simp: elements_of_def elements_empty_def Let_def)

lemma ext_find_total: "\<exists>r. ext_find packet h i = Some r"
  using elements_of_total[of packet h] by (auto simp: ext_find_def)

lemma collect_elements_length:
  "el_seen es \<le> MAX_ELEMENTS \<Longrightarrow> length (collect_elements es) + el_seen es \<le> MAX_ELEMENTS"
proof (induction es rule: collect_elements.induct)
  case (1 es)
  show ?case
  proof (cases "elements_next es")
    case (Pair r es')
    show ?thesis
    proof (cases r)
      case None
      then show ?thesis using Pair "1.prems" by (subst collect_elements.simps) simp
    next
      case (Some e)
      then have n: "elements_next es = (Some e, es')" using Pair by simp
      have "length (collect_elements es') + el_seen es' \<le> MAX_ELEMENTS"
        by (rule "1.IH"[OF n[symmetric] refl]) (use elements_next_Some[OF n] "1.prems" in simp)
      then show ?thesis using n elements_next_Some(3)[OF n] by (subst collect_elements.simps) simp
    qed
  qed
qed

section \<open>Reading back a one-byte block\<close>

definition enc_element :: "u8 \<Rightarrow> bytes \<Rightarrow> bytes" where
  "enc_element i data = (push_bit 4 i OR (of_nat (length data) - 1)) # data"

definition one_byte_ok :: "u8 \<times> bytes \<Rightarrow> bool" where
  "one_byte_ok p \<longleftrightarrow> 1 \<le> unat (fst p) \<and> unat (fst p) \<le> 14 \<and> snd p \<noteq> [] \<and> length (snd p) \<le> MAX_ONE_BYTE_LEN"

lemma length_enc_element [simp]: "length (enc_element i data) = Suc (length data)"
  by (simp add: enc_element_def)

lemma nibble_take: "unat (i :: u8) < 16 \<Longrightarrow> take_bit 4 i = i"
  by (rule sym) (simp add: take_bit_eq_mod word_unat_eq_iff unat_mod)

lemma nibble_bits:
  "drop_bit 4 (push_bit 4 (take_bit 4 i) OR take_bit 4 l) = take_bit 4 (i :: u8)"
  "(push_bit 4 (take_bit 4 i) OR take_bit 4 l) AND mask 4 = take_bit 4 (l :: u8)"
  by (rule bit_word_eqI; auto simp: bit_simps)+

lemma byte_nibbles:
  fixes i l :: u8
  assumes "unat i < 16" "unat l < 16"
  shows "drop_bit 4 (push_bit 4 i OR l) = i" "(push_bit 4 i OR l) AND 0x0F = l"
proof -
  have m: "(0x0F :: u8) = mask 4" by (simp add: mask_eq_exp_minus_1)
  show "drop_bit 4 (push_bit 4 i OR l) = i" "(push_bit 4 i OR l) AND 0x0F = l"
    using nibble_bits[of i l] unfolding m nibble_take[OF assms(1)] nibble_take[OF assms(2)] .
qed

lemma enc_byte:
  assumes "one_byte_ok (i, data)"
  shows "drop_bit 4 (push_bit 4 i OR (of_nat (length data) - 1)) = i"
    and "unat ((push_bit 4 i OR (of_nat (length data) - 1)) AND 0x0F) + 1 = length data"
proof -
  have l: "1 \<le> length data" "length data \<le> 16" and i: "unat i < 16"
    using assms by (auto simp: one_byte_ok_def MAX_ONE_BYTE_LEN_def Suc_le_eq)
  have u: "unat (of_nat (length data) - 1 :: u8) = length data - 1"
  proof -
    have "(of_nat (length data) - 1 :: u8) = of_nat (length data - 1)" using l(1) by (simp add: of_nat_diff)
    moreover have "unat (of_nat (length data - 1) :: u8) = length data - 1" using l by (simp only: unat_of_nat) simp
    ultimately show ?thesis by (simp only:)
  qed
  show "drop_bit 4 (push_bit 4 i OR (of_nat (length data) - 1)) = i"
    using byte_nibbles(1)[OF i] u l by simp
  show "unat ((push_bit 4 i OR (of_nat (length data) - 1)) AND 0x0F) + 1 = length data"
    using byte_nibbles(2)[OF i, of "of_nat (length data) - 1"] u l by simp
qed

lemma skip_zeros: "skip_padding (pre @ replicate n 0) False (length pre) = length pre + n"
proof (induction n arbitrary: pre)
  case (Suc n)
  have "pre @ replicate (Suc n) 0 = (pre @ [0]) @ replicate n (0 :: u8)"
    by (simp add: replicate_app_Cons_same)
  then show ?case
    using Suc[of "pre @ [0]"] by (subst skip_padding.simps) (simp add: nth_append)
qed (simp add: skip_padding.simps)

lemma elements_next_enc:
  assumes "one_byte_ok (i, data)" "s \<noteq> MAX_ELEMENTS"
  shows "elements_next \<lparr>el_block = pre @ enc_element i data @ rest, el_at = length pre, el_two_byte = False, el_seen = s\<rparr>
    = (Some \<lparr>elem_id = i, elem_data = data\<rparr>,
       \<lparr>el_block = pre @ enc_element i data @ rest, el_at = length pre + length (enc_element i data),
        el_two_byte = False, el_seen = s + 1\<rparr>)"
proof -
  define b where "b = push_bit 4 i OR (of_nat (length data) - 1)"
  have b: "drop_bit 4 b = i" "unat (b AND 0x0F) + 1 = length data"
    using enc_byte[OF assms(1)] by (simp_all add: b_def)
  have i: "i \<noteq> 0" "i \<noteq> 15" using assms(1) by (auto simp: one_byte_ok_def)
  have skip: "skip_padding (pre @ b # data @ rest) False (length pre) = length pre"
    using b(1) i(1) by (subst skip_padding.simps) simp
  have head: "element_head (pre @ b # data @ rest) False (length pre) = Some (i, length data, length pre + 1)"
    using b i by (simp add: element_head_def)
  show ?thesis
    using assms(2) by (simp add: elements_next_def enc_element_def b_def[symmetric] skip head)
qed

lemma collect_enc:
  assumes "\<forall>p\<in>set out. one_byte_ok p" "s \<le> MAX_ELEMENTS"
  shows "collect_elements \<lparr>el_block = pre @ concat (map (case_prod enc_element) out) @ replicate n 0,
      el_at = length pre, el_two_byte = False, el_seen = s\<rparr>
    = map (\<lambda>(i, data). \<lparr>elem_id = i, elem_data = data\<rparr>) (take (MAX_ELEMENTS - s) out)"
  using assms
proof (induction out arbitrary: pre s)
  case Nil
  have "fst (elements_next \<lparr>el_block = pre @ replicate n 0, el_at = length pre, el_two_byte = False, el_seen = s\<rparr>) = None"
    by (simp add: elements_next_def skip_zeros element_head_def Let_def)
  then show ?case by (subst collect_elements.simps) (auto split: prod.split option.split)
next
  case (Cons p out)
  obtain i data where p: "p = (i, data)" by (cases p)
  show ?case
  proof (cases "s = MAX_ELEMENTS")
    case True
    then show ?thesis by (subst collect_elements.simps) (simp add: elements_next_def)
  next
    case False
    have ok: "one_byte_ok (i, data)" using Cons.prems p by simp
    have tail: "MAX_ELEMENTS - s = Suc (MAX_ELEMENTS - (s + 1))" using False Cons.prems by simp
    show ?thesis
      using Cons.IH[of "s + 1" "pre @ enc_element i data"] Cons.prems False
      by (subst collect_elements.simps) (simp add: p elements_next_enc[OF ok False] tail)
  qed
qed

end
