(* ===== verification/Rtp_Rewrite.thy ===== *)
theory Rtp_Rewrite
  imports Rtp_Ext Plane_Types
begin

text \<open>
  The RTP header rewrite, \<^verbatim>\<open>nexus-dataplane/src/rewrite.rs\<close>: the fixed
  header with mapped payload type, sequence and timestamp offsets and out
  SSRC, the CSRCs, the extension block in the one-byte form, the payload; and
  the offsets with their rebase rules.  \<open>rewrite\<close> returns the send buffer
  it wrote on every branch, as the source leaves it; an outer \<^term>\<open>None\<close> is a
  panic.

  The main result is that a rewritten packet is a well-formed RTP packet: it
  parses, its header carries exactly the mapped fields, CSRCs, payload and
  padding are those of the input, and its extension elements are the mapped
  ones in order, followed by the subscriber's \<^verbatim>\<open>mid\<close>.
\<close>

section \<open>Definitions\<close>

datatype rewrite_error = UnmappedPt | TooLarge

record advance =
  ad_seq_offset :: u16
  ad_ts_offset :: u32
  ad_in_seq :: u16
  ad_out_seq :: u16
  ad_out_ts :: u32
  ad_rebased :: bool

definition REBASE_GAP :: int where "REBASE_GAP = 2 ^ 14"
definition REORDER_LIMIT :: int where "REORDER_LIMIT = 64"
definition REBASE_IDLE :: duration where "REBASE_IDLE = secs 5"

definition saturating_mul64 :: "u64 \<Rightarrow> u64 \<Rightarrow> u64" where
  "saturating_mul64 a b = (if unat a * unat b < 2 ^ 64 then a * b else - 1)"

text \<open>The timestamp step of a rebase: the wall time since the last packet, in clock ticks.\<close>

definition rebase_step :: "rewrite_state \<Rightarrow> u32 \<Rightarrow> instant \<Rightarrow> u32" where
  "rebase_step st clock_rate now = (
     let elapsed = (case rw_last_out_at st of None \<Rightarrow> 0 | Some at \<Rightarrow> as_millis (since now at));
         step = saturating_mul64 (of_nat elapsed) (ucast clock_rate) div 1000
     in ucast (max step 1))"

definition offsets ::
  "rewrite_state \<Rightarrow> rtp_header \<Rightarrow> u32 \<Rightarrow> u64 \<Rightarrow> instant \<Rightarrow> (u16 \<times> u32 \<times> bool) \<times> u64" where
  "offsets st hdr clock_rate rng now =
     (if \<not> rw_started st then
        let (r, rng') = rng_next rng in
        ((ucast r - rh_sequence_number hdr, ucast (drop_bit 32 r) - rh_timestamp hdr, False), rng')
      else
        let delta = sint (rh_sequence_number hdr - rw_last_in_seq st);
            idle = (case rw_last_out_at st of None \<Rightarrow> False | Some at \<Rightarrow> since now at \<ge> REBASE_IDLE);
            in_step = (- REORDER_LIMIT \<le> delta \<and> delta \<le> REBASE_GAP) in
        if in_step \<and> \<not> idle then ((rw_seq_offset st, rw_ts_offset st, False), rng)
        else ((rw_last_out_seq st + 1 - rh_sequence_number hdr,
               rw_last_out_ts st + rebase_step st clock_rate now - rh_timestamp hdr, True), rng))"

definition write_element ::
  "bytes \<Rightarrow> nat \<Rightarrow> u8 \<Rightarrow> bytes \<Rightarrow> ((rewrite_error + nat) \<times> bytes) option" where
  "write_element dst at i data = (
     let fin = at + 1 + length data in
     if fin > length dst then Some (Inl TooLarge, dst)
     else do {
       dst \<leftarrow> copy_into dst at [push_bit 4 i OR (of_nat (length data) - 1)];
       dst \<leftarrow> copy_into dst (at + 1) data;
       Some (Inr fin, dst) })"

definition skip_element :: "subscription \<Rightarrow> element \<Rightarrow> bool" where
  "skip_element sub e \<longleftrightarrow> elem_id e = sb_pub_mid sub \<or>
     unat (elem_id e) \<ge> length (em_map (sb_ext_map sub)) \<or> length (elem_data e) > MAX_ONE_BYTE_LEN"

fun write_elements ::
  "subscription \<Rightarrow> element list \<Rightarrow> nat \<Rightarrow> bytes \<Rightarrow> ((rewrite_error + nat) \<times> bytes) option" where
  "write_elements sub [] fin dst = Some (Inr fin, dst)"
| "write_elements sub (e # es) fin dst =
     (if skip_element sub e then write_elements sub es fin dst
      else do {
        to \<leftarrow> idx (em_map (sb_ext_map sub)) (unat (elem_id e));
        if to = 0 \<or> length (elem_data e) = 0 then write_elements sub es fin dst
        else do {
          (r, dst) \<leftarrow> write_element dst fin to (elem_data e);
          case r of Inl err \<Rightarrow> Some (Inl err, dst)
          | Inr fin \<Rightarrow> write_elements sub es fin dst } })"

definition finish_extensions :: "nat \<Rightarrow> nat \<Rightarrow> bytes \<Rightarrow> ((rewrite_error + nat) \<times> bytes) option" where
  "finish_extensions at fin dst = (
     let block = at + 4 in
     if fin = block then Some (Inr at, dst)
     else let padded = block + ((fin - block) + 3) div 4 * 4 in
       if padded > length dst then Some (Inl TooLarge, dst)
       else do {
         dst \<leftarrow> copy_into dst fin (replicate (padded - fin) 0);
         dst \<leftarrow> copy_into dst at (to_be16 0xBEDE);
         dst \<leftarrow> copy_into dst (at + 2) (to_be16 (of_nat ((padded - block) div 4)));
         Some (Inr padded, dst) })"

definition write_extensions ::
  "bytes \<Rightarrow> rtp_header \<Rightarrow> subscription \<Rightarrow> bytes \<Rightarrow> nat \<Rightarrow> ((rewrite_error + nat) \<times> bytes) option" where
  "write_extensions src hdr sub dst at = do {
     es \<leftarrow> elements_of src hdr;
     (r, dst) \<leftarrow> write_elements sub (collect_elements es) (at + 4) dst;
     case r of Inl err \<Rightarrow> Some (Inl err, dst)
     | Inr fin \<Rightarrow> do {
         (r, dst) \<leftarrow> (if em_mid (sb_ext_map sub) \<noteq> 0
           then write_element dst fin (em_mid (sb_ext_map sub)) (sb_mid sub) else Some (Inr fin, dst));
         case r of Inl err \<Rightarrow> Some (Inl err, dst)
         | Inr fin \<Rightarrow> finish_extensions at fin dst } }"

definition write_fixed ::
  "bytes \<Rightarrow> rtp_header \<Rightarrow> u8 \<Rightarrow> bool \<Rightarrow> u16 \<Rightarrow> u32 \<Rightarrow> u32 \<Rightarrow> bytes \<Rightarrow> bytes option" where
  "write_fixed src hdr pt x sq ts ssrc dst = do {
     b0 \<leftarrow> idx src 0;
     b1 \<leftarrow> idx src 1;
     dst \<leftarrow> copy_into dst 0 [0x80 OR (b0 AND 0x20) OR (if x then 0x10 else 0) OR rh_csrc_count hdr];
     dst \<leftarrow> copy_into dst 1 [(b1 AND 0x80) OR pt];
     dst \<leftarrow> copy_into dst 2 (to_be16 sq);
     dst \<leftarrow> copy_into dst 4 (to_be32 ts);
     copy_into dst 8 (to_be32 ssrc) }"

definition rewrite ::
  "bytes \<Rightarrow> rtp_header \<Rightarrow> subscription \<Rightarrow> u64 \<Rightarrow> instant \<Rightarrow> bytes \<Rightarrow>
   ((rewrite_error + nat \<times> advance) \<times> bytes \<times> u64) option" where
  "rewrite src hdr sub rng now dst = (case pt_map_map (sb_pt_map sub) (rh_payload_type hdr) of
     None \<Rightarrow> Some (Inl UnmappedPt, dst, rng)
   | Some pt \<Rightarrow>
       let ce = 12 + 4 * unat (rh_csrc_count hdr) in
       if ce > length dst then Some (Inl TooLarge, dst, rng)
       else do {
         csrcs \<leftarrow> sub_slice src 12 ce;
         dst \<leftarrow> copy_into dst 12 csrcs;
         (r, dst) \<leftarrow> write_extensions src hdr sub dst ce;
         case r of Inl err \<Rightarrow> Some (Inl err, dst, rng)
         | Inr header_end \<Rightarrow> do {
             payload \<leftarrow> sub_slice src (unat (rh_header_len hdr)) (length src);
             let out_len = header_end + length payload;
             if out_len > length dst then Some (Inl TooLarge, dst, rng)
             else do {
               dst \<leftarrow> copy_into dst header_end payload;
               let ((seq_offset, ts_offset, rebased), rng) = offsets (sb_rewrite sub) hdr (sb_clock_rate sub) rng now;
               let sq = rh_sequence_number hdr + seq_offset;
               let ts = rh_timestamp hdr + ts_offset;
               dst \<leftarrow> write_fixed src hdr pt (header_end > ce) sq ts (rw_out_ssrc (sb_rewrite sub)) dst;
               Some (Inr (out_len, \<lparr>ad_seq_offset = seq_offset, ad_ts_offset = ts_offset,
                 ad_in_seq = rh_sequence_number hdr, ad_out_seq = sq, ad_out_ts = ts, ad_rebased = rebased\<rparr>),
                 dst, rng) } } })"

definition commit :: "rewrite_state \<Rightarrow> advance \<Rightarrow> instant \<Rightarrow> rewrite_state" where
  "commit st ad now = (
     let newer = (\<not> rw_started st \<or> ad_rebased ad \<or> sint (ad_out_seq ad - rw_last_out_seq st) > 0);
         st = st\<lparr>rw_seq_offset := ad_seq_offset ad, rw_ts_offset := ad_ts_offset ad, rw_started := True\<rparr> in
     if newer then st\<lparr>rw_last_out_seq := ad_out_seq ad, rw_last_out_ts := ad_out_ts ad,
       rw_last_out_at := Some now, rw_last_in_seq := ad_in_seq ad\<rparr>
     else st)"

declare copy_into_Some [simp del]

section \<open>The extension block\<close>

text \<open>The element an input element becomes, and the whole list the block holds.\<close>

definition mapped_element :: "subscription \<Rightarrow> element \<Rightarrow> (u8 \<times> bytes) option" where
  "mapped_element sub e =
     (if skip_element sub e then None
      else let to = em_map (sb_ext_map sub) ! unat (elem_id e) in
        if to = 0 \<or> elem_data e = [] then None else Some (to, elem_data e))"

definition out_elements :: "subscription \<Rightarrow> element list \<Rightarrow> (u8 \<times> bytes) list" where
  "out_elements sub es = List.map_filter (mapped_element sub) es @
     (if em_mid (sb_ext_map sub) \<noteq> 0 then [(em_mid (sb_ext_map sub), sb_mid sub)] else [])"

definition enc_elements :: "(u8 \<times> bytes) list \<Rightarrow> bytes" where
  "enc_elements out = concat (map (case_prod enc_element) out)"

definition ext_block :: "(u8 \<times> bytes) list \<Rightarrow> bytes" where
  "ext_block out = (if out = [] then []
     else let body = enc_elements out; words = (length body + 3) div 4 in
       to_be16 0xBEDE @ to_be16 (of_nat words) @ body @ replicate (words * 4 - length body) 0)"

lemma enc_elements_append [simp]: "enc_elements (xs @ ys) = enc_elements xs @ enc_elements ys"
  by (simp add: enc_elements_def)

lemma enc_elements_simps [simp]:
  "enc_elements [] = []" "enc_elements ((i, data) # out) = enc_element i data @ enc_elements out"
  by (simp_all add: enc_elements_def)

lemma enc_elements_Nil_iff: "enc_elements out = [] \<longleftrightarrow> out = []"
  by (cases out) (auto simp: enc_elements_def enc_element_def split: prod.splits)

lemma write_element_fits:
  assumes "at + length (enc_element i data) \<le> length dst"
  shows "write_element dst at i data =
    Some (Inr (at + length (enc_element i data)), overwrite at (enc_element i data) dst)"
proof -
  let ?b = "push_bit 4 i OR (of_nat (length data) - 1)"
  have "copy_into dst at [?b] = Some (overwrite at [?b] dst)"
    using assms by (intro copy_into_overwrite) simp
  moreover have "copy_into (overwrite at [?b] dst) (at + length [?b]) data = Some (overwrite (at + length [?b]) data (overwrite at [?b] dst))"
    using assms by (intro copy_into_overwrite) simp
  moreover have "overwrite (at + length [?b]) data (overwrite at [?b] dst) = overwrite at ([?b] @ data) dst"
    using assms by (intro overwrite_append) simp
  ultimately show ?thesis using assms by (simp add: write_element_def enc_element_def)
qed

lemma write_element_too_large:
  "length dst < at + length (enc_element i data) \<Longrightarrow> write_element dst at i data = Some (Inl TooLarge, dst)"
  by (simp add: write_element_def)

lemma write_elements_eq:
  "\<exists>dst'. write_elements sub es fin dst =
      (let body = enc_elements (List.map_filter (mapped_element sub) es) in
       if body = [] \<or> fin + length body \<le> length dst then Some (Inr (fin + length body), overwrite fin body dst)
       else Some (Inl TooLarge, dst')) \<and> length dst' = length dst"
proof (induction es arbitrary: fin dst)
  case Nil
  then show ?case by (intro exI[of _ dst]) (simp add: List.map_filter_def)
next
  case (Cons e es)
  show ?case
  proof (cases "mapped_element sub e")
    case None
    have m: "List.map_filter (mapped_element sub) (e # es) = List.map_filter (mapped_element sub) es"
      using None by (simp add: map_filter_simps)
    have w: "write_elements sub (e # es) fin dst = write_elements sub es fin dst"
      using None by (auto simp: mapped_element_def skip_element_def Let_def split: if_splits)
    show ?thesis unfolding m w by (rule Cons.IH)
  next
    case (Some p)
    obtain to data where p: "p = (to, data)" by (cases p)
    have m: "List.map_filter (mapped_element sub) (e # es) = (to, data) # List.map_filter (mapped_element sub) es"
      using Some p by (simp add: map_filter_simps)
    have e: "\<not> skip_element sub e" "em_map (sb_ext_map sub) ! unat (elem_id e) = to" "to \<noteq> 0"
        "elem_data e = data" "data \<noteq> []" "unat (elem_id e) < length (em_map (sb_ext_map sub))"
      using Some p by (auto simp: mapped_element_def skip_element_def Let_def split: if_splits)
    have ne: "enc_element to data \<noteq> []" by (simp add: enc_element_def)
    show ?thesis
    proof (cases "fin + length (enc_element to data) \<le> length dst")
      case True
      let ?d = "overwrite fin (enc_element to data) dst" and ?f = "fin + length (enc_element to data)"
      let ?b = "enc_elements (List.map_filter (mapped_element sub) es)"
      have w: "write_elements sub (e # es) fin dst = write_elements sub es ?f ?d"
        using e write_element_fits[OF True] by simp
      have l: "length ?d = length dst" by (rule length_overwrite[OF True])
      obtain dst' where IH: "write_elements sub es ?f ?d = (if ?b = [] \<or> ?f + length ?b \<le> length ?d
          then Some (Inr (?f + length ?b), overwrite ?f ?b ?d) else Some (Inl TooLarge, dst'))" "length dst' = length ?d"
        using Cons.IH[of ?f ?d] by (auto simp: Let_def)
      have "overwrite ?f ?b ?d = overwrite fin (enc_element to data @ ?b) dst" if "?f + length ?b \<le> length dst"
        using that by (rule overwrite_append)
      then show ?thesis unfolding m w IH(1) using IH(2) l True ne
        by (intro exI[of _ dst']) (simp add: Let_def add.assoc)
    next
      case False
      have w: "write_elements sub (e # es) fin dst = Some (Inl TooLarge, dst)"
        using e write_element_too_large[of dst fin to data] False by simp
      show ?thesis unfolding m w using False ne by (intro exI[of _ dst]) (simp add: Let_def)
    qed
  qed
qed

lemma finish_extensions_eq:
  assumes "body \<noteq> []" "at + 4 + length body \<le> length dst"
  defines "words \<equiv> (length body + 3) div 4"
  shows "finish_extensions at (at + 4 + length body) (overwrite (at + 4) body dst) =
    (if at + 4 + words * 4 \<le> length dst
     then Some (Inr (at + 4 + words * 4), overwrite at (to_be16 0xBEDE @ to_be16 (of_nat words) @ body @
       replicate (words * 4 - length body) 0) dst)
     else Some (Inl TooLarge, overwrite (at + 4) body dst))"
proof (cases "at + 4 + words * 4 \<le> length dst")
  case True
  let ?z = "replicate (words * 4 - length body) (0 :: u8)" and ?h = "to_be16 0xBEDE" and ?w = "to_be16 (of_nat words) :: bytes"
  have le: "length body \<le> words * 4" unfolding words_def by linarith
  have d1: "overwrite (at + 4 + length body) ?z (overwrite (at + 4) body dst) = overwrite (at + 4) (body @ ?z) dst"
    using True le by (intro overwrite_append) simp
  have d2: "overwrite (at + 2) ?w (overwrite at ?h X) = overwrite at (?h @ ?w) X" if "length X = length dst" for X
    using overwrite_append[of at ?h ?w X] that True by simp
  have d3: "overwrite at (?h @ ?w) (overwrite (at + 4) (body @ ?z) dst) = overwrite at ((?h @ ?w) @ body @ ?z) dst"
    using overwrite_prepend[of at "?h @ ?w" "body @ ?z" dst] True le by simp
  have w: "(length body + 3) div 4 = words" by (simp add: words_def)
  show ?thesis
    using True le assms(1) d2 d3
    by (simp add: finish_extensions_def Let_def w copy_into_overwrite d1 del: replicate_add)
next
  case False
  then show ?thesis using assms(1,2) by (simp add: finish_extensions_def Let_def words_def)
qed

lemma length_ext_block:
  "out \<noteq> [] \<Longrightarrow> length (ext_block out) = 4 + (length (enc_elements out) + 3) div 4 * 4"
proof -
  have "length (enc_elements out) \<le> (length (enc_elements out) + 3) div 4 * 4" by linarith
  then show "out \<noteq> [] \<Longrightarrow> ?thesis" by (simp add: ext_block_def Let_def)
qed

lemma write_extensions_eq:
  assumes es: "elements_of src hdr = Some es" and at: "at \<le> length dst"
  shows "\<exists>dst'. write_extensions src hdr sub dst at =
      (let blk = ext_block (out_elements sub (collect_elements es)) in
       if at + length blk \<le> length dst then Some (Inr (at + length blk), overwrite at blk dst)
       else Some (Inl TooLarge, dst')) \<and> length dst' = length dst"
proof -
  let ?m = "List.map_filter (mapped_element sub) (collect_elements es)"
  let ?x = "em_map (sb_ext_map sub)" and ?i = "em_mid (sb_ext_map sub)"
  define out where "out = out_elements sub (collect_elements es)"
  define b1 b2 where "b1 = enc_elements ?m" and "b2 = (if ?i \<noteq> 0 then enc_element ?i (sb_mid sub) else [])"
  have enc: "enc_elements out = b1 @ b2" by (simp add: out_def out_elements_def b1_def b2_def)
  have b2: "?i \<noteq> 0 \<Longrightarrow> b2 \<noteq> []" by (simp add: b2_def enc_element_def)
  obtain d1 where w1: "write_elements sub (collect_elements es) (at + 4) dst =
      (if b1 = [] \<or> at + 4 + length b1 \<le> length dst then Some (Inr (at + 4 + length b1), overwrite (at + 4) b1 dst)
       else Some (Inl TooLarge, d1))" "length d1 = length dst"
    using write_elements_eq[of sub "collect_elements es" "at + 4" dst] unfolding b1_def Let_def by blast
  show ?thesis
  proof (cases "out = []")
    case True
    then have "b1 = []" "?i = 0" using enc b2 by (auto simp: enc_elements_Nil_iff[symmetric])
    then show ?thesis using at w1 True es
      by (intro exI[of _ dst]) (simp add: write_extensions_def finish_extensions_def ext_block_def out_def[symmetric] Let_def)
  next
    case ne: False
    then have bne: "b1 @ b2 \<noteq> []" using enc enc_elements_Nil_iff[of out] by auto
    have len: "length (ext_block out) = 4 + (length (b1 @ b2) + 3) div 4 * 4"
      using length_ext_block[OF ne] enc by simp
    have pad: "length (b1 @ b2) \<le> (length (b1 @ b2) + 3) div 4 * 4" by linarith
    show ?thesis
    proof (cases "at + 4 + length (b1 @ b2) \<le> length dst")
      case fits: True
      have o2: "overwrite (at + 4 + length b1) b2 (overwrite (at + 4) b1 dst) = overwrite (at + 4) (b1 @ b2) dst"
        using fits by (intro overwrite_append) simp
      have mid: "(if ?i \<noteq> 0 then write_element (overwrite (at + 4) b1 dst) (at + 4 + length b1) ?i (sb_mid sub)
          else Some (Inr (at + 4 + length b1), overwrite (at + 4) b1 dst)) =
          Some (Inr (at + 4 + length (b1 @ b2)), overwrite (at + 4) (b1 @ b2) dst)"
        using fits o2 write_element_fits[of "at + 4 + length b1" ?i "sb_mid sub" "overwrite (at + 4) b1 dst"]
        by (auto simp: b2_def)
      have "write_extensions src hdr sub dst at = finish_extensions at (at + 4 + length (b1 @ b2)) (overwrite (at + 4) (b1 @ b2) dst)"
        using es w1(1) fits mid by (simp add: write_extensions_def)
      also have "\<dots> = (if at + length (ext_block out) \<le> length dst
          then Some (Inr (at + length (ext_block out)), overwrite at (ext_block out) dst)
          else Some (Inl TooLarge, overwrite (at + 4) (b1 @ b2) dst))"
        unfolding finish_extensions_eq[OF bne fits] len using ne enc by (simp add: ext_block_def Let_def ac_simps)
      finally show ?thesis using fits
        by (intro exI[of _ "overwrite (at + 4) (b1 @ b2) dst"]) (simp add: out_def[symmetric] Let_def)
    next
      case False
      have "\<exists>d'. write_extensions src hdr sub dst at = Some (Inl TooLarge, d') \<and> length d' = length dst"
      proof (cases "b1 = [] \<or> at + 4 + length b1 \<le> length dst")
        case True
        then have "?i \<noteq> 0" using False bne by (auto simp: b2_def split: if_splits)
        moreover have "length (overwrite (at + 4) b1 dst) = length dst" using True by (cases "b1 = []") auto
        ultimately show ?thesis using es w1(1) True False
            write_element_too_large[of "overwrite (at + 4) b1 dst" "at + 4 + length b1" ?i "sb_mid sub"]
          by (simp add: write_extensions_def b2_def)
      next
        case False
        then show ?thesis using es w1 by (simp add: write_extensions_def)
      qed
      then show ?thesis using False len pad by (auto simp: out_def[symmetric] Let_def)
    qed
  qed
qed

section \<open>The whole rewrite\<close>

definition out_fixed :: "bytes \<Rightarrow> u8 \<Rightarrow> u8 \<Rightarrow> bool \<Rightarrow> u16 \<Rightarrow> u32 \<Rightarrow> u32 \<Rightarrow> bytes" where
  "out_fixed src cc pt x sq ts ssrc =
     [0x80 OR (src ! 0 AND 0x20) OR (if x then 0x10 else 0) OR cc, (src ! 1 AND 0x80) OR pt] @
     to_be16 sq @ to_be32 ts @ to_be32 ssrc"

lemma length_out_fixed [simp]: "length (out_fixed src cc pt x sq ts ssrc) = 12"
  by (simp add: out_fixed_def)

lemma copy_into_chain:
  assumes "length a = 1" "length b = 1" "length c = 2" "length e = 4" "length f = 4" "12 \<le> length d"
  shows "do { d \<leftarrow> copy_into d 0 a; d \<leftarrow> copy_into d 1 b; d \<leftarrow> copy_into d 2 c; d \<leftarrow> copy_into d 4 e; copy_into d 8 f } =
    Some (overwrite 0 (a @ b @ c @ e @ f) d)"
proof -
  have o: "overwrite k y (overwrite 0 x d) = overwrite 0 (x @ y) d"
    if "k = length x" "length x + length y \<le> length d" for k x y
    using overwrite_append[of 0 x y d] that by simp
  have "overwrite 1 b (overwrite 0 a d) = overwrite 0 (a @ b) d"
    "overwrite 2 c (overwrite 0 (a @ b) d) = overwrite 0 (a @ b @ c) d"
    "overwrite 4 e (overwrite 0 (a @ b @ c) d) = overwrite 0 (a @ b @ c @ e) d"
    "overwrite 8 f (overwrite 0 (a @ b @ c @ e) d) = overwrite 0 (a @ b @ c @ e @ f) d"
    using o[of 1 a b] o[of 2 "a @ b" c] o[of 4 "a @ b @ c" e] o[of 8 "a @ b @ c @ e" f] assms by simp_all
  then show ?thesis using assms by (simp add: copy_into_overwrite)
qed

lemma write_fixed_eq:
  assumes "12 \<le> length dst" "12 \<le> length src"
  shows "write_fixed src hdr pt x sq ts ssrc dst =
    Some (overwrite 0 (out_fixed src (rh_csrc_count hdr) pt x sq ts ssrc) dst)"
proof -
  have "src \<noteq> []" using assms by auto
  then have i: "idx src 0 = Some (src ! 0)" "idx src 1 = Some (src ! 1)" using assms by simp_all
  show ?thesis
    unfolding write_fixed_def i bind.simps out_fixed_def
    by (subst copy_into_chain) (use assms(1) in simp_all)
qed

text \<open>The bytes of the rewritten packet.\<close>

definition out_packet :: "bytes \<Rightarrow> rtp_header \<Rightarrow> subscription \<Rightarrow> u8 \<Rightarrow> element list \<Rightarrow> u16 \<Rightarrow> u32 \<Rightarrow> bytes" where
  "out_packet src hdr sub pt es sq ts = (
     let blk = ext_block (out_elements sub es) in
     out_fixed src (rh_csrc_count hdr) pt (blk \<noteq> []) sq ts (rw_out_ssrc (sb_rewrite sub)) @
     take (4 * unat (rh_csrc_count hdr)) (drop 12 src) @ blk @ drop (unat (rh_header_len hdr)) src)"

lemma rewrite_unmapped:
  "pt_map_map (sb_pt_map sub) (rh_payload_type hdr) = None \<Longrightarrow>
   rewrite src hdr sub rng now dst = Some (Inl UnmappedPt, dst, rng)"
  by (simp add: rewrite_def)

lemma rewrite_eq:
  assumes p: "rtp_parse src = Some (Inr hdr)" and es: "elements_of src hdr = Some es"
    and pt: "pt_map_map (sb_pt_map sub) (rh_payload_type hdr) = Some pt"
    and off: "offsets (sb_rewrite sub) hdr (sb_clock_rate sub) rng now = ((so, to, rb), rng')"
  defines "out \<equiv> out_packet src hdr sub pt (collect_elements es) (rh_sequence_number hdr + so) (rh_timestamp hdr + to)"
  shows "\<exists>dst'. length dst' = length dst \<and> rewrite src hdr sub rng now dst =
    (if length out \<le> length dst
     then Some (Inr (length out, \<lparr>ad_seq_offset = so, ad_ts_offset = to, ad_in_seq = rh_sequence_number hdr,
       ad_out_seq = rh_sequence_number hdr + so, ad_out_ts = rh_timestamp hdr + to, ad_rebased = rb\<rparr>),
       overwrite 0 out dst, rng')
     else Some (Inl TooLarge, dst', rng))"
proof -
  define ce hl where "ce = 12 + 4 * unat (rh_csrc_count hdr)" and "hl = unat (rh_header_len hdr)"
  define blk where "blk = ext_block (out_elements sub (collect_elements es))"
  define cs pl where "cs = take (4 * unat (rh_csrc_count hdr)) (drop 12 src)" and "pl = drop hl src"
  define fx where "fx = out_fixed src (rh_csrc_count hdr) pt (blk \<noteq> []) (rh_sequence_number hdr + so)
    (rh_timestamp hdr + to) (rw_out_ssrc (sb_rewrite sub))"
  have b: "ce \<le> hl" "hl \<le> length src" "12 \<le> length src"
    using rtp_parse_bounds(2,3)[OF p] by (simp_all add: ce_def hl_def)
  have out: "out = fx @ cs @ blk @ pl"
    by (simp add: out_def out_packet_def fx_def blk_def cs_def pl_def hl_def Let_def)
  have len: "length fx = 12" "length cs = ce - 12" "12 \<le> ce" "length pl = length src - hl"
    using b by (simp_all add: fx_def cs_def pl_def ce_def)
  have cs: "sub_slice src 12 ce = Some cs" and pl: "sub_slice src hl (length src) = Some pl"
    using b len by (simp_all add: cs_def pl_def ce_def)
  show ?thesis
  proof (cases "ce \<le> length dst")
    case False
    then have "\<not> length out \<le> length dst" using len by (simp add: out)
    then show ?thesis using False pt by (intro exI[of _ dst]) (simp add: rewrite_def ce_def Let_def)
  next
    case True
    let ?d1 = "overwrite 12 cs dst"
    have d1: "copy_into dst 12 cs = Some ?d1" "length ?d1 = length dst"
      using True len by (auto intro!: copy_into_overwrite)
    obtain d' where we: "write_extensions src hdr sub ?d1 ce = (if ce + length blk \<le> length dst
        then Some (Inr (ce + length blk), overwrite ce blk ?d1) else Some (Inl TooLarge, d'))" "length d' = length dst"
      using write_extensions_eq[OF es, of ce ?d1 sub] True d1(2) unfolding blk_def Let_def by auto
    have body: "rewrite src hdr sub rng now dst = (case write_extensions src hdr sub ?d1 ce of
        None \<Rightarrow> None | Some (r, dst) \<Rightarrow> (case r of Inl err \<Rightarrow> Some (Inl err, dst, rng)
        | Inr he \<Rightarrow> if he + length pl > length dst then Some (Inl TooLarge, dst, rng) else do {
            dst \<leftarrow> copy_into dst he pl;
            dst \<leftarrow> write_fixed src hdr pt (he > ce) (rh_sequence_number hdr + so) (rh_timestamp hdr + to)
              (rw_out_ssrc (sb_rewrite sub)) dst;
            Some (Inr (he + length pl, \<lparr>ad_seq_offset = so, ad_ts_offset = to, ad_in_seq = rh_sequence_number hdr,
               ad_out_seq = rh_sequence_number hdr + so, ad_out_ts = rh_timestamp hdr + to, ad_rebased = rb\<rparr>),
               dst, rng') }))"
      using True pt cs pl d1(1) off
      by (simp add: rewrite_def ce_def[symmetric] hl_def[symmetric] Let_def split: option.split sum.split)
    show ?thesis
    proof (cases "ce + length blk \<le> length dst")
      case False
      then show ?thesis using we len by (intro exI[of _ d']) (simp add: body out)
    next
      case fits: True
      have d2: "overwrite ce blk ?d1 = overwrite 12 (cs @ blk) dst"
        using overwrite_append[of 12 cs blk dst] len fits by simp
      have l2: "length (overwrite 12 (cs @ blk) dst) = length dst" using len fits by simp
      have he: "(ce < ce + length blk) = (blk \<noteq> [])" by simp
      have lo: "length out = ce + length blk + length pl" using len by (simp add: out)
      show ?thesis
      proof (cases "length out \<le> length dst")
        case False
        then show ?thesis using we(1) fits lo d2 l2 by (intro exI[of _ "overwrite 12 (cs @ blk) dst"]) (simp add: body)
      next
        case True
        have d3: "overwrite (ce + length blk) pl (overwrite 12 (cs @ blk) dst) = overwrite 12 (cs @ blk @ pl) dst"
          using overwrite_append[of 12 "cs @ blk" pl dst] len lo True by simp
        have d4: "overwrite 0 fx (overwrite 12 (cs @ blk @ pl) dst) = overwrite 0 out dst"
          using overwrite_prepend[of 0 fx "cs @ blk @ pl" dst] len lo True by (simp add: out)
        have c3: "copy_into (overwrite 12 (cs @ blk) dst) (ce + length blk) pl = Some (overwrite 12 (cs @ blk @ pl) dst)"
          using copy_into_overwrite[of "ce + length blk" pl] l2 lo True d3 by simp
        have l3: "length (overwrite 12 (cs @ blk @ pl) dst) = length dst" using len lo True by simp
        have wf: "write_fixed src hdr pt (blk \<noteq> []) (rh_sequence_number hdr + so) (rh_timestamp hdr + to)
            (rw_out_ssrc (sb_rewrite sub)) (overwrite 12 (cs @ blk @ pl) dst) = Some (overwrite 0 out dst)"
          using write_fixed_eq[of "overwrite 12 (cs @ blk @ pl) dst" src] b l3 d4 lo True len
          by (simp add: fx_def)
        show ?thesis using we(1) fits True l2 c3 wf he lo d2 by (intro exI[of _ dst]) (simp add: body)
      qed
    qed
  qed
qed

section \<open>A rewritten packet parses\<close>

lemma first_byte_fields:
  fixes a cc :: u8 and x :: bool
  assumes "cc = c AND 0x0F"
  defines "b \<equiv> 0x80 OR (a AND 0x20) OR (if x then 0x10 else 0) OR cc"
  shows "drop_bit 6 b AND 3 = 2" "bit b 5 = bit a 5" "bit b 4 = x" "b AND 0x0F = cc"
proof -
  have l8: "n < 8 \<Longrightarrow> n = 0 \<or> n = 1 \<or> n = 2 \<or> n = 3 \<or> n = 4 \<or> n = 5 \<or> n = 6 \<or> n = 7" for n :: nat
    by auto
  show "drop_bit 6 b AND 3 = 2"
    unfolding b_def assms(1) u8_masks by (rule bit_word_eqI) (auto simp: bit_simps dest!: l8)
  show "bit b 5 = bit a 5" "bit b 4 = x"
    unfolding b_def assms(1) u8_masks by (auto simp: bit_simps)
  show "b AND 0x0F = cc"
    unfolding b_def assms(1) u8_masks by (rule bit_word_eqI) (auto simp: bit_simps dest!: l8)
qed

lemma second_byte_fields:
  fixes a pt :: u8
  assumes "pt \<le> 127"
  shows "bit ((a AND 0x80) OR pt) 7 = bit a 7" "((a AND 0x80) OR pt) AND 0x7F = pt"
proof -
  have l8: "n < 8 \<Longrightarrow> n = 0 \<or> n = 1 \<or> n = 2 \<or> n = 3 \<or> n = 4 \<or> n = 5 \<or> n = 6 \<or> n = 7" for n :: nat
    by auto
  have "unat pt < 2 ^ 7" using assms by (simp add: word_le_nat_alt)
  then have pt: "pt = take_bit 7 pt"
    by (simp add: take_bit_eq_mod word_unat_eq_iff unat_mod)
  have "bit ((a AND push_bit 7 1) OR take_bit 7 pt) 7 = bit a 7"
    "((a AND push_bit 7 1) OR take_bit 7 pt) AND mask 7 = take_bit 7 pt"
    by (simp add: bit_simps) (rule bit_word_eqI, auto simp: bit_simps dest!: l8)
  then show "bit ((a AND 0x80) OR pt) 7 = bit a 7" "((a AND 0x80) OR pt) AND 0x7F = pt"
    unfolding u8_masks(2,4) pt[symmetric] .
qed

text \<open>The parser on a packet put together from its parts.\<close>

lemma rtp_parse_built:
  assumes fx: "fx = out_fixed src cc pt (blk \<noteq> []) sq ts ssrc" and cc: "cc = c AND 0x0F" and pt: "pt \<le> 127"
    and cs: "length cs = 4 * unat cc"
    and blk: "blk \<noteq> [] \<Longrightarrow> \<exists>pro words. blk = to_be16 pro @ to_be16 words @ drop 4 blk \<and> length blk = 4 + unat words * 4"
    and small: "12 + length cs + length blk \<le> 65535"
    and pad: "if bit (src ! 0) 5 then pl \<noteq> [] \<and> pad = last pl \<and> pad \<noteq> 0 \<and> unat pad \<le> length pl else pad = 0"
  shows "rtp_parse (fx @ cs @ blk @ pl) = Some (Inr \<lparr>rh_version = 2, rh_padding = bit (src ! 0) 5,
    rh_extension = (blk \<noteq> []), rh_csrc_count = cc, rh_marker = bit (src ! 1) 7, rh_payload_type = pt,
    rh_sequence_number = sq, rh_timestamp = ts, rh_ssrc = ssrc,
    rh_header_len = of_nat (12 + length cs + length blk), rh_padding_len = pad\<rparr>)"
proof -
  let ?d = "fx @ cs @ blk @ pl"
  have len: "length fx = 12" by (simp add: fx)
  have nth: "?d ! i = fx ! i" if "i < 12" for i using that len by (simp add: nth_append)
  have bytes: "fx ! 0 = 0x80 OR (src ! 0 AND 0x20) OR (if blk \<noteq> [] then 0x10 else 0) OR cc"
    "fx ! 1 = (src ! 1 AND 0x80) OR pt" "be16 (fx ! 2) (fx ! 3) = sq"
    "be32 (fx ! 4) (fx ! 5) (fx ! 6) (fx ! 7) = ts" "be32 (fx ! 8) (fx ! 9) (fx ! 10) (fx ! 11) = ssrc"
    by (simp_all add: fx out_fixed_def to_be16_def to_be32_def)
  note f = first_byte_fields[OF cc, of "src ! 0" "blk \<noteq> []"] and g = second_byte_fields[OF pt, of "src ! 1"]
  have d0: "?d ! 0 = fx ! 0" and d1: "?d ! 1 = fx ! 1" using nth[of 0] nth[of 1] by simp_all
  have x: "(drop_bit 4 (?d ! 0) AND 1 \<noteq> 0) = (blk \<noteq> [])" and p: "(drop_bit 5 (?d ! 0) AND 1 \<noteq> 0) = bit (src ! 0) 5"
    unfolding and_one_bit d0 bytes(1) by (fact f(3), fact f(2))
  have ce: "csrc_end ?d = 12 + length cs" unfolding csrc_end_def d0 bytes(1) f(4) using cs by simp
  let ?hl = "12 + length cs + length blk"
  have ext: "rtp_ext_end ?d (blk \<noteq> []) (12 + length cs) = Some (Inr ?hl)"
  proof (cases "blk = []")
    case True
    then show ?thesis by (simp add: rtp_ext_end_iff)
  next
    case False
    then obtain pro words where b: "blk = to_be16 pro @ to_be16 words @ drop 4 blk" "length blk = 4 + unat words * 4"
      using blk by blast
    have "u16_at ?d (12 + length cs + 2) = u16_at (to_be16 words @ drop 4 blk @ pl) 0"
      using u16_at_shift[of "12 + length cs + 2" "fx @ cs @ to_be16 pro" "to_be16 words @ drop 4 blk @ pl" 0] len
      by (subst b(1)) simp
    also have "\<dots> = Some words" using u16_at_append[of "[]"] by simp
    finally have "u16_at ?d (12 + length cs + 2) = Some words" .
    then show ?thesis using False b(2) small len
      by (simp add: rtp_ext_end_def Let_def MAX_HEADER_LEN_BYTES_def)
  qed
  have "last ?d = last pl" if "pl \<noteq> []" using that by simp
  then have pl: "rtp_padding_len ?d (bit (src ! 0) 5) ?hl = Some (Inr pad)"
    using pad len by (auto simp: rtp_padding_len_iff split: if_splits)
  have "rtp_parse ?d = Some (Inr (rtp_fields ?d ?hl pad))"
    unfolding rtp_parse_Inr_iff x p ce using ext pl f(1) len by (simp add: d0 bytes(1))
  moreover have "rtp_fields ?d ?hl pad = \<lparr>rh_version = 2, rh_padding = bit (src ! 0) 5,
    rh_extension = (blk \<noteq> []), rh_csrc_count = cc, rh_marker = bit (src ! 1) 7, rh_payload_type = pt,
    rh_sequence_number = sq, rh_timestamp = ts, rh_ssrc = ssrc,
    rh_header_len = of_nat (12 + length cs + length blk), rh_padding_len = pad\<rparr>"
    unfolding rtp_fields_def x p unfolding and_one_bit d0 d1 bytes(1,2) f g using bytes(3-5) by (simp add: nth)
  ultimately show ?thesis by simp
qed

text \<open>
  What a subscription's maps satisfy once its command was accepted: payload
  types of 7 bits, extension identifiers of the one-byte form, a
  \<^verbatim>\<open>MidValue\<close>.
\<close>

definition sub_maps_ok :: "subscription \<Rightarrow> bool" where
  "sub_maps_ok sub \<longleftrightarrow> pt_map_ok (sb_pt_map sub) \<and> ext_map_is_valid (sb_ext_map sub) \<and>
     length (em_map (sb_ext_map sub)) = 15 \<and> sb_mid sub \<noteq> [] \<and> length (sb_mid sub) \<le> MID_CAPACITY"

lemma out_elements_ok: "sub_maps_ok sub \<Longrightarrow> \<forall>p\<in>set (out_elements sub es). one_byte_ok p"
proof
  fix p assume ok: "sub_maps_ok sub" and p: "p \<in> set (out_elements sub es)"
  have le: "i \<in> set (em_map (sb_ext_map sub)) \<union> {em_mid (sb_ext_map sub)} \<Longrightarrow> i \<noteq> 0 \<Longrightarrow> 1 \<le> unat i \<and> unat i \<le> 14" for i
    using ok by (auto simp: sub_maps_ok_def ext_map_is_valid_iff word_le_nat_alt Suc_le_eq unat_gt_0)
  show "one_byte_ok p"
  proof (cases "p \<in> set (List.map_filter (mapped_element sub) es)")
    case True
    then obtain e where "mapped_element sub e = Some p" by (auto simp: List.map_filter_def)
    then have e: "\<not> skip_element sub e" "p = (em_map (sb_ext_map sub) ! unat (elem_id e), elem_data e)"
      "elem_data e \<noteq> []" "em_map (sb_ext_map sub) ! unat (elem_id e) \<noteq> 0"
      by (auto simp: mapped_element_def Let_def split: if_splits)
    then have "em_map (sb_ext_map sub) ! unat (elem_id e) \<in> set (em_map (sb_ext_map sub))"
      by (auto simp: skip_element_def intro: nth_mem)
    with le e show ?thesis by (auto simp: one_byte_ok_def skip_element_def)
  next
    case False
    with p have "p = (em_mid (sb_ext_map sub), sb_mid sub)" "em_mid (sb_ext_map sub) \<noteq> 0"
      by (auto simp: out_elements_def split: if_splits)
    with ok le show ?thesis by (auto simp: one_byte_ok_def sub_maps_ok_def MID_CAPACITY_def MAX_ONE_BYTE_LEN_def)
  qed
qed

lemma length_out_elements: "length (out_elements sub es) \<le> length es + 1"
  by (simp add: out_elements_def List.map_filter_def) (meson le_SucI length_filter_le)

lemma length_enc_elements: "\<forall>p\<in>set out. one_byte_ok p \<Longrightarrow> length (enc_elements out) \<le> 17 * length out"
  by (induction out) (auto simp: one_byte_ok_def MAX_ONE_BYTE_LEN_def)

lemma ext_block_parts:
  assumes "\<forall>p\<in>set out. one_byte_ok p" "length out \<le> 17" "out \<noteq> []"
  shows "\<exists>words. ext_block out = to_be16 0xBEDE @ to_be16 words @ drop 4 (ext_block out) \<and>
    length (ext_block out) = 4 + unat words * 4 \<and> unat words \<le> 73"
proof -
  let ?w = "(length (enc_elements out) + 3) div 4"
  have "?w \<le> 73" using length_enc_elements[OF assms(1)] assms(2) by simp
  then have w: "unat (of_nat ?w :: u16) = ?w" by (simp add: unat_of_nat)
  have "ext_block out = to_be16 0xBEDE @ to_be16 (of_nat ?w) @ enc_elements out @ replicate (?w * 4 - length (enc_elements out)) 0"
    using assms(3) by (simp add: ext_block_def Let_def)
  moreover have "length (enc_elements out) \<le> ?w * 4" by arith
  ultimately show ?thesis using w \<open>?w \<le> 73\<close> by (intro exI[of _ "of_nat ?w"]) simp
qed

lemma parsed_padding:
  assumes "rtp_parse src = Some (Inr hdr)"
  shows "if bit (src ! 0) 5 then drop (unat (rh_header_len hdr)) src \<noteq> [] \<and>
      rh_padding_len hdr = last (drop (unat (rh_header_len hdr)) src) \<and> rh_padding_len hdr \<noteq> 0 \<and>
      unat (rh_padding_len hdr) \<le> length (drop (unat (rh_header_len hdr)) src)
    else rh_padding_len hdr = 0"
proof -
  obtain hl pl where h: "rtp_padding_len src (bit (src ! 0) 5) hl = Some (Inr pl)" "hdr = rtp_fields src hl pl"
    and e: "rtp_ext_end src (bit (src ! 0) 4) (csrc_end src) = Some (Inr hl)"
    using assms unfolding rtp_parse_Inr_iff and_one_bit by blast
  have "hl \<le> 65535" using e csrc_end_max[of src] by (auto simp: rtp_ext_end_iff MAX_HEADER_LEN_BYTES_def split: if_splits)
  then have "unat (rh_header_len hdr) = hl" by (simp add: h(2) rtp_fields_def unat_of_nat)
  then show ?thesis using h by (auto simp: rtp_padding_len_iff rtp_fields_def split: if_splits)
qed

text \<open>The header of the rewritten packet.\<close>

definition out_header :: "rtp_header \<Rightarrow> u32 \<Rightarrow> u8 \<Rightarrow> nat \<Rightarrow> u16 \<Rightarrow> u32 \<Rightarrow> rtp_header" where
  "out_header hdr ssrc pt blk_len sq ts = hdr\<lparr>rh_extension := (blk_len \<noteq> 0), rh_payload_type := pt,
     rh_sequence_number := sq, rh_timestamp := ts, rh_ssrc := ssrc,
     rh_header_len := of_nat (12 + 4 * unat (rh_csrc_count hdr) + blk_len)\<rparr>"

lemma out_packet_parses:
  assumes p: "rtp_parse src = Some (Inr hdr)" and ok: "sub_maps_ok sub" and pt: "pt \<le> 127"
    and es: "length es \<le> MAX_ELEMENTS"
  shows "rtp_parse (out_packet src hdr sub pt es sq ts) = Some (Inr
    (out_header hdr (rw_out_ssrc (sb_rewrite sub)) pt (length (ext_block (out_elements sub es))) sq ts))"
proof -
  let ?out = "out_elements sub es" and ?cc = "rh_csrc_count hdr"
  let ?blk = "ext_block ?out" and ?cs = "take (4 * unat ?cc) (drop 12 src)"
  obtain hl pl where f: "hdr = rtp_fields src hl pl" "csrc_end src \<le> length src" "12 \<le> length src" "drop_bit 6 (src ! 0) AND 3 = 2"
    using p unfolding rtp_parse_Inr_iff by blast
  have cc: "?cc = src ! 0 AND 0x0F" using f by (simp add: rtp_fields_def)
  have cs: "length ?cs = 4 * unat ?cc" using f by (simp add: csrc_end_def rtp_fields_def)
  have "unat ?cc \<le> 15" using csrc_end_max[of src] by (simp add: cc csrc_end_def)
  have len: "length ?out \<le> 17" using length_out_elements[of sub es] es by (simp add: MAX_ELEMENTS_def)
  have b0: "ext_block [] = []" by (simp add: ext_block_def)
  have b: "\<exists>pro words. ?blk = to_be16 pro @ to_be16 words @ drop 4 ?blk \<and> length ?blk = 4 + unat words * 4" "length ?blk \<le> 296"
    if "?blk \<noteq> []"
    using ext_block_parts[OF out_elements_ok[OF ok] len] that b0 by (metis, force)
  have "length ?blk \<le> 296" using b(2) by (cases "?blk = []") auto
  then have small: "12 + length ?cs + length ?blk \<le> 65535" using \<open>unat ?cc \<le> 15\<close> cs by simp
  have "rtp_parse (out_packet src hdr sub pt es sq ts) = Some (Inr \<lparr>rh_version = 2, rh_padding = bit (src ! 0) 5,
    rh_extension = (?blk \<noteq> []), rh_csrc_count = ?cc, rh_marker = bit (src ! 1) 7, rh_payload_type = pt,
    rh_sequence_number = sq, rh_timestamp = ts, rh_ssrc = rw_out_ssrc (sb_rewrite sub),
    rh_header_len = of_nat (12 + length ?cs + length ?blk), rh_padding_len = rh_padding_len hdr\<rparr>)"
    unfolding out_packet_def Let_def
    by (rule rtp_parse_built[OF refl cc pt cs b(1) small parsed_padding[OF p]])
  then show ?thesis
    unfolding cs out_header_def using f(1,4) by (simp add: rtp_fields_def and_one_bit)
qed

text \<open>The extension elements a reader of the rewritten packet finds.\<close>

lemma out_packet_elements:
  fixes sq :: u16 and ts :: u32
  assumes p: "rtp_parse src = Some (Inr hdr)" and ok: "sub_maps_ok sub" and pt: "pt \<le> 127"
    and es: "length es \<le> MAX_ELEMENTS"
  defines "h \<equiv> out_header hdr (rw_out_ssrc (sb_rewrite sub)) pt (length (ext_block (out_elements sub es))) sq ts"
  shows "\<exists>it. elements_of (out_packet src hdr sub pt es sq ts) h = Some it \<and>
    collect_elements it = map (\<lambda>(i, data). \<lparr>elem_id = i, elem_data = data\<rparr>) (take MAX_ELEMENTS (out_elements sub es))"
proof (cases "out_elements sub es = []")
  case True
  then have "elements_of (out_packet src hdr sub pt es sq ts) h = Some elements_empty"
    by (simp add: elements_of_def h_def out_header_def ext_block_def)
  moreover have "collect_elements elements_empty = []"
    using collect_enc[of "[]" 0 "[]" 0] by (simp add: elements_empty_def)
  ultimately show ?thesis using True by simp
next
  case False
  let ?out = "out_elements sub es" and ?o = "out_packet src hdr sub pt es sq ts" and ?blk = "ext_block (out_elements sub es)"
  let ?ce = "12 + 4 * unat (rh_csrc_count hdr)" and ?body = "enc_elements (out_elements sub es)"
  let ?w = "(length ?body + 3) div 4"
  let ?z = "replicate (?w * 4 - length ?body) (0 :: u8)"
  have len: "length ?out \<le> 17" using length_out_elements[of sub es] es by (simp add: MAX_ELEMENTS_def)
  obtain words where w: "length ?blk = 4 + unat (words :: u16) * 4" "unat words \<le> 73"
    using ext_block_parts[OF out_elements_ok[OF ok] len False] by blast
  have blk: "?blk = to_be16 0xBEDE @ to_be16 (of_nat ?w) @ ?body @ ?z" using False by (simp add: ext_block_def Let_def)
  have hl: "rtp_parse ?o = Some (Inr h)" unfolding h_def by (rule out_packet_parses[OF p ok pt es])
  obtain a c where o: "?o = a @ ?blk @ c" "length a = ?ce"
  proof -
    have "csrc_end src \<le> length src" "rh_csrc_count hdr = src ! 0 AND 0x0F"
      using p unfolding rtp_parse_Inr_iff by (auto simp: rtp_fields_def)
    then show ?thesis using that[of "out_fixed src (rh_csrc_count hdr) pt (?blk \<noteq> []) sq ts (rw_out_ssrc (sb_rewrite sub)) @
      take (4 * unat (rh_csrc_count hdr)) (drop 12 src)" "drop (unat (rh_header_len hdr)) src"]
      by (simp add: out_packet_def Let_def csrc_end_def)
  qed
  have "unat (rh_csrc_count hdr) \<le> 15" using csrc_end_max[of src] p unfolding rtp_parse_Inr_iff by (auto simp: rtp_fields_def csrc_end_def)
  then have "?ce + length ?blk < 65536" using w by simp
  then have "unat (of_nat (?ce + length ?blk) :: u16) = ?ce + length ?blk" by (subst unat_of_nat) simp
  then have lim: "unat (rh_header_len h) = ?ce + length ?blk"
    unfolding h_def out_header_def by (simp del: of_nat_add of_nat_mult)
  have "u16_at ?o ?ce = Some 0xBEDE" unfolding o(1) blk o(2)[symmetric] using u16_at_append[of a "0xBEDE"] by simp
  moreover have "sub_slice ?o (?ce + 4) (?ce + length ?blk) = Some (?body @ ?z)"
    unfolding o(1) using o(2) blk by (simp add: sub_slice_eq_Some_iff)
  moreover have "rh_extension h" "rh_csrc_count h = rh_csrc_count hdr" using w by (simp_all add: h_def out_header_def)
  moreover have "length ?o \<ge> ?ce + length ?blk" using o by simp
  ultimately have "elements_of ?o h = Some \<lparr>el_block = ?body @ ?z, el_at = 0, el_two_byte = False, el_seen = 0\<rparr>"
    using lim w by (simp add: elements_of_def)
  moreover have "collect_elements \<lparr>el_block = ?body @ ?z, el_at = 0, el_two_byte = False, el_seen = 0\<rparr> =
    map (\<lambda>(i, data). \<lparr>elem_id = i, elem_data = data\<rparr>) (take MAX_ELEMENTS ?out)"
    using collect_enc[OF out_elements_ok[OF ok], of 0 "[]"] by (simp add: enc_elements_def)
  ultimately show ?thesis by blast
qed

text \<open>CSRCs and payload, padding included, are those of the packet received.\<close>

lemma out_packet_copied:
  fixes sq :: u16 and ts :: u32
  assumes p: "rtp_parse src = Some (Inr hdr)" and ok: "sub_maps_ok sub" and pt: "pt \<le> 127"
    and es: "length es \<le> MAX_ELEMENTS"
  defines "h \<equiv> out_header hdr (rw_out_ssrc (sb_rewrite sub)) pt (length (ext_block (out_elements sub es))) sq ts"
    and "n \<equiv> 4 * unat (rh_csrc_count hdr)"
  shows "take n (drop 12 (out_packet src hdr sub pt es sq ts)) = take n (drop 12 src)"
    and "drop (unat (rh_header_len h)) (out_packet src hdr sub pt es sq ts) = drop (unat (rh_header_len hdr)) src"
proof -
  let ?out = "out_elements sub es" and ?blk = "ext_block (out_elements sub es)"
  obtain hl pl where f: "hdr = rtp_fields src hl pl" "csrc_end src \<le> length src"
    using p unfolding rtp_parse_Inr_iff by blast
  have cs: "12 + n \<le> length src" "n \<le> 60" using f csrc_end_max[of src] by (simp_all add: n_def csrc_end_def rtp_fields_def)
  have len: "length ?out \<le> 17" using length_out_elements[of sub es] es by (simp add: MAX_ELEMENTS_def)
  have "length ?blk \<le> 296"
    using ext_block_parts[OF out_elements_ok[OF ok] len] by (cases "?out = []") (force simp: ext_block_def)+
  then have "12 + n + length ?blk < 65536" using cs by simp
  then have "unat (of_nat (12 + n + length ?blk) :: u16) = 12 + n + length ?blk" by (subst unat_of_nat) simp
  then have hl: "unat (rh_header_len h) = 12 + n + length ?blk"
    unfolding h_def out_header_def n_def by (simp del: of_nat_add of_nat_mult)
  show "take n (drop 12 (out_packet src hdr sub pt es sq ts)) = take n (drop 12 src)"
    using cs by (simp add: out_packet_def Let_def n_def[symmetric])
  show "drop (unat (rh_header_len h)) (out_packet src hdr sub pt es sq ts) = drop (unat (rh_header_len hdr)) src"
    unfolding hl using cs by (simp add: out_packet_def Let_def n_def[symmetric])
qed

text \<open>The advance of a packet: \<^verbatim>\<open>offsets\<close> applied to its header.\<close>

definition advance_of :: "rewrite_state \<Rightarrow> rtp_header \<Rightarrow> u32 \<Rightarrow> u64 \<Rightarrow> instant \<Rightarrow> advance \<times> u64" where
  "advance_of st hdr rate rng now = (let ((so, to, rb), rng') = offsets st hdr rate rng now in
     (\<lparr>ad_seq_offset = so, ad_ts_offset = to, ad_in_seq = rh_sequence_number hdr,
       ad_out_seq = rh_sequence_number hdr + so, ad_out_ts = rh_timestamp hdr + to, ad_rebased = rb\<rparr>, rng'))"

text \<open>What \<^verbatim>\<open>rewrite\<close> did with a packet.\<close>

definition rewritten :: "bytes \<Rightarrow> rtp_header \<Rightarrow> subscription \<Rightarrow> advance \<Rightarrow> bytes \<Rightarrow> bool" where
  "rewritten src hdr sub ad out \<longleftrightarrow> (\<exists>es pt h it.
     elements_of src hdr = Some es \<and> pt_map_map (sb_pt_map sub) (rh_payload_type hdr) = Some pt \<and>
     rtp_parse out = Some (Inr h) \<and>
     h = out_header hdr (rw_out_ssrc (sb_rewrite sub)) pt (length (ext_block (out_elements sub (collect_elements es))))
       (ad_out_seq ad) (ad_out_ts ad) \<and>
     take (4 * unat (rh_csrc_count hdr)) (drop 12 out) = take (4 * unat (rh_csrc_count hdr)) (drop 12 src) \<and>
     drop (unat (rh_header_len h)) out = drop (unat (rh_header_len hdr)) src \<and>
     elements_of out h = Some it \<and>
     map (\<lambda>e. (elem_id e, elem_data e)) (collect_elements it) =
       take MAX_ELEMENTS (out_elements sub (collect_elements es)))"

lemma rewrite_total:
  assumes p: "rtp_parse src = Some (Inr hdr)" and ok: "sub_maps_ok sub"
  obtains (unmapped) "pt_map_map (sb_pt_map sub) (rh_payload_type hdr) = None"
      "rewrite src hdr sub rng now dst = Some (Inl UnmappedPt, dst, rng)"
  | (too_large) dst' where "length dst' = length dst" "rewrite src hdr sub rng now dst = Some (Inl TooLarge, dst', rng)"
  | (written) out ad rng' where "length out \<le> length dst" "advance_of (sb_rewrite sub) hdr (sb_clock_rate sub) rng now = (ad, rng')"
      "rewrite src hdr sub rng now dst = Some (Inr (length out, ad), overwrite 0 out dst, rng')" "rewritten src hdr sub ad out"
proof -
  obtain es where es: "elements_of src hdr = Some es" "el_seen es = 0" using elements_of_total by blast
  then have le: "length (collect_elements es) \<le> MAX_ELEMENTS" using collect_elements_length[of es] by simp
  obtain so to rb rng' where off: "offsets (sb_rewrite sub) hdr (sb_clock_rate sub) rng now = ((so, to, rb), rng')"
    by (metis prod.exhaust)
  show ?thesis
  proof (cases "pt_map_map (sb_pt_map sub) (rh_payload_type hdr)")
    case None
    then show ?thesis using unmapped rewrite_unmapped by blast
  next
    case (Some pt)
    then have pt: "pt \<le> 127" using ok pt_map_map_iff by (fastforce simp: sub_maps_ok_def pt_map_ok_def)
    let ?sq = "rh_sequence_number hdr + so" and ?ts = "rh_timestamp hdr + to"
    let ?out = "out_packet src hdr sub pt (collect_elements es) ?sq ?ts"
    let ?ad = "\<lparr>ad_seq_offset = so, ad_ts_offset = to, ad_in_seq = rh_sequence_number hdr,
      ad_out_seq = ?sq, ad_out_ts = ?ts, ad_rebased = rb\<rparr>"
    obtain it where it: "elements_of ?out (out_header hdr (rw_out_ssrc (sb_rewrite sub)) pt
        (length (ext_block (out_elements sub (collect_elements es)))) ?sq ?ts) = Some it"
      "collect_elements it = map (\<lambda>(i, data). \<lparr>elem_id = i, elem_data = data\<rparr>)
        (take MAX_ELEMENTS (out_elements sub (collect_elements es)))"
      using out_packet_elements[OF p ok pt le] by blast
    have "map (\<lambda>e. (elem_id e, elem_data e)) (collect_elements it) = take MAX_ELEMENTS (out_elements sub (collect_elements es))"
      unfolding it(2) by (simp add: case_prod_beta comp_def)
    then have w: "rewritten src hdr sub ?ad ?out"
      unfolding rewritten_def using es(1) Some out_packet_parses[OF p ok pt le] out_packet_copied[OF p ok pt le] it(1) by fastforce
    obtain dst' where "length dst' = length dst" "rewrite src hdr sub rng now dst =
      (if length ?out \<le> length dst then Some (Inr (length ?out, ?ad), overwrite 0 ?out dst, rng')
       else Some (Inl TooLarge, dst', rng))"
      using rewrite_eq[OF p es(1) Some off] by metis
    then show ?thesis using too_large written[OF _ _ _ w] off by (cases "length ?out \<le> length dst") (auto simp: advance_of_def)
  qed
qed

section \<open>The outgoing sequence\<close>

text \<open>The newest packet sent is the newest packet received, moved by the current offset.\<close>

definition rw_ok :: "rewrite_state \<Rightarrow> bool" where
  "rw_ok st \<longleftrightarrow> (rw_started st \<longrightarrow> rw_last_out_seq st = rw_last_in_seq st + rw_seq_offset st \<and> rw_last_out_at st \<noteq> None)"

lemma rw_ok_new: "rw_ok (rewrite_state_new ssrc)"
  by (simp add: rw_ok_def rewrite_state_new_def)

lemma advance_cases:
  assumes "rw_ok st" "advance_of st hdr rate rng now = (ad, rng')"
  obtains (first) "\<not> rw_started st" "\<not> ad_rebased ad"
  | (in_step) "rw_started st" "\<not> ad_rebased ad" "ad_seq_offset ad = rw_seq_offset st" "ad_ts_offset ad = rw_ts_offset st"
      "ad_out_seq ad - rw_last_out_seq st = rh_sequence_number hdr - rw_last_in_seq st"
      "- REORDER_LIMIT \<le> sint (rh_sequence_number hdr - rw_last_in_seq st)"
      "sint (rh_sequence_number hdr - rw_last_in_seq st) \<le> REBASE_GAP"
  | (rebase) "rw_started st" "ad_rebased ad" "ad_out_seq ad = rw_last_out_seq st + 1"
      "ad_out_ts ad = rw_last_out_ts st + rebase_step st rate now"
  using assms unfolding advance_of_def offsets_def rw_ok_def
  by (auto simp: Let_def split: prod.splits if_splits)

lemma advance_fields: "advance_of st hdr rate rng now = (ad, rng') \<Longrightarrow>
   ad_in_seq ad = rh_sequence_number hdr \<and> ad_out_seq ad = rh_sequence_number hdr + ad_seq_offset ad"
  by (auto simp: advance_of_def split: prod.splits)

lemma commit_ok:
  assumes "rw_ok st" "advance_of st hdr rate rng now = (ad, rng')"
  shows "rw_ok (commit st ad now)" "rw_started (commit st ad now)" "rw_out_ssrc (commit st ad now) = rw_out_ssrc st"
  using assms(1) advance_fields[OF assms(2)]
  by (cases rule: advance_cases[OF assms]; auto simp: commit_def Let_def rw_ok_def)+

text \<open>Every packet after the first stays near the newest packet sent.\<close>

lemma advance_bounded:
  assumes "rw_ok st" "advance_of st hdr rate rng now = (ad, rng')" "rw_started st"
  shows "- REORDER_LIMIT \<le> sint (ad_out_seq ad - rw_last_out_seq st)"
    "sint (ad_out_seq ad - rw_last_out_seq st) \<le> REBASE_GAP"
  using assms(1,2) by (rule advance_cases; use assms(3) in \<open>simp add: REORDER_LIMIT_def REBASE_GAP_def\<close>)+

text \<open>
  The packets one subscription sends: for each the state's newest outgoing
  sequence number before it, whether there was one, and its own.
\<close>

fun rw_stream :: "rewrite_state \<Rightarrow> u32 \<Rightarrow> u64 \<Rightarrow> (rtp_header \<times> instant) list \<Rightarrow> (bool \<times> u16 \<times> u16) list" where
  "rw_stream st rate rng [] = []"
| "rw_stream st rate rng ((hdr, now) # ps) = (let (ad, rng') = advance_of st hdr rate rng now in
     (rw_started st, rw_last_out_seq st, ad_out_seq ad) # rw_stream (commit st ad now) rate rng' ps)"

lemma rw_stream_bounded:
  "rw_ok st \<Longrightarrow> (True, newest, out) \<in> set (rw_stream st rate rng ps) \<Longrightarrow>
   - REORDER_LIMIT \<le> sint (out - newest) \<and> sint (out - newest) \<le> REBASE_GAP"
proof (induction st rate rng ps rule: rw_stream.induct)
  case (2 st rate rng hdr now ps)
  obtain ad rng' where ad: "advance_of st hdr rate rng now = (ad, rng')" by fastforce
  show ?case
  proof (cases "(True, newest, out) \<in> set (rw_stream (commit st ad now) rate rng' ps)")
    case True
    show ?thesis by (rule "2.IH"[OF ad[symmetric] refl commit_ok(1)[OF "2.prems"(1) ad] True])
  next
    case False
    then show ?thesis using "2.prems" advance_bounded[OF "2.prems"(1) ad] ad by auto
  qed
qed simp

text \<open>A stream that never leaves its step and never pauses is shifted by one constant.\<close>

definition gentle :: "rewrite_state \<Rightarrow> rtp_header \<Rightarrow> instant \<Rightarrow> bool" where
  "gentle st hdr now \<longleftrightarrow> - REORDER_LIMIT \<le> sint (rh_sequence_number hdr - rw_last_in_seq st) \<and>
     sint (rh_sequence_number hdr - rw_last_in_seq st) \<le> REBASE_GAP \<and>
     (\<forall>at. rw_last_out_at st = Some at \<longrightarrow> since now at < REBASE_IDLE)"

lemma advance_gentle:
  assumes "rw_started st" "gentle st hdr now"
  shows "advance_of st hdr rate rng now =
    (\<lparr>ad_seq_offset = rw_seq_offset st, ad_ts_offset = rw_ts_offset st, ad_in_seq = rh_sequence_number hdr,
      ad_out_seq = rh_sequence_number hdr + rw_seq_offset st, ad_out_ts = rh_timestamp hdr + rw_ts_offset st,
      ad_rebased = False\<rparr>, rng)"
  using assms by (auto simp: advance_of_def offsets_def gentle_def Let_def split: option.splits)

end
