(* ===== verification/Stun_Attr.thy ===== *)
theory Stun_Attr
  imports Plane_Types
begin

text \<open>
  STUN attributes, \<^verbatim>\<open>nexus-transport/src/ice/stun/attributes.rs\<close>: the
  attribute type with its parser and its encoder, and the two address formats.
  An encoder writes into a slice; the model returns the slice after the
  writes.  A fixed array with a length byte keeps both, as in the source, so
  a length byte beyond the array is a panic here too.

  The lemmas give the exact bytes each encoder writes, and that the parser
  reads every well-formed attribute back from them.
\<close>

section \<open>Types and constants\<close>

definition STUN_MAGIC_COOKIE :: u32 where "STUN_MAGIC_COOKIE = 0x2112A442"

definition ATTR_MAPPED_ADDRESS :: u16 where "ATTR_MAPPED_ADDRESS = 0x0001"
definition ATTR_USERNAME :: u16 where "ATTR_USERNAME = 0x0006"
definition ATTR_MESSAGE_INTEGRITY :: u16 where "ATTR_MESSAGE_INTEGRITY = 0x0008"
definition ATTR_ERROR_CODE :: u16 where "ATTR_ERROR_CODE = 0x0009"
definition ATTR_REALM :: u16 where "ATTR_REALM = 0x0014"
definition ATTR_NONCE :: u16 where "ATTR_NONCE = 0x0015"
definition ATTR_XOR_MAPPED_ADDRESS :: u16 where "ATTR_XOR_MAPPED_ADDRESS = 0x0020"
definition ATTR_PRIORITY :: u16 where "ATTR_PRIORITY = 0x0024"
definition ATTR_USE_CANDIDATE :: u16 where "ATTR_USE_CANDIDATE = 0x0025"
definition ATTR_FINGERPRINT :: u16 where "ATTR_FINGERPRINT = 0x8028"
definition ATTR_ICE_CONTROLLED :: u16 where "ATTR_ICE_CONTROLLED = 0x8029"
definition ATTR_ICE_CONTROLLING :: u16 where "ATTR_ICE_CONTROLLING = 0x802A"
definition ATTR_CHANNEL_NUMBER :: u16 where "ATTR_CHANNEL_NUMBER = 0x000C"
definition ATTR_LIFETIME :: u16 where "ATTR_LIFETIME = 0x000D"
definition ATTR_XOR_PEER_ADDRESS :: u16 where "ATTR_XOR_PEER_ADDRESS = 0x0012"
definition ATTR_DATA :: u16 where "ATTR_DATA = 0x0013"
definition ATTR_XOR_RELAYED_ADDRESS :: u16 where "ATTR_XOR_RELAYED_ADDRESS = 0x0016"
definition ATTR_REQUESTED_TRANSPORT :: u16 where "ATTR_REQUESTED_TRANSPORT = 0x0019"

lemmas attr_codes = ATTR_MAPPED_ADDRESS_def ATTR_USERNAME_def ATTR_MESSAGE_INTEGRITY_def ATTR_ERROR_CODE_def
  ATTR_REALM_def ATTR_NONCE_def ATTR_XOR_MAPPED_ADDRESS_def ATTR_PRIORITY_def ATTR_USE_CANDIDATE_def
  ATTR_FINGERPRINT_def ATTR_ICE_CONTROLLED_def ATTR_ICE_CONTROLLING_def ATTR_CHANNEL_NUMBER_def
  ATTR_LIFETIME_def ATTR_XOR_PEER_ADDRESS_def ATTR_DATA_def ATTR_XOR_RELAYED_ADDRESS_def
  ATTR_REQUESTED_TRANSPORT_def

definition MAX_USERNAME_LEN :: nat where "MAX_USERNAME_LEN = 128"
definition MAX_REALM_LEN :: nat where "MAX_REALM_LEN = 128"
definition MAX_REASON_LEN :: nat where "MAX_REASON_LEN = 128"
definition MAX_DATA_LEN :: nat where "MAX_DATA_LEN = 1200"

lemmas attr_limits = MAX_USERNAME_LEN_def MAX_REALM_LEN_def MAX_REASON_LEN_def MAX_DATA_LEN_def

text \<open>The STUN part of \<^verbatim>\<open>IceError\<close> that parsing returns.\<close>

datatype ice_error =
    StunTooShort u32 u32
  | StunInvalidHeader
  | StunInvalidMagicCookie u32
  | StunUnknownMethod u16
  | StunInvalidAttribute u16 string

datatype stun_attribute =
    MappedAddress sock_addr
  | Username bytes u8
  | MessageIntegrity bytes
  | ErrorCode u16 bytes u8
  | Realm bytes u8
  | Nonce bytes u8
  | XorMappedAddress sock_addr
  | Priority u32
  | UseCandidate
  | Fingerprint u32
  | IceControlled u64
  | IceControlling u64
  | ChannelNumber u16
  | Lifetime u32
  | XorPeerAddress sock_addr
  | XorRelayedAddress sock_addr
  | Data bytes u16
  | RequestedTransport u8

section \<open>UTF-8\<close>

text \<open>\<^verbatim>\<open>std::str::from_utf8\<close>: the well-formed byte sequences of the Unicode standard.\<close>

definition utf8_cont :: "u8 \<Rightarrow> bool" where
  "utf8_cont b \<longleftrightarrow> 0x80 \<le> b \<and> b \<le> 0xBF"

fun utf8_valid :: "bytes \<Rightarrow> bool" where
  "utf8_valid [] = True"
| "utf8_valid (a # bs) =
     (if a \<le> 0x7F then utf8_valid bs
      else case bs of
        [] \<Rightarrow> False
      | b # cs \<Rightarrow>
          if 0xC2 \<le> a \<and> a \<le> 0xDF then utf8_cont b \<and> utf8_valid cs
          else case cs of
            [] \<Rightarrow> False
          | c # ds \<Rightarrow>
              if 0xE0 \<le> a \<and> a \<le> 0xEF
              then (if a = 0xE0 then 0xA0 \<le> b \<and> b \<le> 0xBF else if a = 0xED then 0x80 \<le> b \<and> b \<le> 0x9F else utf8_cont b) \<and>
                utf8_cont c \<and> utf8_valid ds
              else case ds of
                [] \<Rightarrow> False
              | d # es \<Rightarrow>
                  0xF0 \<le> a \<and> a \<le> 0xF4 \<and>
                  (if a = 0xF0 then 0x90 \<le> b \<and> b \<le> 0xBF else if a = 0xF4 then 0x80 \<le> b \<and> b \<le> 0x8F else utf8_cont b) \<and>
                  utf8_cont c \<and> utf8_cont d \<and> utf8_valid es)"

lemma utf8_ascii: "\<forall>b\<in>set bs. b \<le> 0x7F \<Longrightarrow> utf8_valid (bs @ cs) = utf8_valid cs"
  by (induction bs) simp_all

section \<open>Parsing\<close>

definition xor_bytes :: "bytes \<Rightarrow> bytes \<Rightarrow> bytes" where
  "xor_bytes xs ys = map2 (XOR) xs ys"

definition be32_of :: "bytes \<Rightarrow> u32" where
  "be32_of bs = be32 (bs ! 0) (bs ! 1) (bs ! 2) (bs ! 3)"

definition parse_mapped_address :: "bytes \<Rightarrow> u16 \<Rightarrow> (ice_error + sock_addr) option" where
  "parse_mapped_address d t =
     (if length d < 4 then Some (Inl (StunInvalidAttribute t ''address too short''))
      else do {
        family \<leftarrow> idx d 1;
        port \<leftarrow> u16_at d 2;
        if family = 1 then
          if length d < 8 then Some (Inl (StunInvalidAttribute t ''IPv4 address too short''))
          else do { ip \<leftarrow> u32_at d 4; Some (Inr (SockV4 ip port)) }
        else if family = 2 then
          if length d < 20 then Some (Inl (StunInvalidAttribute t ''IPv6 address too short''))
          else do { ip \<leftarrow> sub_slice d 4 20; Some (Inr (SockV6 (be128 ip) port 0 0)) }
        else Some (Inl (StunInvalidAttribute t ''unknown address family'')) })"

definition xor_key :: "bytes \<Rightarrow> bytes" where
  "xor_key tid = to_be32 STUN_MAGIC_COOKIE @ tid"

definition parse_xor_address :: "bytes \<Rightarrow> bytes \<Rightarrow> u16 \<Rightarrow> (ice_error + sock_addr) option" where
  "parse_xor_address d tid t =
     (if length d < 4 then Some (Inl (StunInvalidAttribute t ''XOR address too short''))
      else do {
        family \<leftarrow> idx d 1;
        xor_port \<leftarrow> u16_at d 2;
        let port = xor_port XOR ucast (drop_bit 16 STUN_MAGIC_COOKIE);
        if family = 1 then
          if length d < 8 then Some (Inl (StunInvalidAttribute t ''XOR IPv4 address too short''))
          else do { ip \<leftarrow> sub_slice d 4 8; Some (Inr (SockV4 (be32_of (xor_bytes ip (to_be32 STUN_MAGIC_COOKIE))) port)) }
        else if family = 2 then
          if length d < 20 then Some (Inl (StunInvalidAttribute t ''XOR IPv6 address too short''))
          else do { ip \<leftarrow> sub_slice d 4 20; Some (Inr (SockV6 (be128 (xor_bytes ip (xor_key tid))) port 0 0)) }
        else Some (Inl (StunInvalidAttribute t ''unknown address family'')) })"

definition sum_map :: "('a \<Rightarrow> 'b) \<Rightarrow> ('e + 'a) option \<Rightarrow> ('e + 'b) option" where
  "sum_map f = map_option (map_sum id f)"

definition parse_address_attribute :: "u16 \<Rightarrow> bytes \<Rightarrow> bytes \<Rightarrow> (ice_error + stun_attribute option) option" where
  "parse_address_attribute t v tid =
     (if t = ATTR_MAPPED_ADDRESS then sum_map (\<lambda>a. Some (MappedAddress a)) (parse_mapped_address v t)
      else if t = ATTR_XOR_MAPPED_ADDRESS then sum_map (\<lambda>a. Some (XorMappedAddress a)) (parse_xor_address v tid t)
      else Some (Inr None))"

text \<open>An array of \<open>n\<close> zero bytes with \<open>v\<close> copied to its start.\<close>

definition array_of :: "nat \<Rightarrow> bytes \<Rightarrow> bytes option" where
  "array_of n v = copy_into (replicate n 0) 0 v"

definition parse_core_attribute :: "u16 \<Rightarrow> bytes \<Rightarrow> (ice_error + stun_attribute option) option" where
  "parse_core_attribute t v =
     (if t = ATTR_USERNAME then
        if length v > MAX_USERNAME_LEN then Some (Inl (StunInvalidAttribute t ''username too long''))
        else if \<not> utf8_valid v then Some (Inl (StunInvalidAttribute t ''username is not UTF-8''))
        else do { buf \<leftarrow> array_of MAX_USERNAME_LEN v; Some (Inr (Some (Username buf (of_nat (length v))))) }
      else if t = ATTR_MESSAGE_INTEGRITY then
        if length v \<noteq> 20 then Some (Inl (StunInvalidAttribute t ''MESSAGE-INTEGRITY must be 20 bytes''))
        else Some (Inr (Some (MessageIntegrity v)))
      else if t = ATTR_ERROR_CODE then
        if length v < 4 then Some (Inl (StunInvalidAttribute t ''ERROR-CODE too short''))
        else do {
          b2 \<leftarrow> idx v 2;
          b3 \<leftarrow> idx v 3;
          let code = ucast (b2 AND 7) * 100 + ucast b3;
          reason_bytes \<leftarrow> sub_slice v 4 (length v);
          let reason_len = min (length reason_bytes) MAX_REASON_LEN;
          reason \<leftarrow> array_of MAX_REASON_LEN (take reason_len reason_bytes);
          Some (Inr (Some (ErrorCode code reason (of_nat reason_len)))) }
      else if t = ATTR_REALM then
        if length v > MAX_REALM_LEN then Some (Inl (StunInvalidAttribute t ''realm too long''))
        else do { buf \<leftarrow> array_of MAX_REALM_LEN v; Some (Inr (Some (Realm buf (of_nat (length v))))) }
      else if t = ATTR_NONCE then
        if length v > MAX_REALM_LEN then Some (Inl (StunInvalidAttribute t ''nonce too long''))
        else do { buf \<leftarrow> array_of MAX_REALM_LEN v; Some (Inr (Some (Nonce buf (of_nat (length v))))) }
      else Some (Inr None))"

definition parse_ice_attribute :: "u16 \<Rightarrow> bytes \<Rightarrow> (ice_error + stun_attribute option) option" where
  "parse_ice_attribute t v =
     (if t = ATTR_PRIORITY then
        if length v \<noteq> 4 then Some (Inl (StunInvalidAttribute t ''PRIORITY must be 4 bytes''))
        else do { p \<leftarrow> u32_at v 0; Some (Inr (Some (Priority p))) }
      else if t = ATTR_USE_CANDIDATE then Some (Inr (Some UseCandidate))
      else if t = ATTR_FINGERPRINT then
        if length v \<noteq> 4 then Some (Inl (StunInvalidAttribute t ''FINGERPRINT must be 4 bytes''))
        else do { p \<leftarrow> u32_at v 0; Some (Inr (Some (Fingerprint p))) }
      else if t = ATTR_ICE_CONTROLLED then
        if length v \<noteq> 8 then Some (Inl (StunInvalidAttribute t ''ICE-CONTROLLED must be 8 bytes''))
        else Some (Inr (Some (IceControlled (be64 v))))
      else if t = ATTR_ICE_CONTROLLING then
        if length v \<noteq> 8 then Some (Inl (StunInvalidAttribute t ''ICE-CONTROLLING must be 8 bytes''))
        else Some (Inr (Some (IceControlling (be64 v))))
      else Some (Inr None))"

definition parse_turn_attribute :: "u16 \<Rightarrow> bytes \<Rightarrow> bytes \<Rightarrow> (ice_error + stun_attribute option) option" where
  "parse_turn_attribute t v tid =
     (if t = ATTR_LIFETIME then
        if length v \<noteq> 4 then Some (Inl (StunInvalidAttribute t ''LIFETIME must be 4 bytes''))
        else do { p \<leftarrow> u32_at v 0; Some (Inr (Some (Lifetime p))) }
      else if t = ATTR_CHANNEL_NUMBER then
        if length v < 2 then Some (Inl (StunInvalidAttribute t ''CHANNEL-NUMBER too short''))
        else do { c \<leftarrow> u16_at v 0; Some (Inr (Some (ChannelNumber c))) }
      else if t = ATTR_XOR_PEER_ADDRESS then sum_map (\<lambda>a. Some (XorPeerAddress a)) (parse_xor_address v tid t)
      else if t = ATTR_XOR_RELAYED_ADDRESS then sum_map (\<lambda>a. Some (XorRelayedAddress a)) (parse_xor_address v tid t)
      else if t = ATTR_REQUESTED_TRANSPORT then
        if v = [] then Some (Inl (StunInvalidAttribute t ''REQUESTED-TRANSPORT empty''))
        else do { p \<leftarrow> idx v 0; Some (Inr (Some (RequestedTransport p))) }
      else if t = ATTR_DATA then
        if length v > MAX_DATA_LEN then Some (Inl (StunInvalidAttribute t ''DATA too large''))
        else do { buf \<leftarrow> array_of MAX_DATA_LEN v; Some (Inr (Some (Data buf (of_nat (length v))))) }
      else Some (Inr None))"

definition attr_parse :: "u16 \<Rightarrow> bytes \<Rightarrow> bytes \<Rightarrow> (ice_error + stun_attribute option) option" where
  "attr_parse t v tid =
     (if length v > MAX_DATA_LEN then Some (Inl (StunInvalidAttribute t ''attribute value too long''))
      else if t \<in> set [ATTR_MAPPED_ADDRESS, ATTR_XOR_MAPPED_ADDRESS] then parse_address_attribute t v tid
      else if t \<in> set [ATTR_USERNAME, ATTR_MESSAGE_INTEGRITY, ATTR_ERROR_CODE, ATTR_REALM, ATTR_NONCE]
      then parse_core_attribute t v
      else if t \<in> set [ATTR_PRIORITY, ATTR_USE_CANDIDATE, ATTR_FINGERPRINT, ATTR_ICE_CONTROLLED, ATTR_ICE_CONTROLLING]
      then parse_ice_attribute t v
      else if t \<in> set [ATTR_LIFETIME, ATTR_CHANNEL_NUMBER, ATTR_XOR_PEER_ADDRESS, ATTR_XOR_RELAYED_ADDRESS,
          ATTR_REQUESTED_TRANSPORT, ATTR_DATA]
      then parse_turn_attribute t v tid
      else Some (Inr None))"

section \<open>Encoding\<close>

definition on_tail :: "nat \<Rightarrow> (bytes \<Rightarrow> ('a \<times> bytes) option) \<Rightarrow> bytes \<Rightarrow> ('a \<times> bytes) option" where
  "on_tail i f buf = do {
     rassert (i \<le> length buf);
     (r, tail') \<leftarrow> f (drop i buf);
     Some (r, take i buf @ tail') }"

definition encode_address :: "sock_addr \<Rightarrow> bytes \<Rightarrow> (nat \<times> bytes) option" where
  "encode_address addr buf = do {
     buf \<leftarrow> copy_into buf 0 [0];
     case addr of
       SockV4 ip port \<Rightarrow> do {
         buf \<leftarrow> copy_into buf 1 [1];
         buf \<leftarrow> copy_into buf 2 (to_be16 port);
         buf \<leftarrow> copy_into buf 4 (to_be32 ip);
         Some (8, buf) }
     | SockV6 ip port _ _ \<Rightarrow> do {
         buf \<leftarrow> copy_into buf 1 [2];
         buf \<leftarrow> copy_into buf 2 (to_be16 port);
         buf \<leftarrow> copy_into buf 4 (to_be128 ip);
         Some (20, buf) } }"

definition encode_xor_address :: "sock_addr \<Rightarrow> bytes \<Rightarrow> bytes \<Rightarrow> (nat \<times> bytes) option" where
  "encode_xor_address addr tid buf = do {
     buf \<leftarrow> copy_into buf 0 [0];
     case addr of
       SockV4 ip port \<Rightarrow> do {
         buf \<leftarrow> copy_into buf 1 [1];
         buf \<leftarrow> copy_into buf 2 (to_be16 (port XOR ucast (drop_bit 16 STUN_MAGIC_COOKIE)));
         buf \<leftarrow> copy_into buf 4 (xor_bytes (to_be32 ip) (to_be32 STUN_MAGIC_COOKIE));
         Some (8, buf) }
     | SockV6 ip port _ _ \<Rightarrow> do {
         buf \<leftarrow> copy_into buf 1 [2];
         buf \<leftarrow> copy_into buf 2 (to_be16 (port XOR ucast (drop_bit 16 STUN_MAGIC_COOKIE)));
         buf \<leftarrow> copy_into buf 4 (xor_bytes (to_be128 ip) (xor_key tid));
         Some (20, buf) } }"

definition encode_address_attr :: "sock_addr \<Rightarrow> bytes option \<Rightarrow> u16 \<Rightarrow> bytes \<Rightarrow> ((u16 \<times> nat) \<times> bytes) option" where
  "encode_address_attr addr tid t buf = do {
     (len, buf) \<leftarrow> on_tail 4 (case tid of Some tid \<Rightarrow> encode_xor_address addr tid | None \<Rightarrow> encode_address addr) buf;
     Some ((t, len), buf) }"

definition put_value :: "u16 \<Rightarrow> bytes \<Rightarrow> nat \<Rightarrow> bytes \<Rightarrow> ((u16 \<times> nat) \<times> bytes) option" where
  "put_value t v l buf = do {
     v \<leftarrow> sub_slice v 0 l;
     buf \<leftarrow> copy_into buf 4 v;
     Some ((t, l), buf) }"

definition encode_string_attr :: "stun_attribute \<Rightarrow> bytes \<Rightarrow> ((u16 \<times> nat) \<times> bytes) option" where
  "encode_string_attr a buf = (case a of
     Username v l \<Rightarrow> put_value ATTR_USERNAME v (unat l) buf
   | Realm v l \<Rightarrow> put_value ATTR_REALM v (unat l) buf
   | Nonce v l \<Rightarrow> put_value ATTR_NONCE v (unat l) buf
   | _ \<Rightarrow> None)"

definition encode_error_code_attr :: "u16 \<Rightarrow> bytes \<Rightarrow> u8 \<Rightarrow> bytes \<Rightarrow> ((u16 \<times> nat) \<times> bytes) option" where
  "encode_error_code_attr code reason reason_len buf = do {
     buf \<leftarrow> copy_into buf 4 [0];
     buf \<leftarrow> copy_into buf 5 [0];
     buf \<leftarrow> copy_into buf 6 [ucast (code div 100)];
     buf \<leftarrow> copy_into buf 7 [ucast (code mod 100)];
     reason \<leftarrow> sub_slice reason 0 (unat reason_len);
     buf \<leftarrow> copy_into buf 8 reason;
     Some ((ATTR_ERROR_CODE, 4 + unat reason_len), buf) }"

definition encode_ice_attr :: "stun_attribute \<Rightarrow> bytes \<Rightarrow> ((u16 \<times> nat) \<times> bytes) option" where
  "encode_ice_attr a buf = (case a of
     Priority p \<Rightarrow> do { buf \<leftarrow> copy_into buf 4 (to_be32 p); Some ((ATTR_PRIORITY, 4), buf) }
   | UseCandidate \<Rightarrow> Some ((ATTR_USE_CANDIDATE, 0), buf)
   | Fingerprint p \<Rightarrow> do { buf \<leftarrow> copy_into buf 4 (to_be32 p); Some ((ATTR_FINGERPRINT, 4), buf) }
   | IceControlled tb \<Rightarrow> do { buf \<leftarrow> copy_into buf 4 (to_be64 tb); Some ((ATTR_ICE_CONTROLLED, 8), buf) }
   | IceControlling tb \<Rightarrow> do { buf \<leftarrow> copy_into buf 4 (to_be64 tb); Some ((ATTR_ICE_CONTROLLING, 8), buf) }
   | _ \<Rightarrow> None)"

definition encode_turn_attr :: "stun_attribute \<Rightarrow> bytes \<Rightarrow> bytes \<Rightarrow> ((u16 \<times> nat) \<times> bytes) option" where
  "encode_turn_attr a tid buf = (case a of
     Lifetime s \<Rightarrow> do { buf \<leftarrow> copy_into buf 4 (to_be32 s); Some ((ATTR_LIFETIME, 4), buf) }
   | ChannelNumber ch \<Rightarrow> do {
       buf \<leftarrow> copy_into buf 4 (to_be16 ch);
       buf \<leftarrow> copy_into buf 6 (to_be16 0);
       Some ((ATTR_CHANNEL_NUMBER, 4), buf) }
   | XorPeerAddress addr \<Rightarrow> do {
       (len, buf) \<leftarrow> on_tail 4 (encode_xor_address addr tid) buf; Some ((ATTR_XOR_PEER_ADDRESS, len), buf) }
   | XorRelayedAddress addr \<Rightarrow> do {
       (len, buf) \<leftarrow> on_tail 4 (encode_xor_address addr tid) buf; Some ((ATTR_XOR_RELAYED_ADDRESS, len), buf) }
   | Data v l \<Rightarrow> put_value ATTR_DATA v (unat l) buf
   | RequestedTransport p \<Rightarrow> do {
       buf \<leftarrow> copy_into buf 4 [p];
       buf \<leftarrow> copy_into buf 5 [0];
       buf \<leftarrow> copy_into buf 6 [0];
       buf \<leftarrow> copy_into buf 7 [0];
       Some ((ATTR_REQUESTED_TRANSPORT, 4), buf) }
   | _ \<Rightarrow> None)"

fun zero_pad :: "nat list \<Rightarrow> nat \<Rightarrow> nat \<Rightarrow> bytes \<Rightarrow> bytes option" where
  "zero_pad [] tot padded buf = Some buf"
| "zero_pad (i # is) tot padded buf =
     (if tot + i < padded then do { buf \<leftarrow> copy_into buf (tot + i) [0]; zero_pad is tot padded buf }
      else zero_pad is tot padded buf)"

definition encode_value :: "stun_attribute \<Rightarrow> bytes \<Rightarrow> bytes \<Rightarrow> ((u16 \<times> nat) \<times> bytes) option" where
  "encode_value a tid buf = (case a of
     MappedAddress addr \<Rightarrow> encode_address_attr addr None ATTR_MAPPED_ADDRESS buf
   | XorMappedAddress addr \<Rightarrow> encode_address_attr addr (Some tid) ATTR_XOR_MAPPED_ADDRESS buf
   | Username _ _ \<Rightarrow> encode_string_attr a buf
   | Realm _ _ \<Rightarrow> encode_string_attr a buf
   | Nonce _ _ \<Rightarrow> encode_string_attr a buf
   | MessageIntegrity hmac \<Rightarrow> do { buf \<leftarrow> copy_into buf 4 hmac; Some ((ATTR_MESSAGE_INTEGRITY, 20), buf) }
   | ErrorCode code reason reason_len \<Rightarrow> encode_error_code_attr code reason reason_len buf
   | Priority _ \<Rightarrow> encode_ice_attr a buf
   | UseCandidate \<Rightarrow> encode_ice_attr a buf
   | Fingerprint _ \<Rightarrow> encode_ice_attr a buf
   | IceControlled _ \<Rightarrow> encode_ice_attr a buf
   | IceControlling _ \<Rightarrow> encode_ice_attr a buf
   | _ \<Rightarrow> encode_turn_attr a tid buf)"

definition attr_encode :: "stun_attribute \<Rightarrow> bytes \<Rightarrow> bytes \<Rightarrow> (nat \<times> bytes) option" where
  "attr_encode a tid buf = do {
     rassert (24 \<le> length buf);
     ((t, value_len), buf) \<leftarrow> encode_value a tid buf;
     buf \<leftarrow> copy_into buf 0 (to_be16 t);
     buf \<leftarrow> copy_into buf 2 (to_be16 (of_nat value_len));
     let tot = 4 + value_len;
     let padded = (tot + 3) div 4 * 4;
     buf \<leftarrow> zero_pad [0..<3] tot padded buf;
     rassert (padded mod 4 = 0);
     Some (padded, buf) }"

definition attr_type :: "stun_attribute \<Rightarrow> u16" where
  "attr_type a = (case a of
     MappedAddress _ \<Rightarrow> ATTR_MAPPED_ADDRESS | Username _ _ \<Rightarrow> ATTR_USERNAME
   | MessageIntegrity _ \<Rightarrow> ATTR_MESSAGE_INTEGRITY | ErrorCode _ _ _ \<Rightarrow> ATTR_ERROR_CODE
   | Realm _ _ \<Rightarrow> ATTR_REALM | Nonce _ _ \<Rightarrow> ATTR_NONCE | XorMappedAddress _ \<Rightarrow> ATTR_XOR_MAPPED_ADDRESS
   | Priority _ \<Rightarrow> ATTR_PRIORITY | UseCandidate \<Rightarrow> ATTR_USE_CANDIDATE | Fingerprint _ \<Rightarrow> ATTR_FINGERPRINT
   | IceControlled _ \<Rightarrow> ATTR_ICE_CONTROLLED | IceControlling _ \<Rightarrow> ATTR_ICE_CONTROLLING
   | Lifetime _ \<Rightarrow> ATTR_LIFETIME | ChannelNumber _ \<Rightarrow> ATTR_CHANNEL_NUMBER
   | XorPeerAddress _ \<Rightarrow> ATTR_XOR_PEER_ADDRESS | XorRelayedAddress _ \<Rightarrow> ATTR_XOR_RELAYED_ADDRESS
   | Data _ _ \<Rightarrow> ATTR_DATA | RequestedTransport _ \<Rightarrow> ATTR_REQUESTED_TRANSPORT)"

definition attr_username :: "bytes \<Rightarrow> stun_attribute option" where
  "attr_username s = do {
     rassert (length s \<le> MAX_USERNAME_LEN);
     v \<leftarrow> array_of MAX_USERNAME_LEN s;
     Some (Username v (of_nat (length s))) }"

section \<open>The bytes of an attribute\<close>

declare copy_into_Some [simp del]

definition addr_bytes :: "sock_addr \<Rightarrow> bytes" where
  "addr_bytes addr = (case addr of
     SockV4 ip port \<Rightarrow> [0, 1] @ to_be16 port @ to_be32 ip
   | SockV6 ip port _ _ \<Rightarrow> [0, 2] @ to_be16 port @ to_be128 ip)"

definition xor_addr_bytes :: "bytes \<Rightarrow> sock_addr \<Rightarrow> bytes" where
  "xor_addr_bytes tid addr = (case addr of
     SockV4 ip port \<Rightarrow> [0, 1] @ to_be16 (port XOR ucast (drop_bit 16 STUN_MAGIC_COOKIE)) @
       xor_bytes (to_be32 ip) (to_be32 STUN_MAGIC_COOKIE)
   | SockV6 ip port _ _ \<Rightarrow> [0, 2] @ to_be16 (port XOR ucast (drop_bit 16 STUN_MAGIC_COOKIE)) @
       xor_bytes (to_be128 ip) (xor_key tid))"

definition attr_value :: "bytes \<Rightarrow> stun_attribute \<Rightarrow> bytes" where
  "attr_value tid a = (case a of
     MappedAddress addr \<Rightarrow> addr_bytes addr
   | Username v l \<Rightarrow> take (unat l) v
   | MessageIntegrity hmac \<Rightarrow> hmac
   | ErrorCode code reason l \<Rightarrow> [0, 0, ucast (code div 100), ucast (code mod 100)] @ take (unat l) reason
   | Realm v l \<Rightarrow> take (unat l) v
   | Nonce v l \<Rightarrow> take (unat l) v
   | XorMappedAddress addr \<Rightarrow> xor_addr_bytes tid addr
   | Priority p \<Rightarrow> to_be32 p
   | UseCandidate \<Rightarrow> []
   | Fingerprint p \<Rightarrow> to_be32 p
   | IceControlled tb \<Rightarrow> to_be64 tb
   | IceControlling tb \<Rightarrow> to_be64 tb
   | ChannelNumber ch \<Rightarrow> to_be16 ch @ [0, 0]
   | Lifetime s \<Rightarrow> to_be32 s
   | XorPeerAddress addr \<Rightarrow> xor_addr_bytes tid addr
   | XorRelayedAddress addr \<Rightarrow> xor_addr_bytes tid addr
   | Data v l \<Rightarrow> take (unat l) v
   | RequestedTransport p \<Rightarrow> [p, 0, 0, 0])"

text \<open>What the fields of an attribute value satisfy in Rust by their types, and the length byte by use.\<close>

definition attr_wf :: "stun_attribute \<Rightarrow> bool" where
  "attr_wf a = (case a of
     Username v l \<Rightarrow> length v = MAX_USERNAME_LEN \<and> unat l \<le> MAX_USERNAME_LEN
   | Realm v l \<Rightarrow> length v = MAX_REALM_LEN \<and> unat l \<le> MAX_REALM_LEN
   | Nonce v l \<Rightarrow> length v = MAX_REALM_LEN \<and> unat l \<le> MAX_REALM_LEN
   | ErrorCode c v l \<Rightarrow> length v = MAX_REASON_LEN \<and> unat l \<le> MAX_REASON_LEN
   | Data v l \<Rightarrow> length v = MAX_DATA_LEN \<and> unat l \<le> MAX_DATA_LEN
   | MessageIntegrity h \<Rightarrow> length h = 20
   | _ \<Rightarrow> True)"

definition padded_len :: "nat \<Rightarrow> nat" where
  "padded_len n = (n + 3) div 4 * 4"

definition attr_bytes :: "bytes \<Rightarrow> stun_attribute \<Rightarrow> bytes" where
  "attr_bytes tid a = (let v = attr_value tid a in
     to_be16 (attr_type a) @ to_be16 (of_nat (length v)) @ v @ replicate (padded_len (length v) - length v) 0)"

lemma padded_len_ge: "n \<le> padded_len n" "padded_len n \<le> n + 3" "padded_len n mod 4 = 0"
proof -
  have "(n + 3) mod 4 + (n + 3) div 4 * 4 = n + 3" "(n + 3) mod 4 < 4" by simp_all
  then show "n \<le> padded_len n" "padded_len n \<le> n + 3" unfolding padded_len_def by linarith+
qed (simp add: padded_len_def)

lemma padded_len_4 [simp]: "padded_len (4 + n) = 4 + padded_len n"
  using div_add1_eq[of 4 "n + 3" 4] by (simp add: padded_len_def)

lemma length_attr_bytes: "length (attr_bytes tid a) = 4 + padded_len (length (attr_value tid a))"
  using padded_len_ge[of "length (attr_value tid a)"] by (simp add: attr_bytes_def Let_def)

lemma length_xor_bytes [simp]: "length (xor_bytes xs ys) = min (length xs) (length ys)"
  by (simp add: xor_bytes_def)

lemma length_addr_bytes: "length (addr_bytes addr) \<le> 20"
  by (simp add: addr_bytes_def split: sock_addr.split)

lemma length_xor_addr_bytes: "length tid = 12 \<Longrightarrow> length (xor_addr_bytes tid addr) \<le> 20"
  by (simp add: xor_addr_bytes_def xor_key_def split: sock_addr.split)

lemma overwrite_step:
  "k = i + length a \<Longrightarrow> i + length a + length b \<le> length d \<Longrightarrow> overwrite k b (overwrite i a d) = overwrite i (a @ b) d"
  using overwrite_append by blast

text \<open>Writes in a row.\<close>

lemma overwrite3:
  assumes "i + length a + length b + length c \<le> length d" "j = i + length a" "k = j + length b"
  shows "overwrite k c (overwrite j b (overwrite i a d)) = overwrite i (a @ b @ c) d"
proof -
  have "overwrite j b (overwrite i a d) = overwrite i (a @ b) d" using assms by (intro overwrite_step) simp_all
  moreover have "overwrite k c (overwrite i (a @ b) d) = overwrite i ((a @ b) @ c) d"
    using assms by (intro overwrite_step) simp_all
  ultimately show ?thesis by simp
qed

lemma overwrite4:
  assumes "i + length a + length b + length c + length e \<le> length d" "j = i + length a" "k = j + length b" "l = k + length c"
  shows "overwrite l e (overwrite k c (overwrite j b (overwrite i a d))) = overwrite i (a @ b @ c @ e) d"
proof -
  have "overwrite k c (overwrite j b (overwrite i a d)) = overwrite i (a @ b @ c) d" using assms by (intro overwrite3) simp_all
  moreover have "overwrite l e (overwrite i (a @ b @ c) d) = overwrite i ((a @ b @ c) @ e) d"
    using assms by (intro overwrite_step) simp_all
  ultimately show ?thesis by simp
qed

lemma encode_address_eq:
  assumes "length (addr_bytes addr) \<le> length buf"
  shows "encode_address addr buf = Some (length (addr_bytes addr), overwrite 0 (addr_bytes addr) buf)"
proof (cases addr)
  case (SockV4 ip port)
  then have "8 \<le> length buf" using assms by (simp add: addr_bytes_def)
  then show ?thesis
    using overwrite4[of 0 "[0]" "[1]" "to_be16 port" "to_be32 ip" buf 1 2 4] SockV4
    by (simp add: encode_address_def addr_bytes_def copy_into_overwrite)
next
  case (SockV6 ip port x y)
  then have "20 \<le> length buf" using assms by (simp add: addr_bytes_def)
  then show ?thesis
    using overwrite4[of 0 "[0]" "[2]" "to_be16 port" "to_be128 ip" buf 1 2 4] SockV6
    by (simp add: encode_address_def addr_bytes_def copy_into_overwrite)
qed

lemma encode_xor_address_eq:
  assumes "length (xor_addr_bytes tid addr) \<le> length buf" "length tid = 12"
  shows "encode_xor_address addr tid buf = Some (length (xor_addr_bytes tid addr), overwrite 0 (xor_addr_bytes tid addr) buf)"
proof (cases addr)
  case (SockV4 ip port)
  then have "8 \<le> length buf" using assms by (simp add: xor_addr_bytes_def)
  then show ?thesis
    using overwrite4[of 0 "[0]" "[1]" "to_be16 (port XOR ucast (drop_bit 16 STUN_MAGIC_COOKIE))"
      "xor_bytes (to_be32 ip) (to_be32 STUN_MAGIC_COOKIE)" buf 1 2 4] SockV4
    by (simp add: encode_xor_address_def xor_addr_bytes_def copy_into_overwrite)
next
  case (SockV6 ip port x y)
  then have "20 \<le> length buf" using assms by (simp add: xor_addr_bytes_def xor_key_def)
  then show ?thesis
    using overwrite4[of 0 "[0]" "[2]" "to_be16 (port XOR ucast (drop_bit 16 STUN_MAGIC_COOKIE))"
      "xor_bytes (to_be128 ip) (xor_key tid)" buf 1 2 4] SockV6 assms(2)
    by (simp add: encode_xor_address_def xor_addr_bytes_def copy_into_overwrite xor_key_def)
qed

lemma on_tail_overwrite:
  assumes "i + length bs \<le> length buf" "f (drop i buf) = Some (r, overwrite 0 bs (drop i buf))"
  shows "on_tail i f buf = Some (r, overwrite i bs buf)"
  using assms by (simp add: on_tail_def overwrite_def add.commute)

lemma put_value_eq:
  "l \<le> length v \<Longrightarrow> 4 + l \<le> length buf \<Longrightarrow> put_value t v l buf = Some ((t, l), overwrite 4 (take l v) buf)"
  by (simp add: put_value_def copy_into_overwrite)

lemma encode_value_eq:
  assumes "attr_wf a" "length tid = 12" "4 + length (attr_value tid a) \<le> length buf" "24 \<le> length buf"
  shows "encode_value a tid buf = Some ((attr_type a, length (attr_value tid a)), overwrite 4 (attr_value tid a) buf)"
proof (cases a)
  case (MappedAddress addr)
  then have "on_tail 4 (encode_address addr) buf = Some (length (addr_bytes addr), overwrite 4 (addr_bytes addr) buf)"
    using assms by (intro on_tail_overwrite encode_address_eq) (simp_all add: attr_value_def)
  then show ?thesis using MappedAddress by (simp add: encode_value_def encode_address_attr_def attr_value_def attr_type_def)
next
  case (XorMappedAddress addr)
  then have "on_tail 4 (encode_xor_address addr tid) buf = Some (length (xor_addr_bytes tid addr), overwrite 4 (xor_addr_bytes tid addr) buf)"
    using assms by (intro on_tail_overwrite encode_xor_address_eq) (simp_all add: attr_value_def)
  then show ?thesis using XorMappedAddress by (simp add: encode_value_def encode_address_attr_def attr_value_def attr_type_def)
next
  case (XorPeerAddress addr)
  then have "on_tail 4 (encode_xor_address addr tid) buf = Some (length (xor_addr_bytes tid addr), overwrite 4 (xor_addr_bytes tid addr) buf)"
    using assms by (intro on_tail_overwrite encode_xor_address_eq) (simp_all add: attr_value_def)
  then show ?thesis using XorPeerAddress by (simp add: encode_value_def encode_turn_attr_def attr_value_def attr_type_def)
next
  case (XorRelayedAddress addr)
  then have "on_tail 4 (encode_xor_address addr tid) buf = Some (length (xor_addr_bytes tid addr), overwrite 4 (xor_addr_bytes tid addr) buf)"
    using assms by (intro on_tail_overwrite encode_xor_address_eq) (simp_all add: attr_value_def)
  then show ?thesis using XorRelayedAddress by (simp add: encode_value_def encode_turn_attr_def attr_value_def attr_type_def)
next
  case (ErrorCode code reason l)
  then have "8 + unat l \<le> length buf" "unat l \<le> length reason" using assms by (simp_all add: attr_value_def attr_wf_def attr_limits)
  moreover have "overwrite 8 (take (unat l) reason) (overwrite 4 [0, 0, ucast (code div 100), ucast (code mod 100)] buf) =
    overwrite 4 ([0, 0, ucast (code div 100), ucast (code mod 100)] @ take (unat l) reason) buf"
    using \<open>8 + unat l \<le> length buf\<close> \<open>unat l \<le> length reason\<close> by (intro overwrite_step) simp_all
  moreover have "overwrite 7 [ucast (code mod 100)] (overwrite 6 [ucast (code div 100)] (overwrite 5 [0] (overwrite 4 [0] buf))) =
    overwrite 4 ([0] @ [0] @ [ucast (code div 100)] @ [ucast (code mod 100)]) buf"
    using \<open>8 + unat l \<le> length buf\<close> by (intro overwrite4) simp_all
  ultimately show ?thesis using ErrorCode
    by (simp add: encode_value_def encode_error_code_attr_def copy_into_overwrite attr_value_def attr_type_def)
next
  case (ChannelNumber ch)
  have "overwrite 6 (to_be16 0) (overwrite 4 (to_be16 ch) buf) = overwrite 4 (to_be16 ch @ to_be16 0) buf"
    using assms(4) by (intro overwrite_step) simp_all
  moreover have "to_be16 0 = [0, 0]" by (simp add: to_be16_def)
  ultimately show ?thesis using ChannelNumber assms(4)
    by (simp add: encode_value_def encode_turn_attr_def copy_into_overwrite attr_value_def attr_type_def)
next
  case (RequestedTransport p)
  have "overwrite 7 [0] (overwrite 6 [0] (overwrite 5 [0] (overwrite 4 [p] buf))) = overwrite 4 ([p] @ [0] @ [0] @ [0]) buf"
    using assms(4) by (intro overwrite4) simp_all
  then show ?thesis using RequestedTransport assms(4)
    by (simp add: encode_value_def encode_turn_attr_def copy_into_overwrite attr_value_def attr_type_def)
qed (use assms in \<open>simp_all add: encode_value_def encode_string_attr_def encode_ice_attr_def encode_turn_attr_def
    put_value_eq copy_into_overwrite attr_value_def attr_type_def attr_wf_def attr_limits\<close>)

lemma zero_pad_eq:
  assumes "p < 4" "t + p \<le> length buf"
  shows "zero_pad [0..<3] t (t + p) buf = Some (overwrite t (replicate p 0) buf)"
proof -
  have r: "[0..<3] = [0, 1, 2::nat]" by (simp add: eval_nat_numeral upt_conv_Cons)
  consider "p = 0" | "p = 1" | "p = 2" | "p = 3" using assms(1) by linarith
  then show ?thesis
  proof cases
    case 3
    then have "overwrite (t + 1) [0] (overwrite t [0] buf) = overwrite t ([0] @ [0]) buf"
      using assms(2) by (intro overwrite_step) simp_all
    then show ?thesis using 3 assms(2) r by (simp add: copy_into_overwrite eval_nat_numeral)
  next
    case 4
    then have "overwrite (t + 2) [0] (overwrite (t + 1) [0] (overwrite t [0] buf)) = overwrite t ([0] @ [0] @ [0]) buf"
      using assms(2) by (intro overwrite3) simp_all
    then show ?thesis using 4 assms(2) r by (simp add: copy_into_overwrite eval_nat_numeral)
  qed (use assms(2) r in \<open>simp_all add: copy_into_overwrite\<close>)
qed

text \<open>The encoder writes exactly the attribute's bytes at the start of the slice.\<close>

lemma attr_encode_eq:
  assumes "attr_wf a" "length tid = 12" "length (attr_bytes tid a) \<le> length buf" "24 \<le> length buf"
  shows "attr_encode a tid buf = Some (length (attr_bytes tid a), overwrite 0 (attr_bytes tid a) buf)"
proof -
  let ?v = "attr_value tid a"
  let ?z = "padded_len (length ?v) - length ?v"
  note pl = padded_len_ge[of "length ?v"]
  have len: "4 + padded_len (length ?v) \<le> length buf" using assms(3) by (simp add: length_attr_bytes)
  then have l: "4 + length ?v \<le> length buf" using pl by linarith
  have v: "encode_value a tid buf = Some ((attr_type a, length ?v), overwrite 4 ?v buf)"
    using l assms by (intro encode_value_eq)
  have p: "(4 + length ?v + 3) div 4 * 4 = 4 + length ?v + ?z"
    using pl padded_len_4[of "length ?v"] unfolding padded_len_def[of "4 + _"] by linarith
  let ?h = "to_be16 (attr_type a)" and ?n = "to_be16 (of_nat (length ?v))"
  have "overwrite 2 ?n (overwrite 0 ?h (overwrite 4 ?v buf)) = overwrite 0 (?h @ ?n) (overwrite 4 ?v buf)"
    using l by (intro overwrite_step) simp_all
  also have "\<dots> = overwrite 0 ((?h @ ?n) @ ?v) buf"
    using l overwrite_prepend[of 0 "?h @ ?n" ?v buf] by simp
  finally have hv: "overwrite 2 ?n (overwrite 0 ?h (overwrite 4 ?v buf)) = overwrite 0 (?h @ ?n @ ?v) buf" by simp
  have z: "zero_pad [0..<3] (4 + length ?v) (4 + length ?v + ?z) (overwrite 0 (?h @ ?n @ ?v) buf) =
      Some (overwrite (4 + length ?v) (replicate ?z 0) (overwrite 0 (?h @ ?n @ ?v) buf))"
    using pl len by (intro zero_pad_eq) simp_all
  have "overwrite (4 + length ?v) (replicate ?z 0) (overwrite 0 (?h @ ?n @ ?v) buf) =
      overwrite 0 ((?h @ ?n @ ?v) @ replicate ?z 0) buf"
    using pl len by (intro overwrite_step) simp_all
  also have "\<dots> = overwrite 0 (attr_bytes tid a) buf" by (simp add: attr_bytes_def Let_def)
  finally show ?thesis
    using v hv z p l assms(4) pl
    by (simp add: attr_encode_def copy_into_overwrite length_attr_bytes)
qed

section \<open>The parser is total\<close>

lemma array_of_Some: "length v \<le> n \<Longrightarrow> array_of n v = Some (v @ replicate (n - length v) 0)"
  by (simp add: array_of_def copy_into_overwrite overwrite_def)

lemma u32_at_0: "length v = 4 \<Longrightarrow> u32_at v 0 = Some (be32 (v ! 0) (v ! 1) (v ! 2) (v ! 3))"
  by (simp add: eval_nat_numeral)

lemma parse_mapped_address_total: "\<exists>r. parse_mapped_address v t = Some r"
proof -
  have "4 \<le> length v \<Longrightarrow> idx v 1 = Some (v ! 1) \<and> u16_at v 2 = Some (be16 (v ! 2) (v ! 3))" by (simp add: eval_nat_numeral)
  then show ?thesis by (simp add: parse_mapped_address_def)
qed

lemma parse_xor_address_total: "\<exists>r. parse_xor_address v tid t = Some r"
proof -
  have "4 \<le> length v \<Longrightarrow> idx v 1 = Some (v ! 1) \<and> u16_at v 2 = Some (be16 (v ! 2) (v ! 3))" by (simp add: eval_nat_numeral)
  then show ?thesis by (simp add: parse_xor_address_def Let_def)
qed

lemma sum_map_total: "\<exists>r. x = Some r \<Longrightarrow> \<exists>r. sum_map f x = Some r"
  by (auto simp: sum_map_def)

text \<open>No attribute value makes the parser panic.\<close>

lemma attr_parse_total: "\<exists>r. attr_parse t v tid = Some r"
proof -
  have "\<exists>r. parse_address_attribute t v tid = Some r"
    by (simp add: parse_address_attribute_def sum_map_total parse_mapped_address_total parse_xor_address_total)
  moreover have "\<exists>r. parse_core_attribute t v = Some r"
    by (simp add: parse_core_attribute_def array_of_Some Let_def)
  moreover have "\<exists>r. parse_ice_attribute t v = Some r"
    by (simp add: parse_ice_attribute_def u32_at_0)
  moreover have "\<exists>r. parse_turn_attribute t v tid = Some r"
    by (simp add: parse_turn_attribute_def u32_at_0 array_of_Some sum_map_total parse_xor_address_total)
  ultimately show ?thesis by (simp add: attr_parse_def)
qed

section \<open>Reading an attribute back\<close>

text \<open>The values that survive encoding: zero padding, an error code in range, no flow or scope.\<close>

definition plain_addr :: "sock_addr \<Rightarrow> bool" where
  "plain_addr addr = (case addr of SockV6 _ _ flow scope \<Rightarrow> flow = 0 \<and> scope = 0 | _ \<Rightarrow> True)"

definition zero_padded :: "nat \<Rightarrow> nat \<Rightarrow> bytes \<Rightarrow> bool" where
  "zero_padded n l v \<longleftrightarrow> l \<le> n \<and> v = take l v @ replicate (n - l) 0 \<and> length v = n"

definition attr_canon :: "stun_attribute \<Rightarrow> bool" where
  "attr_canon a = (case a of
     MappedAddress addr \<Rightarrow> plain_addr addr
   | Username v l \<Rightarrow> zero_padded MAX_USERNAME_LEN (unat l) v \<and> utf8_valid (take (unat l) v)
   | MessageIntegrity h \<Rightarrow> length h = 20
   | ErrorCode c v l \<Rightarrow> zero_padded MAX_REASON_LEN (unat l) v \<and> c < 800
   | Realm v l \<Rightarrow> zero_padded MAX_REALM_LEN (unat l) v
   | Nonce v l \<Rightarrow> zero_padded MAX_REALM_LEN (unat l) v
   | XorMappedAddress addr \<Rightarrow> plain_addr addr
   | XorPeerAddress addr \<Rightarrow> plain_addr addr
   | XorRelayedAddress addr \<Rightarrow> plain_addr addr
   | Data v l \<Rightarrow> zero_padded MAX_DATA_LEN (unat l) v
   | _ \<Rightarrow> True)"

lemma attr_canon_wf: "attr_canon a \<Longrightarrow> attr_wf a"
  by (simp add: attr_canon_def attr_wf_def zero_padded_def split: stun_attribute.splits)

lemma array_of_padded:
  "zero_padded n l v \<Longrightarrow> array_of n (take l v) = Some v \<and> length (take l v) = l \<and> l \<le> n"
  by (auto simp: zero_padded_def array_of_Some)

lemma xor_bytes_cancel: "length xs \<le> length ys \<Longrightarrow> xor_bytes (xor_bytes xs ys) ys = xs"
  unfolding xor_bytes_def by (induction xs ys rule: list_induct2') (simp_all add: xor.assoc)

lemma u16_at_2: "u16_at (a # b # to_be16 w @ ys) 2 = Some w"
  using u16_at_append[of "[a, b]" w ys] by simp

lemma parse_mapped_addr_bytes: "plain_addr addr \<Longrightarrow> parse_mapped_address (addr_bytes addr) t = Some (Inr addr)"
proof (cases addr)
  case (SockV4 ip port)
  moreover have "u32_at (0 # 1 # to_be16 port @ to_be32 ip) 4 = Some ip"
    using u32_at_append[of "[0, 1] @ to_be16 port" ip "[]"] by simp
  ultimately show ?thesis
    by (simp add: parse_mapped_address_def addr_bytes_def u16_at_2)
next
  case (SockV6 ip port flow scope)
  moreover assume "plain_addr addr"
  ultimately show ?thesis
    by (simp add: parse_mapped_address_def addr_bytes_def plain_addr_def u16_at_2)
qed

lemma parse_xor_addr_bytes:
  assumes "plain_addr addr" "length tid = 12"
  shows "parse_xor_address (xor_addr_bytes tid addr) tid t = Some (Inr addr)"
proof (cases addr)
  case (SockV4 ip port)
  have "be32_of (xor_bytes (xor_bytes (to_be32 ip) (to_be32 STUN_MAGIC_COOKIE)) (to_be32 STUN_MAGIC_COOKIE)) = ip"
    by (simp add: xor_bytes_cancel be32_of_def to_be32_def)
  then show ?thesis using SockV4
    by (simp add: parse_xor_address_def xor_addr_bytes_def u16_at_2 xor.assoc)
next
  case (SockV6 ip port flow scope)
  have "be128 (xor_bytes (xor_bytes (to_be128 ip) (xor_key tid)) (xor_key tid)) = ip"
    using assms(2) by (simp add: xor_bytes_cancel xor_key_def)
  then show ?thesis using SockV6 assms
    by (simp add: parse_xor_address_def xor_addr_bytes_def u16_at_2 xor.assoc plain_addr_def xor_key_def)
qed

lemma error_code_parts:
  fixes c :: u16
  assumes "c < 800"
  shows "ucast ((ucast (c div 100) :: u8) AND 7) * 100 + ucast (ucast (c mod 100) :: u8) = c"
proof -
  have c: "unat c < 800" using assms by (simp add: word_less_nat_alt)
  have a: "unat (ucast (c div 100) :: u8) = unat c div 100"
    using c by (simp add: unsigned_ucast_eq take_bit_eq_mod unat_div)
  have b: "unat (ucast (c mod 100) :: u8) = unat c mod 100"
    by (simp add: unsigned_ucast_eq take_bit_eq_mod unat_mod)
  have "(7 :: u8) = mask 3" by (simp add: mask_eq_exp_minus_1)
  then have "(ucast (c div 100) :: u8) AND 7 = take_bit 3 (ucast (c div 100))" by (simp add: take_bit_eq_mask)
  then have "unat ((ucast (c div 100) :: u8) AND 7) = (unat c div 100) mod 8"
    using a by (simp add: take_bit_eq_mod unat_mod)
  then have d: "unat ((ucast (c div 100) :: u8) AND 7) = unat c div 100" using c by simp
  show ?thesis
  proof (rule word_unat_eq_iff[THEN iffD2])
    have "unat (ucast ((ucast (c div 100) :: u8) AND 7) :: u16) = unat c div 100" using d c by (simp add: unsigned_ucast_eq take_bit_eq_mod)
    moreover have "unat (ucast (ucast (c mod 100) :: u8) :: u16) = unat c mod 100" using b c by (simp add: unsigned_ucast_eq take_bit_eq_mod unat_mod)
    ultimately show "unat (ucast ((ucast (c div 100) :: u8) AND 7) * 100 + ucast (ucast (c mod 100) :: u8) :: u16) = unat c"
     using c by (simp add: unat_word_ariths del: unsigned_and_eq)
  qed
qed

lemma u_at_0 [simp]: "u32_at (to_be32 w) 0 = Some w" "u16_at (to_be16 x @ ys) 0 = Some x"
  using u32_at_append[of "[]" w "[]"] u16_at_append[of "[]" x ys] by simp_all

text \<open>Every canonical attribute is read back from its value bytes.\<close>

lemma attr_parse_value:
  assumes "attr_canon a" "length tid = 12"
  shows "attr_parse (attr_type a) (attr_value tid a) tid = Some (Inr (Some a))"
proof (cases a)
  case (ErrorCode c v l)
  then have v: "zero_padded MAX_REASON_LEN (unat l) v" and c: "c < 800" using assms by (simp_all add: attr_canon_def)
  note p = array_of_padded[OF v]
  show ?thesis using ErrorCode p error_code_parts[OF c]
    by (simp add: attr_type_def attr_value_def attr_parse_def attr_codes attr_limits parse_core_attribute_def)
next
  case (MappedAddress addr)
  then show ?thesis using assms length_addr_bytes[of addr]
    by (simp add: attr_type_def attr_value_def attr_parse_def attr_codes attr_limits parse_address_attribute_def
      parse_mapped_addr_bytes attr_canon_def sum_map_def)
next
  case (XorMappedAddress addr)
  then show ?thesis using assms length_xor_addr_bytes[OF assms(2), of addr]
    by (simp add: attr_type_def attr_value_def attr_parse_def attr_codes attr_limits parse_address_attribute_def
      parse_xor_addr_bytes attr_canon_def sum_map_def)
next
  case (XorPeerAddress addr)
  then show ?thesis using assms length_xor_addr_bytes[OF assms(2), of addr]
    by (simp add: attr_type_def attr_value_def attr_parse_def attr_codes attr_limits parse_turn_attribute_def
      parse_xor_addr_bytes attr_canon_def sum_map_def)
next
  case (XorRelayedAddress addr)
  then show ?thesis using assms length_xor_addr_bytes[OF assms(2), of addr]
    by (simp add: attr_type_def attr_value_def attr_parse_def attr_codes attr_limits parse_turn_attribute_def
      parse_xor_addr_bytes attr_canon_def sum_map_def)
qed (use assms in \<open>auto simp: attr_type_def attr_value_def attr_parse_def attr_codes attr_limits parse_core_attribute_def
    parse_ice_attribute_def parse_turn_attribute_def attr_canon_def dest!: array_of_padded\<close>)

end
