(* ===== verification/Stun_Message.thy ===== *)
theory Stun_Message
  imports Stun_Attr
begin

text \<open>
  STUN messages, \<^verbatim>\<open>nexus-transport/src/ice/stun/message.rs\<close>,
  \<^verbatim>\<open>integrity.rs\<close>, \<^verbatim>\<open>request.rs\<close> and the packet tests of
  \<^verbatim>\<open>mod.rs\<close>.  HMAC-SHA1, CRC-32 and MD5 are third-party crates and
  parameters of the definitions that use them; feeding a hash piece by piece
  is hashing the concatenation.

  The lemmas show that parsing never panics, that a message is read back from
  its encoding, and that a signed message passes both integrity checks.
\<close>

section \<open>Messages\<close>

definition STUN_HEADER_SIZE :: nat where "STUN_HEADER_SIZE = 20"
definition STUN_BUFFER_SIZE :: nat where "STUN_BUFFER_SIZE = 576"
definition STUN_MAX_ATTRIBUTES :: nat where "STUN_MAX_ATTRIBUTES = 16"
definition STUN_FINGERPRINT_XOR :: u32 where "STUN_FINGERPRINT_XOR = 0x5354554E"

datatype stun_class = Request | Indication | SuccessResponse | ErrorResponse

datatype stun_method = Binding | Allocate | Refresh | Send | MethodData | CreatePermission | ChannelBind

definition class_bits :: "stun_class \<Rightarrow> u16" where
  "class_bits c = (case c of Request \<Rightarrow> 0 | Indication \<Rightarrow> 1 | SuccessResponse \<Rightarrow> 2 | ErrorResponse \<Rightarrow> 3)"

definition class_from_bits :: "u8 \<Rightarrow> stun_class option" where
  "class_from_bits b = (let k = b AND 3 in
     if k = 0 then Some Request else if k = 1 then Some Indication
     else if k = 2 then Some SuccessResponse else if k = 3 then Some ErrorResponse else None)"

definition class_is_request :: "stun_class \<Rightarrow> bool" where
  "class_is_request c \<longleftrightarrow> c = Request"

definition class_is_response :: "stun_class \<Rightarrow> bool" where
  "class_is_response c \<longleftrightarrow> c = SuccessResponse \<or> c = ErrorResponse"

definition method_bits :: "stun_method \<Rightarrow> u16" where
  "method_bits m = (case m of Binding \<Rightarrow> 1 | Allocate \<Rightarrow> 3 | Refresh \<Rightarrow> 4 | Send \<Rightarrow> 6 | MethodData \<Rightarrow> 7
     | CreatePermission \<Rightarrow> 8 | ChannelBind \<Rightarrow> 9)"

definition method_try_from_u16 :: "u16 \<Rightarrow> stun_method option" where
  "method_try_from_u16 v =
     (if v = 1 then Some Binding else if v = 3 then Some Allocate else if v = 4 then Some Refresh
      else if v = 6 then Some Send else if v = 7 then Some MethodData else if v = 8 then Some CreatePermission
      else if v = 9 then Some ChannelBind else None)"

record stun_message =
  sm_class :: stun_class
  sm_method :: stun_method
  sm_transaction_id :: bytes
  sm_attributes :: "stun_attribute option list"
  sm_attribute_count :: u8

definition is_stun :: "bytes \<Rightarrow> bool option" where
  "is_stun d =
     (if length d < STUN_HEADER_SIZE then Some False
      else do {
        b0 \<leftarrow> idx d 0;
        if b0 AND 0xC0 \<noteq> 0 then Some False
        else do { cookie \<leftarrow> u32_at d 4; Some (cookie = STUN_MAGIC_COOKIE) } })"

definition is_dtls :: "bytes \<Rightarrow> bool option" where
  "is_dtls d = (if d = [] then Some False else do { b0 \<leftarrow> idx d 0; Some (20 \<le> b0 \<and> b0 \<le> 63) })"

definition is_rtp :: "bytes \<Rightarrow> bool option" where
  "is_rtp d = (if d = [] then Some False else do { b0 \<leftarrow> idx d 0; Some (drop_bit 6 b0 = 2) })"

definition is_rtcp :: "bytes \<Rightarrow> bool option" where
  "is_rtcp d =
     (if length d < 2 then Some False
      else do {
        b0 \<leftarrow> idx d 0;
        if drop_bit 6 b0 \<noteq> 2 then Some False
        else do { pt \<leftarrow> idx d 1; Some (200 \<le> pt \<and> pt \<le> 210) } })"

definition encode_type :: "stun_class \<Rightarrow> stun_method \<Rightarrow> u16" where
  "encode_type c m = (
     let method_val = method_bits m; class_val = class_bits c in
     (method_val AND 0x000F) OR (push_bit 1 method_val AND 0x00E0) OR (push_bit 2 method_val AND 0x3E00) OR
     push_bit 4 (class_val AND 1) OR push_bit 7 (class_val AND 2))"

definition no_attributes :: "stun_attribute option list" where
  "no_attributes = replicate STUN_MAX_ATTRIBUTES None"

definition add_attribute :: "stun_attribute \<Rightarrow> stun_message \<Rightarrow> stun_message option" where
  "add_attribute a m = do {
     rassert (unat (sm_attribute_count m) < STUN_MAX_ATTRIBUTES);
     rassert (unat (sm_attribute_count m) < length (sm_attributes m));
     Some (m\<lparr>sm_attributes := (sm_attributes m)[unat (sm_attribute_count m) := Some a],
       sm_attribute_count := sm_attribute_count m + 1\<rparr>) }"

text \<open>\<^verbatim>\<open>binding_request\<close> draws its transaction id from the system; it is an argument here.\<close>

definition binding_request :: "bytes \<Rightarrow> stun_message" where
  "binding_request tid = \<lparr>sm_class = Request, sm_method = Binding, sm_transaction_id = tid,
     sm_attributes = no_attributes, sm_attribute_count = 0\<rparr>"

definition binding_response :: "bytes \<Rightarrow> sock_addr \<Rightarrow> stun_message option" where
  "binding_response tid addr = add_attribute (XorMappedAddress addr)
     \<lparr>sm_class = SuccessResponse, sm_method = Binding, sm_transaction_id = tid,
      sm_attributes = no_attributes, sm_attribute_count = 0\<rparr>"

definition error_response :: "bytes \<Rightarrow> stun_method \<Rightarrow> u16 \<Rightarrow> stun_message option" where
  "error_response tid m code = add_attribute (ErrorCode code (replicate 128 0) 0)
     \<lparr>sm_class = ErrorResponse, sm_method = m, sm_transaction_id = tid,
      sm_attributes = no_attributes, sm_attribute_count = 0\<rparr>"

text \<open>
  The getters return the first attribute of their kind among the counted
  ones; every message the code builds counts at most 16.
\<close>

fun first_some :: "('a \<Rightarrow> 'b option) \<Rightarrow> 'a list \<Rightarrow> 'b option" where
  "first_some f [] = None"
| "first_some f (x # xs) = (case f x of Some y \<Rightarrow> Some y | None \<Rightarrow> first_some f xs)"

definition counted :: "stun_message \<Rightarrow> stun_attribute option list" where
  "counted m = take (unat (sm_attribute_count m)) (sm_attributes m)"

definition get_xor_mapped_address :: "stun_message \<Rightarrow> sock_addr option" where
  "get_xor_mapped_address m = first_some (\<lambda>a. case a of Some (XorMappedAddress addr) \<Rightarrow> Some addr | _ \<Rightarrow> None) (counted m)"

definition get_username :: "stun_message \<Rightarrow> bytes option option" where
  "get_username m = (case first_some (\<lambda>a. case a of Some (Username v l) \<Rightarrow> Some (v, l) | _ \<Rightarrow> None) (counted m) of
     None \<Rightarrow> Some None
   | Some (v, l) \<Rightarrow> do { s \<leftarrow> sub_slice v 0 (unat l); Some (if utf8_valid s then Some s else None) })"

definition has_use_candidate :: "stun_message \<Rightarrow> bool" where
  "has_use_candidate m \<longleftrightarrow> Some UseCandidate \<in> set (counted m)"

definition get_priority :: "stun_message \<Rightarrow> u32 option" where
  "get_priority m = first_some (\<lambda>a. case a of Some (Priority p) \<Rightarrow> Some p | _ \<Rightarrow> None) (counted m)"

definition get_ice_controlling :: "stun_message \<Rightarrow> u64 option" where
  "get_ice_controlling m = first_some (\<lambda>a. case a of Some (IceControlling p) \<Rightarrow> Some p | _ \<Rightarrow> None) (counted m)"

definition get_ice_controlled :: "stun_message \<Rightarrow> u64 option" where
  "get_ice_controlled m = first_some (\<lambda>a. case a of Some (IceControlled p) \<Rightarrow> Some p | _ \<Rightarrow> None) (counted m)"

definition parse_header :: "bytes \<Rightarrow> (ice_error + stun_class \<times> stun_method \<times> bytes \<times> nat) option" where
  "parse_header d = do {
     rassert (STUN_HEADER_SIZE \<le> length d);
     msg_type \<leftarrow> u16_at d 0;
     if msg_type AND 0xC000 \<noteq> 0 then Some (Inl StunInvalidHeader)
     else do {
       let c0 = drop_bit 4 msg_type AND 1;
       let c1 = drop_bit 8 msg_type AND 1;
       c \<leftarrow> class_from_bits (ucast (push_bit 1 c1 OR c0));
       let m0 = msg_type AND 0x000F;
       let m1 = drop_bit 5 msg_type AND 0x0070;
       let m2 = drop_bit 2 msg_type AND 0x0F80;
       let method = m0 OR m1 OR m2;
       case method_try_from_u16 method of
         None \<Rightarrow> Some (Inl (StunUnknownMethod method))
       | Some m \<Rightarrow> do {
           msg_len \<leftarrow> u16_at d 2;
           if length d < STUN_HEADER_SIZE + unat msg_len
           then Some (Inl (StunTooShort (of_nat (length d)) (of_nat (STUN_HEADER_SIZE + unat msg_len))))
           else do {
             cookie \<leftarrow> u32_at d 4;
             if cookie \<noteq> STUN_MAGIC_COOKIE then Some (Inl (StunInvalidMagicCookie cookie))
             else do {
               tid \<leftarrow> sub_slice d 8 20;
               Some (Inr (c, m, tid, unat msg_len)) } } } } }"

fun parse_attrs_loop ::
  "nat \<Rightarrow> bytes \<Rightarrow> nat \<Rightarrow> bytes \<Rightarrow> nat \<Rightarrow> bool \<Rightarrow> stun_attribute option list \<Rightarrow> u8 \<Rightarrow>
   (ice_error + stun_attribute option list \<times> u8) option" where
  "parse_attrs_loop 0 d fin tid offset saw_integrity attrs n = Some (Inr (attrs, n))"
| "parse_attrs_loop (Suc i) d fin tid offset saw_integrity attrs n =
     (if offset + 4 > fin then Some (Inr (attrs, n))
      else do {
        t \<leftarrow> u16_at d offset;
        len \<leftarrow> u16_at d (offset + 2);
        if saw_integrity \<and> t \<noteq> ATTR_FINGERPRINT
        then Some (Inl (StunInvalidAttribute t ''attribute after MESSAGE-INTEGRITY must be FINGERPRINT''))
        else if offset + 4 + unat len > fin then Some (Inl (StunInvalidAttribute t ''attribute extends beyond message''))
        else do {
          v \<leftarrow> sub_slice d (offset + 4) (offset + 4 + unat len);
          r \<leftarrow> attr_parse t v tid;
          case r of
            Inl e \<Rightarrow> Some (Inl e)
          | Inr a \<Rightarrow> do {
              (attrs, n) \<leftarrow> (case a of
                 Some a \<Rightarrow> if unat n < STUN_MAX_ATTRIBUTES
                   then do { rassert (unat n < length attrs); Some (attrs[unat n := Some a], n + 1) }
                   else Some (attrs, n)
               | None \<Rightarrow> Some (attrs, n));
              parse_attrs_loop i d fin tid (offset + 4 + (unat len + 3) div 4 * 4)
                (saw_integrity \<or> t = ATTR_MESSAGE_INTEGRITY) attrs n } } })"

definition parse_attributes :: "bytes \<Rightarrow> nat \<Rightarrow> bytes \<Rightarrow> (ice_error + stun_attribute option list \<times> u8) option" where
  "parse_attributes d msg_len tid = do {
     rassert (STUN_HEADER_SIZE + msg_len \<le> length d);
     r \<leftarrow> parse_attrs_loop STUN_MAX_ATTRIBUTES d (STUN_HEADER_SIZE + msg_len) tid STUN_HEADER_SIZE False no_attributes 0;
     (case r of Inl e \<Rightarrow> Some () | Inr (attrs, n) \<Rightarrow> rassert (unat n \<le> STUN_MAX_ATTRIBUTES));
     Some r }"

definition stun_parse :: "bytes \<Rightarrow> (ice_error + stun_message) option" where
  "stun_parse d =
     (if length d < STUN_HEADER_SIZE
      then Some (Inl (StunTooShort (of_nat (length d)) (of_nat STUN_HEADER_SIZE)))
      else do {
        h \<leftarrow> parse_header d;
        case h of
          Inl e \<Rightarrow> Some (Inl e)
        | Inr (c, m, tid, msg_len) \<Rightarrow> do {
            r \<leftarrow> parse_attributes d msg_len tid;
            case r of
              Inl e \<Rightarrow> Some (Inl e)
            | Inr (attrs, n) \<Rightarrow> do {
                rassert (unat n \<le> STUN_MAX_ATTRIBUTES);
                Some (Inr \<lparr>sm_class = c, sm_method = m, sm_transaction_id = tid, sm_attributes = attrs,
                  sm_attribute_count = n\<rparr>) } } })"

fun encode_attrs :: "stun_attribute option list \<Rightarrow> bytes \<Rightarrow> nat \<Rightarrow> bytes \<Rightarrow> (nat \<times> bytes) option" where
  "encode_attrs [] tid offset buf = Some (offset, buf)"
| "encode_attrs (None # as) tid offset buf = encode_attrs as tid offset buf"
| "encode_attrs (Some a # as) tid offset buf = do {
     (n, buf) \<leftarrow> on_tail offset (attr_encode a tid) buf;
     encode_attrs as tid (offset + n) buf }"

definition stun_encode :: "stun_message \<Rightarrow> bytes \<Rightarrow> (nat \<times> bytes) option" where
  "stun_encode m buf = do {
     rassert (STUN_BUFFER_SIZE \<le> length buf);
     rassert (unat (sm_attribute_count m) \<le> STUN_MAX_ATTRIBUTES);
     buf \<leftarrow> copy_into buf 0 (to_be16 (encode_type (sm_class m) (sm_method m)));
     buf \<leftarrow> copy_into buf 2 (to_be16 0);
     buf \<leftarrow> copy_into buf 4 (to_be32 STUN_MAGIC_COOKIE);
     buf \<leftarrow> copy_into buf 8 (sm_transaction_id m);
     (offset, buf) \<leftarrow> encode_attrs (counted m) (sm_transaction_id m) STUN_HEADER_SIZE buf;
     buf \<leftarrow> copy_into buf 2 (to_be16 (of_nat (offset - STUN_HEADER_SIZE)));
     rassert (offset \<le> length buf);
     rassert (STUN_HEADER_SIZE \<le> offset);
     Some (offset, buf) }"

section \<open>Integrity\<close>

definition compute_message_integrity :: "(bytes \<Rightarrow> bytes \<Rightarrow> bytes) \<Rightarrow> bytes \<Rightarrow> nat \<Rightarrow> bytes \<Rightarrow> bytes option" where
  "compute_message_integrity hmac d integrity_offset key = do {
     rassert (STUN_HEADER_SIZE \<le> length d);
     rassert (STUN_HEADER_SIZE \<le> integrity_offset);
     rassert (key \<noteq> [] \<and> length key \<le> 256);
     let adjusted_len = integrity_offset - STUN_HEADER_SIZE + 24;
     rassert (adjusted_len \<le> length d + 24);
     a \<leftarrow> sub_slice d 0 2;
     b \<leftarrow> sub_slice d 4 STUN_HEADER_SIZE;
     c \<leftarrow> sub_slice d STUN_HEADER_SIZE integrity_offset;
     let h = hmac key (a @ to_be16 (of_nat adjusted_len) @ b @ c);
     rassert (length h = 20);
     Some h }"

definition ct_equal :: "bytes \<Rightarrow> bytes \<Rightarrow> bool" where
  "ct_equal xs ys \<longleftrightarrow> foldl (\<lambda>diff (a, b). diff OR (a XOR b)) 0 (zip xs ys) = 0"

definition verify_message_integrity :: "(bytes \<Rightarrow> bytes \<Rightarrow> bytes) \<Rightarrow> bytes \<Rightarrow> nat \<Rightarrow> bytes \<Rightarrow> bytes \<Rightarrow> bool option" where
  "verify_message_integrity hmac d integrity_offset expected key = do {
     rassert (length expected = 20);
     if length d < STUN_HEADER_SIZE \<or> integrity_offset < STUN_HEADER_SIZE \<or> integrity_offset > length d \<or>
       key = [] \<or> length key > 256 then Some False
     else do {
       computed \<leftarrow> compute_message_integrity hmac d integrity_offset key;
       rassert (length computed = 20);
       Some (ct_equal computed expected) } }"

definition compute_fingerprint :: "(bytes \<Rightarrow> u32) \<Rightarrow> bytes \<Rightarrow> nat \<Rightarrow> u32 option" where
  "compute_fingerprint crc d fingerprint_offset = do {
     rassert (STUN_HEADER_SIZE \<le> length d);
     rassert (STUN_HEADER_SIZE \<le> fingerprint_offset);
     let adjusted_len = fingerprint_offset - STUN_HEADER_SIZE + 8;
     rassert (8 \<le> adjusted_len \<and> adjusted_len \<le> length d + 8);
     a \<leftarrow> sub_slice d 0 2;
     b \<leftarrow> sub_slice d 4 STUN_HEADER_SIZE;
     c \<leftarrow> sub_slice d STUN_HEADER_SIZE fingerprint_offset;
     Some (crc (a @ to_be16 (of_nat adjusted_len) @ b @ c) XOR STUN_FINGERPRINT_XOR) }"

definition verify_fingerprint :: "(bytes \<Rightarrow> u32) \<Rightarrow> bytes \<Rightarrow> nat \<Rightarrow> u32 \<Rightarrow> bool option" where
  "verify_fingerprint crc d fingerprint_offset expected =
     (if length d < STUN_HEADER_SIZE \<or> fingerprint_offset < STUN_HEADER_SIZE \<or> fingerprint_offset > length d
      then Some False
      else do {
        computed \<leftarrow> compute_fingerprint crc d fingerprint_offset;
        Some (computed = expected) })"

definition derive_short_term_key :: "bytes \<Rightarrow> bytes" where
  "derive_short_term_key password = password"

definition derive_long_term_key :: "(bytes \<Rightarrow> bytes) \<Rightarrow> bytes \<Rightarrow> bytes \<Rightarrow> bytes \<Rightarrow> bytes" where
  "derive_long_term_key md5 username realm password = md5 (username @ [58] @ realm @ [58] @ password)"

definition add_message_integrity ::
  "(bytes \<Rightarrow> bytes \<Rightarrow> bytes) \<Rightarrow> bytes \<Rightarrow> nat \<Rightarrow> bytes \<Rightarrow> (nat \<times> bytes) option" where
  "add_message_integrity hmac buf msg_len key = do {
     rassert (msg_len + 24 \<le> length buf);
     rassert (STUN_HEADER_SIZE \<le> msg_len);
     let new_msg_len = msg_len + 24;
     buf \<leftarrow> copy_into buf 2 (to_be16 (of_nat (new_msg_len - STUN_HEADER_SIZE)));
     h \<leftarrow> compute_message_integrity hmac buf msg_len key;
     buf \<leftarrow> copy_into buf msg_len (to_be16 0x0008);
     buf \<leftarrow> copy_into buf (msg_len + 2) (to_be16 0x0014);
     buf \<leftarrow> copy_into buf (msg_len + 4) h;
     a \<leftarrow> idx buf msg_len;
     b \<leftarrow> idx buf (msg_len + 1);
     rassert (a = 0 \<and> b = 8);
     Some (new_msg_len, buf) }"

definition add_fingerprint :: "(bytes \<Rightarrow> u32) \<Rightarrow> bytes \<Rightarrow> nat \<Rightarrow> (nat \<times> bytes) option" where
  "add_fingerprint crc buf msg_len = do {
     rassert (msg_len + 8 \<le> length buf);
     rassert (STUN_HEADER_SIZE \<le> msg_len);
     let new_msg_len = msg_len + 8;
     buf \<leftarrow> copy_into buf 2 (to_be16 (of_nat (new_msg_len - STUN_HEADER_SIZE)));
     fp \<leftarrow> compute_fingerprint crc buf msg_len;
     buf \<leftarrow> copy_into buf msg_len (to_be16 0x8028);
     buf \<leftarrow> copy_into buf (msg_len + 2) (to_be16 0x0004);
     buf \<leftarrow> copy_into buf (msg_len + 4) (to_be32 fp);
     a \<leftarrow> idx buf msg_len;
     b \<leftarrow> idx buf (msg_len + 1);
     rassert (a = 0x80 \<and> b = 0x28);
     Some (new_msg_len, buf) }"

definition sign_message ::
  "(bytes \<Rightarrow> bytes \<Rightarrow> bytes) \<Rightarrow> (bytes \<Rightarrow> u32) \<Rightarrow> bytes \<Rightarrow> nat \<Rightarrow> bytes \<Rightarrow> (nat \<times> bytes) option" where
  "sign_message hmac crc buf msg_len key = do {
     (n, buf) \<leftarrow> add_message_integrity hmac buf msg_len key;
     add_fingerprint crc buf n }"

record integrity_context =
  ic_integrity_offset :: nat
  ic_integrity_value :: "bytes option"
  ic_fingerprint_offset :: nat
  ic_fingerprint_value :: "u32 option"

definition integrity_context_empty :: integrity_context where
  "integrity_context_empty = \<lparr>ic_integrity_offset = 0, ic_integrity_value = None, ic_fingerprint_offset = 0,
     ic_fingerprint_value = None\<rparr>"

definition ic_verify_integrity :: "(bytes \<Rightarrow> bytes \<Rightarrow> bytes) \<Rightarrow> integrity_context \<Rightarrow> bytes \<Rightarrow> bytes \<Rightarrow> bool option" where
  "ic_verify_integrity hmac c d key = (case ic_integrity_value c of
     Some expected \<Rightarrow> verify_message_integrity hmac d (ic_integrity_offset c) expected key
   | None \<Rightarrow> Some False)"

definition ic_verify_fingerprint :: "(bytes \<Rightarrow> u32) \<Rightarrow> integrity_context \<Rightarrow> bytes \<Rightarrow> bool option" where
  "ic_verify_fingerprint crc c d = (case ic_fingerprint_value c of
     Some expected \<Rightarrow> verify_fingerprint crc d (ic_fingerprint_offset c) expected
   | None \<Rightarrow> Some False)"

section \<open>Requests\<close>

definition is_binding_indication :: "bytes \<Rightarrow> bool option" where
  "is_binding_indication d =
     (if length d < STUN_HEADER_SIZE then Some False
      else do {
        s \<leftarrow> is_stun d;
        if \<not> s then Some False
        else do {
          msg_type \<leftarrow> u16_at d 0;
          let c = (drop_bit 4 msg_type AND 1) OR (drop_bit 7 msg_type AND 2);
          let m = (msg_type AND 0x000F) OR (drop_bit 1 msg_type AND 0x0070) OR (drop_bit 2 msg_type AND 0x0F80);
          Some (c = 1 \<and> m = 1) } })"

definition create_binding_indication :: "bytes \<Rightarrow> bytes \<Rightarrow> (nat \<times> bytes) option" where
  "create_binding_indication buf tid = do {
     rassert (STUN_HEADER_SIZE \<le> length buf);
     buf \<leftarrow> copy_into buf 0 (to_be16 (encode_type Indication Binding));
     buf \<leftarrow> copy_into buf 2 (to_be16 0);
     buf \<leftarrow> copy_into buf 4 (to_be32 STUN_MAGIC_COOKIE);
     buf \<leftarrow> copy_into buf 8 tid;
     Some (STUN_HEADER_SIZE, buf) }"

definition create_binding_request ::
  "(bytes \<Rightarrow> bytes \<Rightarrow> bytes) \<Rightarrow> (bytes \<Rightarrow> u32) \<Rightarrow> bytes \<Rightarrow> bytes \<Rightarrow> bytes \<Rightarrow> u32 \<Rightarrow> bool \<Rightarrow> u64 \<Rightarrow> bool \<Rightarrow> bytes \<Rightarrow>
   (nat \<times> bytes) option" where
  "create_binding_request hmac crc buf tid username priority ice_controlling tie_breaker use_candidate password = do {
     rassert (128 \<le> length buf);
     rassert (length username \<le> 128);
     rassert (password \<noteq> []);
     buf \<leftarrow> copy_into buf 0 (to_be16 (encode_type Request Binding));
     buf \<leftarrow> copy_into buf 4 (to_be32 STUN_MAGIC_COOKIE);
     buf \<leftarrow> copy_into buf 8 tid;
     let offset = STUN_HEADER_SIZE;
     username_attr \<leftarrow> attr_username username;
     (n, buf) \<leftarrow> on_tail offset (attr_encode username_attr tid) buf;
     let offset = offset + n;
     (n, buf) \<leftarrow> on_tail offset (attr_encode (Priority priority) tid) buf;
     let offset = offset + n;
     (n, buf) \<leftarrow> on_tail offset (attr_encode
       (if ice_controlling then IceControlling tie_breaker else IceControlled tie_breaker) tid) buf;
     let offset = offset + n;
     (n, buf) \<leftarrow> (if use_candidate \<and> ice_controlling then on_tail offset (attr_encode UseCandidate tid) buf
       else Some (0, buf));
     let offset = offset + n;
     buf \<leftarrow> copy_into buf 2 (to_be16 (of_nat (offset - STUN_HEADER_SIZE)));
     (final_len, buf) \<leftarrow> sign_message hmac crc buf offset password;
     rassert (final_len \<le> length buf);
     rassert (STUN_HEADER_SIZE \<le> final_len);
     Some (final_len, buf) }"

section \<open>Parsing is total\<close>

lemma and_3_cases: "(b :: u8) AND 3 = 0 \<or> b AND 3 = 1 \<or> b AND 3 = 2 \<or> b AND 3 = 3"
proof -
  have "b AND 3 = b AND mask 2" by (simp add: mask_eq_exp_minus_1)
  also have "\<dots> = of_nat (unat b mod 4)"
    by (simp only: take_bit_eq_mask[symmetric]) (simp add: take_bit_eq_mod word_unat_eq_iff unat_mod unat_of_nat)
  finally have "b AND 3 = of_nat (unat b mod 4)" .
  moreover have "unat b mod 4 = 0 \<or> unat b mod 4 = 1 \<or> unat b mod 4 = 2 \<or> unat b mod 4 = 3" by arith
  ultimately show ?thesis by auto
qed

lemma class_from_bits_total: "\<exists>c. class_from_bits b = Some c"
  using and_3_cases[of b] by (auto simp: class_from_bits_def)

lemma parse_header_total:
  assumes "20 \<le> length d"
  shows "\<exists>r. parse_header d = Some r \<and> (\<forall>c m tid n. r = Inr (c, m, tid, n) \<longrightarrow> 20 + n \<le> length d)"
proof -
  have "d \<noteq> []" using assms by auto
  then have u: "\<exists>x. u16_at d 0 = Some x" "\<exists>x. u16_at d 2 = Some x" "\<exists>x. u32_at d 4 = Some x"
    using assms by (simp_all add: u16_at_def u32_at_def)
  obtain ty len ck where v: "u16_at d 0 = Some ty" "u16_at d 2 = Some len" "u32_at d 4 = Some ck" using u by blast
  obtain cls where c: "\<And>b. class_from_bits b = Some (cls b)" using class_from_bits_total by metis
  show ?thesis
    using assms by (auto simp: parse_header_def STUN_HEADER_SIZE_def v c Let_def split: option.splits)
qed

lemma parse_attrs_loop_total:
  assumes "fin \<le> length d" "length attrs = STUN_MAX_ATTRIBUTES" "unat n \<le> STUN_MAX_ATTRIBUTES"
  shows "\<exists>r. parse_attrs_loop i d fin tid offset saw attrs n = Some r \<and>
    (\<forall>attrs' n'. r = Inr (attrs', n') \<longrightarrow> length attrs' = STUN_MAX_ATTRIBUTES \<and> unat n' \<le> STUN_MAX_ATTRIBUTES)"
  using assms
proof (induction i arbitrary: offset saw attrs n)
  case (Suc i)
  show ?case
  proof (cases "offset + 4 > fin")
    case False
    then obtain t len where u: "u16_at d offset = Some t" "u16_at d (offset + 2) = Some len"
      using Suc.prems(1) by (simp add: u16_at_def)
    let ?v = "take (unat len) (drop (offset + 4) d)"
    obtain r where r: "attr_parse t ?v tid = Some r" using attr_parse_total by blast
    show ?thesis
    proof (cases "(saw \<and> t \<noteq> ATTR_FINGERPRINT) \<or> offset + 4 + unat len > fin")
      case True
      then show ?thesis using False u by auto
    next
      case ok: False
      have s: "sub_slice d (offset + 4) (offset + 4 + unat len) = Some ?v" using ok Suc.prems(1) by simp
      show ?thesis
      proof (cases r)
        case (Inl e)
        then show ?thesis using False ok u s r by simp
      next
        case (Inr a)
        show ?thesis
        proof (cases "a \<noteq> None \<and> unat n < STUN_MAX_ATTRIBUTES")
          case True
          then obtain a' where a': "a = Some a'" by blast
          have "unat (n + 1) \<le> STUN_MAX_ATTRIBUTES" using True by (simp add: STUN_MAX_ATTRIBUTES_def unat_word_ariths)
          from Suc.IH[OF Suc.prems(1) _ this, of "attrs[unat n := Some a']"]
          show ?thesis using False ok u s r Inr True a' Suc.prems(2) by simp
        next
          case no: False
          then have "(case a of None \<Rightarrow> Some (attrs, n) | Some a \<Rightarrow> if unat n < STUN_MAX_ATTRIBUTES
             then do { rassert (unat n < length attrs); Some (attrs[unat n := Some a], n + 1) } else Some (attrs, n)) = Some (attrs, n)"
            by (auto split: option.split)
          then show ?thesis using Suc.IH[OF Suc.prems] False ok u s r Inr by simp
        qed
      qed
    qed
  qed (use Suc.prems in simp)
qed simp

text \<open>No datagram makes the parser panic.\<close>

lemma stun_parse_total: "\<exists>r. stun_parse d = Some r"
proof (cases "length d < STUN_HEADER_SIZE")
  case False
  then have "20 \<le> length d" by (simp add: STUN_HEADER_SIZE_def)
  then obtain r where r: "parse_header d = Some r" "\<forall>c m tid n. r = Inr (c, m, tid, n) \<longrightarrow> 20 + n \<le> length d"
    using parse_header_total by blast
  show ?thesis
  proof (cases r)
    case (Inr x)
    then obtain c m tid n where x: "r = Inr (c, m, tid, n)" by (cases x) auto
    with r have n: "STUN_HEADER_SIZE + n \<le> length d" by (simp add: STUN_HEADER_SIZE_def)
    obtain r2 where r2: "parse_attrs_loop STUN_MAX_ATTRIBUTES d (STUN_HEADER_SIZE + n) tid STUN_HEADER_SIZE False no_attributes 0 = Some r2"
      "\<forall>attrs' n'. r2 = Inr (attrs', n') \<longrightarrow> length attrs' = STUN_MAX_ATTRIBUTES \<and> unat n' \<le> STUN_MAX_ATTRIBUTES"
      using parse_attrs_loop_total[OF n, of no_attributes 0 STUN_MAX_ATTRIBUTES tid STUN_HEADER_SIZE False]
      by (auto simp: no_attributes_def)
    then have "parse_attributes d n tid = Some r2"
      using n by (auto simp: parse_attributes_def split: sum.split prod.split)
    then show ?thesis using False r x r2 by (auto simp: stun_parse_def split: sum.split prod.split)
  qed (use False r in \<open>simp add: stun_parse_def\<close>)
qed (simp add: stun_parse_def)

section \<open>A signed message passes both checks\<close>

lemma ct_equal_iff: "length xs = length ys \<Longrightarrow> ct_equal xs ys \<longleftrightarrow> xs = ys"
proof -
  have "foldl (\<lambda>diff (a, b). diff OR (a XOR b)) d (zip xs ys) = 0 \<longleftrightarrow> d = 0 \<and> xs = ys"
    if "length xs = length ys" for d :: u8 and xs ys
    using that
  proof (induction xs ys arbitrary: d rule: list_induct2)
    case (Cons x xs y ys)
    have "d OR (x XOR y) = 0 \<longleftrightarrow> d = 0 \<and> x = y" by (auto simp: bit_eq_iff bit_simps)
    then show ?case using Cons by simp
  qed simp
  then show "length xs = length ys \<Longrightarrow> ct_equal xs ys \<longleftrightarrow> xs = ys" by (simp add: ct_equal_def)
qed

text \<open>
  A message as its parts: type, length field, cookie and transaction id, and
  the attributes.  The two checks depend on everything but the length field.
\<close>

definition msg_parts :: "bytes \<Rightarrow> bytes \<Rightarrow> bytes \<Rightarrow> bool" where
  "msg_parts ty ln rest \<longleftrightarrow> length ty = 2 \<and> length ln = 2 \<and> length rest = 16"

definition integrity_of :: "(bytes \<Rightarrow> bytes \<Rightarrow> bytes) \<Rightarrow> bytes \<Rightarrow> bytes \<Rightarrow> bytes \<Rightarrow> bytes \<Rightarrow> bytes" where
  "integrity_of hmac key ty rest body = hmac key (ty @ to_be16 (of_nat (length body + 24)) @ rest @ body)"

definition fingerprint_of :: "(bytes \<Rightarrow> u32) \<Rightarrow> bytes \<Rightarrow> bytes \<Rightarrow> bytes \<Rightarrow> u32" where
  "fingerprint_of crc ty rest body = crc (ty @ to_be16 (of_nat (length body + 8)) @ rest @ body) XOR STUN_FINGERPRINT_XOR"

lemma parts_slices:
  assumes "msg_parts ty ln rest"
  shows "sub_slice (ty @ ln @ rest @ body @ xs) 0 2 = Some ty" "sub_slice (ty @ ln @ rest @ body @ xs) 4 20 = Some rest"
    "sub_slice (ty @ ln @ rest @ body @ xs) 20 (20 + length body) = Some body" "20 \<le> length (ty @ ln @ rest @ body @ xs)"
    "length body + 20 \<le> length (ty @ ln @ rest @ body @ xs)"
  using assms by (simp_all add: msg_parts_def sub_slice_def)

lemma compute_message_integrity_parts:
  assumes "msg_parts ty ln rest" "key \<noteq> []" "length key \<le> 256" "length (integrity_of hmac key ty rest body) = 20"
  shows "compute_message_integrity hmac (ty @ ln @ rest @ body @ tail') (20 + length body) key =
    Some (integrity_of hmac key ty rest body)"
  unfolding compute_message_integrity_def STUN_HEADER_SIZE_def Let_def parts_slices(1-3)[OF assms(1)]
  using assms(2-4) parts_slices(4,5)[OF assms(1), of body tail'] by (simp add: integrity_of_def)

lemma compute_fingerprint_parts:
  assumes "msg_parts ty ln rest"
  shows "compute_fingerprint crc (ty @ ln @ rest @ body @ tail') (20 + length body) = Some (fingerprint_of crc ty rest body)"
  unfolding compute_fingerprint_def STUN_HEADER_SIZE_def Let_def parts_slices(1-3)[OF assms]
  using parts_slices(4,5)[OF assms, of body tail'] by (simp add: fingerprint_of_def)

definition mi_attr :: "(bytes \<Rightarrow> bytes \<Rightarrow> bytes) \<Rightarrow> bytes \<Rightarrow> bytes \<Rightarrow> bytes \<Rightarrow> bytes \<Rightarrow> bytes" where
  "mi_attr hmac key ty rest body = to_be16 0x0008 @ to_be16 0x0014 @ integrity_of hmac key ty rest body"

definition fp_attr :: "(bytes \<Rightarrow> u32) \<Rightarrow> bytes \<Rightarrow> bytes \<Rightarrow> bytes \<Rightarrow> bytes" where
  "fp_attr crc ty rest body = to_be16 0x8028 @ to_be16 0x0004 @ to_be32 (fingerprint_of crc ty rest body)"

lemma copy_header_len:
  "msg_parts ty ln rest \<Longrightarrow> copy_into (ty @ ln @ rest @ xs) 2 (to_be16 w) = Some (ty @ to_be16 w @ rest @ xs)"
  by (rule copy_into_parts) (simp_all add: msg_parts_def)

lemma append_tail3:
  assumes "length tail' \<ge> length a + length b + length c" "i = length p" "j = i + length a" "k = j + length b"
  obtains d1 d2 where "copy_into (p @ tail') i a = Some d1" "copy_into d1 j b = Some d2"
    "copy_into d2 k c = Some (p @ a @ b @ c @ drop (length a + length b + length c) tail')"
proof -
  obtain t1 t2 t3 t4 where t: "tail' = t1 @ t2 @ t3 @ t4" "length t1 = length a" "length t2 = length b" "length t3 = length c"
  proof -
    let ?a = "length a" and ?b = "length b" and ?c = "length c"
    have "tail' = take ?a tail' @ take ?b (drop ?a tail') @ take ?c (drop (?a + ?b) tail') @ drop (?a + ?b + ?c) tail'"
      by (metis append_take_drop_id add.commute drop_drop)
    then show ?thesis using assms(1) by (intro that[of "take ?a tail'" "take ?b (drop ?a tail')" "take ?c (drop (?a + ?b) tail')"
      "drop (?a + ?b + ?c) tail'"]) simp_all
  qed
  have "copy_into (p @ tail') i a = Some (p @ a @ t2 @ t3 @ t4)"
    using copy_into_parts[of t1 a i p "t2 @ t3 @ t4"] t assms(2) by simp
  moreover have "copy_into (p @ a @ t2 @ t3 @ t4) j b = Some (p @ a @ b @ t3 @ t4)"
    using copy_into_parts[of t2 b j "p @ a" "t3 @ t4"] t assms(2,3) by simp
  moreover have "copy_into (p @ a @ b @ t3 @ t4) k c = Some (p @ a @ b @ c @ t4)"
    using copy_into_parts[of t3 c k "p @ a @ b" t4] t assms(2-4) by simp
  ultimately show ?thesis using that t by simp
qed

lemma idx_after: "i = length p \<Longrightarrow> idx (p @ xs) (i + k) = idx xs k"
  by (simp add: idx_def nth_append)

lemma add_message_integrity_parts:
  assumes "msg_parts ty ln rest" "key \<noteq> []" "length key \<le> 256" "length (integrity_of hmac key ty rest body) = 20"
    "24 \<le> length tail'" "n = 20 + length body"
  shows "add_message_integrity hmac (ty @ ln @ rest @ body @ tail') n key =
    Some (n + 24, ty @ to_be16 (of_nat (n + 24 - 20)) @ rest @ body @ mi_attr hmac key ty rest body @ drop 24 tail')"
proof -
  let ?h = "integrity_of hmac key ty rest body" and ?l = "to_be16 (of_nat (n + 24 - 20))"
  let ?p = "ty @ ?l @ rest @ body"
  have mp: "msg_parts ty ?l rest" using assms(1) by (simp add: msg_parts_def)
  have c: "compute_message_integrity hmac (?p @ tail') n key = Some ?h"
    using compute_message_integrity_parts[OF mp assms(2-4), of tail'] assms(6) by simp
  have n: "length ?p = n" using mp assms(6) by (simp add: msg_parts_def)
  obtain d1 d2 where w: "copy_into (?p @ tail') n (to_be16 0x0008) = Some d1" "copy_into d1 (n + 2) (to_be16 0x0014) = Some d2"
    "copy_into d2 (n + 4) ?h = Some (?p @ mi_attr hmac key ty rest body @ drop 24 tail')"
    using append_tail3[of "to_be16 0x0008" "to_be16 0x0014" ?h tail' n ?p "n + 2" "n + 4"] assms n
    by (auto simp: mi_attr_def)
  have i: "idx (?p @ mi_attr hmac key ty rest body @ drop 24 tail') n = Some 0"
    "idx (?p @ mi_attr hmac key ty rest body @ drop 24 tail') (n + 1) = Some 8"
    using idx_after[OF n[symmetric], of "mi_attr hmac key ty rest body @ drop 24 tail'" 0]
      idx_after[OF n[symmetric], of "mi_attr hmac key ty rest body @ drop 24 tail'" 1]
    by (simp_all add: mi_attr_def to_be16_def idx_def)
  have l: "copy_into (ty @ ln @ rest @ body @ tail') 2 ?l = Some (?p @ tail')"
    using copy_header_len[OF assms(1), of "body @ tail'" "of_nat (n + 24 - 20)"] by simp
  have r: "n + 24 \<le> length (ty @ ln @ rest @ body @ tail')" "20 \<le> n" using assms by (simp_all add: msg_parts_def)
  show ?thesis
    unfolding add_message_integrity_def STUN_HEADER_SIZE_def Let_def l bind.simps c w i
    using r by simp
qed

lemma add_fingerprint_parts:
  assumes "msg_parts ty ln rest" "8 \<le> length tail'" "n = 20 + length body"
  shows "add_fingerprint crc (ty @ ln @ rest @ body @ tail') n =
    Some (n + 8, ty @ to_be16 (of_nat (n + 8 - 20)) @ rest @ body @ fp_attr crc ty rest body @ drop 8 tail')"
proof -
  let ?h = "to_be32 (fingerprint_of crc ty rest body)" and ?l = "to_be16 (of_nat (n + 8 - 20))"
  let ?p = "ty @ ?l @ rest @ body"
  have mp: "msg_parts ty ?l rest" using assms(1) by (simp add: msg_parts_def)
  have c: "compute_fingerprint crc (?p @ tail') n = Some (fingerprint_of crc ty rest body)"
    using compute_fingerprint_parts[OF mp, of crc body tail'] assms(3) by simp
  have n: "length ?p = n" using mp assms(3) by (simp add: msg_parts_def)
  obtain d1 d2 where w: "copy_into (?p @ tail') n (to_be16 0x8028) = Some d1" "copy_into d1 (n + 2) (to_be16 0x0004) = Some d2"
    "copy_into d2 (n + 4) ?h = Some (?p @ fp_attr crc ty rest body @ drop 8 tail')"
    using append_tail3[of "to_be16 0x8028" "to_be16 0x0004" ?h tail' n ?p "n + 2" "n + 4"] assms n
    by (auto simp: fp_attr_def)
  have i: "idx (?p @ fp_attr crc ty rest body @ drop 8 tail') n = Some 0x80"
    "idx (?p @ fp_attr crc ty rest body @ drop 8 tail') (n + 1) = Some 0x28"
    using idx_after[OF n[symmetric], of "fp_attr crc ty rest body @ drop 8 tail'" 0]
      idx_after[OF n[symmetric], of "fp_attr crc ty rest body @ drop 8 tail'" 1]
    by (simp_all add: fp_attr_def to_be16_def idx_def)
  have l: "copy_into (ty @ ln @ rest @ body @ tail') 2 ?l = Some (?p @ tail')"
    using copy_header_len[OF assms(1), of "body @ tail'" "of_nat (n + 8 - 20)"] by simp
  have r: "n + 8 \<le> length (ty @ ln @ rest @ body @ tail')" "20 \<le> n" using assms by (simp_all add: msg_parts_def)
  show ?thesis
    unfolding add_fingerprint_def STUN_HEADER_SIZE_def Let_def l bind.simps c w i
    using r by simp
qed

text \<open>The attributes a signature appends.\<close>

definition signature :: "(bytes \<Rightarrow> bytes \<Rightarrow> bytes) \<Rightarrow> (bytes \<Rightarrow> u32) \<Rightarrow> bytes \<Rightarrow> bytes \<Rightarrow> bytes \<Rightarrow> bytes \<Rightarrow> bytes" where
  "signature hmac crc key ty rest body = mi_attr hmac key ty rest body @
     fp_attr crc ty rest (body @ mi_attr hmac key ty rest body)"

lemma sign_message_parts:
  assumes "msg_parts ty ln rest" "key \<noteq> []" "length key \<le> 256" "length (integrity_of hmac key ty rest body) = 20"
    "32 \<le> length tail'" "n = 20 + length body"
  shows "sign_message hmac crc (ty @ ln @ rest @ body @ tail') n key =
    Some (n + 32, ty @ to_be16 (of_nat (length body + 32)) @ rest @ body @ signature hmac crc key ty rest body @ drop 32 tail')"
proof -
  let ?mi = "mi_attr hmac key ty rest body" and ?l = "to_be16 (of_nat (n + 24 - 20))"
  have a: "add_message_integrity hmac (ty @ ln @ rest @ body @ tail') n key =
      Some (n + 24, ty @ ?l @ rest @ body @ ?mi @ drop 24 tail')"
    using add_message_integrity_parts[OF assms(1-4) _ assms(6), of tail'] assms(5) by simp
  have mp: "msg_parts ty ?l rest" using assms(1) by (simp add: msg_parts_def)
  have "length ?mi = 24" using assms(4) by (simp add: mi_attr_def)
  then have "add_fingerprint crc (ty @ ?l @ rest @ (body @ ?mi) @ drop 24 tail') (n + 24) =
    Some (n + 24 + 8, ty @ to_be16 (of_nat (n + 24 + 8 - 20)) @ rest @ (body @ ?mi) @ fp_attr crc ty rest (body @ ?mi) @ drop 8 (drop 24 tail'))"
    using assms(5,6) by (intro add_fingerprint_parts[OF mp]) simp_all
  moreover have "n + 24 + 8 = n + 32" "n + 32 - 20 = length body + 32" "drop 8 (drop 24 tail') = drop 32 tail'"
    using assms(6) by simp_all
  ultimately show ?thesis unfolding sign_message_def a signature_def by (simp only: bind.simps prod.case append.assoc)
qed

lemma verify_integrity_parts:
  assumes "msg_parts ty ln rest" "key \<noteq> []" "length key \<le> 256" "length (integrity_of hmac key ty rest body) = 20"
    "length h = 20"
  shows "verify_message_integrity hmac (ty @ ln @ rest @ body @ tail') (20 + length body) h key =
    Some (h = integrity_of hmac key ty rest body)"
proof -
  have l: "\<not> (length (ty @ ln @ rest @ body @ tail') < 20 \<or> 20 + length body < 20 \<or>
      20 + length body > length (ty @ ln @ rest @ body @ tail') \<or> key = [] \<or> length key > 256)"
    using assms by (simp add: msg_parts_def)
  show ?thesis
    unfolding verify_message_integrity_def STUN_HEADER_SIZE_def if_not_P[OF l]
      compute_message_integrity_parts[OF assms(1-4)] using assms(4,5) by (auto simp: ct_equal_iff)
qed

lemma verify_fingerprint_parts:
  assumes "msg_parts ty ln rest"
  shows "verify_fingerprint crc (ty @ ln @ rest @ body @ tail') (20 + length body) fp = Some (fp = fingerprint_of crc ty rest body)"
proof -
  have l: "\<not> (length (ty @ ln @ rest @ body @ tail') < 20 \<or> 20 + length body < 20 \<or>
      20 + length body > length (ty @ ln @ rest @ body @ tail'))"
    using assms by (simp add: msg_parts_def)
  show ?thesis
    unfolding verify_fingerprint_def STUN_HEADER_SIZE_def if_not_P[OF l] compute_fingerprint_parts[OF assms]
    by auto
qed

section \<open>A message is read back from its encoding\<close>

definition attrs_bytes :: "bytes \<Rightarrow> stun_attribute list \<Rightarrow> bytes" where
  "attrs_bytes tid as = concat (map (attr_bytes tid) as)"

lemma attrs_bytes_simps [simp]: "attrs_bytes tid [] = []" "attrs_bytes tid (a # as) = attr_bytes tid a @ attrs_bytes tid as"
  by (simp_all add: attrs_bytes_def)

lemma on_tail_encode:
  assumes "attr_wf a" "length tid = 12" "length (attr_bytes tid a) \<le> length t" "24 \<le> length t" "i = length p"
  shows "on_tail i (attr_encode a tid) (p @ t) =
    Some (length (attr_bytes tid a), p @ attr_bytes tid a @ drop (length (attr_bytes tid a)) t)"
  using attr_encode_eq[OF assms(1-4)] assms(5) by (simp add: on_tail_def overwrite_def)

lemma encode_attrs_eq:
  assumes "\<forall>a\<in>set as. attr_wf a" "length tid = 12" "length (attrs_bytes tid as) + 24 \<le> length t" "i = length p"
  shows "encode_attrs (map Some as) tid i (p @ t) =
    Some (i + length (attrs_bytes tid as), p @ attrs_bytes tid as @ drop (length (attrs_bytes tid as)) t)"
  using assms
proof (induction as arbitrary: i p t)
  case (Cons a as)
  let ?b = "attr_bytes tid a"
  have "on_tail i (attr_encode a tid) (p @ t) = Some (length ?b, p @ ?b @ drop (length ?b) t)"
    using Cons.prems by (intro on_tail_encode) simp_all
  moreover have "encode_attrs (map Some as) tid (i + length ?b) ((p @ ?b) @ drop (length ?b) t) =
    Some (i + length ?b + length (attrs_bytes tid as), (p @ ?b) @ attrs_bytes tid as @ drop (length (attrs_bytes tid as)) (drop (length ?b) t))"
    using Cons.prems by (intro Cons.IH) simp_all
  ultimately show ?case by (simp add: add.commute add.left_commute)
qed simp

fun mi_ordered :: "bool \<Rightarrow> stun_attribute list \<Rightarrow> bool" where
  "mi_ordered saw [] = True"
| "mi_ordered saw (a # as) = ((saw \<longrightarrow> attr_type a = ATTR_FINGERPRINT) \<and> mi_ordered (saw \<or> attr_type a = ATTR_MESSAGE_INTEGRITY) as)"

lemma length_attr_value:
  assumes "attr_canon a" "length tid = 12" shows "length (attr_value tid a) \<le> 1200"
proof (cases a)
  case (MappedAddress addr)
  then show ?thesis using length_addr_bytes[of addr] by (simp add: attr_value_def)
qed (use assms length_xor_addr_bytes[OF assms(2)] in \<open>auto simp: attr_value_def attr_canon_def zero_padded_def attr_limits
    intro: order_trans[of _ 20]\<close>)

text \<open>Reading the header and value of an attribute inside a message.\<close>

lemma tlv_read:
  assumes "d = pre @ (to_be16 t @ to_be16 (of_nat (length v)) @ v @ z) @ post" "length v < 65536"
  shows "u16_at d (length pre) = Some t" "u16_at d (length pre + 2) = Some (of_nat (length v))"
    "unat (of_nat (length v) :: u16) = length v"
    "sub_slice d (length pre + 4) (length pre + 4 + length v) = Some v"
    "length pre + 4 + length v \<le> length d"
proof -
  show "u16_at d (length pre) = Some t" using u16_at_append[of pre t] assms(1) by simp
  show "u16_at d (length pre + 2) = Some (of_nat (length v))"
    using u16_at_append[of "pre @ to_be16 t" "of_nat (length v)" "v @ z @ post"] assms(1) by simp
  show "unat (of_nat (length v) :: u16) = length v" using assms(2) by (subst unat_of_nat) simp
  show "sub_slice d (length pre + 4) (length pre + 4 + length v) = Some v"
    using assms(1) by (simp add: sub_slice_def)
  show "length pre + 4 + length v \<le> length d" using assms(1) by simp
qed

lemma parse_attrs_read:
  assumes "\<forall>a\<in>set as. attr_canon a" "length tid = 12" "mi_ordered saw as"
    "d = pre @ attrs_bytes tid as" "length acc + length as \<le> STUN_MAX_ATTRIBUTES" "length as \<le> i"
  shows "parse_attrs_loop i d (length d) tid (length pre) saw
      (acc @ replicate (STUN_MAX_ATTRIBUTES - length acc) None) (of_nat (length acc)) =
    Some (Inr (acc @ map Some as @ replicate (STUN_MAX_ATTRIBUTES - length acc - length as) None, of_nat (length acc + length as)))"
  using assms
proof (induction as arbitrary: i saw pre acc)
  case Nil
  then show ?case by (cases i) simp_all
next
  case (Cons a as)
  obtain i' where i: "i = Suc i'" using Cons.prems(6) by (cases i) auto
  let ?v = "attr_value tid a" and ?n = "length acc"
  have v: "length ?v < 65536" using length_attr_value[of a tid] Cons.prems(1,2) by simp
  define z where "z = replicate (padded_len (length ?v) - length ?v) (0 :: u8)"
  have d: "d = pre @ (to_be16 (attr_type a) @ to_be16 (of_nat (length ?v)) @ ?v @ z) @ attrs_bytes tid as"
    using Cons.prems(4) by (simp add: attr_bytes_def Let_def z_def)
  note r = tlv_read[OF d v]
  have p: "attr_parse (attr_type a) ?v tid = Some (Inr (Some a))" using Cons.prems(1,2) by (intro attr_parse_value) simp_all
  have lt: "?n < STUN_MAX_ATTRIBUTES" using Cons.prems(5) by simp
  then have n: "unat (of_nat ?n :: u8) = ?n" by (subst unat_of_nat) (simp add: STUN_MAX_ATTRIBUTES_def)
  have upd: "(acc @ replicate (STUN_MAX_ATTRIBUTES - ?n) None)[?n := Some a] =
      (acc @ [Some a]) @ replicate (STUN_MAX_ATTRIBUTES - length (acc @ [Some a])) None"
  proof -
    have "STUN_MAX_ATTRIBUTES - ?n = Suc (STUN_MAX_ATTRIBUTES - Suc ?n)" using lt by simp
    then show ?thesis by (simp add: list_update_append)
  qed
  have nxt: "length pre + 4 + (length ?v + 3) div 4 * 4 = length (pre @ attr_bytes tid a)"
    by (simp add: length_attr_bytes padded_len_def)
  have ih: "parse_attrs_loop i' d (length d) tid (length (pre @ attr_bytes tid a)) (saw \<or> attr_type a = ATTR_MESSAGE_INTEGRITY)
      ((acc @ [Some a]) @ replicate (STUN_MAX_ATTRIBUTES - length (acc @ [Some a])) None) (of_nat (length (acc @ [Some a]))) =
    Some (Inr ((acc @ [Some a]) @ map Some as @ replicate (STUN_MAX_ATTRIBUTES - length (acc @ [Some a]) - length as) None,
      of_nat (length (acc @ [Some a]) + length as)))"
    using Cons.prems i by (intro Cons.IH) simp_all
  have c: "\<not> (saw \<and> attr_type a \<noteq> ATTR_FINGERPRINT)" "\<not> length d < length pre + 4" "\<not> length d < length pre + 4 + length ?v"
    using Cons.prems(3) r(5) by auto
  have one: "of_nat ?n + 1 = (of_nat (length (acc @ [Some a])) :: u8)" by simp
  show ?case
    unfolding i parse_attrs_loop.simps r(1,2) bind.simps r(3) r(4) p if_not_P[OF c(1)] if_not_P[OF c(2)] if_not_P[OF c(3)]
      sum.case option.case prod.case n if_P[OF lt] one nxt
    using lt ih by (simp add: upd)
qed

definition type_ok :: "stun_class \<times> stun_method \<Rightarrow> bool" where
  "type_ok cm = (case cm of (c, m) \<Rightarrow> let t = encode_type c m in
     t AND 0xC000 = 0 \<and> class_from_bits (ucast (push_bit 1 (drop_bit 8 t AND 1) OR (drop_bit 4 t AND 1))) = Some c \<and>
     method_try_from_u16 ((t AND 0x000F) OR (drop_bit 5 t AND 0x0070) OR (drop_bit 2 t AND 0x0F80)) = Some m)"

lemma type_table: "list_all type_ok (List.product [Request, Indication, SuccessResponse, ErrorResponse]
    [Binding, Allocate, Refresh, Send, MethodData, CreatePermission, ChannelBind])"
  by code_simp

lemma type_ok_all: "type_ok (c, m)"
proof -
  have "c \<in> set [Request, Indication, SuccessResponse, ErrorResponse]" by (cases c) simp_all
  moreover have "m \<in> set [Binding, Allocate, Refresh, Send, MethodData, CreatePermission, ChannelBind]" by (cases m) simp_all
  ultimately show ?thesis using type_table unfolding list_all_iff set_product by blast
qed

lemmas type_read = type_ok_all[unfolded type_ok_def Let_def prod.case, THEN conjunct1]
  type_ok_all[unfolded type_ok_def Let_def prod.case, THEN conjunct2, THEN conjunct1]
  type_ok_all[unfolded type_ok_def Let_def prod.case, THEN conjunct2, THEN conjunct2]

definition msg_bytes :: "stun_class \<Rightarrow> stun_method \<Rightarrow> bytes \<Rightarrow> bytes \<Rightarrow> bytes" where
  "msg_bytes c m tid body = to_be16 (encode_type c m) @ to_be16 (of_nat (length body)) @ to_be32 STUN_MAGIC_COOKIE @ tid @ body"

lemma parse_header_msg:
  assumes "length tid = 12" "length body < 65536"
  shows "parse_header (msg_bytes c m tid body) = Some (Inr (c, m, tid, length body))"
proof -
  let ?d = "msg_bytes c m tid body"
  have l: "length ?d = 20 + length body" using assms(1) by (simp add: msg_bytes_def)
  have u: "unat (of_nat (length body) :: u16) = length body" using assms(2) by (subst unat_of_nat) simp
  have "u16_at ?d 0 = Some (encode_type c m)" using u16_at_append[of "[]"] by (simp add: msg_bytes_def)
  moreover have "u16_at ?d 2 = Some (of_nat (length body))"
    using u16_at_append[of "to_be16 (encode_type c m)" "of_nat (length body)"] by (simp add: msg_bytes_def)
  moreover have "u32_at ?d 4 = Some STUN_MAGIC_COOKIE"
    using u32_at_append[of "to_be16 (encode_type c m) @ to_be16 (of_nat (length body))" STUN_MAGIC_COOKIE] by (simp add: msg_bytes_def)
  moreover have "sub_slice ?d 8 20 = Some tid" using assms(1) by (simp add: msg_bytes_def sub_slice_def)
  ultimately show ?thesis
    unfolding parse_header_def STUN_HEADER_SIZE_def Let_def using l u type_read[of c m] by simp
qed

definition msg_canon :: "stun_message \<Rightarrow> stun_attribute list \<Rightarrow> bool" where
  "msg_canon m as \<longleftrightarrow> length (sm_transaction_id m) = 12 \<and> length as \<le> STUN_MAX_ATTRIBUTES \<and>
     sm_attributes m = map Some as @ replicate (STUN_MAX_ATTRIBUTES - length as) None \<and>
     sm_attribute_count m = of_nat (length as) \<and> (\<forall>a\<in>set as. attr_canon a) \<and> mi_ordered False as"

lemma stun_parse_msg:
  assumes "length tid = 12" "\<forall>a\<in>set as. attr_canon a" "mi_ordered False as" "length as \<le> STUN_MAX_ATTRIBUTES"
    "length (attrs_bytes tid as) < 65536"
  shows "stun_parse (msg_bytes c m tid (attrs_bytes tid as)) = Some (Inr \<lparr>sm_class = c, sm_method = m, sm_transaction_id = tid,
    sm_attributes = map Some as @ replicate (STUN_MAX_ATTRIBUTES - length as) None, sm_attribute_count = of_nat (length as)\<rparr>)"
proof -
  let ?b = "attrs_bytes tid as" and ?d = "msg_bytes c m tid (attrs_bytes tid as)"
  define pre where "pre = to_be16 (encode_type c m) @ to_be16 (of_nat (length ?b)) @ to_be32 STUN_MAGIC_COOKIE @ tid"
  have d: "?d = pre @ ?b" "length pre = 20" using assms(1) by (simp_all add: msg_bytes_def pre_def)
  have "parse_attrs_loop STUN_MAX_ATTRIBUTES ?d (length ?d) tid (length pre) False (replicate STUN_MAX_ATTRIBUTES None) 0 =
    Some (Inr (map Some as @ replicate (STUN_MAX_ATTRIBUTES - length as) None, of_nat (length as)))"
    using parse_attrs_read[OF assms(2,1,3) d(1), of "[]" STUN_MAX_ATTRIBUTES] assms(4) by simp
  moreover have "unat (of_nat (length as) :: u8) \<le> STUN_MAX_ATTRIBUTES"
    using assms(4) by (subst unat_of_nat) (simp add: STUN_MAX_ATTRIBUTES_def)
  ultimately have "parse_attributes ?d (length ?b) tid =
    Some (Inr (map Some as @ replicate (STUN_MAX_ATTRIBUTES - length as) None, of_nat (length as)))"
    using d by (simp add: parse_attributes_def STUN_HEADER_SIZE_def no_attributes_def)
  then show ?thesis
    using parse_header_msg[OF assms(1,5), of c m] \<open>unat (of_nat (length as) :: u8) \<le> STUN_MAX_ATTRIBUTES\<close> d
    by (simp add: stun_parse_def STUN_HEADER_SIZE_def)
qed

lemma stun_encode_msg:
  assumes "msg_canon m as" "STUN_BUFFER_SIZE \<le> length buf" "20 + length (attrs_bytes (sm_transaction_id m) as) + 24 \<le> length buf"
  defines "out \<equiv> msg_bytes (sm_class m) (sm_method m) (sm_transaction_id m) (attrs_bytes (sm_transaction_id m) as)"
  shows "stun_encode m buf = Some (length out, out @ drop (length out) buf)"
proof -
  let ?tid = "sm_transaction_id m" and ?ty = "to_be16 (encode_type (sm_class m) (sm_method m))"
  let ?b = "attrs_bytes ?tid as" and ?rest = "to_be32 STUN_MAGIC_COOKIE @ sm_transaction_id m"
  have tid: "length ?tid = 12" and cnt: "unat (sm_attribute_count m) = length as" "length as \<le> STUN_MAX_ATTRIBUTES"
    and wf: "\<forall>a\<in>set as. attr_wf a"
    using assms(1) attr_canon_wf by (auto simp: msg_canon_def STUN_MAX_ATTRIBUTES_def unat_of_nat)
  have c: "counted m = map Some as" using assms(1) cnt by (simp add: counted_def msg_canon_def)
  have "overwrite 8 ?tid (overwrite 4 (to_be32 STUN_MAGIC_COOKIE) (overwrite 2 (to_be16 0) (overwrite 0 ?ty buf))) =
    overwrite 0 (?ty @ to_be16 0 @ to_be32 STUN_MAGIC_COOKIE @ ?tid) buf"
    using assms(3) tid by (intro overwrite4) simp_all
  then have h: "overwrite 8 ?tid (overwrite 4 (to_be32 STUN_MAGIC_COOKIE) (overwrite 2 (to_be16 0) (overwrite 0 ?ty buf))) =
    (?ty @ to_be16 0 @ ?rest) @ drop 20 buf"
    using assms(3) tid by (simp add: overwrite_def)
  have w: "copy_into buf 0 ?ty = Some (overwrite 0 ?ty buf)"
    "copy_into (overwrite 0 ?ty buf) 2 (to_be16 0) = Some (overwrite 2 (to_be16 0) (overwrite 0 ?ty buf))"
    "copy_into (overwrite 2 (to_be16 0) (overwrite 0 ?ty buf)) 4 (to_be32 STUN_MAGIC_COOKIE) =
      Some (overwrite 4 (to_be32 STUN_MAGIC_COOKIE) (overwrite 2 (to_be16 0) (overwrite 0 ?ty buf)))"
    "copy_into (overwrite 4 (to_be32 STUN_MAGIC_COOKIE) (overwrite 2 (to_be16 0) (overwrite 0 ?ty buf))) 8 ?tid =
      Some ((?ty @ to_be16 0 @ ?rest) @ drop 20 buf)"
    unfolding h[symmetric] using assms(3) tid by (simp_all add: copy_into_overwrite)
  have e: "encode_attrs (map Some as) ?tid 20 ((?ty @ to_be16 0 @ ?rest) @ drop 20 buf) =
    Some (20 + length ?b, (?ty @ to_be16 0 @ ?rest) @ ?b @ drop (length ?b) (drop 20 buf))"
    using wf tid assms(3) by (intro encode_attrs_eq) simp_all
  have n: "20 + length ?b - 20 = length ?b" by simp
  have r: "16 + length ?b \<le> length buf - 4" using assms(3) by simp
  have l: "copy_into ((?ty @ to_be16 0 @ ?rest) @ ?b @ drop (length ?b) (drop 20 buf)) 2 (to_be16 (of_nat (length ?b))) =
    Some (?ty @ to_be16 (of_nat (length ?b)) @ (?rest @ ?b @ drop (length ?b) (drop 20 buf)))"
    unfolding append.assoc by (rule copy_into_parts) simp_all
  have out: "length out = 20 + length ?b" "out = ?ty @ to_be16 (of_nat (length ?b)) @ ?rest @ ?b"
    using tid by (simp_all add: out_def msg_bytes_def)
  show ?thesis
    unfolding stun_encode_def STUN_HEADER_SIZE_def w bind.simps c e prod.case n l
    using assms(2,3) cnt out(1) r by (simp add: out(2) tid add.commute[of 20])
qed

end
