(* ===== verification/Ice_Lite.thy ===== *)
theory Ice_Lite
  imports Stun_Message
begin

text \<open>
  The ICE-lite side of a shard, \<^verbatim>\<open>nexus-dataplane/src/ice.rs\<close>: the scan of
  a binding request, its verification, and the success response.

  The lemmas show that scanning never panics, that a request that passes
  scan and verification is exactly a message followed by a correct
  MESSAGE-INTEGRITY and FINGERPRINT over all of it, that the request an ICE
  agent of \<^verbatim>\<open>request.rs\<close> builds is accepted, and that the agent's parser
  reads the response back.
\<close>

section \<open>Definitions\<close>

definition UFRAG_LEN :: nat where "UFRAG_LEN = 16"
definition MAX_ATTRIBUTES :: nat where "MAX_ATTRIBUTES = 32"
definition RESPONSE_MAX_LEN :: nat where "RESPONSE_MAX_LEN = STUN_HEADER_SIZE + 24 + 24 + 8"
definition BINDING_REQUEST :: u16 where "BINDING_REQUEST = 0x0001"
definition BINDING_SUCCESS :: u16 where "BINDING_SUCCESS = 0x0101"

record binding_req =
  br_transaction_id :: bytes
  br_local_ufrag :: bytes
  br_use_candidate :: bool
  br_integrity_offset :: nat
  br_integrity :: bytes
  br_fingerprint_offset :: nat
  br_fingerprint :: u32

record scan_offsets =
  so_username :: "(nat \<times> nat) option"
  so_use_candidate :: bool
  so_integrity :: "nat option"
  so_fingerprint :: "nat option"

definition scan_offsets_default :: scan_offsets where
  "scan_offsets_default = \<lparr>so_username = None, so_use_candidate = False, so_integrity = None, so_fingerprint = None\<rparr>"

definition scan_attr :: "u16 \<Rightarrow> nat \<Rightarrow> nat \<Rightarrow> scan_offsets \<Rightarrow> scan_offsets option" where
  "scan_attr kind len at found =
     (if kind = ATTR_USERNAME \<and> so_username found = None then Some (found\<lparr>so_username := Some (at + 4, len)\<rparr>)
      else if kind = ATTR_USE_CANDIDATE then Some (found\<lparr>so_use_candidate := True\<rparr>)
      else if kind = ATTR_MESSAGE_INTEGRITY then
        if len = 20 then Some (found\<lparr>so_integrity := Some at\<rparr>) else None
      else if kind = ATTR_FINGERPRINT then
        if len = 4 then Some (found\<lparr>so_fingerprint := Some at\<rparr>) else None
      else Some found)"

fun scan_loop :: "nat \<Rightarrow> bytes \<Rightarrow> nat \<Rightarrow> scan_offsets \<Rightarrow> scan_offsets option option" where
  "scan_loop 0 d at found = Some (if at = length d then Some found else None)"
| "scan_loop (Suc n) d at found =
     (if at = length d then Some (Some found)
      else if at + 4 > length d \<or> so_fingerprint found \<noteq> None then Some None
      else do {
        kind \<leftarrow> u16_at d at;
        len \<leftarrow> u16_at d (at + 2);
        let nxt = at + 4 + (unat len + 3) div 4 * 4;
        if nxt > length d then Some None
        else if so_integrity found \<noteq> None \<and> kind \<noteq> ATTR_FINGERPRINT then Some None
        else case scan_attr kind (unat len) at found of
          None \<Rightarrow> Some None
        | Some found \<Rightarrow> scan_loop n d nxt found })"

definition scan_attributes :: "bytes \<Rightarrow> scan_offsets option option" where
  "scan_attributes d = scan_loop MAX_ATTRIBUTES d STUN_HEADER_SIZE scan_offsets_default"

definition scan_request :: "bytes \<Rightarrow> scan_offsets \<Rightarrow> binding_req option option" where
  "scan_request d found = (case so_username found of
     None \<Rightarrow> Some None
   | Some (user_at, user_len) \<Rightarrow> do {
       username \<leftarrow> sub_slice d user_at (user_at + user_len);
       if \<not> utf8_valid username \<or> idx username UFRAG_LEN \<noteq> Some 58 then Some None
       else case (so_integrity found, so_fingerprint found) of
         (Some mi_at, Some fp_at) \<Rightarrow> do {
           fp \<leftarrow> sub_slice d (fp_at + 4) (fp_at + 8);
           tid \<leftarrow> sub_slice d 8 20;
           ufrag \<leftarrow> sub_slice username 0 UFRAG_LEN;
           mi \<leftarrow> sub_slice d (mi_at + 4) (mi_at + 24);
           Some (Some \<lparr>br_transaction_id = tid, br_local_ufrag = ufrag, br_use_candidate = so_use_candidate found,
             br_integrity_offset = mi_at, br_integrity = mi, br_fingerprint_offset = fp_at,
             br_fingerprint = be32_of fp\<rparr>) }
       | _ \<Rightarrow> Some None })"

definition scan :: "bytes \<Rightarrow> binding_req option option" where
  "scan d =
     (if length d < STUN_HEADER_SIZE then Some None
      else do {
        ty \<leftarrow> u16_at d 0;
        if ty \<noteq> BINDING_REQUEST then Some None
        else do {
          cookie \<leftarrow> sub_slice d 4 8;
          if cookie \<noteq> to_be32 STUN_MAGIC_COOKIE then Some None
          else do {
            body \<leftarrow> u16_at d 2;
            if unat body mod 4 \<noteq> 0 \<or> STUN_HEADER_SIZE + unat body \<noteq> length d then Some None
            else do {
              found \<leftarrow> scan_attributes d;
              case found of None \<Rightarrow> Some None | Some found \<Rightarrow> scan_request d found } } } })"

definition ice_verify :: "(bytes \<Rightarrow> bytes \<Rightarrow> bytes) \<Rightarrow> (bytes \<Rightarrow> u32) \<Rightarrow> bytes \<Rightarrow> binding_req \<Rightarrow> bytes \<Rightarrow> bool option" where
  "ice_verify hmac crc d r password = do {
     fp \<leftarrow> verify_fingerprint crc d (br_fingerprint_offset r) (br_fingerprint r);
     if fp then verify_message_integrity hmac d (br_integrity_offset r) (br_integrity r) password else Some False }"

definition write_success ::
  "(bytes \<Rightarrow> bytes \<Rightarrow> bytes) \<Rightarrow> (bytes \<Rightarrow> u32) \<Rightarrow> bytes \<Rightarrow> binding_req \<Rightarrow> sock_addr \<Rightarrow> bytes \<Rightarrow> (nat option \<times> bytes) option" where
  "write_success hmac crc dst r source password =
     (if length dst < RESPONSE_MAX_LEN \<or> password = [] then Some (None, dst)
      else do {
        dst \<leftarrow> copy_into dst 0 (to_be16 BINDING_SUCCESS);
        dst \<leftarrow> copy_into dst 4 (to_be32 STUN_MAGIC_COOKIE);
        dst \<leftarrow> copy_into dst 8 (br_transaction_id r);
        (attr, dst) \<leftarrow> on_tail STUN_HEADER_SIZE (attr_encode (XorMappedAddress source) (br_transaction_id r)) dst;
        let body_len = STUN_HEADER_SIZE + attr;
        dst \<leftarrow> copy_into dst 2 (to_be16 (of_nat attr));
        (len, dst) \<leftarrow> sign_message hmac crc dst body_len password;
        Some (Some len, dst) })"

section \<open>The scan\<close>

text \<open>
  What the scan knows at an offset: the message integrity attribute, once
  seen, is the last attribute or the last but one before the fingerprint.
\<close>

definition attr_head :: "bytes \<Rightarrow> nat \<Rightarrow> u16 \<Rightarrow> u16 \<Rightarrow> bool" where
  "attr_head d at kind len \<longleftrightarrow> 20 \<le> at \<and> u16_at d at = Some kind \<and> u16_at d (at + 2) = Some len"

definition scan_inv :: "bytes \<Rightarrow> nat \<Rightarrow> scan_offsets \<Rightarrow> bool" where
  "scan_inv d at found \<longleftrightarrow> 20 \<le> at \<and> at \<le> length d \<and>
     (\<forall>u l. so_username found = Some (u, l) \<longrightarrow> u + l \<le> length d) \<and>
     (\<forall>m. so_integrity found = Some m \<longrightarrow> attr_head d m ATTR_MESSAGE_INTEGRITY 20 \<and>
        m + 24 = (case so_fingerprint found of None \<Rightarrow> at | Some f \<Rightarrow> f)) \<and>
     (\<forall>f. so_fingerprint found = Some f \<longrightarrow> attr_head d f ATTR_FINGERPRINT 4 \<and> f + 8 = at)"

lemma scan_attr_inv:
  assumes inv: "scan_inv d at found" "so_fingerprint found = None"
    and h: "u16_at d at = Some kind" "u16_at d (at + 2) = Some len" "at + 4 + (unat len + 3) div 4 * 4 \<le> length d"
    and ok: "\<not> (so_integrity found \<noteq> None \<and> kind \<noteq> ATTR_FINGERPRINT)"
    and s: "scan_attr kind (unat len) at found = Some found'"
  shows "scan_inv d (at + 4 + (unat len + 3) div 4 * 4) found'"
proof -
  have u: "unat len \<le> (unat len + 3) div 4 * 4" using padded_len_ge(1)[of "unat len"] by (simp add: padded_len_def)
  have w: "unat len = 20 \<Longrightarrow> len = 20" "unat len = 4 \<Longrightarrow> len = 4" by (simp_all add: word_unat_eq_iff)
  show ?thesis
    using inv ok h u s w unfolding scan_inv_def attr_head_def
    by (auto simp: scan_attr_def ATTR_USERNAME_def ATTR_USE_CANDIDATE_def ATTR_MESSAGE_INTEGRITY_def ATTR_FINGERPRINT_def
      split: if_splits option.splits)
qed

lemma scan_loop_inv:
  assumes "scan_inv d at found"
  shows "\<exists>r. scan_loop n d at found = Some r \<and> (\<forall>found'. r = Some found' \<longrightarrow> scan_inv d (length d) found')"
  using assms
proof (induction n arbitrary: at found)
  case (Suc n)
  show ?case
  proof (cases "at = length d \<or> at + 4 > length d \<or> so_fingerprint found \<noteq> None")
    case False
    then obtain kind len where h: "u16_at d at = Some kind" "u16_at d (at + 2) = Some len"
      by (simp add: u16_at_def)
    let ?nxt = "at + 4 + (unat len + 3) div 4 * 4"
    show ?thesis
    proof (cases "?nxt > length d \<or> (so_integrity found \<noteq> None \<and> kind \<noteq> ATTR_FINGERPRINT) \<or>
        scan_attr kind (unat len) at found = None")
      case True
      then show ?thesis using False h by (auto simp: Let_def)
    next
      case ok: False
      then obtain found' where f: "scan_attr kind (unat len) at found = Some found'" by auto
      have "scan_inv d ?nxt found'" using scan_attr_inv[OF Suc.prems _ h _ _ f] False ok by auto
      from Suc.IH[OF this] show ?thesis using False ok h f by (auto simp: Let_def)
    qed
  qed (use Suc.prems in auto)
qed (auto simp: scan_inv_def)

text \<open>
  A scanned request: a 20-byte header, attributes, MESSAGE-INTEGRITY and
  FINGERPRINT as the last two attributes.
\<close>

definition scanned :: "bytes \<Rightarrow> binding_req \<Rightarrow> bool" where
  "scanned d r \<longleftrightarrow> (\<exists>ln rest body. length ln = 2 \<and> length rest = 16 \<and>
     d = to_be16 BINDING_REQUEST @ ln @ rest @ body @ to_be16 ATTR_MESSAGE_INTEGRITY @ to_be16 20 @ br_integrity r @
       to_be16 ATTR_FINGERPRINT @ to_be16 4 @ to_be32 (br_fingerprint r) \<and>
     br_integrity_offset r = 20 + length body \<and> br_fingerprint_offset r = 20 + length body + 24 \<and>
     br_transaction_id r = drop 4 rest \<and> length (br_integrity r) = 20 \<and> length (br_local_ufrag r) = UFRAG_LEN)"

lemma u16_at_ex: "i + 2 \<le> length d \<Longrightarrow> \<exists>w. u16_at d i = Some w"
  by (simp add: u16_at_def)

lemma scan_total:
  "\<exists>r. scan d = Some r \<and> (\<forall>b. r = Some b \<longrightarrow> length d \<ge> 20 \<and> u16_at d 0 = Some BINDING_REQUEST \<and>
     (\<exists>found. scan_attributes d = Some (Some found) \<and> scan_inv d (length d) found \<and> scan_request d found = Some (Some b)))"
proof (cases "length d < STUN_HEADER_SIZE")
  case False
  then have l: "20 \<le> length d" by (simp add: STUN_HEADER_SIZE_def)
  then obtain ty body where u: "u16_at d 0 = Some ty" "u16_at d 2 = Some body"
    using u16_at_ex[of 0 d] u16_at_ex[of 2 d] by auto
  have c: "sub_slice d 4 8 = Some (take 4 (drop 4 d))" using l by simp
  have i: "scan_inv d 20 scan_offsets_default" using l by (simp add: scan_inv_def scan_offsets_default_def)
  obtain r where r: "scan_attributes d = Some r" "\<forall>found'. r = Some found' \<longrightarrow> scan_inv d (length d) found'"
    using scan_loop_inv[OF i, of MAX_ATTRIBUTES] by (auto simp: scan_attributes_def STUN_HEADER_SIZE_def)
  have q: "\<exists>x. scan_request d found = Some x" if f: "scan_inv d (length d) found" for found
  proof (cases "so_username found")
    case (Some ul)
    then obtain ua ul where ul: "so_username found = Some (ua, ul)" by (cases ul) auto
    then have s: "\<exists>x. sub_slice d ua (ua + ul) = Some x" using f by (simp add: scan_inv_def)
    have m: "\<exists>x. sub_slice d (mi + 4) (mi + 24) = Some x" if "so_integrity found = Some mi" for mi
      using f that by (auto simp: scan_inv_def split: option.splits)
    have p: "\<exists>x. sub_slice d (fp + 4) (fp + 8) = Some x" if "so_fingerprint found = Some fp" for fp
      using f that by (auto simp: scan_inv_def)
    have t: "\<exists>x. sub_slice d 8 20 = Some x" using l by simp
    have g: "idx us UFRAG_LEN = Some 58 \<Longrightarrow> sub_slice us 0 UFRAG_LEN = Some (take UFRAG_LEN us)" for us :: bytes
      by (simp add: idx_eq_Some_iff)
    show ?thesis using s m p t g ul by (auto simp: scan_request_def split: option.splits)
  qed (simp add: scan_request_def)
  show ?thesis
  proof (cases r)
    case None
    then show ?thesis using False l u c r by (simp add: scan_def)
  next
    case (Some found)
    then obtain x where "scan_request d found = Some x" using q r by blast
    then show ?thesis using False l u c r Some by (auto simp: scan_def)
  qed
qed (simp add: scan_def)

lemma u16_at_slice: "u16_at d i = Some w \<Longrightarrow> take 2 (drop i d) = to_be16 w"
  by (auto simp: u16_at_def bind_eq_Some_conv idx_eq_Some_iff Cons_nth_drop_Suc[symmetric] numeral_2_eq_2 take_Suc_conv_app_nth)

lemma to_be32_be32_of: "length bs = 4 \<Longrightarrow> to_be32 (be32_of bs) = bs"
  by (auto simp: be32_of_def length_Suc_conv eval_nat_numeral)

lemma split_at: "i \<le> j \<Longrightarrow> drop i d = take (j - i) (drop i d) @ drop j d"
  by (metis add.commute append_take_drop_id drop_drop le_add_diff_inverse2)

lemma scan_request_fields:
  assumes "scan_request d found = Some (Some b)"
  obtains mi_at fp_at where "so_integrity found = Some mi_at" "so_fingerprint found = Some fp_at"
    "br_integrity_offset b = mi_at" "br_fingerprint_offset b = fp_at"
    "sub_slice d (mi_at + 4) (mi_at + 24) = Some (br_integrity b)"
    "\<exists>fp. sub_slice d (fp_at + 4) (fp_at + 8) = Some fp \<and> br_fingerprint b = be32_of fp"
    "sub_slice d 8 20 = Some (br_transaction_id b)" "length (br_local_ufrag b) = UFRAG_LEN"
  using assms
  by (auto simp: scan_request_def bind_eq_Some_conv sub_slice_eq_Some_iff split: option.splits prod.splits if_splits)

lemma scan_sound:
  assumes "scan d = Some (Some b)" shows "scanned d b"
proof -
  obtain found where l: "20 \<le> length d" "u16_at d 0 = Some BINDING_REQUEST" and inv: "scan_inv d (length d) found"
    and rq: "scan_request d found = Some (Some b)"
    using scan_total[of d] assms by auto
  obtain m f fp where so: "so_integrity found = Some m" "so_fingerprint found = Some f"
    and off: "br_integrity_offset b = m" "br_fingerprint_offset b = f"
    and mi: "sub_slice d (m + 4) (m + 24) = Some (br_integrity b)"
    and fp: "sub_slice d (f + 4) (f + 8) = Some fp" "br_fingerprint b = be32_of fp"
    and tid: "sub_slice d 8 20 = Some (br_transaction_id b)" and uf: "length (br_local_ufrag b) = UFRAG_LEN"
    using scan_request_fields[OF rq] by metis
  have h: "attr_head d m ATTR_MESSAGE_INTEGRITY 20" "m + 24 = f" "attr_head d f ATTR_FINGERPRINT 4" "f + 8 = length d"
    using inv so by (auto simp: scan_inv_def)
  have m20: "20 \<le> m" using h(1) by (simp add: attr_head_def)
  let ?body = "take (m - 20) (drop 20 d)"
  have d0: "d = take 2 (drop 0 d) @ drop 2 d" by simp
  also have "drop 2 d = take 2 (drop 2 d) @ drop 4 d" using split_at[of 2 4 d] by simp
  also have "drop 4 d = take 16 (drop 4 d) @ drop 20 d" using split_at[of 4 20 d] by simp
  also have "drop 20 d = ?body @ drop m d" using split_at[OF m20, of d] by simp
  also have "drop m d = take 2 (drop m d) @ drop (m + 2) d" using split_at[of m "m + 2" d] by simp
  also have "drop (m + 2) d = take 2 (drop (m + 2) d) @ drop (m + 4) d" using split_at[of "m + 2" "m + 4" d] by simp
  also have "drop (m + 4) d = br_integrity b @ drop f d"
    using split_at[of "m + 4" f d] h(2) mi by (simp add: sub_slice_eq_Some_iff)
  also have "drop f d = take 2 (drop f d) @ drop (f + 2) d" using split_at[of f "f + 2" d] by simp
  also have "drop (f + 2) d = take 2 (drop (f + 2) d) @ drop (f + 4) d" using split_at[of "f + 2" "f + 4" d] by simp
  also have "drop (f + 4) d = fp" using fp(1) h(4) by (simp add: sub_slice_eq_Some_iff)
  also have "fp = to_be32 (br_fingerprint b)"
  proof -
    have "length fp = 4" using fp(1) by (auto simp: sub_slice_eq_Some_iff)
    then show ?thesis using fp(2) by (simp add: to_be32_be32_of)
  qed
  finally have d1: "d = take 2 (drop 0 d) @ take 2 (drop 2 d) @ take 16 (drop 4 d) @ ?body @ take 2 (drop m d) @
      take 2 (drop (m + 2) d) @ br_integrity b @ take 2 (drop f d) @ take 2 (drop (f + 2) d) @ to_be32 (br_fingerprint b)" .
  have e: "take 2 (drop m d) = to_be16 ATTR_MESSAGE_INTEGRITY" "take 2 (drop (m + 2) d) = to_be16 20"
    "take 2 (drop f d) = to_be16 ATTR_FINGERPRINT" "take 2 (drop (f + 2) d) = to_be16 4"
    using h(1,3) u16_at_slice unfolding attr_head_def by blast+
  note d = d1[unfolded e u16_at_slice[OF l(2)]]
  show ?thesis unfolding scanned_def
  proof (intro exI conjI)
    show "d = to_be16 BINDING_REQUEST @ take 2 (drop 2 d) @ take 16 (drop 4 d) @ ?body @ to_be16 ATTR_MESSAGE_INTEGRITY @
      to_be16 20 @ br_integrity b @ to_be16 ATTR_FINGERPRINT @ to_be16 4 @ to_be32 (br_fingerprint b)" by (rule d)
    show "length (take 2 (drop 2 d)) = 2" "length (take 16 (drop 4 d)) = 16" using l by simp_all
    show "br_integrity_offset b = 20 + length ?body" "br_fingerprint_offset b = 20 + length ?body + 24"
      using off h m20 by simp_all
    show "br_transaction_id b = drop 4 (take 16 (drop 4 d))" using tid by (simp add: sub_slice_eq_Some_iff drop_take)
    show "length (br_integrity b) = 20" using mi by (auto simp: sub_slice_eq_Some_iff)
    show "length (br_local_ufrag b) = UFRAG_LEN" by (rule uf)
  qed
qed

text \<open>The last two attributes are the signature iff both values are right.\<close>

lemma signature_iff:
  assumes "length h = 20" "length (integrity_of hmac pwd ty rest body) = 20"
  defines "mi \<equiv> to_be16 ATTR_MESSAGE_INTEGRITY @ to_be16 20 @ h"
  shows "mi @ to_be16 ATTR_FINGERPRINT @ to_be16 4 @ to_be32 w = signature hmac crc pwd ty rest body \<longleftrightarrow>
    h = integrity_of hmac pwd ty rest body \<and> w = fingerprint_of crc ty rest (body @ mi)"
proof -
  have inj: "to_be32 a = to_be32 b \<longleftrightarrow> a = b" for a b by (metis u_at_0(1) option.inject)
  have m: "mi = mi_attr hmac pwd ty rest body \<longleftrightarrow> h = integrity_of hmac pwd ty rest body"
    by (simp add: mi_def mi_attr_def attr_codes)
  have "length mi = length (mi_attr hmac pwd ty rest body)" using assms(1,2) by (simp add: mi_def mi_attr_def)
  then have "mi @ to_be16 ATTR_FINGERPRINT @ to_be16 4 @ to_be32 w = signature hmac crc pwd ty rest body \<longleftrightarrow>
      mi = mi_attr hmac pwd ty rest body \<and>
      to_be16 ATTR_FINGERPRINT @ to_be16 4 @ to_be32 w = fp_attr crc ty rest (body @ mi_attr hmac pwd ty rest body)"
    unfolding signature_def by (rule append_eq_append_conv[OF disjI1])
  also have "\<dots> \<longleftrightarrow> h = integrity_of hmac pwd ty rest body \<and> w = fingerprint_of crc ty rest (body @ mi)"
    using m by (auto simp: fp_attr_def attr_codes inj)
  finally show ?thesis .
qed

lemma message_split_unique:
  assumes "ln @ rest @ body @ x = ln' @ rest' @ body' @ y" "length ln = length ln'" "length rest = length rest'" "length x = length y"
  shows "ln = ln' \<and> rest = rest' \<and> body = body' \<and> x = y"
  using assms by auto

text \<open>
  Scan and verification together accept exactly the signed messages: the
  datagram is a binding request whose last two attributes are the message
  integrity and the fingerprint of everything before them.
\<close>

definition signed_request :: "(bytes \<Rightarrow> bytes \<Rightarrow> bytes) \<Rightarrow> (bytes \<Rightarrow> u32) \<Rightarrow> bytes \<Rightarrow> bytes \<Rightarrow> bytes \<Rightarrow> bool" where
  "signed_request hmac crc pwd tid d \<longleftrightarrow> (\<exists>ln rest body. length ln = 2 \<and> length rest = 16 \<and> tid = drop 4 rest \<and>
     d = to_be16 BINDING_REQUEST @ ln @ rest @ body @ signature hmac crc pwd (to_be16 BINDING_REQUEST) rest body)"

lemma verified_is_signed:
  assumes "scan d = Some (Some b)" "pwd \<noteq> []" "length pwd \<le> 256" "\<forall>k x. length (hmac k x) = 20"
  shows "ice_verify hmac crc d b pwd = Some (signed_request hmac crc pwd (br_transaction_id b) d)"
proof -
  let ?ty = "to_be16 BINDING_REQUEST"
  obtain ln rest body where l: "length ln = 2" "length rest = 16" "length (br_integrity b) = 20"
    and d: "d = ?ty @ ln @ rest @ body @ to_be16 ATTR_MESSAGE_INTEGRITY @ to_be16 20 @ br_integrity b @
       to_be16 ATTR_FINGERPRINT @ to_be16 4 @ to_be32 (br_fingerprint b)"
    and off: "br_integrity_offset b = 20 + length body" "br_fingerprint_offset b = 20 + length body + 24"
    and tid: "br_transaction_id b = drop 4 rest"
    using scan_sound[OF assms(1)] unfolding scanned_def by blast
  define mi where "mi = to_be16 ATTR_MESSAGE_INTEGRITY @ to_be16 20 @ br_integrity b"
  define fp where "fp = to_be16 ATTR_FINGERPRINT @ to_be16 4 @ to_be32 (br_fingerprint b)"
  have dd: "d = ?ty @ ln @ rest @ body @ mi @ fp" using d by (simp add: mi_def fp_def)
  have mp: "msg_parts ?ty ln rest" using l by (simp add: msg_parts_def)
  have len: "length (integrity_of hmac pwd ?ty r x) = 20" for r x using assms(4) by (simp add: integrity_of_def)
  have "verify_fingerprint crc (?ty @ ln @ rest @ (body @ mi) @ fp) (20 + length (body @ mi)) (br_fingerprint b) =
      Some (br_fingerprint b = fingerprint_of crc ?ty rest (body @ mi))"
    by (rule verify_fingerprint_parts[OF mp])
  then have vf: "verify_fingerprint crc d (br_fingerprint_offset b) (br_fingerprint b) =
      Some (br_fingerprint b = fingerprint_of crc ?ty rest (body @ mi))"
    unfolding dd off(2) using l by (simp add: mi_def)
  have vi: "verify_message_integrity hmac d (br_integrity_offset b) (br_integrity b) pwd =
      Some (br_integrity b = integrity_of hmac pwd ?ty rest body)"
    unfolding dd off(1) by (rule verify_integrity_parts[OF mp assms(2,3) len l(3)])
  have "ice_verify hmac crc d b pwd = Some (mi @ fp = signature hmac crc pwd ?ty rest body)"
    using vf vi signature_iff[OF l(3) len[of rest body], where w = "br_fingerprint b" and crc = crc] unfolding mi_def[symmetric] fp_def[symmetric]
    by (auto simp: ice_verify_def)
  moreover have "mi @ fp = signature hmac crc pwd ?ty rest body \<longleftrightarrow> signed_request hmac crc pwd (br_transaction_id b) d"
  proof
    assume "mi @ fp = signature hmac crc pwd ?ty rest body"
    then show "signed_request hmac crc pwd (br_transaction_id b) d"
      unfolding signed_request_def using dd l tid by (intro exI[of _ ln] exI[of _ rest] exI[of _ body]) simp
  next
    assume "signed_request hmac crc pwd (br_transaction_id b) d"
    then obtain ln' rest' body' where e: "length ln' = 2" "length rest' = 16"
      "d = ?ty @ ln' @ rest' @ body' @ signature hmac crc pwd ?ty rest' body'" unfolding signed_request_def by blast
    have "length (signature hmac crc pwd ?ty rest' body') = length (mi @ fp)"
      using l(3) len by (simp add: signature_def mi_attr_def fp_attr_def mi_def fp_def)
    then show "mi @ fp = signature hmac crc pwd ?ty rest body"
      using message_split_unique[of ln' rest' body' "signature hmac crc pwd ?ty rest' body'" ln rest body "mi @ fp"] e dd l by simp
  qed
  ultimately show ?thesis by simp
qed

section \<open>A request is accepted, its response is read\<close>

lemma binding_types: "encode_type Request Binding = BINDING_REQUEST" "encode_type SuccessResponse Binding = BINDING_SUCCESS"
  by code_simp+

lemma signature_attrs:
  assumes "length (integrity_of hmac pwd ty rest body) = 20"
  shows "signature hmac crc pwd ty rest body = attrs_bytes tid [MessageIntegrity (integrity_of hmac pwd ty rest body),
    Fingerprint (fingerprint_of crc ty rest (body @ mi_attr hmac pwd ty rest body))]"
  using assms by (simp add: signature_def mi_attr_def fp_attr_def attr_bytes_def attr_value_def attr_type_def padded_len_def Let_def
    attr_codes)

lemma attrs_bytes_append [simp]: "attrs_bytes tid (as @ bs) = attrs_bytes tid as @ attrs_bytes tid bs"
  by (simp add: attrs_bytes_def)

text \<open>The two attributes \<^verbatim>\<open>sign_message\<close> appends to a message with the attributes \<open>as\<close>.\<close>

definition sig_attrs :: "(bytes \<Rightarrow> bytes \<Rightarrow> bytes) \<Rightarrow> (bytes \<Rightarrow> u32) \<Rightarrow> bytes \<Rightarrow> u16 \<Rightarrow> bytes \<Rightarrow> stun_attribute list \<Rightarrow> stun_attribute list" where
  "sig_attrs hmac crc pwd ty tid as = (
     let rest = to_be32 STUN_MAGIC_COOKIE @ tid; body = attrs_bytes tid as in
     [MessageIntegrity (integrity_of hmac pwd (to_be16 ty) rest body),
      Fingerprint (fingerprint_of crc (to_be16 ty) rest (body @ mi_attr hmac pwd (to_be16 ty) rest body))])"

lemma sign_message_msg:
  fixes as :: "stun_attribute list" and crc :: "bytes \<Rightarrow> u32" and c :: stun_class and m :: stun_method
  assumes "length tid = 12" "pwd \<noteq> []" "length pwd \<le> 256" "\<forall>k x. length (hmac k x) = 20" "length ln = 2" "32 \<le> length tail'"
  defines "as' \<equiv> as @ sig_attrs hmac crc pwd (encode_type c m) tid as"
  shows "sign_message hmac crc (to_be16 (encode_type c m) @ ln @ to_be32 STUN_MAGIC_COOKIE @ tid @ attrs_bytes tid as @ tail')
      (20 + length (attrs_bytes tid as)) pwd =
    Some (20 + length (attrs_bytes tid as'), msg_bytes c m tid (attrs_bytes tid as') @ drop 32 tail')"
proof -
  let ?ty = "to_be16 (encode_type c m)" and ?rest = "to_be32 STUN_MAGIC_COOKIE @ tid" and ?b = "attrs_bytes tid as"
  have mp: "msg_parts ?ty ln ?rest" using assms(1,5) by (simp add: msg_parts_def)
  have len: "length (integrity_of hmac pwd ?ty ?rest ?b) = 20" using assms(4) by (simp add: integrity_of_def)
  have sg: "attrs_bytes tid as' = ?b @ signature hmac crc pwd ?ty ?rest ?b"
    unfolding as'_def sig_attrs_def Let_def attrs_bytes_append signature_attrs[OF len, of crc tid] ..
  have sl: "length (signature hmac crc pwd ?ty ?rest ?b) = 32" using len by (simp add: signature_def mi_attr_def fp_attr_def)
  then have l: "length (attrs_bytes tid as') = length ?b + 32" unfolding sg by simp
  have "sign_message hmac crc (?ty @ ln @ ?rest @ ?b @ tail') (20 + length ?b) pwd =
    Some (20 + length ?b + 32, ?ty @ to_be16 (of_nat (length ?b + 32)) @ ?rest @ ?b @ signature hmac crc pwd ?ty ?rest ?b @ drop 32 tail')"
    using assms by (intro sign_message_parts[OF mp _ _ len]) simp_all
  then show ?thesis unfolding msg_bytes_def l sg by (simp add: sl)
qed

lemma scan_step:
  assumes d: "d = pre @ attr_bytes tid a @ post" and v: "length (attr_value tid a) < 65536"
    and ok: "so_fingerprint found = None" "so_integrity found = None \<or> attr_type a = ATTR_FINGERPRINT"
  shows "scan_loop (Suc n) d (length pre) found =
    (case scan_attr (attr_type a) (length (attr_value tid a)) (length pre) found of
       None \<Rightarrow> Some None | Some f \<Rightarrow> scan_loop n d (length (pre @ attr_bytes tid a)) f)"
proof -
  let ?v = "attr_value tid a"
  define z where "z = replicate (padded_len (length ?v) - length ?v) (0 :: u8)"
  have "d = pre @ (to_be16 (attr_type a) @ to_be16 (of_nat (length ?v)) @ ?v @ z) @ post"
    using d by (simp add: attr_bytes_def Let_def z_def)
  note r = tlv_read[OF this v]
  have nxt: "length pre + 4 + (length ?v + 3) div 4 * 4 = length (pre @ attr_bytes tid a)"
    by (simp add: length_attr_bytes padded_len_def)
  have c: "length pre \<noteq> length d" "\<not> (length d < length pre + 4 \<or> so_fingerprint found \<noteq> None)"
    "\<not> length d < length (pre @ attr_bytes tid a)" "\<not> (so_integrity found \<noteq> None \<and> attr_type a \<noteq> ATTR_FINGERPRINT)"
    using r(5) ok d by auto
  show ?thesis
    unfolding scan_loop.simps if_not_P[OF c(1)] if_not_P[OF c(2)] r(1,2) bind.simps Let_def r(3) nxt if_not_P[OF c(3)] if_not_P[OF c(4)] ..
qed

text \<open>The attributes of the request an ICE agent sends.\<close>

definition request_attrs :: "bytes \<Rightarrow> u32 \<Rightarrow> bool \<Rightarrow> u64 \<Rightarrow> bool \<Rightarrow> stun_attribute list" where
  "request_attrs username priority controlling tie uc =
     [Username (username @ replicate (MAX_USERNAME_LEN - length username) 0) (of_nat (length username)), Priority priority,
      if controlling then IceControlling tie else IceControlled tie] @ (if uc \<and> controlling then [UseCandidate] else [])"

lemma request_attrs_wf: "length username \<le> 128 \<Longrightarrow> \<forall>a\<in>set (request_attrs username priority controlling tie uc). attr_wf a"
  by (auto simp: request_attrs_def attr_wf_def attr_limits unat_of_nat)

lemma length_request_attrs:
  assumes "length username \<le> 128" "length tid = 12"
  shows "length (attrs_bytes tid (request_attrs username priority controlling tie uc)) =
    4 + padded_len (length username) + 8 + 12 + (if uc \<and> controlling then 4 else 0)"
  using assms by (simp add: request_attrs_def length_attr_bytes attr_value_def attr_limits unat_of_nat padded_len_def)

lemma overwrite_parts: "length a = length b \<Longrightarrow> i = length p \<Longrightarrow> overwrite i b (p @ a @ q) = p @ b @ q"
  by (simp add: overwrite_def)

lemma take_drop_join: "j = i + n \<Longrightarrow> take n (drop i d) @ drop j d = drop i d"
  by (metis add.commute append_take_drop_id drop_drop)

lemma on_tail_encode_at:
  assumes "attr_wf a" "length tid = 12" "length (attr_bytes tid a) = n" "k + n \<le> length t" "k + 24 \<le> length t" "i = length p"
  shows "on_tail i (attr_encode a tid) (p @ drop k t) = Some (n, p @ attr_bytes tid a @ drop (k + n) t)"
  using on_tail_encode[of a tid "drop k t" i p] assms by (simp add: add.commute)

text \<open>The header of the agent's request before its length is known.\<close>

lemma request_header_written:
  assumes "length tid = 12" "20 \<le> length buf" "length ty = 2"
  obtains d1 d2 ln where "copy_into buf 0 ty = Some d1" "copy_into d1 4 (to_be32 w) = Some d2" "length ln = 2"
    "copy_into d2 8 tid = Some ((ty @ ln @ to_be32 w @ tid) @ drop 20 buf)"
proof -
  let ?l = "take 2 (drop 2 buf)"
  have "copy_into ([] @ take 2 buf @ drop 2 buf) 0 ty = Some ([] @ ty @ drop 2 buf)"
    by (rule copy_into_parts) (use assms in simp_all)
  then have a: "copy_into buf 0 ty = Some (ty @ ?l @ drop 4 buf)"
    by (simp add: take_drop_join[of 4 2 2 buf])
  have "copy_into ((ty @ ?l) @ take 4 (drop 4 buf) @ drop 8 buf) 4 (to_be32 w) = Some ((ty @ ?l) @ to_be32 w @ drop 8 buf)"
    by (rule copy_into_parts) (use assms in simp_all)
  then have b: "copy_into (ty @ ?l @ drop 4 buf) 4 (to_be32 w) = Some (ty @ ?l @ to_be32 w @ drop 8 buf)"
    by (simp add: take_drop_join[of 8 4 4 buf])
  have "copy_into ((ty @ ?l @ to_be32 w) @ take 12 (drop 8 buf) @ drop 20 buf) 8 tid = Some ((ty @ ?l @ to_be32 w) @ tid @ drop 20 buf)"
    by (rule copy_into_parts) (use assms in simp_all)
  then have c: "copy_into (ty @ ?l @ to_be32 w @ drop 8 buf) 8 tid = Some ((ty @ ?l @ to_be32 w @ tid) @ drop 20 buf)"
    by (simp add: take_drop_join[of 20 8 12 buf])
  show ?thesis using that[OF a b _ c] assms by simp
qed

text \<open>The agent's request, for every user name and buffer that has room for it.\<close>

lemma create_binding_request_eq:
  fixes tie :: u64 and priority :: u32 and uc :: bool and controlling :: bool and crc :: "bytes \<Rightarrow> u32"
  assumes "length tid = 12" "length username \<le> 128" "pwd \<noteq> []" "length pwd \<le> 256" "\<forall>k x. length (hmac k x) = 20"
    "128 \<le> length buf" "80 + padded_len (length username) \<le> length buf"
  defines "as \<equiv> request_attrs username priority controlling tie uc"
  defines "as' \<equiv> as @ sig_attrs hmac crc pwd (encode_type Request Binding) tid as"
  defines "out \<equiv> msg_bytes Request Binding tid (attrs_bytes tid as')"
  shows "create_binding_request hmac crc buf tid username priority controlling tie uc pwd =
    Some (length out, out @ drop (length out) buf)"
proof -
  let ?ty = "to_be16 (encode_type Request Binding)" and ?ck = "to_be32 STUN_MAGIC_COOKIE"
  define v where "v = Username (username @ replicate (MAX_USERNAME_LEN - length username) 0) (of_nat (length username))"
  define ctl where "ctl = (if controlling then IceControlling tie else IceControlled tie)"
  define t where "t = drop 20 buf"
  define n where "n = 4 + padded_len (length username)"
  define k where "k = (if uc \<and> controlling then 4 else 0 :: nat)"
  define b4 where "b4 = (if uc \<and> controlling then attr_bytes tid UseCandidate else [])"
  have wf: "attr_wf v" "attr_wf (Priority priority)" "attr_wf ctl" "attr_wf UseCandidate"
    using request_attrs_wf[OF assms(2), of priority controlling tie uc]
    by (auto simp: v_def ctl_def request_attrs_def attr_wf_def)
  have nv: "length (attr_bytes tid v) = n" "length (attr_bytes tid (Priority priority)) = 8"
    "length (attr_bytes tid ctl) = 12" "length (attr_bytes tid UseCandidate) = 4"
    using assms(2) by (simp_all add: v_def ctl_def n_def length_attr_bytes attr_value_def attr_limits unat_of_nat padded_len_def)
  have lt: "56 + n \<le> length t" using assms(6,7) by (simp add: t_def n_def)
  have u: "attr_username username = Some v" using assms(2) by (simp add: attr_username_def array_of_Some v_def attr_limits)
  obtain d1 d2 l0 where h: "copy_into buf 0 ?ty = Some d1" "copy_into d1 4 ?ck = Some d2" "length l0 = 2"
    "copy_into d2 8 tid = Some ((?ty @ l0 @ ?ck @ tid) @ t)"
    using request_header_written[OF assms(1), of buf ?ty STUN_MAGIC_COOKIE] assms(6) unfolding t_def by auto
  let ?p = "?ty @ l0 @ ?ck @ tid" and ?b1 = "attr_bytes tid v" and ?b2 = "attr_bytes tid (Priority priority)" and ?b3 = "attr_bytes tid ctl"
  have p20: "length ?p = 20" using assms(1) h(3) by simp
  have e1: "on_tail 20 (attr_encode v tid) (?p @ t) = Some (n, ?p @ ?b1 @ drop n t)"
    using on_tail_encode_at[OF wf(1) assms(1) nv(1), of 0 t 20 ?p] lt p20 by simp
  have e2: "on_tail (20 + n) (attr_encode (Priority priority) tid) (?p @ ?b1 @ drop n t) = Some (8, ?p @ ?b1 @ ?b2 @ drop (n + 8) t)"
    using on_tail_encode_at[OF wf(2) assms(1) nv(2), of n t "20 + n" "?p @ ?b1"] lt p20 nv by simp
  have e3: "on_tail (20 + n + 8) (attr_encode ctl tid) (?p @ ?b1 @ ?b2 @ drop (n + 8) t) = Some (12, ?p @ ?b1 @ ?b2 @ ?b3 @ drop (n + 20) t)"
    using on_tail_encode_at[OF wf(3) assms(1) nv(3), of "n + 8" t "20 + n + 8" "?p @ ?b1 @ ?b2"] lt p20 nv by (simp add: add.commute[of 20])
  have e4: "(if uc \<and> controlling then on_tail (20 + n + 8 + 12) (attr_encode UseCandidate tid) (?p @ ?b1 @ ?b2 @ ?b3 @ drop (n + 20) t)
      else Some (0, ?p @ ?b1 @ ?b2 @ ?b3 @ drop (n + 20) t)) = Some (k, ?p @ ?b1 @ ?b2 @ ?b3 @ b4 @ drop (n + 20 + k) t)"
    using on_tail_encode_at[OF wf(4) assms(1) nv(4), of "n + 20" t "20 + n + 8 + 12" "?p @ ?b1 @ ?b2 @ ?b3"] lt p20 nv
    unfolding k_def b4_def by (cases "uc \<and> controlling") (simp add: add.commute[of 20], auto)
  have body: "attrs_bytes tid as = ?b1 @ ?b2 @ ?b3 @ b4" by (simp add: as_def request_attrs_def v_def ctl_def b4_def)
  have off: "20 + n + 8 + 12 + k = 20 + length (attrs_bytes tid as)" "n + 20 + k = length (attrs_bytes tid as)"
    unfolding body using nv by (simp_all add: k_def b4_def)
  define ln where "ln = to_be16 (of_nat (20 + n + 8 + 12 + k - 20))"
  have e5: "copy_into (?p @ ?b1 @ ?b2 @ ?b3 @ b4 @ drop (n + 20 + k) t) 2 ln =
      Some (?ty @ ln @ ?ck @ tid @ attrs_bytes tid as @ drop (n + 20 + k) t)"
    unfolding body append.assoc by (rule copy_into_parts) (simp_all add: ln_def h)
  have kk: "k \<le> 4" by (simp add: k_def)
  have e6: "sign_message hmac crc (?ty @ ln @ ?ck @ tid @ attrs_bytes tid as @ drop (n + 20 + k) t) (20 + n + 8 + 12 + k) pwd =
      Some (20 + length (attrs_bytes tid as'), out @ drop 32 (drop (n + 20 + k) t))"
    unfolding off(1) out_def as'_def using assms(1-5) lt kk by (intro sign_message_msg) (simp_all add: ln_def)
  have l: "length out = 20 + length (attrs_bytes tid as')" using assms(1) by (simp add: out_def msg_bytes_def)
  have "length (attrs_bytes tid as') = n + 20 + k + 32" unfolding off(2)
    using assms(5) by (simp add: as'_def sig_attrs_def Let_def length_attr_bytes attr_value_def integrity_of_def padded_len_def)
  then have "length out = 32 + (n + 20 + k) + 20" "length out \<le> length buf" using l lt kk by (simp_all add: t_def)
  then have dr: "drop 32 (drop (n + 20 + k) t) = drop (length out) buf" "length out \<le> length buf"
    by (simp_all only: t_def drop_drop add.assoc)
  show ?thesis
    unfolding create_binding_request_def STUN_HEADER_SIZE_def h bind.simps Let_def u e1 prod.case e2 e3[unfolded ctl_def] e4[unfolded ctl_def]
      ln_def[symmetric] e5[unfolded ctl_def] e6
    using assms(2,3,6) l dr by simp
qed

text \<open>The scan as a fold over the attributes of the message.\<close>

fun scan_list :: "bytes \<Rightarrow> stun_attribute list \<Rightarrow> nat \<Rightarrow> scan_offsets \<Rightarrow> scan_offsets option" where
  "scan_list tid [] at found = Some found"
| "scan_list tid (a # as) at found =
     (if so_fingerprint found \<noteq> None \<or> (so_integrity found \<noteq> None \<and> attr_type a \<noteq> ATTR_FINGERPRINT) then None
      else case scan_attr (attr_type a) (length (attr_value tid a)) at found of
        None \<Rightarrow> None
      | Some found \<Rightarrow> scan_list tid as (at + length (attr_bytes tid a)) found)"

lemma scan_loop_list:
  assumes "d = pre @ attrs_bytes tid as" "\<forall>a\<in>set as. length (attr_value tid a) < 65536" "length as \<le> n"
    "scan_list tid as (length pre) found = Some r"
  shows "scan_loop n d (length pre) found = Some (Some r)"
  using assms
proof (induction as arbitrary: pre n found)
  case Nil
  then show ?case by (cases n) simp_all
next
  case (Cons a as)
  obtain n' where n: "n = Suc n'" using Cons.prems(3) by (cases n) auto
  obtain f' where ok: "so_fingerprint found = None" "so_integrity found = None \<or> attr_type a = ATTR_FINGERPRINT"
    and f': "scan_attr (attr_type a) (length (attr_value tid a)) (length pre) found = Some f'"
      "scan_list tid as (length (pre @ attr_bytes tid a)) f' = Some r"
    using Cons.prems(4) by (auto split: if_splits option.splits)
  have d: "d = pre @ attr_bytes tid a @ attrs_bytes tid as" "d = (pre @ attr_bytes tid a) @ attrs_bytes tid as"
    using Cons.prems(1) by simp_all
  have "scan_loop n' d (length (pre @ attr_bytes tid a)) f' = Some (Some r)"
    using Cons.prems(2,3) n f'(2) d(2) by (intro Cons.IH) simp_all
  then show ?case using scan_step[OF d(1) _ ok, of n'] Cons.prems(2) n f'(1) by simp
qed

lemma scan_created_attributes:
  fixes tid username h :: bytes and priority :: u32 and controlling :: bool and tie :: u64 and uc :: bool
  assumes "length username \<le> 128" "length tid = 12" "length h = 20"
  defines "as \<equiv> request_attrs username priority controlling tie uc"
  defines "n \<equiv> length (attrs_bytes tid as)"
  assumes "length pre = 20" "d = pre @ attrs_bytes tid (as @ [MessageIntegrity h, Fingerprint w])"
  shows "scan_attributes d = Some (Some \<lparr>so_username = Some (24, length username), so_use_candidate = (uc \<and> controlling),
    so_integrity = Some (20 + n), so_fingerprint = Some (44 + n)\<rparr>)"
proof -
  have vl: "\<forall>a\<in>set (as @ [MessageIntegrity h, Fingerprint w]). length (attr_value tid a) < 65536"
    using assms(1,3) by (auto simp: as_def request_attrs_def attr_value_def attr_limits unat_of_nat)
  have "scan_list tid (as @ [MessageIntegrity h, Fingerprint w]) (length pre) scan_offsets_default =
    Some \<lparr>so_username = Some (24, length username), so_use_candidate = (uc \<and> controlling),
      so_integrity = Some (20 + n), so_fingerprint = Some (44 + n)\<rparr>"
    using assms(1,3,6)
    by (auto simp: n_def as_def request_attrs_def attr_value_def attr_type_def attr_limits unat_of_nat length_attr_bytes padded_len_def
      scan_attr_def attr_codes scan_offsets_default_def)
  moreover have "length (as @ [MessageIntegrity h, Fingerprint w]) \<le> MAX_ATTRIBUTES"
    by (simp add: as_def request_attrs_def MAX_ATTRIBUTES_def)
  ultimately show ?thesis
    using scan_loop_list[OF assms(7) vl] assms(6) by (simp add: scan_attributes_def STUN_HEADER_SIZE_def)
qed

text \<open>The shard scans and verifies the request of an agent that knows the password.\<close>

lemma created_request_accepted:
  fixes tie :: u64 and priority :: u32 and uc :: bool and controlling :: bool and crc :: "bytes \<Rightarrow> u32"
  assumes tid: "length tid = 12" and user: "length username \<le> 128" "UFRAG_LEN < length username" "username ! UFRAG_LEN = 58" "utf8_valid username"
    and pwd: "pwd \<noteq> []" "length pwd \<le> 256" and hm: "\<forall>k x. length (hmac k x) = 20"
  defines "as \<equiv> request_attrs username priority controlling tie uc"
  defines "d \<equiv> msg_bytes Request Binding tid (attrs_bytes tid (as @ sig_attrs hmac crc pwd (encode_type Request Binding) tid as))"
  shows "\<exists>b. scan d = Some (Some b) \<and> br_transaction_id b = tid \<and> br_local_ufrag b = take UFRAG_LEN username \<and>
    br_use_candidate b = (uc \<and> controlling) \<and> ice_verify hmac crc d b pwd = Some True"
proof -
  let ?ty = "to_be16 BINDING_REQUEST" and ?rest = "to_be32 STUN_MAGIC_COOKIE @ tid" and ?body = "attrs_bytes tid as"
  let ?h = "integrity_of hmac pwd ?ty ?rest ?body" and ?n = "length (attrs_bytes tid as)"
  let ?w = "fingerprint_of crc ?ty ?rest (?body @ mi_attr hmac pwd ?ty ?rest ?body)"
  have h20: "length ?h = 20" using hm by (simp add: integrity_of_def)
  have sg: "attrs_bytes tid (as @ sig_attrs hmac crc pwd (encode_type Request Binding) tid as) = ?body @ signature hmac crc pwd ?ty ?rest ?body"
    unfolding attrs_bytes_append sig_attrs_def Let_def binding_types signature_attrs[OF h20, of crc tid] ..
  have sl: "length (signature hmac crc pwd ?ty ?rest ?body) = 32" using h20 by (simp add: signature_def mi_attr_def fp_attr_def)
  let ?ln = "to_be16 (of_nat (?n + 32))"
  have d: "d = ?ty @ ?ln @ ?rest @ ?body @ signature hmac crc pwd ?ty ?rest ?body"
    unfolding d_def msg_bytes_def unfolding sg unfolding binding_types by (simp add: sl)
  have ld: "length d = 20 + ?n + 32" using tid sl by (simp add: d)
  define pre where "pre = ?ty @ ?ln @ ?rest"
  have lp: "length pre = 20" using tid by (simp add: pre_def)
  have "d = pre @ attrs_bytes tid (as @ [MessageIntegrity ?h, Fingerprint ?w])"
    unfolding d pre_def attrs_bytes_append signature_attrs[OF h20, of crc tid] by simp
  then have sa: "scan_attributes d = Some (Some \<lparr>so_username = Some (24, length username), so_use_candidate = (uc \<and> controlling),
      so_integrity = Some (20 + ?n), so_fingerprint = Some (44 + ?n)\<rparr>)"
    using scan_created_attributes[OF user(1) tid h20, of pre d priority controlling tie uc ?w] lp unfolding as_def by blast
  have us: "sub_slice d 24 (24 + length username) = Some username"
    using user(1) lp by (simp add: \<open>d = pre @ _\<close> as_def request_attrs_def attr_bytes_def attr_value_def attr_limits unat_of_nat Let_def sub_slice_def)
  have n4: "?n mod 4 = 0" "?n + 32 < 65536"
    using user(1) length_request_attrs[OF user(1) tid, of priority controlling tie uc] padded_len_ge[of "length username"]
    by (auto simp: as_def)
  have n5: "(?n + 32) mod 4 = 0" using n4(1) by presburger
  have u: "u16_at d 0 = Some BINDING_REQUEST" using u16_at_append[of "[]"] by (simp add: d)
  have l: "u16_at d 2 = Some (of_nat (?n + 32))" using u16_at_append[of ?ty "of_nat (?n + 32)"] by (simp add: d)
  have ul: "unat (of_nat (?n + 32) :: u16) = ?n + 32" using n4 by (subst unat_of_nat) simp
  have ck: "sub_slice d 4 8 = Some (to_be32 STUN_MAGIC_COOKIE)" by (simp add: d sub_slice_def)
  have tt: "sub_slice d 8 20 = Some tid" using tid by (simp add: d sub_slice_def)
  obtain b where b: "scan d = Some (Some b)" "br_transaction_id b = tid" "br_local_ufrag b = take UFRAG_LEN username"
    "br_use_candidate b = (uc \<and> controlling)"
    using user us u l ul ck tt sa n4 n5 ld
    by (simp add: scan_def STUN_HEADER_SIZE_def scan_request_def idx_def)
  have "signed_request hmac crc pwd (br_transaction_id b) d"
    unfolding signed_request_def using d tid b(2) by (intro exI[of _ ?ln] exI[of _ ?rest] exI[of _ ?body]) simp
  then show ?thesis using b verified_is_signed[OF b(1) pwd hm, of crc] by auto
qed

text \<open>The response: the exact bytes, and the agent's view of them.\<close>

lemma write_success_eq:
  fixes source :: sock_addr and crc :: "bytes \<Rightarrow> u32"
  assumes tid: "length (br_transaction_id r) = 12" and pwd: "pwd \<noteq> []" "length pwd \<le> 256"
    and hm: "\<forall>k x. length (hmac k x) = 20" and room: "RESPONSE_MAX_LEN \<le> length dst"
  defines "tid \<equiv> br_transaction_id r"
  defines "as \<equiv> [XorMappedAddress source] @ sig_attrs hmac crc pwd (encode_type SuccessResponse Binding) (br_transaction_id r) [XorMappedAddress source]"
  defines "out \<equiv> msg_bytes SuccessResponse Binding tid (attrs_bytes tid as)"
  shows "write_success hmac crc dst r source pwd = Some (Some (length out), out @ drop (length out) dst)" "length out \<le> RESPONSE_MAX_LEN"
proof -
  let ?ty = "to_be16 BINDING_SUCCESS" and ?ck = "to_be32 STUN_MAGIC_COOKIE"
  let ?a = "attr_bytes tid (XorMappedAddress source)"
  define t where "t = drop 20 dst"
  have t12: "length tid = 12" using tid by (simp add: tid_def)
  have al: "length ?a \<le> 24" "length (attr_value tid (XorMappedAddress source)) \<le> 20"
    using length_xor_addr_bytes[OF t12, of source] padded_len_ge[of "length (xor_addr_bytes tid source)"]
    by (auto simp: length_attr_bytes attr_value_def padded_len_def)
  have lt: "56 \<le> length t" using room by (simp add: t_def RESPONSE_MAX_LEN_def STUN_HEADER_SIZE_def)
  obtain d1 d2 l0 where h: "copy_into dst 0 ?ty = Some d1" "copy_into d1 4 ?ck = Some d2" "length l0 = 2"
    "copy_into d2 8 tid = Some ((?ty @ l0 @ ?ck @ tid) @ t)"
    using request_header_written[OF t12, of dst ?ty STUN_MAGIC_COOKIE] room unfolding t_def
    by (auto simp: RESPONSE_MAX_LEN_def STUN_HEADER_SIZE_def)
  let ?p = "?ty @ l0 @ ?ck @ tid"
  have e1: "on_tail 20 (attr_encode (XorMappedAddress source) tid) (?p @ t) = Some (length ?a, ?p @ ?a @ drop (length ?a) t)"
    using on_tail_encode[of "XorMappedAddress source" tid t 20 ?p] al lt h(3) t12 by (simp add: attr_wf_def)
  define ln where "ln = to_be16 (of_nat (length ?a))"
  have e2: "copy_into (?p @ ?a @ drop (length ?a) t) 2 ln = Some (?ty @ ln @ ?ck @ tid @ ?a @ drop (length ?a) t)"
    unfolding append.assoc by (rule copy_into_parts) (simp_all add: ln_def h)
  have e3: "sign_message hmac crc (?ty @ ln @ ?ck @ tid @ ?a @ drop (length ?a) t) (20 + length ?a) pwd =
      Some (20 + length (attrs_bytes tid as), out @ drop 32 (drop (length ?a) t))"
    using sign_message_msg[OF t12 pwd hm, where as = "[XorMappedAddress source]" and ln = ln and tail' = "drop (length ?a) t" and crc = crc and c = SuccessResponse and m = Binding] al lt
    by (simp add: ln_def as_def out_def binding_types tid_def)
  have l: "length out = 20 + length (attrs_bytes tid as)" using t12 by (simp add: out_def msg_bytes_def)
  have la: "length (attrs_bytes tid as) = length ?a + 32"
    using hm by (simp add: as_def sig_attrs_def Let_def length_attr_bytes attr_value_def integrity_of_def padded_len_def tid_def)
  then have dr: "drop 32 (drop (length ?a) t) = drop (length out) dst"
    unfolding l t_def drop_drop by (simp add: add.commute add.left_commute)
  have ok: "\<not> (length dst < RESPONSE_MAX_LEN \<or> pwd = [])" using room pwd by simp
  show "write_success hmac crc dst r source pwd = Some (Some (length out), out @ drop (length out) dst)"
    unfolding write_success_def if_not_P[OF ok] STUN_HEADER_SIZE_def tid_def[symmetric] h bind.simps e1 prod.case Let_def
      ln_def[symmetric] e2 e3 dr l ..
  show "length out \<le> RESPONSE_MAX_LEN" using l la al by (simp add: RESPONSE_MAX_LEN_def STUN_HEADER_SIZE_def)
qed

lemma response_read:
  fixes source :: sock_addr and ty :: u16 and pwd :: bytes and crc :: "bytes \<Rightarrow> u32"
  assumes "length tid = 12" "plain_addr source" "\<forall>k x. length (hmac k x) = 20"
  defines "as \<equiv> [XorMappedAddress source] @ sig_attrs hmac crc pwd ty tid [XorMappedAddress source]"
  shows "\<exists>m. stun_parse (msg_bytes SuccessResponse Binding tid (attrs_bytes tid as)) = Some (Inr m) \<and>
    sm_class m = SuccessResponse \<and> sm_method m = Binding \<and> sm_transaction_id m = tid \<and> get_xor_mapped_address m = Some source"
proof -
  obtain h w where a: "as = [XorMappedAddress source, MessageIntegrity h, Fingerprint w]" "length h = 20"
    using assms(3) by (simp add: as_def sig_attrs_def Let_def integrity_of_def)
  have "length (attrs_bytes tid as) < 65536"
    using a length_xor_addr_bytes[OF assms(1), of source] padded_len_ge[of "length (xor_addr_bytes tid source)"]
    by (simp add: length_attr_bytes attr_value_def padded_len_def)
  moreover have "\<forall>x\<in>set as. attr_canon x" "mi_ordered False as" "length as = 3"
    using a assms(2) by (simp_all add: attr_canon_def attr_type_def attr_codes)
  ultimately show ?thesis
    using stun_parse_msg[OF assms(1), of as SuccessResponse Binding] a
    by (simp add: STUN_MAX_ATTRIBUTES_def get_xor_mapped_address_def counted_def)
qed

end
