(* ===== verification/Shard_Ingress.thy ===== *)
theory Shard_Ingress
  imports Shard_Commands Rtp_Rewrite Ice_Lite
begin

text \<open>
  The packet path (\<^verbatim>\<open>nexus-dataplane/src/shard/ingress.rs\<close>):
  classification, binding requests with nomination and rebinding, DTLS toward
  the control plane, SRTP and SRTCP in, and the fan-out of media.
\<close>

datatype packet_class = Class_Stun | Class_Dtls | Class_Rtp | Class_Rtcp | Class_Other

definition classify :: "bytes \<Rightarrow> packet_class" where
  "classify d = (case d of
     [] \<Rightarrow> Class_Other
   | b # rest \<Rightarrow>
       if b \<le> 3 then Class_Stun
       else if 20 \<le> b \<and> b \<le> 63 then Class_Dtls
       else if 128 \<le> b \<and> b \<le> 191 then
         (case rest of
            [] \<Rightarrow> Class_Other
          | c # _ \<Rightarrow> if 64 \<le> c AND 0x7F \<and> c AND 0x7F \<le> 95 then Class_Rtcp else Class_Rtp)
       else Class_Other)"

section \<open>Addresses\<close>

definition forget_address :: "key \<Rightarrow> sock_addr \<Rightarrow> ('io, 'snk) shard \<Rightarrow> ('io, 'snk) shard option" where
  "forget_address k addr s = update_session k (\<lambda>se. se\<lparr>
     se_addr := (if se_addr se = Some addr then None else se_addr se),
     se_prev_addr := (if se_prev_addr se = Some addr then None else se_prev_addr se)\<rparr>) s"

definition report_switch ::
  "('io, 'snk) env \<Rightarrow> key \<Rightarrow> select_reason \<Rightarrow> ('io, 'snk) shard \<Rightarrow> ('io, 'snk) shard option" where
  "report_switch E k reason s = do {
     se \<leftarrow> slab_get (sh_sessions s) k;
     case se_addr se of
       None \<Rightarrow> Some s
     | Some addr \<Rightarrow> do {
         (delivered, s) \<leftarrow> emit E (AddressSelected (se_id se) addr reason) s;
         update_session k (\<lambda>se. se\<lparr>se_unreported_switch := (if delivered then None else Some reason)\<rparr>) s } }"

definition switch_to ::
  "('io, 'snk) env \<Rightarrow> key \<Rightarrow> sock_addr \<Rightarrow> select_reason \<Rightarrow> instant \<Rightarrow> ('io, 'snk) shard \<Rightarrow> ('io, 'snk) shard option" where
  "switch_to E k from reason now s = do {
     se \<leftarrow> slab_get (sh_sessions s) k;
     rassert (se_addr se \<noteq> Some from);
     let s = unmap_addr k (se_prev_addr se) s;
     s \<leftarrow> update_session k (\<lambda>se. se\<lparr>se_prev_addr := se_addr se, se_addr := Some from,
        se_last_rx_selected := now, se_last_switch := Some now\<rparr>) s;
     let other = hm_get (sh_by_addr s) from;
     let s = s\<lparr>sh_by_addr := hm_insert from k (sh_by_addr s)\<rparr>;
     s \<leftarrow> (case other of
        None \<Rightarrow> Some s
      | Some j \<Rightarrow> if j \<noteq> k then forget_address j from s else Some s);
     report_switch E k reason (count1 (case reason of Nominated \<Rightarrow> Nominations | Rebound \<Rightarrow> Rebinds) s) }"

definition select_address ::
  "('io, 'snk) env \<Rightarrow> key \<Rightarrow> sock_addr \<Rightarrow> bool \<Rightarrow> instant \<Rightarrow> ('io, 'snk) shard \<Rightarrow> ('io, 'snk) shard option" where
  "select_address E k from nominated now s = do {
     se \<leftarrow> slab_get (sh_sessions s) k;
     if se_addr se = Some from then
       update_session k (\<lambda>se. se\<lparr>se_last_rx_selected := now,
         se_pending_nomination := (if nominated then None else se_pending_nomination se)\<rparr>) s
     else do {
       let silent = since now (se_last_rx_selected se);
       let reason = (if nominated then Some Nominated
          else if se_addr se \<noteq> None \<and> silent \<ge> sc_rebind_silence (sh_config s) then Some Rebound else None);
       case reason of
         None \<Rightarrow> Some s
       | Some reason \<Rightarrow>
           if (case se_last_switch se of None \<Rightarrow> False | Some at \<Rightarrow> since now at < MIN_SWITCH_INTERVAL) then do {
             let s = count1 Switch_throttled s;
             if nominated then
               if \<not> se_switch_listed se then do {
                 rassert (length (sh_pending_switches s) < unat (sc_max_sessions (sh_config s)));
                 s \<leftarrow> update_session k (\<lambda>se. se\<lparr>se_pending_nomination := Some from, se_switch_listed := True\<rparr>) s;
                 Some (s\<lparr>sh_pending_switches := sh_pending_switches s @ [k]\<rparr>) }
               else update_session k (\<lambda>se. se\<lparr>se_pending_nomination := Some from\<rparr>) s
             else Some s }
           else do {
             s \<leftarrow> update_session k (\<lambda>se. se\<lparr>se_pending_nomination := None\<rparr>) s;
             switch_to E k from reason now s } } }"

text \<open>
  The loop of \<^verbatim>\<open>apply_pending_switches\<close>.  A pass either steps over an entry
  or removes one, so what is left beyond \<^verbatim>\<open>i\<close> shrinks.
\<close>

definition pending_step ::
  "('io, 'snk) env \<Rightarrow> instant \<Rightarrow> nat \<Rightarrow> ('io, 'snk) shard \<Rightarrow> (nat \<times> ('io, 'snk) shard) option" where
  "pending_step E now i s = do {
     k \<leftarrow> idx (sh_pending_switches s) i;
     se \<leftarrow> slab_get (sh_sessions s) k;
     let due = (case se_last_switch se of None \<Rightarrow> True | Some at \<Rightarrow> since now at \<ge> MIN_SWITCH_INTERVAL);
     if se_pending_nomination se \<noteq> None \<and> \<not> due then Some (i + 1, s)
     else do {
       s \<leftarrow> update_session k (\<lambda>se. se\<lparr>se_switch_listed := False, se_pending_nomination := None\<rparr>)
          (s\<lparr>sh_pending_switches := swap_remove i (sh_pending_switches s)\<rparr>);
       s \<leftarrow> (case se_pending_nomination se of
          None \<Rightarrow> Some s
        | Some addr \<Rightarrow> switch_to E k addr Nominated now s);
       Some (i, s) } }"

lemma update_session_pending_switches:
  "update_session k f s = Some s' \<Longrightarrow> sh_pending_switches s' = sh_pending_switches s"
  by (auto simp: update_session_def bind_eq_Some_conv)

lemma emit_pending_switches:
  assumes "emit E e s = Some (b, s')"
  shows "sh_pending_switches s' = sh_pending_switches s"
  by (subst emit_frame[OF assms]) simp

lemma report_switch_pending_switches:
  "ens (report_switch E k reason s) (\<lambda>s'. sh_pending_switches s' = sh_pending_switches s)"
  unfolding report_switch_def
  by (intro ens_intros)
    (auto simp: ens_def dest!: update_session_pending_switches emit_pending_switches)

lemma switch_to_pending_switches:
  "ens (switch_to E k from reason now s) (\<lambda>s'. sh_pending_switches s' = sh_pending_switches s)"
  unfolding switch_to_def Let_def
proof (intro ens_bind_any)
  fix se u t v
  assume t: "update_session k (\<lambda>se. se\<lparr>se_prev_addr := se_addr se, se_addr := Some from,
      se_last_rx_selected := now, se_last_switch := Some now\<rparr>) (unmap_addr k (se_prev_addr se) s) = Some t"
    and v: "(case hm_get (sh_by_addr t) from of
        None \<Rightarrow> Some (t\<lparr>sh_by_addr := hm_insert from k (sh_by_addr t)\<rparr>)
      | Some j \<Rightarrow> if j \<noteq> k then forget_address j from (t\<lparr>sh_by_addr := hm_insert from k (sh_by_addr t)\<rparr>)
                else Some (t\<lparr>sh_by_addr := hm_insert from k (sh_by_addr t)\<rparr>)) = Some v"
  have "sh_pending_switches t = sh_pending_switches s"
    using update_session_pending_switches[OF t] by (simp add: unmap_addr_def split: option.splits)
  moreover have "sh_pending_switches v = sh_pending_switches t"
    using v by (auto simp: forget_address_def split: option.splits if_splits dest!: update_session_pending_switches)
  ultimately show "ens (report_switch E k reason
      (count1 (case reason of Nominated \<Rightarrow> Nominations | Rebound \<Rightarrow> Rebinds) v))
      (\<lambda>s'. sh_pending_switches s' = sh_pending_switches s)"
    using report_switch_pending_switches[of E k reason "count1 (case reason of Nominated \<Rightarrow> Nominations | Rebound \<Rightarrow> Rebinds) v"]
    by (simp add: count_by_def)
qed

lemma pending_step_less:
  assumes i: "i < length (sh_pending_switches s)" and step: "pending_step E now i s = Some (i', s')"
  shows "length (sh_pending_switches s') - i' < length (sh_pending_switches s) - i"
proof -
  have "ens (pending_step E now i s)
      (\<lambda>(i', s'). length (sh_pending_switches s') - i' < length (sh_pending_switches s) - i)"
    unfolding pending_step_def Let_def
    by (intro ens_intros)
      (use i in \<open>auto simp: swap_remove_def dest!: update_session_pending_switches ensD[OF switch_to_pending_switches]
         split: option.splits\<close>)
  from ensD[OF this step] show ?thesis by simp
qed

function pending_loop ::
  "('io, 'snk) env \<Rightarrow> instant \<Rightarrow> nat \<Rightarrow> ('io, 'snk) shard \<Rightarrow> ('io, 'snk) shard option" where
  "pending_loop E now i s =
     (if i < length (sh_pending_switches s) then do {
        (i, s) \<leftarrow> pending_step E now i s;
        pending_loop E now i s }
      else Some s)"
  by pat_completeness auto

termination
  by (relation "measure (\<lambda>(E, now, i, s). length (sh_pending_switches s) - i)") (auto dest: pending_step_less)

declare pending_loop.simps [simp del]

definition apply_pending_switches ::
  "('io, 'snk) env \<Rightarrow> instant \<Rightarrow> ('io, 'snk) shard \<Rightarrow> ('io, 'snk) shard option" where
  "apply_pending_switches E now s = pending_loop E now 0 s"

section \<open>STUN and DTLS\<close>

definition handle_stun :: "('io, 'snk) env \<Rightarrow> datagram \<Rightarrow> instant \<Rightarrow> ('io, 'snk) shard \<Rightarrow> ('io, 'snk) shard option" where
  "handle_stun E d now s = do {
     b \<leftarrow> pool_buf (sh_pool s) (dg_buf d);
     data \<leftarrow> sub_slice b 0 (dg_len d);
     r \<leftarrow> scan data;
     case r of
       None \<Rightarrow> Some (count1 Drop_stun s)
     | Some request \<Rightarrow> (case hm_get (sh_by_ufrag s) (br_local_ufrag request) of
         None \<Rightarrow> Some (count1 Drop_stun s)
       | Some k \<Rightarrow> do {
           se \<leftarrow> slab_get (sh_sessions s) k;
           let password = ice_local_pwd (se_ice se);
           ok \<leftarrow> ice_verify (ev_hmac E) (ev_crc E) data request password;
           if \<not> ok then Some (count1 Drop_stun_auth s)
           else (case pool_take (sh_pool s) of
             None \<Rightarrow> Some (count1 Drop_pool_empty s)
           | Some (out, p) \<Rightarrow> do {
               let s = s\<lparr>sh_pool := p\<rparr>;
               _ \<leftarrow> pool_pair_mut (dg_buf d) out p;
               dst \<leftarrow> pool_buf p out;
               (len, dst) \<leftarrow> write_success (ev_hmac E) (ev_crc E) dst request (dg_addr d) password;
               s \<leftarrow> write_buf out dst s;
               s \<leftarrow> (case len of
                  Some n \<Rightarrow> send E out n (dg_addr d) (count1 Stun_answered s)
                | None \<Rightarrow> put_buf out s);
               se \<leftarrow> slab_get (sh_sessions s) k;
               (replayed, se) \<leftarrow> note_transaction (br_transaction_id request) se;
               s \<leftarrow> update_session k (\<lambda>_. se) s;
               if replayed then Some (count1 Stun_repeated s)
               else select_address E k (dg_addr d) (br_use_candidate request) now s }) }) }"

definition handle_dtls :: "('io, 'snk) env \<Rightarrow> datagram \<Rightarrow> ('io, 'snk) shard \<Rightarrow> ('io, 'snk) shard option" where
  "handle_dtls E d s = (case hm_get (sh_by_addr s) (dg_addr d) of
     None \<Rightarrow> Some (count1 Drop_unknown_addr s)
   | Some k \<Rightarrow> do {
       se \<leftarrow> slab_get (sh_sessions s) k;
       if se_addr se \<noteq> Some (dg_addr d) then Some (count1 Drop_dtls_unselected s)
       else if se_srtp_verified se then Some (count1 Drop_dtls_verified s)
       else if se_dtls_budget se = 0 then Some (count1 Drop_dtls_budget s)
       else if sh_dtls_budget s = 0 then Some (count1 Drop_dtls_shard_budget s)
       else do {
         s \<leftarrow> update_session k (\<lambda>se. se\<lparr>se_dtls_budget := se_dtls_budget se - 1\<rparr>) s;
         let s = s\<lparr>sh_dtls_budget := sh_dtls_budget s - 1\<rparr>;
         b \<leftarrow> pool_buf (sh_pool s) (dg_buf d);
         bytes \<leftarrow> sub_slice b 0 (dg_len d);
         (_, s) \<leftarrow> emit E (DtlsDatagram (se_id se) bytes) s;
         Some s } })"

section \<open>SRTP\<close>

definition srtp_session :: "datagram \<Rightarrow> ('io, 'snk) shard \<Rightarrow> (key option \<times> ('io, 'snk) shard) option" where
  "srtp_session d s = (case hm_get (sh_by_addr s) (dg_addr d) of
     None \<Rightarrow> Some (None, count1 Drop_unknown_addr s)
   | Some k \<Rightarrow> do {
       se \<leftarrow> slab_get (sh_sessions s) k;
       if se_srtp_in se = None then Some (None, count1 Drop_no_srtp s) else Some (Some k, s) })"

definition authenticated ::
  "('io, 'snk) env \<Rightarrow> key \<Rightarrow> sock_addr \<Rightarrow> instant \<Rightarrow> ('io, 'snk) shard \<Rightarrow> ('io, 'snk) shard option" where
  "authenticated E k from now s = do {
     s \<leftarrow> update_session k (\<lambda>se. if se_addr se = Some from then se\<lparr>se_last_rx_selected := now\<rparr> else se) s;
     se \<leftarrow> slab_get (sh_sessions s) k;
     if \<not> se_srtp_verified se then do {
       (delivered, s) \<leftarrow> emit E (PeerSrtpVerified (se_id se)) s;
       if delivered then update_session k (\<lambda>se. se\<lparr>se_srtp_verified := True\<rparr>) s else Some s }
     else Some s }"

text \<open>The first unbound track whose \<^verbatim>\<open>mid\<close> the packet names.\<close>

fun find_unbound ::
  "bytes \<Rightarrow> rtp_header \<Rightarrow> key list \<Rightarrow> ('io, 'snk) shard \<Rightarrow> key option option" where
  "find_unbound packet h [] s = Some None"
| "find_unbound packet h (t # ts) s = do {
     track \<leftarrow> slab_get (sh_tracks s) t;
     m \<leftarrow> ext_find packet h (xi_mid (ts_ext (pt_spec track)));
     if m = Some (ts_mid (pt_spec track)) then Some (Some t) else find_unbound packet h ts s }"

definition learn_ssrc ::
  "key \<Rightarrow> buf_ref \<Rightarrow> nat \<Rightarrow> rtp_header \<Rightarrow> ('io, 'snk) shard \<Rightarrow> (key option \<times> ('io, 'snk) shard) option" where
  "learn_ssrc k buf len h s = do {
     se \<leftarrow> slab_get (sh_sessions s) k;
     b \<leftarrow> pool_buf (sh_pool s) buf;
     packet \<leftarrow> sub_slice b 0 len;
     found \<leftarrow> find_unbound packet h (se_unbound se) s;
     case found of
       None \<Rightarrow> Some (None, s)
     | Some t \<Rightarrow> do {
         let (removed, us) = swap_remove_where (\<lambda>u. u = t) (se_unbound se);
         let (added, ps) = fixed_push MAX_TRACKS_PER_SESSION (rh_ssrc h, t) (se_published se);
         rassert (removed \<noteq> None \<and> added);
         s \<leftarrow> update_session k (\<lambda>se. se\<lparr>se_unbound := us, se_published := ps\<rparr>) s;
         s \<leftarrow> (case se_srtp_in se of
            None \<Rightarrow> Some s
          | Some inbound \<Rightarrow> do {
              (pinned, inbound) \<leftarrow> inbound_pin (rh_ssrc h) inbound;
              rassert (pinned = Inr ());
              update_session k (\<lambda>se. se\<lparr>se_srtp_in := Some inbound\<rparr>) s });
         s \<leftarrow> update_track t (\<lambda>t. t\<lparr>pt_layer := (pt_layer t)\<lparr>ly_ssrc := Some (rh_ssrc h)\<rparr>\<rparr>) s;
         Some (Some t, count1 Ssrcs_learned s) } }"

section \<open>Fan-out\<close>

text \<open>The part of \<^verbatim>\<open>forward\<close> after a buffer was taken.\<close>

definition forward_into ::
  "('io, 'snk) env \<Rightarrow> key \<Rightarrow> subscription \<Rightarrow> srtp_outbound \<Rightarrow> sock_addr \<Rightarrow> buf_ref \<Rightarrow> buf_ref \<Rightarrow> nat \<Rightarrow> rtp_header \<Rightarrow>
   instant \<Rightarrow> ('io, 'snk) shard \<Rightarrow> ('io, 'snk) shard option" where
  "forward_into E sidx sub outbound addr src out len h now s = do {
     _ \<leftarrow> pool_pair_mut src out (sh_pool s);
     input \<leftarrow> pool_buf (sh_pool s) src;
     packet \<leftarrow> sub_slice input 0 len;
     dst \<leftarrow> pool_buf (sh_pool s) out;
     let room = BUF_SIZE - cipher_tag_len (out_cipher outbound) - 4;
     head \<leftarrow> sub_slice dst 0 room;
     (written, head, rng) \<leftarrow> rewrite packet h sub (sh_rng s) now head;
     let dst = head @ drop room dst;
     s \<leftarrow> write_buf out dst (s\<lparr>sh_rng := rng\<rparr>);
     case written of
       Inl err \<Rightarrow> put_buf out (count1 (case err of UnmappedPt \<Rightarrow> Drop_unmapped_pt | TooLarge \<Rightarrow> Drop_too_large) s)
     | Inr (rtp_len, advance) \<Rightarrow> do {
         (r, outbound) \<leftarrow> outbound_protect_rtp (ev_prims E) dst rtp_len outbound;
         s \<leftarrow> update_session (sb_session sub) (\<lambda>se. se\<lparr>se_srtp_out := Some outbound\<rparr>) s;
         case r of
           None \<Rightarrow> put_buf out (count1 Drop_srtp_protect s)
         | Some (dst, n) \<Rightarrow> do {
             s \<leftarrow> write_buf out dst s;
             s \<leftarrow> update_sub sidx (\<lambda>sub. sub\<lparr>sb_rewrite := commit (sb_rewrite sub) advance now,
                sb_sent_packets := sb_sent_packets sub + 1,
                sb_sent_octets := sb_sent_octets sub + of_nat (rtp_payload_len h len)\<rparr>) s;
             tx_push \<lparr>dg_buf = out, dg_len = n, dg_addr = addr\<rparr>
               (count_by Rebased_count (if ad_rebased advance then 1 else 0) s) } } }"

definition forward ::
  "('io, 'snk) env \<Rightarrow> key \<Rightarrow> buf_ref \<Rightarrow> nat \<Rightarrow> rtp_header \<Rightarrow> instant \<Rightarrow> ('io, 'snk) shard \<Rightarrow> ('io, 'snk) shard option" where
  "forward E sidx src len h now s = do {
     rassert (length (sh_tx s) \<noteq> SEND_BATCH);
     sub \<leftarrow> slab_get (sh_subs s) sidx;
     se \<leftarrow> slab_get (sh_sessions s) (sb_session sub);
     case (se_srtp_out se, se_addr se) of
       (Some outbound, Some addr) \<Rightarrow> (case pool_take (sh_pool s) of
         None \<Rightarrow> Some (count1 Drop_pool_empty s)
       | Some (out, p) \<Rightarrow> forward_into E sidx sub outbound addr src out len h now (s\<lparr>sh_pool := p\<rparr>))
     | _ \<Rightarrow> Some s }"

definition fan_out_one ::
  "('io, 'snk) env \<Rightarrow> key \<Rightarrow> buf_ref \<Rightarrow> nat \<Rightarrow> rtp_header \<Rightarrow> instant \<Rightarrow> nat \<Rightarrow> ('io, 'snk) shard \<Rightarrow> ('io, 'snk) shard option" where
  "fan_out_one E tidx src len h now i s = do {
     s \<leftarrow> flush_if_full E s;
     track \<leftarrow> slab_get (sh_tracks s) tidx;
     sidx \<leftarrow> idx (pt_subscribers track) i;
     forward E sidx src len h now s }"

definition fan_out ::
  "('io, 'snk) env \<Rightarrow> key \<Rightarrow> buf_ref \<Rightarrow> nat \<Rightarrow> rtp_header \<Rightarrow> instant \<Rightarrow> ('io, 'snk) shard \<Rightarrow> ('io, 'snk) shard option" where
  "fan_out E tidx src len h now s = do {
     track \<leftarrow> slab_get (sh_tracks s) tidx;
     for_each (fan_out_one E tidx src len h now) [0..<length (pt_subscribers track)] s }"

text \<open>Unprotecting in place: the context is stored, the buffer rewritten on success.\<close>

definition unprotect_with ::
  "(bytes \<Rightarrow> nat \<Rightarrow> u32 \<Rightarrow> srtp_inbound \<Rightarrow> ((bytes \<times> nat) option \<times> srtp_inbound) option) \<Rightarrow>
   key \<Rightarrow> datagram \<Rightarrow> instant \<Rightarrow> ('io, 'snk) shard \<Rightarrow> (nat option \<times> ('io, 'snk) shard) option" where
  "unprotect_with unprotect k d now s = do {
     b \<leftarrow> pool_buf (sh_pool s) (dg_buf d);
     se \<leftarrow> slab_get (sh_sessions s) k;
     inbound \<leftarrow> se_srtp_in se;
     (r, inbound) \<leftarrow> unprotect b (dg_len d) (now_s s now) inbound;
     s \<leftarrow> update_session k (\<lambda>se. se\<lparr>se_srtp_in := Some inbound\<rparr>) s;
     case r of
       None \<Rightarrow> Some (None, count1 Drop_srtp_auth s)
     | Some (b, n) \<Rightarrow> do { s \<leftarrow> write_buf (dg_buf d) b s; Some (Some n, s) } }"

definition handle_rtp :: "('io, 'snk) env \<Rightarrow> datagram \<Rightarrow> instant \<Rightarrow> ('io, 'snk) shard \<Rightarrow> ('io, 'snk) shard option" where
  "handle_rtp E d now s = do {
     (k, s) \<leftarrow> srtp_session d s;
     case k of
       None \<Rightarrow> Some s
     | Some k \<Rightarrow> do {
         (len, s) \<leftarrow> unprotect_with (inbound_unprotect_rtp (ev_prims E)) k d now s;
         case len of
           None \<Rightarrow> Some s
         | Some len \<Rightarrow> do {
             s \<leftarrow> authenticated E k (dg_addr d) now s;
             b \<leftarrow> pool_buf (sh_pool s) (dg_buf d);
             packet \<leftarrow> sub_slice b 0 len;
             parsed \<leftarrow> rtp_parse packet;
             case parsed of
               Inl _ \<Rightarrow> Some (count1 Drop_malformed s)
             | Inr h \<Rightarrow> do {
                 se \<leftarrow> slab_get (sh_sessions s) k;
                 (track, s) \<leftarrow> (case track_of_ssrc se (rh_ssrc h) of
                    Some t \<Rightarrow> Some (Some t, s)
                  | None \<Rightarrow> learn_ssrc k (dg_buf d) len h s);
                 case track of
                   None \<Rightarrow> Some (count1 Drop_no_route s)
                 | Some t \<Rightarrow> fan_out E t (dg_buf d) len h now s } } } }"

definition handle_rtcp :: "('io, 'snk) env \<Rightarrow> datagram \<Rightarrow> instant \<Rightarrow> ('io, 'snk) shard \<Rightarrow> ('io, 'snk) shard option" where
  "handle_rtcp E d now s = do {
     (k, s) \<leftarrow> srtp_session d s;
     case k of
       None \<Rightarrow> Some s
     | Some k \<Rightarrow> do {
         (len, s) \<leftarrow> unprotect_with (inbound_unprotect_rtcp (ev_prims E)) k d now s;
         case len of
           None \<Rightarrow> Some s
         | Some len \<Rightarrow> do {
             s \<leftarrow> authenticated E k (dg_addr d) now s;
             handle_rtcp_compound E k (dg_buf d) len now (count1 Rtcp_received s) } } }"

definition handle_datagram :: "('io, 'snk) env \<Rightarrow> datagram \<Rightarrow> instant \<Rightarrow> ('io, 'snk) shard \<Rightarrow> ('io, 'snk) shard option" where
  "handle_datagram E d now s = do {
     let s = count_by Rx_bytes (dg_len d) (count1 Rx_datagrams s);
     b \<leftarrow> pool_buf (sh_pool s) (dg_buf d);
     data \<leftarrow> sub_slice b 0 (dg_len d);
     case classify data of
       Class_Stun \<Rightarrow> handle_stun E d now s
     | Class_Dtls \<Rightarrow> handle_dtls E d s
     | Class_Rtp \<Rightarrow> handle_rtp E d now s
     | Class_Rtcp \<Rightarrow> handle_rtcp E d now s
     | Class_Other \<Rightarrow> Some (count1 Drop_unclassified s) }"

end
