(* ===== verification/Shard_Loop.thy ===== *)
theory Shard_Loop
  imports Shard_Ingress
begin

text \<open>
  The sweep (\<^verbatim>\<open>nexus-dataplane/src/shard/housekeeping.rs\<close>) and one
  iteration of the shard (\<^verbatim>\<open>iterate\<close> of \<^verbatim>\<open>shard/mod.rs\<close>).
\<close>

section \<open>Housekeeping\<close>

definition check_consent :: "('io, 'snk) env \<Rightarrow> key \<Rightarrow> instant \<Rightarrow> ('io, 'snk) shard \<Rightarrow> ('io, 'snk) shard option" where
  "check_consent E k now s = do {
     se \<leftarrow> slab_get (sh_sessions s) k;
     let silent = since now (se_last_rx_selected se);
     if se_consent_lost se \<or> silent < sc_consent_timeout (sh_config s) then Some s
     else do {
       (delivered, s) \<leftarrow> emit E (ConsentLost (se_id se)) s;
       if delivered then do {
         s \<leftarrow> update_session k (\<lambda>se. se\<lparr>se_consent_lost := True\<rparr>) s;
         Some (count1 Consent_lost_count s) }
       else Some s } }"

definition sweep_session :: "('io, 'snk) env \<Rightarrow> key \<Rightarrow> instant \<Rightarrow> ('io, 'snk) shard \<Rightarrow> ('io, 'snk) shard option" where
  "sweep_session E k now s = do {
     s \<leftarrow> update_session k (\<lambda>se. se\<lparr>se_dtls_budget := DTLS_BUDGET_PER_SWEEP,
        se_srtp_in := map_option (\<lambda>x. snd (inbound_evict_idle (now_s s now) INBOUND_IDLE_EVICT_S x)) (se_srtp_in se)\<rparr>) s;
     se \<leftarrow> slab_get (sh_sessions s) k;
     let grace_over = (case se_last_switch se of None \<Rightarrow> True | Some at \<Rightarrow> since now at \<ge> PREV_ADDR_GRACE);
     s \<leftarrow> (if grace_over then do {
          s \<leftarrow> update_session k (\<lambda>se. se\<lparr>se_prev_addr := None\<rparr>) s;
          Some (unmap_addr k (se_prev_addr se) s) }
        else Some s);
     s \<leftarrow> (case se_unreported_switch se of
        None \<Rightarrow> Some s
      | Some reason \<Rightarrow> report_switch E k reason s);
     check_consent E k now s }"

definition sweep_slot :: "('io, 'snk) env \<Rightarrow> instant \<Rightarrow> nat \<Rightarrow> ('io, 'snk) shard \<Rightarrow> ('io, 'snk) shard option" where
  "sweep_slot E now i s = (case slab_key_at (sh_sessions s) i of
     None \<Rightarrow> Some s
   | Some k \<Rightarrow> sweep_session E k now s)"

text \<open>\<^verbatim>\<open>rx_pps\<close> over the last interval: a saturating product and a division.\<close>

definition pps :: "u64 \<Rightarrow> u64 \<Rightarrow> u64" where
  "pps received elapsed_ms = saturating_mul64 received 1000 div elapsed_ms"

definition housekeeping :: "('io, 'snk) env \<Rightarrow> instant \<Rightarrow> ('io, 'snk) shard \<Rightarrow> ('io, 'snk) shard option" where
  "housekeeping E now s = do {
     let s = s\<lparr>sh_dtls_budget := sc_dtls_budget_per_sweep (sh_config s)\<rparr>;
     let slots = slab_slot_count (sh_sessions s);
     rassert (slots \<le> unat (sc_max_sessions (sh_config s)));
     s \<leftarrow> for_each (sweep_slot E now) [0..<slots] s;
     let (last_rx, last_at) = sh_last_sweep s;
     let elapsed_ms = (of_nat (as_millis (since now last_at)) :: u64);
     let received = sh_counters s Rx_datagrams - last_rx;
     let s = (if elapsed_ms > 0 then s\<lparr>sh_rx_pps := pps received elapsed_ms\<rparr> else s);
     Some (publish_stats (s\<lparr>sh_last_sweep := (sh_counters s Rx_datagrams, now)\<rparr>)) }"

section \<open>One iteration\<close>

definition handle_received ::
  "('io, 'snk) env \<Rightarrow> instant \<Rightarrow> nat \<Rightarrow> ('io, 'snk) shard \<Rightarrow> ('io, 'snk) shard option" where
  "handle_received E now i s = do {
     d \<leftarrow> idx (sh_rx s) i;
     s \<leftarrow> handle_datagram E d now s;
     put_buf (dg_buf d) s }"

definition receive :: "('io, 'snk) env \<Rightarrow> ('io, 'snk) shard \<Rightarrow> (recv_result \<times> ('io, 'snk) shard) option" where
  "receive E s = do {
     let s = count1 Iterations s;
     (r, rx, p, io) \<leftarrow> ev_recv E (sh_io s) (sh_rx s) (sh_pool s);
     let s = s\<lparr>sh_rx := rx, sh_pool := p, sh_io := io\<rparr>;
     let (received, s) = (case r of Some received \<Rightarrow> (received, s) | None \<Rightarrow> (recv_default, count1 Rx_errors s));
     rassert (rv_received received = length (sh_rx s));
     Some (received, count_by Rx_unreadable (rv_unreadable received) (count_by Rx_truncated (rv_truncated received) s)) }"

definition iterate ::
  "('io, 'snk) env \<Rightarrow> instant \<Rightarrow> ('io, 'snk) shard \<Rightarrow> (iteration_stats \<times> ('io, 'snk) shard) option" where
  "iterate E now s = do {
     (received, s) \<leftarrow> receive E s;
     s \<leftarrow> for_each (handle_received E now) [0..<length (sh_rx s)] s;
     let s = s\<lparr>sh_rx := []\<rparr>;
     s \<leftarrow> (if sh_pending_switches s \<noteq> [] then apply_pending_switches E now s else Some s);
     s \<leftarrow> flush E s;
     (commands, s) \<leftarrow> drain_commands E now s;
     s \<leftarrow> flush E s;
     let s = push_pending E s;
     s \<leftarrow> (if now \<ge> sh_next_housekeeping s then do {
          s \<leftarrow> housekeeping E now s;
          Some (s\<lparr>sh_next_housekeeping := now + HOUSEKEEPING_INTERVAL\<rparr>) }
        else Some s);
     rassert (sh_tx s = []);
     Some (\<lparr>is_received = rv_received received, is_taken = recv_taken received,
       is_would_block = rv_would_block received, is_commands = commands\<rparr>, s) }"

end
