(* ===== verification/Plane_Tables.thy ===== *)
theory Plane_Tables
  imports Slab
begin

text \<open>
  Two relations the tables of the shard keep between maps: an index finds
  the entries of a store under their identifiers, and the children of a store
  are listed, each once, by their parents in another store.  The stores are
  seen through their lookup functions.
\<close>

section \<open>Indexes\<close>

text \<open>\<open>index_ok m L F\<close>: \<open>m\<close> maps every identifier in \<open>F v\<close> of an entry \<open>v\<close> of \<open>L\<close> to its key, and nothing else.\<close>

definition index_ok :: "('i, key) hmap \<Rightarrow> (key \<Rightarrow> 'v option) \<Rightarrow> ('v \<Rightarrow> 'i set) \<Rightarrow> bool" where
  "index_ok m L F \<longleftrightarrow> hm_ok m \<and> (\<forall>i k. hm_get m i = Some k \<longleftrightarrow> (\<exists>v. L k = Some v \<and> i \<in> F v))"

lemma index_empty: "index_ok [] Map.empty F"
  by (simp add: index_ok_def)

lemma index_iff: "index_ok m L F \<Longrightarrow> hm_get m i = Some k \<longleftrightarrow> (\<exists>v. L k = Some v \<and> i \<in> F v)"
  by (simp add: index_ok_def)

lemma index_get: "index_ok m L F \<Longrightarrow> hm_get m i = Some k \<Longrightarrow> \<exists>v. L k = Some v \<and> i \<in> F v"
  by (simp add: index_ok_def)

lemma index_mem: "index_ok m L F \<Longrightarrow> L k = Some v \<Longrightarrow> i \<in> F v \<Longrightarrow> hm_get m i = Some k"
  by (auto simp: index_ok_def)

lemma index_upd:
  assumes ok: "index_ok m L F" "hm_ok m'"
    and fresh: "\<And>i. i \<in> (case nv of None \<Rightarrow> {} | Some v \<Rightarrow> F v) \<Longrightarrow> hm_get m i = None \<or> hm_get m i = Some k"
    and get: "\<And>i. hm_get m' i = (if i \<in> (case nv of None \<Rightarrow> {} | Some v \<Rightarrow> F v) then Some k
      else if hm_get m i = Some k then None else hm_get m i)"
  shows "index_ok m' (L(k := nv)) F"
  unfolding index_ok_def
proof (intro conjI allI)
  fix i j
  have "hm_get m i = Some j \<longleftrightarrow> (\<exists>v. L j = Some v \<and> i \<in> F v)" using ok by (simp add: index_ok_def)
  then show "hm_get m' i = Some j \<longleftrightarrow> (\<exists>v. (L(k := nv)) j = Some v \<and> i \<in> F v)"
    using get[of i] fresh[of i] by (cases nv) (auto split: if_splits)
qed (rule ok)

lemma index_same: "index_ok m L F \<Longrightarrow> L k = Some v \<Longrightarrow> F v' = F v \<Longrightarrow> index_ok m (L(k \<mapsto> v')) F"
  by (auto simp: index_ok_def)

lemma index_fresh: "index_ok m L F \<Longrightarrow> L k = None \<Longrightarrow> F v = {} \<Longrightarrow> index_ok m (L(k \<mapsto> v)) F"
  by (auto simp: index_ok_def)

lemma index_drop: "index_ok m L F \<Longrightarrow> L k = Some v \<Longrightarrow> F v = {} \<Longrightarrow> index_ok m (L(k := None)) F"
  by (auto simp: index_ok_def)

lemma index_insert:
  "index_ok m L F \<Longrightarrow> L k = None \<Longrightarrow> F v = {i} \<Longrightarrow> hm_get m i = None \<Longrightarrow>
   index_ok (hm_insert i k m) (L(k \<mapsto> v)) F"
  by (rule index_upd) (auto simp: index_ok_def)

lemma index_delete:
  "index_ok m L F \<Longrightarrow> L k = Some v \<Longrightarrow> F v = {i} \<Longrightarrow> index_ok (hm_remove i m) (L(k := None)) F"
  by (rule index_upd) (auto simp: index_ok_def)

lemma index_extend:
  "index_ok m L F \<Longrightarrow> L k = Some v \<Longrightarrow> F v' = insert i (F v) \<Longrightarrow> hm_get m i = None \<Longrightarrow>
   index_ok (hm_insert i k m) (L(k \<mapsto> v')) F"
  by (rule index_upd) (auto simp: index_ok_def)

lemma index_shrink:
  "index_ok m L F \<Longrightarrow> L k = Some v \<Longrightarrow> F v' = F v - {i} \<Longrightarrow> i \<in> F v \<Longrightarrow>
   index_ok (hm_remove i m) (L(k \<mapsto> v')) F"
  by (rule index_upd) (auto simp: index_ok_def)

lemma index_cong:
  assumes "\<And>k. map_option F (L' k) = map_option F (L k)"
  shows "index_ok m L' F = index_ok m L F"
proof -
  have "(\<exists>v. L' k = Some v \<and> i \<in> F v) = (\<exists>v. L k = Some v \<and> i \<in> F v)" for i k
    using assms[of k] by (cases "L k"; cases "L' k") auto
  then show ?thesis by (simp add: index_ok_def)
qed

lemma index_dom: "index_ok m L F \<Longrightarrow> dom (hm_get m) = (\<Union>k\<in>dom L. F (the (L k)))"
  by (force simp: index_ok_def)

lemma index_length_le:
  assumes ok: "index_ok m L F" and fin: "finite (dom L)" and few: "\<And>k v. L k = Some v \<Longrightarrow> card (F v) \<le> n"
  shows "length m \<le> n * card (dom L)"
proof -
  have "length m = card (dom (hm_get m))" using ok by (simp add: index_ok_def hm_len_card)
  also have "\<dots> \<le> (\<Sum>k\<in>dom L. card (F (the (L k))))" unfolding index_dom[OF ok] by (rule card_UN_le[OF fin])
  also have "\<dots> \<le> (\<Sum>k\<in>dom L. n)" by (rule sum_mono) (use few in auto)
  finally show ?thesis by (simp add: mult.commute)
qed

lemma index_length_eq:
  assumes ok: "index_ok m L (\<lambda>v. {f v})" and fin: "finite (dom L)"
  shows "length m = card (dom L)"
proof -
  have "inj_on (\<lambda>k. f (the (L k))) (dom L)"
  proof (rule inj_onI)
    fix j k assume "j \<in> dom L" "k \<in> dom L" "f (the (L j)) = f (the (L k))"
    then have "hm_get m (f (the (L j))) = Some j" "hm_get m (f (the (L j))) = Some k"
      using index_mem[OF ok] by fastforce+
    then show "j = k" by simp
  qed
  moreover have "dom (hm_get m) = (\<lambda>k. f (the (L k))) ` dom L" unfolding index_dom[OF ok] by auto
  moreover have "length m = card (dom (hm_get m))" using ok by (simp add: index_ok_def hm_len_card)
  ultimately show ?thesis by (simp add: card_image)
qed

section \<open>Ownership\<close>

text \<open>\<open>owned C P up kids\<close>: every child of \<open>C\<close> is listed by the parent it names in \<open>P\<close>, and parents list children of their own, each once.\<close>

definition owned ::
  "(key \<Rightarrow> 'c option) \<Rightarrow> (key \<Rightarrow> 'p option) \<Rightarrow> ('c \<Rightarrow> key) \<Rightarrow> ('p \<Rightarrow> key list) \<Rightarrow> bool" where
  "owned C P up kids \<longleftrightarrow>
     (\<forall>c x. C c = Some x \<longrightarrow> (\<exists>y. P (up x) = Some y \<and> c \<in> set (kids y))) \<and>
     (\<forall>p y. P p = Some y \<longrightarrow> distinct (kids y) \<and> (\<forall>c\<in>set (kids y). \<exists>x. C c = Some x \<and> up x = p))"

lemma owned_empty: "owned Map.empty Map.empty up kids"
  by (simp add: owned_def)

lemma owned_up: "owned C P up kids \<Longrightarrow> C c = Some x \<Longrightarrow> \<exists>y. P (up x) = Some y \<and> c \<in> set (kids y)"
  by (simp add: owned_def)

lemma owned_kid: "owned C P up kids \<Longrightarrow> P p = Some y \<Longrightarrow> c \<in> set (kids y) \<Longrightarrow> \<exists>x. C c = Some x \<and> up x = p"
  by (simp add: owned_def)

lemma owned_distinct: "owned C P up kids \<Longrightarrow> P p = Some y \<Longrightarrow> distinct (kids y)"
  by (simp add: owned_def)

lemma ownedI:
  assumes "\<And>c x. C c = Some x \<Longrightarrow> \<exists>y. P (up x) = Some y \<and> c \<in> set (kids y)"
    and "\<And>p y. P p = Some y \<Longrightarrow> distinct (kids y)"
    and "\<And>p y c. P p = Some y \<Longrightarrow> c \<in> set (kids y) \<Longrightarrow> \<exists>x. C c = Some x \<and> up x = p"
  shows "owned C P up kids"
  using assms by (simp add: owned_def)

lemma owned_child:
  assumes "owned C P up kids" "C c = Some x" "up x' = up x"
  shows "owned (C(c \<mapsto> x')) P up kids"
  by (rule ownedI)
    (use assms owned_up[OF assms(1)] owned_distinct[OF assms(1)] in \<open>auto split: if_splits dest!: owned_kid[OF assms(1)]\<close>)

lemma owned_parent:
  assumes "owned C P up kids" "P p = Some y" "distinct (kids y')" "set (kids y') = set (kids y)"
  shows "owned C (P(p \<mapsto> y')) up kids"
  by (rule ownedI)
    (use assms owned_kid[OF assms(1)] owned_distinct[OF assms(1)] in \<open>auto split: if_splits dest!: owned_up[OF assms(1)]\<close>)

lemma owned_new_parent:
  assumes "owned C P up kids" "P p = None" "kids y = []"
  shows "owned C (P(p \<mapsto> y)) up kids"
  by (rule ownedI)
    (use assms owned_kid[OF assms(1)] owned_distinct[OF assms(1)] in \<open>auto split: if_splits dest!: owned_up[OF assms(1)]\<close>)

lemma owned_drop_parent:
  assumes "owned C P up kids" "P p = Some y" "kids y = []"
  shows "owned C (P(p := None)) up kids"
  by (rule ownedI)
    (use assms owned_kid[OF assms(1)] owned_distinct[OF assms(1)] in \<open>auto split: if_splits dest!: owned_up[OF assms(1)]\<close>)

lemma owned_cong:
  assumes "\<And>p. map_option kids (P' p) = map_option kids (P p)"
  shows "owned C P' up kids = owned C P up kids"
proof -
  have "(\<exists>y. P' p = Some y \<and> Q (kids y)) = (\<exists>y. P p = Some y \<and> Q (kids y))"
    "(\<forall>y. P' p = Some y \<longrightarrow> Q (kids y)) = (\<forall>y. P p = Some y \<longrightarrow> Q (kids y))" for p Q
    using assms[of p] by (cases "P p"; cases "P' p"; auto)+
  note c = this
  show ?thesis unfolding owned_def using c(1)[of _ "\<lambda>ks. c \<in> set ks" for c]
      c(2)[of _ "\<lambda>ks. distinct ks \<and> (\<forall>c\<in>set ks. \<exists>x. C c = Some x \<and> up x = q)" for q] by simp
qed

lemma owned_add:
  assumes o: "owned C P up kids" and c: "C c = None" and p: "P (up x) = Some y"
    and y': "distinct (kids y')" "set (kids y') = insert c (set (kids y))"
  shows "owned (C(c \<mapsto> x)) (P(up x \<mapsto> y')) up kids"
proof (rule ownedI)
  fix d w assume d: "(C(c \<mapsto> x)) d = Some w"
  show "\<exists>z. (P(up x \<mapsto> y')) (up w) = Some z \<and> d \<in> set (kids z)"
  proof (cases "d = c")
    case False
    then obtain z where "P (up w) = Some z" "d \<in> set (kids z)" using d owned_up[OF o, of d w] by auto
    then show ?thesis using p y'(2) by (cases "up w = up x") simp_all
  qed (use d y'(2) in simp)
next
  fix q z d assume q: "(P(up x \<mapsto> y')) q = Some z" and d: "d \<in> set (kids z)"
  show "\<exists>w. (C(c \<mapsto> x)) d = Some w \<and> up w = q"
  proof (cases "d = c \<and> q = up x")
    case False
    have "\<exists>z. P q = Some z \<and> d \<in> set (kids z)" using q d p y'(2) False by (cases "q = up x") auto
    then obtain w where "C d = Some w" "up w = q" using owned_kid[OF o] by blast
    then show ?thesis using c by (cases "d = c") simp_all
  qed simp
next
  fix q z assume "(P(up x \<mapsto> y')) q = Some z"
  then show "distinct (kids z)" using y'(1) owned_distinct[OF o, of q z] by (cases "q = up x") simp_all
qed

lemma owned_remove:
  assumes o: "owned C P up kids" and c: "C c = Some x" and p: "P (up x) = Some y"
    and y': "distinct (kids y')" "set (kids y') = set (kids y) - {c}"
  shows "owned (C(c := None)) (P(up x \<mapsto> y')) up kids"
proof (rule ownedI)
  fix d w assume d: "(C(c := None)) d = Some w"
  then have "C d = Some w" "d \<noteq> c" by (cases "d = c"; simp)+
  moreover from this obtain z where "P (up w) = Some z" "d \<in> set (kids z)" using owned_up[OF o] by blast
  ultimately show "\<exists>z. (P(up x \<mapsto> y')) (up w) = Some z \<and> d \<in> set (kids z)"
    using p y'(2) by (cases "up w = up x") simp_all
next
  fix q z d assume q: "(P(up x \<mapsto> y')) q = Some z" and d: "d \<in> set (kids z)"
  have "\<exists>z. P q = Some z \<and> d \<in> set (kids z)" using q d p y'(2) by (cases "q = up x") auto
  then obtain w where w: "C d = Some w" "up w = q" using owned_kid[OF o] by blast
  have "d \<noteq> c"
  proof
    assume "d = c"
    then have "q = up x" using w c by simp
    then show False using q d y'(2) \<open>d = c\<close> by simp
  qed
  then show "\<exists>w. (C(c := None)) d = Some w \<and> up w = q" using w by simp
next
  fix q z assume "(P(up x \<mapsto> y')) q = Some z"
  then show "distinct (kids z)" using y'(1) owned_distinct[OF o, of q z] by (cases "q = up x") simp_all
qed

lemma owned_card:
  assumes o: "owned C P up kids" and fin: "finite (dom P)" and few: "\<And>p y. P p = Some y \<Longrightarrow> length (kids y) \<le> n"
  shows "card (dom C) \<le> n * card (dom P)"
proof -
  have sub: "dom C \<subseteq> (\<Union>p\<in>dom P. set (kids (the (P p))))"
    by (auto dest!: owned_up[OF o])
  have "card (dom C) \<le> card (\<Union>p\<in>dom P. set (kids (the (P p))))"
    using sub fin by (intro card_mono) auto
  also have "\<dots> \<le> (\<Sum>p\<in>dom P. card (set (kids (the (P p)))))" by (rule card_UN_le[OF fin])
  also have "\<dots> \<le> (\<Sum>p\<in>dom P. n)"
    by (rule sum_mono) (auto intro: order_trans[OF card_length few])
  finally show ?thesis by (simp add: mult.commute)
qed

end
