(* ===== verification/Srtp_Pins.thy ===== *)
theory Srtp_Pins
  imports Srtp_Direction
begin

text \<open>
  What the shard relies on of the SRTP directions beyond their invariants:
  protecting and unprotecting keep the length of the buffer and return a
  length within it, and the pinned SSRCs of the inbound context are exactly
  those pinned by the session, so that a session's tracks always find a slot.
\<close>

section \<open>Lengths\<close>

definition fits :: "bytes \<Rightarrow> srtp_error + (bytes \<times> nat) \<Rightarrow> bool" where
  "fits buf r \<longleftrightarrow> (case r of Inl _ \<Rightarrow> True | Inr (b, n) \<Rightarrow> length b = length buf \<and> n \<le> length buf)"

lemma fits_simps [simp]: "fits buf (Inl e)" "fits buf (Inr (b, n)) \<longleftrightarrow> length b = length buf \<and> n \<le> length buf"
  by (simp_all add: fits_def)

lemma copy_into_room: "copy_into d i bs = Some d' \<Longrightarrow> length d' = length d \<and> i + length bs \<le> length d"
  by (cases "i + length bs \<le> length d") (auto simp: copy_into_def)

lemma gcm_protect_rtp_fits: "ens (gcm_protect_rtp P c buf n i) (fits buf)"
  unfolding gcm_protect_rtp_def encrypt_rtp_payload_def
  by (intro ens_intros) (auto simp: SRTP_AUTH_TAG_SIZE_def dest!: copy_into_room)

lemma gcm_unprotect_rtp_fits: "ens (gcm_unprotect_rtp P c buf n i) (fits buf)"
  unfolding gcm_unprotect_rtp_def decrypt_rtp_payload_def
  by (intro ens_intros) (auto dest!: copy_into_room)

lemma gcm_protect_rtcp_fits: "ens (gcm_protect_rtcp P c buf n i) (fits buf)"
  unfolding gcm_protect_rtcp_def Let_def
  by (intro ens_intros) (auto simp: SRTP_AUTH_TAG_SIZE_def dest!: copy_into_room)

lemma cm_protect_rtp_fits: "ens (cm_protect_rtp P c buf n i) (fits buf)"
  unfolding cm_protect_rtp_def
  by (intro ens_intros) (auto dest!: copy_into_room)

lemma cm_unprotect_rtp_fits: "ens (cm_unprotect_rtp P c buf n i) (fits buf)"
  unfolding cm_unprotect_rtp_def Let_def
  by (intro ens_intros) (auto dest!: copy_into_room)

lemma cm_protect_rtcp_fits: "ens (cm_protect_rtcp P c buf n i) (fits buf)"
  unfolding cm_protect_rtcp_def
  by (intro ens_intros) (auto dest!: copy_into_room)

lemma gcm_unprotect_rtcp_fits:
  "ens (gcm_unprotect_rtcp P c buf n) (\<lambda>r. fits buf (map_sum id (\<lambda>(b, n, _). (b, n)) r))"
  unfolding gcm_unprotect_rtcp_def Let_def
  by (intro ens_intros) (auto dest!: copy_into_room)

lemma cm_unprotect_rtcp_fits:
  "ens (cm_unprotect_rtcp P c buf n) (\<lambda>r. fits buf (map_sum id (\<lambda>(b, n, _). (b, n)) r))"
  unfolding cm_unprotect_rtcp_def Let_def
  by (intro ens_intros) (auto dest!: copy_into_room)

lemma cipher_fits:
  "ens (cipher_protect_rtp P c buf n i) (fits buf)"
  "ens (cipher_unprotect_rtp P c buf n i) (fits buf)"
  "ens (cipher_protect_rtcp P c buf n j) (fits buf)"
  "ens (cipher_unprotect_rtcp P c buf n) (\<lambda>r. fits buf (map_sum id (\<lambda>(b, n, _). (b, n)) r))"
  by (cases c; simp add: gcm_protect_rtp_fits gcm_unprotect_rtp_fits gcm_protect_rtcp_fits cm_protect_rtp_fits
      cm_unprotect_rtp_fits cm_protect_rtcp_fits gcm_unprotect_rtcp_fits cm_unprotect_rtcp_fits)+

definition sized :: "bytes \<Rightarrow> (bytes \<times> nat) option \<Rightarrow> bool" where
  "sized buf r \<longleftrightarrow> (case r of None \<Rightarrow> True | Some (b, n) \<Rightarrow> length b = length buf \<and> n \<le> length buf)"

lemma sized_simps [simp]: "sized buf None" "sized buf (Some (b, n)) \<longleftrightarrow> length b = length buf \<and> n \<le> length buf"
  by (simp_all add: sized_def)

lemma outbound_sized:
  "ens (outbound_protect_rtp P buf n x) (\<lambda>(r, x'). sized buf r)"
  "ens (outbound_protect_rtcp P buf n x) (\<lambda>(r, x'). sized buf r)"
  unfolding outbound_protect_rtp_def outbound_protect_rtcp_def Let_def
  by (intro ens_intros; auto dest!: ensD[OF cipher_fits(1)] ensD[OF cipher_fits(3)])+

lemma inbound_sized:
  "ens (inbound_unprotect_rtp P buf n now x) (\<lambda>(r, x'). sized buf r)"
  "ens (inbound_unprotect_rtcp P buf n now x) (\<lambda>(r, x'). sized buf r)"
  unfolding inbound_unprotect_rtp_def inbound_unprotect_rtcp_def Let_def
  by (intro ens_intros; auto dest!: ensD[OF cipher_fits(2)] ensD[OF cipher_fits(4)])+

section \<open>Pinned SSRCs\<close>

definition in_pins :: "srtp_inbound \<Rightarrow> u32 set" where
  "in_pins x = si_ssrc ` {s \<in> set (in_slots x). si_live s \<and> si_pinned s}"

lemma in_pins_new [simp]: "in_pins (inbound_new c) = {}"
  by (simp add: in_pins_def inbound_new_def ssrc_in_empty_def)

lemma in_pins_set:
  assumes "si_live s \<Longrightarrow> si_pinned s \<Longrightarrow> si_ssrc s \<in> A"
  shows "in_pins (set_in_slot i s x) \<subseteq> in_pins x \<union> A"
  using assms set_update_subset_insert[of "in_slots x" i s] by (auto simp: in_pins_def)

lemma in_pins_mem: "idx (in_slots x) i = Some s \<Longrightarrow> si_live s \<Longrightarrow> si_pinned s \<Longrightarrow> si_ssrc s \<in> in_pins x"
  by (auto simp: in_pins_def idx_eq_Some_iff)

text \<open>A slot that only changed its replay state, rollover counter or time.\<close>

definition same_slot :: "ssrc_in \<Rightarrow> ssrc_in \<Rightarrow> bool" where
  "same_slot s s' \<longleftrightarrow> si_ssrc s' = si_ssrc s \<and> si_live s' = si_live s \<and> si_pinned s' = si_pinned s"

lemma same_slot_simps [simp]:
  "same_slot s s" "same_slot s (s'\<lparr>si_rtp_replay := r\<rparr>) = same_slot s s'"
  "same_slot s (s'\<lparr>si_rtcp_replay := r\<rparr>) = same_slot s s'" "same_slot s (s'\<lparr>si_roc := roc\<rparr>) = same_slot s s'"
  "same_slot s (s'\<lparr>si_last_seen_s := t\<rparr>) = same_slot s s'"
  by (simp_all add: same_slot_def)

lemma known_index_same: "ens (known_index sq s) (\<lambda>(i, s'). same_slot s s')"
  unfolding known_index_def by (intro ens_intros) auto

lemma accept_rtp_same: "ens (accept_rtp i sq now s) (\<lambda>s'. same_slot s s')"
  unfolding accept_rtp_def Let_def by (intro ens_intros) auto

lemma in_pins_same:
  assumes "idx (in_slots x) i = Some s" "same_slot s s' \<or> \<not> si_pinned s'"
  shows "in_pins (set_in_slot i s' x) \<subseteq> in_pins x"
  using in_pins_set[of s' "in_pins x" i x] in_pins_mem[OF assms(1)] assms(2) by (auto simp: same_slot_def)

lemma not_pinned_fresh [simp]: "\<not> si_pinned (ssrc_in_fresh ssrc now)"
  by (simp add: ssrc_in_fresh_def ssrc_in_empty_def)

lemma set_in_slot_twice [simp]: "set_in_slot i s (set_in_slot i t x) = set_in_slot i s x"
  by (simp add: set_in_slot_def)

definition pins_within :: "srtp_inbound \<Rightarrow> srtp_inbound \<Rightarrow> bool" where
  "pins_within x x' \<longleftrightarrow> in_pins x' \<subseteq> in_pins x"

lemma pins_within_refl [simp]: "pins_within x x"
  by (simp add: pins_within_def)

lemma pins_within_same:
  "idx (in_slots x) i = Some s \<Longrightarrow> same_slot s s' \<or> \<not> si_pinned s' \<Longrightarrow> pins_within x (set_in_slot i s' x)"
  unfolding pins_within_def by (rule in_pins_same)

lemma same_slot_fresh: "same_slot (ssrc_in_fresh ssrc now) s \<Longrightarrow> \<not> si_pinned s"
  by (simp add: same_slot_def)

lemma same_slot_trans: "same_slot s t \<Longrightarrow> same_slot t u \<Longrightarrow> same_slot s u"
  by (simp add: same_slot_def)

lemma inbound_unprotect_rtp_pins: "ens (inbound_unprotect_rtp P buf n now x) (\<lambda>(r, x'). pins_within x x')"
  unfolding inbound_unprotect_rtp_def Let_def
  by (intro ens_intros)
    (auto split: if_splits dest!: ensD[OF known_index_same] ensD[OF accept_rtp_same] intro!: pins_within_same
      dest: same_slot_fresh same_slot_trans)

lemma inbound_unprotect_rtcp_pins: "ens (inbound_unprotect_rtcp P buf n now x) (\<lambda>(r, x'). pins_within x x')"
  unfolding inbound_unprotect_rtcp_def Let_def
  by (intro ens_intros) (auto split: if_splits intro!: pins_within_same)

lemma in_pins_index: "in_pins x = (\<lambda>i. si_ssrc (in_slots x ! i)) ` {i. i < length (in_slots x) \<and>
    si_live (in_slots x ! i) \<and> si_pinned (in_slots x ! i)}"
  unfolding in_pins_def by (auto simp: in_set_conv_nth)

lemma in_pinned_card:
  assumes "in_inv x" shows "in_pinned_count x = card (in_pins x)"
proof -
  have "inj_on (\<lambda>i. si_ssrc (in_slots x ! i)) {i. i < length (in_slots x) \<and>
      si_live (in_slots x ! i) \<and> si_pinned (in_slots x ! i)}"
    by (rule inj_onI) (use assms in \<open>auto intro: in_live_unique simp: in_live_def\<close>)
  then show ?thesis unfolding in_pins_index in_pinned_count_def length_filter_conv_card by (simp add: card_image)
qed

lemma slot_to_replace_ex:
  assumes "in_pinned_count x < length (in_slots x)" shows "slot_to_replace x \<noteq> None"
proof
  assume none: "slot_to_replace x = None"
  have old: "oldest_unpinned k ss = None \<Longrightarrow> \<forall>s\<in>set ss. si_pinned s" for k ss
    by (induction ss arbitrary: k) (auto simp: Let_def split: if_splits option.splits)
  have "\<forall>s\<in>set (in_slots x). si_live s \<and> si_pinned s"
    using none old[of 0 "in_slots x"] by (auto simp: slot_to_replace_def position_None split: option.splits)
  then have "filter (\<lambda>s. si_live s \<and> si_pinned s) (in_slots x) = in_slots x" by (simp add: filter_id_conv)
  then show False using assms by (simp add: in_pinned_count_def)
qed

lemma inbound_pin_pins: "ens (inbound_pin ssrc x) (\<lambda>(r, x'). in_pins x' \<subseteq> insert ssrc (in_pins x))"
proof (rule ensI, clarify)
  fix r x' t assume p: "inbound_pin ssrc x = Some (r, x')" and t: "t \<in> in_pins x'" "t \<notin> in_pins x"
  let ?p = "position (\<lambda>s. si_live s \<and> si_ssrc s = ssrc) (in_slots x)"
  have "\<exists>i s. x' = set_in_slot i s x \<and> si_ssrc s = ssrc"
  proof (cases ?p)
    case None
    then have "x' = x \<or> (\<exists>i. x' = set_in_slot i ((ssrc_in_fresh ssrc 0)\<lparr>si_pinned := True\<rparr>) x)"
      using p by (auto simp: inbound_pin_def idx_eq_Some_iff bind_eq_Some_conv set_in_slot_def Let_def split: if_splits option.splits)
    moreover have "si_ssrc ((ssrc_in_fresh ssrc 0)\<lparr>si_pinned := True\<rparr>) = ssrc" by (simp add: ssrc_in_fresh_def)
    ultimately show ?thesis using t by blast
  next
    case (Some i)
    then have "x' = x \<or> x' = set_in_slot i ((in_slots x ! i)\<lparr>si_pinned := True\<rparr>) x"
      using p by (auto simp: inbound_pin_def bind_eq_Some_conv idx_eq_Some_iff Let_def split: if_splits)
    moreover have "si_ssrc ((in_slots x ! i)\<lparr>si_pinned := True\<rparr>) = ssrc" using position_Some[OF Some] by simp
    ultimately show ?thesis using t by blast
  qed
  then show "t = ssrc" using in_pins_set[of _ "{ssrc}" _ x] t by fastforce
qed

lemma inbound_pin_ok:
  assumes inv: "in_inv x" and few: "card (in_pins x) < INBOUND_PINNED_MAX" and p: "inbound_pin ssrc x = Some (r, x')"
  shows "r = Inr ()"
proof -
  have "in_pinned_count x < INBOUND_PINNED_MAX" using few in_pinned_card[OF inv] by simp
  moreover have "slot_to_replace x \<noteq> None"
    using inv calculation by (intro slot_to_replace_ex) (simp add: in_inv_def INBOUND_PINNED_MAX_def INBOUND_SSRC_SLOTS_def)
  ultimately show ?thesis using p
    by (auto simp: inbound_pin_def bind_eq_Some_conv Let_def split: if_splits option.splits)
qed

lemma inbound_unpin_pins:
  assumes inv: "in_inv x" shows "in_pins (inbound_unpin ssrc x) \<subseteq> in_pins x - {ssrc}"
proof (cases "position (\<lambda>s. si_live s \<and> si_ssrc s = ssrc) (in_slots x)")
  case None
  then have "inbound_unpin ssrc x = x" "\<forall>s\<in>set (in_slots x). si_live s \<longrightarrow> si_ssrc s \<noteq> ssrc"
    by (simp add: inbound_unpin_def) (use None in \<open>auto simp: position_None\<close>)
  then show ?thesis by (auto simp: in_pins_def)
next
  case (Some i)
  note at = position_Some[OF Some]
  have "t \<noteq> ssrc \<and> t \<in> in_pins x" if t: "t \<in> in_pins (inbound_unpin ssrc x)" for t
  proof -
    obtain j where j: "j < length (in_slots x)" "j \<noteq> i" "si_live (in_slots x ! j)" "si_pinned (in_slots x ! j)"
      "t = si_ssrc (in_slots x ! j)"
      using t Some by (auto simp: inbound_unpin_def in_pins_index set_in_slot_def)
        (metis nth_list_update_eq nth_list_update_neq ssrc_in.ext_inject ssrc_in.surjective ssrc_in.update_convs(3))
    then have "t \<noteq> ssrc" using in_live_unique[OF inv, of ssrc i j] at by (auto simp: in_live_def)
    then show ?thesis using j by (auto simp: in_pins_index)
  qed
  then show ?thesis by blast
qed

lemma inbound_evict_pins: "in_pins (snd (inbound_evict_idle now idle x)) = in_pins x"
  unfolding in_pins_def inbound_evict_idle_def
  by (auto simp: evict_one_def image_iff)

end
