(* ===== verification/Shard_Inv.thy ===== *)
theory Shard_Inv
  imports Shard_Loop Plane_Tables Srtp_Pins
begin

text \<open>
  The invariant of a shard and the contract of its backend, with the
  operations of \<open>Shard_State\<close> that every handler uses.

  \<open>shard_inv held s\<close>: the pool's buffers are the free ones, those of the
  send batch and those in \<open>held\<close> (received and not yet returned); the stores,
  the indexes and the lists that link sessions, tracks and subscriptions
  agree; every session keeps its limits, its addresses and its SRTP contexts
  in order; the retained events are bounded.
\<close>

section \<open>Entries\<close>

definition tracks_of :: "session \<Rightarrow> key list" where
  "tracks_of se = map snd (se_published se) @ se_unbound se"

definition addrs_of :: "session \<Rightarrow> sock_addr set" where
  "addrs_of se = set_option (se_addr se) \<union> set_option (se_prev_addr se)"

definition ice_wf :: "ice_params \<Rightarrow> bool" where
  "ice_wf i \<longleftrightarrow> length (ice_local_ufrag i) = 16 \<and> length (ice_local_pwd i) = 32"

definition out_ok :: "srtp_outbound \<Rightarrow> bool" where
  "out_ok x \<longleftrightarrow> cipher_ok (out_cipher x) \<and> (\<exists>L M. out_inv x L M)"

definition srtp_ok :: "session \<Rightarrow> bool" where
  "srtp_ok se \<longleftrightarrow> (se_srtp_in se = None) = (se_srtp_out se = None) \<and>
     (\<forall>x. se_srtp_in se = Some x \<longrightarrow> in_inv x \<and> in_pins x \<subseteq> fst ` set (se_published se)) \<and>
     (\<forall>x. se_srtp_out se = Some x \<longrightarrow> out_ok x)"

definition session_ok :: "session \<Rightarrow> bool" where
  "session_ok se \<longleftrightarrow>
     session_track_count se \<le> MAX_TRACKS_PER_SESSION \<and> length (se_subs se) \<le> MAX_SUBS_PER_SESSION \<and>
     distinct (map fst (se_published se)) \<and>
     (\<forall>a. se_addr se = Some a \<longrightarrow> se_prev_addr se \<noteq> Some a \<and> se_pending_nomination se \<noteq> Some a) \<and>
     (se_pending_nomination se \<noteq> None \<longrightarrow> se_switch_listed se) \<and>
     (\<exists>hist. ring_abs se hist) \<and> ice_wf (se_ice se) \<and> srtp_ok se"

definition spec_wf :: "track_spec \<Rightarrow> bool" where
  "spec_wf sp \<longleftrightarrow> ts_mid sp \<noteq> [] \<and> length (ts_mid sp) \<le> MID_CAPACITY \<and>
     ts_cname sp \<noteq> [] \<and> length (ts_cname sp) \<le> CNAME_CAPACITY"

section \<open>Tables\<close>

abbreviation sess :: "('io, 'snk) shard \<Rightarrow> key \<Rightarrow> session option" where
  "sess s \<equiv> slab_lookup (sh_sessions s)"

abbreviation trks :: "('io, 'snk) shard \<Rightarrow> key \<Rightarrow> published_track option" where
  "trks s \<equiv> slab_lookup (sh_tracks s)"

abbreviation subs :: "('io, 'snk) shard \<Rightarrow> key \<Rightarrow> subscription option" where
  "subs s \<equiv> slab_lookup (sh_subs s)"

abbreviation max_sessions :: "('io, 'snk) shard \<Rightarrow> nat" where
  "max_sessions s \<equiv> unat (sc_max_sessions (sh_config s))"

definition stores_ok :: "('io, 'snk) shard \<Rightarrow> bool" where
  "stores_ok s \<longleftrightarrow> slab_ok (sh_sessions s) \<and> slab_ok (sh_tracks s) \<and> slab_ok (sh_subs s) \<and>
     slab_slot_count (sh_sessions s) \<le> max_sessions s \<and> MAX_SUBS_PER_SESSION * max_sessions s < 2 ^ 32"

definition ids_ok :: "('io, 'snk) shard \<Rightarrow> bool" where
  "ids_ok s \<longleftrightarrow> index_ok (sh_session_ids s) (sess s) (\<lambda>se. {se_id se}) \<and>
     index_ok (sh_by_ufrag s) (sess s) (\<lambda>se. {ice_local_ufrag (se_ice se)}) \<and>
     index_ok (sh_track_ids s) (trks s) (\<lambda>t. {pt_id t}) \<and> index_ok (sh_sub_ids s) (subs s) (\<lambda>b. {sb_id b})"

definition links_ok :: "('io, 'snk) shard \<Rightarrow> bool" where
  "links_ok s \<longleftrightarrow> owned (trks s) (sess s) pt_session tracks_of \<and> owned (subs s) (sess s) sb_session se_subs \<and>
     owned (subs s) (trks s) sb_track pt_subscribers"

definition entries_ok :: "('io, 'snk) shard \<Rightarrow> bool" where
  "entries_ok s \<longleftrightarrow> (\<forall>k se. sess s k = Some se \<longrightarrow> session_ok se) \<and>
     (\<forall>k t. trks s k = Some t \<longrightarrow> spec_wf (pt_spec t)) \<and> (\<forall>k b. subs s k = Some b \<longrightarrow> sub_maps_ok b)"

definition switches_ok :: "('io, 'snk) shard \<Rightarrow> bool" where
  "switches_ok s \<longleftrightarrow> distinct (sh_pending_switches s) \<and>
     (\<forall>k. k \<in> set (sh_pending_switches s) \<longleftrightarrow> (\<exists>se. sess s k = Some se \<and> se_switch_listed se))"

definition addrs_ok :: "('io, 'snk) shard \<Rightarrow> bool" where
  "addrs_ok s \<longleftrightarrow> index_ok (sh_by_addr s) (sess s) addrs_of"

definition tables_ok :: "('io, 'snk) shard \<Rightarrow> bool" where
  "tables_ok s \<longleftrightarrow> stores_ok s \<and> ids_ok s \<and> links_ok s \<and> entries_ok s \<and> switches_ok s \<and> addrs_ok s"

lemmas tables_defs = tables_ok_def stores_ok_def ids_ok_def links_ok_def entries_ok_def switches_ok_def addrs_ok_def

section \<open>The invariant\<close>

definition bufs_ok :: "nat list \<Rightarrow> ('io, 'snk) shard \<Rightarrow> bool" where
  "bufs_ok held s \<longleftrightarrow> pool_owns (sh_pool s) (held @ map dg_index (sh_tx s)) \<and> length (sh_tx s) \<le> SEND_BATCH \<and>
     (\<forall>d\<in>set (sh_tx s). dg_len d \<le> BUF_SIZE)"

definition shard_inv :: "nat list \<Rightarrow> ('io, 'snk) shard \<Rightarrow> bool" where
  "shard_inv held s \<longleftrightarrow> bufs_ok held s \<and> tables_ok s \<and> length (sh_pending s) \<le> EVENT_RETENTION"

text \<open>The fields only the loop itself writes.\<close>

definition ctl :: "('io, 'snk) shard \<Rightarrow> shard_config \<times> instant \<times> datagram list \<times> command list \<times> instant" where
  "ctl s = (sh_config s, sh_epoch s, sh_rx s, sh_commands s, sh_next_housekeeping s)"

text \<open>The tables are unchanged.\<close>

definition same_tables :: "('io, 'snk) shard \<Rightarrow> ('io, 'snk) shard \<Rightarrow> bool" where
  "same_tables s s' \<longleftrightarrow> ctl s' = ctl s \<and> sh_sessions s' = sh_sessions s \<and> sh_tracks s' = sh_tracks s \<and>
     sh_subs s' = sh_subs s \<and> sh_session_ids s' = sh_session_ids s \<and> sh_track_ids s' = sh_track_ids s \<and>
     sh_sub_ids s' = sh_sub_ids s \<and> sh_by_addr s' = sh_by_addr s \<and> sh_by_ufrag s' = sh_by_ufrag s \<and>
     sh_pending_switches s' = sh_pending_switches s"

definition same_bufs :: "nat list \<Rightarrow> ('io, 'snk) shard \<Rightarrow> ('io, 'snk) shard \<Rightarrow> bool" where
  "same_bufs held s s' \<longleftrightarrow> (\<forall>b. buf_index b \<in> set held \<longrightarrow> pool_buf (sh_pool s') b = pool_buf (sh_pool s) b)"

definition env_ok :: "('io, 'snk) env \<Rightarrow> bool" where
  "env_ok E \<longleftrightarrow> prims_ok (ev_prims E) \<and> (\<forall>k x. length (ev_hmac E k x) = 20) \<and> datagram_io (ev_recv E) (ev_flush E)"

section \<open>Sending and events keep the tables\<close>

lemma same_tables_refl [simp]: "same_tables s s"
  by (simp add: same_tables_def)

lemma same_tables_trans: "same_tables s t \<Longrightarrow> same_tables t u \<Longrightarrow> same_tables s u"
  by (simp add: same_tables_def)

lemma same_tables_ctl: "same_tables s s' \<Longrightarrow> ctl s' = ctl s"
  by (simp add: same_tables_def)

lemma same_tables_config: "same_tables s s' \<Longrightarrow> sh_config s' = sh_config s"
  by (simp add: same_tables_def ctl_def)

lemma same_tables_ok: "same_tables s s' \<Longrightarrow> tables_ok s' = tables_ok s"
  by (simp add: tables_defs same_tables_def ctl_def)

lemma same_tables_simps [simp]:
  "same_tables s (s'\<lparr>sh_pool := p\<rparr>) = same_tables s s'" "same_tables s (s'\<lparr>sh_tx := tx\<rparr>) = same_tables s s'"
  "same_tables s (s'\<lparr>sh_io := io\<rparr>) = same_tables s s'" "same_tables s (s'\<lparr>sh_counters := cs\<rparr>) = same_tables s s'"
  "same_tables s (s'\<lparr>sh_rng := r\<rparr>) = same_tables s s'" "same_tables s (s'\<lparr>sh_events := e\<rparr>) = same_tables s s'"
  "same_tables s (s'\<lparr>sh_pending := pe\<rparr>) = same_tables s s'" "same_tables s (s'\<lparr>sh_dtls_budget := db\<rparr>) = same_tables s s'"
  "same_tables s (count_by c n s') = same_tables s s'"
  by (simp_all add: same_tables_def ctl_def count_by_def)

lemma count_by_sel [simp]:
  "sh_config (count_by c n s) = sh_config s" "sh_pool (count_by c n s) = sh_pool s" "sh_tx (count_by c n s) = sh_tx s"
  "sh_sessions (count_by c n s) = sh_sessions s" "sh_tracks (count_by c n s) = sh_tracks s"
  "sh_subs (count_by c n s) = sh_subs s" "sh_by_addr (count_by c n s) = sh_by_addr s"
  "sh_session_ids (count_by c n s) = sh_session_ids s" "sh_track_ids (count_by c n s) = sh_track_ids s"
  "sh_sub_ids (count_by c n s) = sh_sub_ids s" "sh_by_ufrag (count_by c n s) = sh_by_ufrag s"
  "sh_pending_switches (count_by c n s) = sh_pending_switches s" "sh_pending (count_by c n s) = sh_pending s"
  "sh_events (count_by c n s) = sh_events s" "sh_io (count_by c n s) = sh_io s" "sh_rx (count_by c n s) = sh_rx s"
  "sh_commands (count_by c n s) = sh_commands s" "sh_rng (count_by c n s) = sh_rng s"
  "sh_dtls_budget (count_by c n s) = sh_dtls_budget s" "sh_epoch (count_by c n s) = sh_epoch s"
  "ctl (count_by c n s) = ctl s" "tables_ok (count_by c n s) = tables_ok s"
  "bufs_ok held (count_by c n s) = bufs_ok held s" "shard_inv held (count_by c n s) = shard_inv held s"
  "same_bufs held t (count_by c n s) = same_bufs held t s"
  by (simp_all add: count_by_def ctl_def tables_defs bufs_ok_def shard_inv_def same_bufs_def)

lemma same_bufs_refl [simp]: "same_bufs keep s s"
  by (simp add: same_bufs_def)

lemma same_bufs_trans: "same_bufs keep s t \<Longrightarrow> same_bufs keep t u \<Longrightarrow> same_bufs keep s u"
  by (simp add: same_bufs_def)

text \<open>A step that touches no table, retains no event and keeps the contents of the buffers \<open>keep\<close>.\<close>

definition io_step :: "nat list \<Rightarrow> nat list \<Rightarrow> ('io, 'snk) shard \<Rightarrow> ('io, 'snk) shard \<Rightarrow> bool" where
  "io_step held keep s s' \<longleftrightarrow> bufs_ok held s' \<and> same_tables s s' \<and> same_bufs keep s s' \<and> sh_pending s' = sh_pending s"

lemma io_step_count [simp]: "io_step held keep s (count_by c n s') = io_step held keep s s'"
  by (simp add: io_step_def)

lemma io_step_trans: "io_step h keep s t \<Longrightarrow> io_step held keep t u \<Longrightarrow> io_step held keep s u"
  unfolding io_step_def using same_tables_trans same_bufs_trans by metis

lemma io_step_inv: "shard_inv h s \<Longrightarrow> io_step held keep s s' \<Longrightarrow> shard_inv held s'"
  by (auto simp: shard_inv_def io_step_def dest: same_tables_ok)

lemma io_stepD:
  assumes "io_step held keep s s'"
  shows "bufs_ok held s'" "same_tables s s'" "same_bufs keep s s'" "sh_sessions s' = sh_sessions s" "sh_tracks s' = sh_tracks s"
    "sh_subs s' = sh_subs s" "ctl s' = ctl s" "sh_pending s' = sh_pending s" "sh_by_addr s' = sh_by_addr s" "sh_config s' = sh_config s"
  using assms by (simp_all add: io_step_def same_tables_def ctl_def)

lemma io_step_refl: "bufs_ok held s \<Longrightarrow> io_step held keep s s"
  by (simp add: io_step_def)

lemma held_bound: "bufs_ok held s \<Longrightarrow> i \<in> set held \<Longrightarrow> i < pool_capacity (sh_pool s)"
  by (auto simp: bufs_ok_def pool_owns_def)

lemma held_buf: "bufs_ok held s \<Longrightarrow> buf_index b \<in> set held \<Longrightarrow> \<exists>d. pool_buf (sh_pool s) b = Some d \<and> length d = BUF_SIZE"
  using pool_buf_total[of "sh_pool s"] held_bound[of held s] unfolding bufs_ok_def by blast

lemma take_step:
  assumes "bufs_ok held s" "pool_take (sh_pool s) = Some (b, p)"
  shows "io_step (buf_index b # held) keep s (s\<lparr>sh_pool := p\<rparr>)" "buf_index b \<notin> set held"
proof -
  have o: "pool_owns p (buf_index b # held @ map dg_index (sh_tx s))"
    using assms pool_take_owns by (auto simp: bufs_ok_def)
  have "pool_buf p c = pool_buf (sh_pool s) c" for c
    using assms(2) by (auto simp: pool_take_def pool_buf_def split: list.splits)
  then show "io_step (buf_index b # held) keep s (s\<lparr>sh_pool := p\<rparr>)"
    using o assms(1) by (simp add: io_step_def bufs_ok_def same_bufs_def)
  show "buf_index b \<notin> set held" using o by (auto simp: pool_owns_def)
qed

lemma put_buf_runs:
  assumes "bufs_ok (buf_index b # held) s" shows "runs (put_buf b s) (io_step held keep s)"
proof -
  obtain p where p: "pool_put b (sh_pool s) = Some p" "pool_owns p (held @ map dg_index (sh_tx s))"
    using assms pool_put_total[of "sh_pool s" b "held @ map dg_index (sh_tx s)"] by (auto simp: bufs_ok_def)
  then show ?thesis using assms pool_put_buf[OF p(1)]
    by (simp add: put_buf_def io_step_def bufs_ok_def same_bufs_def)
qed

lemma write_buf_runs:
  assumes "bufs_ok held s" "buf_index b \<in> set held" "length d = BUF_SIZE" "buf_index b \<notin> set keep"
  shows "runs (write_buf b d s) (\<lambda>s'. io_step held keep s s' \<and> pool_buf (sh_pool s') b = Some d \<and> sh_tx s' = sh_tx s)"
proof -
  obtain cur where cur: "pool_buf (sh_pool s) b = Some cur" "length cur = BUF_SIZE" using held_buf[OF assms(1,2)] by blast
  obtain p where p: "pool_write b 0 d (sh_pool s) = Some p" "pool_buf p b = Some d"
    using pool_write_same[OF cur(1), of 0 d] assms(3) cur(2) by auto
  have "pool_owns p (held @ map dg_index (sh_tx s))" using assms(1) pool_write_owns[OF _ p(1)] by (auto simp: bufs_ok_def)
  moreover have "pool_buf p c = pool_buf (sh_pool s) c" if "buf_index c \<in> set keep" for c
    using that assms(4) by (intro pool_write_frame[OF p(1)]) auto
  ultimately show ?thesis using assms(1) p by (simp add: write_buf_def io_step_def bufs_ok_def same_bufs_def)
qed

lemma flush_runs:
  assumes "env_ok E" "bufs_ok held s"
  shows "runs (flush E s) (\<lambda>s'. io_step held held s s' \<and> sh_tx s' = [])"
proof (cases "sh_tx s = []")
  case False
  have io: "datagram_io (ev_recv E) (ev_flush E)" using assms(1) by (simp add: env_ok_def)
  have o: "pool_owns (sh_pool s) (held @ map dg_index (sh_tx s))" "\<forall>d\<in>set (sh_tx s). dg_len d \<le> BUF_SIZE"
    using assms(2) by (simp_all add: bufs_ok_def)
  obtain r p io' where "ev_flush E (sh_io s) (sh_tx s) (sh_pool s) = Some (r, [], p, io')" "pool_owns p held"
    "st_datagrams r \<le> length (sh_tx s)" "\<forall>b. buf_index b \<in> set held \<longrightarrow> pool_buf p b = pool_buf (sh_pool s) b"
    using datagram_io.flush_ok[OF io o] by blast
  then show ?thesis using False by (simp add: flush_def io_step_def bufs_ok_def same_bufs_def)
qed (use assms(2) in \<open>simp add: flush_def io_step_refl\<close>)

lemma flush_if_full_runs:
  assumes "env_ok E" "bufs_ok held s"
  shows "runs (flush_if_full E s) (\<lambda>s'. io_step held held s s' \<and> length (sh_tx s') < SEND_BATCH)"
proof (cases "length (sh_tx s) = SEND_BATCH")
  case True
  have "runs (flush E (count1 Tx_full_flushes s))
      (\<lambda>s'. io_step held held (count1 Tx_full_flushes s) s' \<and> sh_tx s' = [])"
    using assms by (intro flush_runs) simp_all
  then show ?thesis using True
    by (auto simp: flush_if_full_def io_step_def same_tables_def same_bufs_def SEND_BATCH_def elim!: runs_mono)
next
  case False
  then show ?thesis using assms(2) by (simp add: flush_if_full_def io_step_refl) (simp add: bufs_ok_def)
qed

lemma tx_push_runs:
  assumes "bufs_ok (dg_index d # held) s" "length (sh_tx s) < SEND_BATCH" "dg_len d \<le> BUF_SIZE"
  shows "runs (tx_push d s) (io_step held keep s)"
proof -
  have "pool_owns (sh_pool s) (held @ map dg_index (sh_tx s @ [d]))"
    by (rule pool_owns_perm[of _ "dg_index d # held @ map dg_index (sh_tx s)"]) (use assms in \<open>simp_all add: bufs_ok_def\<close>)
  then show ?thesis using assms by (auto simp: tx_push_def batch_push_def io_step_def bufs_ok_def same_bufs_def)
qed

lemma send_runs:
  assumes "env_ok E" "bufs_ok (buf_index b # held) s" "n \<le> BUF_SIZE"
  shows "runs (send E b n a s) (io_step held held s)"
  unfolding send_def
proof (rule runs_bind[OF flush_if_full_runs[OF assms(1,2)]], elim conjE)
  fix t assume t: "io_step (buf_index b # held) (buf_index b # held) s t" "length (sh_tx t) < SEND_BATCH"
  then have "runs (tx_push \<lparr>dg_buf = b, dg_len = n, dg_addr = a\<rparr> t) (io_step held held t)"
    using assms(3) by (intro tx_push_runs) (simp_all add: io_step_def)
  moreover have "io_step (buf_index b # held) held s t" using t(1) by (simp add: io_step_def same_bufs_def)
  ultimately show "runs (tx_push \<lparr>dg_buf = b, dg_len = n, dg_addr = a\<rparr> t) (io_step held held s)"
    by (auto elim!: runs_mono intro: io_step_trans)
qed

lemma retain_runs:
  "length (sh_pending s) \<le> EVENT_RETENTION \<Longrightarrow> runs (retain e s) (\<lambda>(b, s'). length (sh_pending s') \<le> EVENT_RETENTION \<and>
     same_tables s s' \<and> sh_pool s' = sh_pool s \<and> sh_tx s' = sh_tx s)"
  by (simp add: retain_def)

lemma session_of_id:
  "tables_ok s \<Longrightarrow> hm_get (sh_session_ids s) i = Some k \<Longrightarrow> \<exists>se. sess s k = Some se \<and> se_id se = i"
  unfolding tables_ok_def ids_ok_def by (auto dest: index_get)

lemma consent_was_lost_total: "tables_ok s \<Longrightarrow> \<exists>b. consent_was_lost e s = Some b"
  by (auto simp: consent_was_lost_def slab_get_lookup dest: session_of_id split: option.splits)

text \<open>An event that is handed out or retained: no table changes, nor a buffer.\<close>

definition emit_step :: "('io, 'snk) shard \<Rightarrow> ('io, 'snk) shard \<Rightarrow> bool" where
  "emit_step s s' \<longleftrightarrow> length (sh_pending s') \<le> EVENT_RETENTION \<and> same_tables s s' \<and>
     sh_pool s' = sh_pool s \<and> sh_tx s' = sh_tx s"

lemma emit_runs:
  assumes "tables_ok s" "length (sh_pending s) \<le> EVENT_RETENTION"
  shows "runs (emit E e s) (\<lambda>(b, s'). emit_step s s')"
proof -
  obtain lost where l: "consent_was_lost e s = Some lost" using consent_was_lost_total[OF assms(1)] by blast
  obtain ans snk where a: "ev_try_send E e (sh_events s) = (ans, snk)" by (cases "ev_try_send E e (sh_events s)")
  have r: "runs (retain e (s\<lparr>sh_events := v\<rparr>)) (\<lambda>(b, s'). emit_step s s')" for v
    using retain_runs[of "s\<lparr>sh_events := v\<rparr>" e] assms(2)
    by (auto simp: emit_step_def same_tables_def ctl_def elim!: runs_mono)
  have "runs (retain e s) (\<lambda>(b, s'). emit_step s s')" using r[of "sh_events s"] by simp
  then show ?thesis using assms(2) a l r[of snk]
    by (cases ans) (auto simp: emit_def emit_step_def)
qed

lemma emit_step_inv: "shard_inv held s \<Longrightarrow> emit_step s s' \<Longrightarrow> shard_inv held s'"
  by (auto simp: shard_inv_def emit_step_def bufs_ok_def dest: same_tables_ok)

section \<open>Updates of single entries\<close>

text \<open>Updates that leave what the tables say of an entry.\<close>

definition same_links :: "session \<Rightarrow> session \<Rightarrow> bool" where
  "same_links se se' \<longleftrightarrow> se_id se' = se_id se \<and> se_ice se' = se_ice se \<and> addrs_of se' = addrs_of se \<and>
     se_switch_listed se' = se_switch_listed se \<and> tracks_of se' = tracks_of se \<and> se_subs se' = se_subs se"

definition sess_step :: "key \<Rightarrow> session \<Rightarrow> ('io, 'snk) shard \<Rightarrow> ('io, 'snk) shard \<Rightarrow> bool" where
  "sess_step k se' s s' \<longleftrightarrow> tables_ok s' \<and> sess s' = (sess s)(k \<mapsto> se') \<and> s' = s\<lparr>sh_sessions := sh_sessions s'\<rparr>"

lemma modify_session:
  assumes "tables_ok s" "sess s k = Some se"
  obtains t where "update_session k f s = Some (s\<lparr>sh_sessions := t\<rparr>)" "slab_lookup t = (sess s)(k \<mapsto> f se)"
    "slab_ok t" "slab_slot_count t = slab_slot_count (sh_sessions s)"
proof -
  obtain t where t: "slab_modify k f (sh_sessions s) = Some t" "slab_lookup t = (sess s)(k \<mapsto> f se)"
    using slab_modify_lookup[OF assms(2)] by blast
  have "slab_ok t" using assms(1) slab_modify_ok[OF _ t(1)] by (simp add: tables_defs)
  then show ?thesis using that[of t] t slab_modify_slots[OF t(1)] by (simp add: update_session_def)
qed

lemma modify_track:
  assumes "tables_ok s" "trks s k = Some tr"
  obtains t where "update_track k f s = Some (s\<lparr>sh_tracks := t\<rparr>)" "slab_lookup t = (trks s)(k \<mapsto> f tr)" "slab_ok t"
proof -
  obtain t where t: "slab_modify k f (sh_tracks s) = Some t" "slab_lookup t = (trks s)(k \<mapsto> f tr)"
    using slab_modify_lookup[OF assms(2)] by blast
  have "slab_ok t" using assms(1) slab_modify_ok[OF _ t(1)] by (simp add: tables_defs)
  then show ?thesis using that[of t] t by (simp add: update_track_def)
qed

lemma update_session_runs:
  assumes ok: "tables_ok s" and k: "sess s k = Some se" and same: "same_links se (f se)" and new: "session_ok (f se)"
  shows "runs (update_session k f s) (sess_step k (f se) s)"
proof -
  obtain t where t: "update_session k f s = Some (s\<lparr>sh_sessions := t\<rparr>)" "slab_lookup t = (sess s)(k \<mapsto> f se)"
    "slab_ok t" "slab_slot_count t = slab_slot_count (sh_sessions s)"
    using modify_session[OF ok k] by metis
  have d: "distinct (tracks_of (f se))" "distinct (se_subs (f se))"
    using ok k same owned_distinct unfolding tables_ok_def links_ok_def same_links_def by metis+
  have l: "owned (trks s) ((sess s)(k \<mapsto> f se)) pt_session tracks_of" "owned (subs s) ((sess s)(k \<mapsto> f se)) sb_session se_subs"
    using ok k same d by (auto simp: tables_ok_def links_ok_def same_links_def intro!: owned_parent)
  have "tables_ok (s\<lparr>sh_sessions := t\<rparr>)"
    using ok k same new l t(3,4) by (auto simp: tables_defs t(2) same_links_def intro!: index_same[where v = se] split: if_splits)
  then show ?thesis using t by (simp add: sess_step_def)
qed

definition same_track :: "published_track \<Rightarrow> published_track \<Rightarrow> bool" where
  "same_track t t' \<longleftrightarrow> pt_id t' = pt_id t \<and> pt_session t' = pt_session t \<and> pt_spec t' = pt_spec t \<and>
     pt_subscribers t' = pt_subscribers t"

definition trk_step :: "key \<Rightarrow> published_track \<Rightarrow> ('io, 'snk) shard \<Rightarrow> ('io, 'snk) shard \<Rightarrow> bool" where
  "trk_step k t' s s' \<longleftrightarrow> tables_ok s' \<and> trks s' = (trks s)(k \<mapsto> t') \<and> s' = s\<lparr>sh_tracks := sh_tracks s'\<rparr>"

lemma update_track_runs:
  assumes ok: "tables_ok s" and k: "trks s k = Some tr" and same: "same_track tr (f tr)"
  shows "runs (update_track k f s) (trk_step k (f tr) s)"
proof -
  obtain t where t: "update_track k f s = Some (s\<lparr>sh_tracks := t\<rparr>)" "slab_lookup t = (trks s)(k \<mapsto> f tr)" "slab_ok t"
    using modify_track[OF ok k] by metis
  have d: "distinct (pt_subscribers (f tr))"
    using ok k same owned_distinct unfolding tables_ok_def links_ok_def same_track_def by metis
  have l: "owned ((trks s)(k \<mapsto> f tr)) (sess s) pt_session tracks_of" "owned (subs s) ((trks s)(k \<mapsto> f tr)) sb_track pt_subscribers"
    using ok k same d by (auto simp: tables_ok_def links_ok_def same_track_def intro!: owned_parent owned_child)
  have "tables_ok (s\<lparr>sh_tracks := t\<rparr>)"
    using ok k same l t(3) by (auto simp: tables_defs t(2) same_track_def intro!: index_same[where v = tr] split: if_splits)
  then show ?thesis using t by (simp add: trk_step_def)
qed

definition sub_step :: "key \<Rightarrow> subscription \<Rightarrow> ('io, 'snk) shard \<Rightarrow> ('io, 'snk) shard \<Rightarrow> bool" where
  "sub_step k b' s s' \<longleftrightarrow> tables_ok s' \<and> subs s' = (subs s)(k \<mapsto> b') \<and> s' = s\<lparr>sh_subs := sh_subs s'\<rparr>"

lemma update_sub_runs:
  assumes ok: "tables_ok s" and k: "subs s k = Some b" and "sub_maps_ok (f b)"
    and same: "sb_id (f b) = sb_id b" "sb_session (f b) = sb_session b" "sb_track (f b) = sb_track b"
  shows "runs (update_sub k f s) (sub_step k (f b) s)"
proof -
  obtain t where t: "slab_modify k f (sh_subs s) = Some t" "slab_lookup t = (subs s)(k \<mapsto> f b)"
    using slab_modify_lookup[OF k] by blast
  have o: "slab_ok t" using ok slab_modify_ok[OF _ t(1)] by (simp add: tables_defs)
  have l: "owned ((subs s)(k \<mapsto> f b)) (sess s) sb_session se_subs" "owned ((subs s)(k \<mapsto> f b)) (trks s) sb_track pt_subscribers"
    using ok k same by (auto simp: tables_ok_def links_ok_def intro!: owned_child)
  have "tables_ok (s\<lparr>sh_subs := t\<rparr>)"
    using ok k same l o assms(3) by (auto simp: tables_defs t(2) intro!: index_same[where v = b] split: if_splits)
  then show ?thesis using t by (simp add: update_sub_def sub_step_def)
qed

section \<open>Steps of handlers\<close>

text \<open>What a handler that opens or closes nothing keeps of the tables.\<close>

definition se_view :: "session \<Rightarrow> session_id \<times> ice_params \<times> key list \<times> key list" where
  "se_view se = (se_id se, se_ice se, tracks_of se, se_subs se)"

definition tr_view :: "published_track \<Rightarrow> track_id \<times> key \<times> track_spec \<times> key list" where
  "tr_view t = (pt_id t, pt_session t, pt_spec t, pt_subscribers t)"

definition sb_view :: "subscription \<Rightarrow> subscription_id \<times> key \<times> key" where
  "sb_view b = (sb_id b, sb_session b, sb_track b)"

lemmas view_defs = se_view_def tr_view_def sb_view_def

definition shape :: "('io, 'snk) shard \<Rightarrow> (key \<Rightarrow> (session_id \<times> ice_params \<times> key list \<times> key list) option) \<times>
    (key \<Rightarrow> (track_id \<times> key \<times> track_spec \<times> key list) option) \<times> (key \<Rightarrow> (subscription_id \<times> key \<times> key) option)" where
  "shape s = (\<lambda>k. map_option se_view (sess s k), \<lambda>k. map_option tr_view (trks s k), \<lambda>k. map_option sb_view (subs s k))"

definition step :: "nat list \<Rightarrow> nat list \<Rightarrow> ('io, 'snk) shard \<Rightarrow> ('io, 'snk) shard \<Rightarrow> bool" where
  "step held keep s s' \<longleftrightarrow> shard_inv held s' \<and> ctl s' = ctl s \<and> shape s' = shape s \<and> same_bufs keep s s'"

lemma step_refl: "shard_inv held s \<Longrightarrow> step held keep s s"
  by (simp add: step_def)

lemma step_trans: "step h keep s t \<Longrightarrow> step held keep t u \<Longrightarrow> step held keep s u"
  by (auto simp: step_def intro: same_bufs_trans)

lemma step_inv: "step held keep s s' \<Longrightarrow> shard_inv held s'"
  by (simp add: step_def)

lemma shape_same_tables: "same_tables s s' \<Longrightarrow> shape s' = shape s"
  by (simp add: shape_def same_tables_def)

lemma shape_count [simp]: "shape (count_by c n s) = shape s"
  by (simp add: shape_def)

lemma step_count [simp]: "step held keep s (count_by c n s') = step held keep s s'"
  by (simp add: step_def)

lemma step_from_count [simp]: "step held keep (count_by c n s) s' = step held keep s s'"
  by (simp add: step_def same_bufs_def)

lemma io_step_step: "shard_inv h s \<Longrightarrow> io_step held keep s s' \<Longrightarrow> step held keep s s'"
  using io_step_inv[of h s held keep s'] by (auto simp: step_def io_step_def dest: same_tables_ctl shape_same_tables)

lemma emit_step_step: "shard_inv held s \<Longrightarrow> emit_step s s' \<Longrightarrow> step held keep s s'"
  using emit_step_inv by (auto simp: step_def emit_step_def same_bufs_def dest: same_tables_ctl shape_same_tables)

lemma shape_session: "shape s' = shape s \<Longrightarrow> sess s k = Some se \<Longrightarrow> \<exists>se'. sess s' k = Some se' \<and> se_view se' = se_view se"
  unfolding shape_def by (drule arg_cong[where f = fst], drule fun_cong[where x = k]) (auto simp: map_option_eq_Some)

lemma shape_track: "shape s' = shape s \<Longrightarrow> trks s k = Some t \<Longrightarrow> \<exists>t'. trks s' k = Some t' \<and> tr_view t' = tr_view t"
  unfolding shape_def
  by (drule arg_cong[where f = "\<lambda>x. fst (snd x)"], drule fun_cong[where x = k]) (auto simp: map_option_eq_Some)

lemma shape_sub: "shape s' = shape s \<Longrightarrow> subs s k = Some b \<Longrightarrow> \<exists>b'. subs s' k = Some b' \<and> sb_view b' = sb_view b"
  unfolding shape_def
  by (drule arg_cong[where f = "\<lambda>x. snd (snd x)"], drule fun_cong[where x = k]) (auto simp: map_option_eq_Some)

lemma sess_stepD:
  assumes "sess_step k se' s s'"
  shows "tables_ok s'" "sess s' = (sess s)(k \<mapsto> se')" "\<exists>t. s' = s\<lparr>sh_sessions := t\<rparr>"
    "sh_tx s' = sh_tx s" "sh_pool s' = sh_pool s" "sh_pending s' = sh_pending s" "sh_tracks s' = sh_tracks s"
    "sh_subs s' = sh_subs s" "sh_by_addr s' = sh_by_addr s" "sh_config s' = sh_config s" "ctl s' = ctl s"
    "sh_pending_switches s' = sh_pending_switches s"
proof -
  obtain t where t: "s' = s\<lparr>sh_sessions := t\<rparr>" using assms unfolding sess_step_def by blast
  then show "\<exists>t. s' = s\<lparr>sh_sessions := t\<rparr>" by blast
  show "sh_tx s' = sh_tx s" "sh_pool s' = sh_pool s" "sh_pending s' = sh_pending s" "sh_tracks s' = sh_tracks s"
    "sh_subs s' = sh_subs s" "sh_by_addr s' = sh_by_addr s" "sh_config s' = sh_config s" "ctl s' = ctl s"
    "sh_pending_switches s' = sh_pending_switches s" by (simp_all add: t ctl_def)
qed (use assms in \<open>simp_all add: sess_step_def\<close>)

lemma sess_step_step:
  assumes "shard_inv held s" "sess_step k se' s s'" "sess s k = Some se" "se_view se' = se_view se"
  shows "step held keep s s'"
proof -
  obtain t where t: "s' = s\<lparr>sh_sessions := t\<rparr>" using sess_stepD(3)[OF assms(2)] by blast
  have "shape s' = shape s" using assms(3,4) sess_stepD(2)[OF assms(2)] by (auto simp: shape_def t fun_eq_iff)
  then show ?thesis using assms(1) sess_stepD(1)[OF assms(2)]
    by (simp add: step_def shard_inv_def bufs_ok_def ctl_def same_bufs_def t)
qed

lemma trk_step_step:
  assumes "shard_inv held s" "trk_step k t' s s'" "trks s k = Some t" "tr_view t' = tr_view t"
  shows "step held keep s s'"
proof -
  obtain u where u: "s' = s\<lparr>sh_tracks := u\<rparr>" using assms(2) by (auto simp: trk_step_def)
  have "shape s' = shape s" using assms(2-4) by (auto simp: shape_def u fun_eq_iff trk_step_def)
  then show ?thesis using assms(1,2)
    by (simp add: step_def shard_inv_def bufs_ok_def ctl_def same_bufs_def u trk_step_def)
qed

lemma sub_step_step:
  assumes "shard_inv held s" "sub_step k b' s s'" "subs s k = Some b" "sb_view b' = sb_view b"
  shows "step held keep s s'"
proof -
  obtain u where u: "s' = s\<lparr>sh_subs := u\<rparr>" using assms(2) by (auto simp: sub_step_def)
  have "shape s' = shape s" using assms(2-4) by (auto simp: shape_def u fun_eq_iff sub_step_def)
  then show ?thesis using assms(1,2)
    by (simp add: step_def shard_inv_def bufs_ok_def ctl_def same_bufs_def u sub_step_def)
qed

text \<open>Following the links of a shard that is in order.\<close>

lemma session_entry: "tables_ok s \<Longrightarrow> sess s k = Some se \<Longrightarrow> session_ok se"
  by (simp add: tables_ok_def entries_ok_def)

lemma track_session: "tables_ok s \<Longrightarrow> trks s t = Some tr \<Longrightarrow> \<exists>se. sess s (pt_session tr) = Some se \<and> t \<in> set (tracks_of se)"
  unfolding tables_ok_def links_ok_def by (auto dest: owned_up)

lemma sub_session: "tables_ok s \<Longrightarrow> subs s b = Some sb \<Longrightarrow> \<exists>se. sess s (sb_session sb) = Some se \<and> b \<in> set (se_subs se)"
  unfolding tables_ok_def links_ok_def by (auto dest: owned_up)

lemma sub_track: "tables_ok s \<Longrightarrow> subs s b = Some sb \<Longrightarrow> \<exists>tr. trks s (sb_track sb) = Some tr \<and> b \<in> set (pt_subscribers tr)"
  unfolding tables_ok_def links_ok_def by (auto dest: owned_up)

lemma session_track: "tables_ok s \<Longrightarrow> sess s k = Some se \<Longrightarrow> t \<in> set (tracks_of se) \<Longrightarrow> \<exists>tr. trks s t = Some tr \<and> pt_session tr = k"
  unfolding tables_ok_def links_ok_def by (auto dest: owned_kid)

lemma session_sub: "tables_ok s \<Longrightarrow> sess s k = Some se \<Longrightarrow> b \<in> set (se_subs se) \<Longrightarrow> \<exists>sb. subs s b = Some sb \<and> sb_session sb = k"
  unfolding tables_ok_def links_ok_def by (auto dest: owned_kid)

lemma track_sub: "tables_ok s \<Longrightarrow> trks s t = Some tr \<Longrightarrow> b \<in> set (pt_subscribers tr) \<Longrightarrow> \<exists>sb. subs s b = Some sb \<and> sb_track sb = t"
  unfolding tables_ok_def links_ok_def by (auto dest: owned_kid)

lemma track_of_ssrc_mem: "track_of_ssrc se ssrc = Some t \<Longrightarrow> (ssrc, t) \<in> set (se_published se)"
  unfolding track_of_ssrc_def by (auto simp: find_Some_iff) (metis fst_conv nth_mem)

lemma published_track:
  "tables_ok s \<Longrightarrow> sess s k = Some se \<Longrightarrow> track_of_ssrc se ssrc = Some t \<Longrightarrow> \<exists>tr. trks s t = Some tr \<and> pt_session tr = k"
  by (rule session_track) (auto simp: tracks_of_def dest!: track_of_ssrc_mem intro: rev_image_eqI)

lemma inv_tables: "shard_inv held s \<Longrightarrow> tables_ok s" "shard_inv held s \<Longrightarrow> bufs_ok held s"
  by (simp_all add: shard_inv_def)

text \<open>A loop whose passes are steps is a step.\<close>

lemma for_each_step:
  assumes "\<And>x t. x \<in> set xs \<Longrightarrow> step held keep s t \<Longrightarrow> runs (f x t) (step held keep t)" "step held keep s t"
  shows "runs (for_each f xs t) (step held keep s)"
  using assms
proof (induction xs arbitrary: t)
  case (Cons x xs)
  show ?case unfolding for_each.simps
  proof (rule runs_bind)
    show "runs (f x t) (step held keep s)"
      by (rule runs_mono[OF Cons.prems(1)]) (use Cons.prems(2) in \<open>auto intro: step_trans\<close>)
    show "runs (for_each f xs u) (step held keep s)" if "step held keep s u" for u
      using Cons.prems(1) that by (intro Cons.IH) auto
  qed
qed simp

end
