(* ===== verification/Shard_Inv_Rtcp.thy ===== *)
theory Shard_Inv_Rtcp
  imports Shard_Inv
begin

text \<open>
  The RTCP handlers keep the invariant and do not panic: protecting into a
  taken buffer, translating sender reports, requesting keyframes.
\<close>

lemma held_fresh: "bufs_ok (i # held) s \<Longrightarrow> i \<notin> set held"
  by (auto simp: bufs_ok_def pool_owns_def)

lemma session_ok_out:
  assumes "session_ok se" "se_srtp_out se \<noteq> None" "out_ok x"
  shows "session_ok (se\<lparr>se_srtp_out := Some x\<rparr>)"
  using assms by (auto simp: session_ok_def srtp_ok_def session_track_count_def ring_abs_def)

lemma same_links_srtp [simp]: "same_links se (se\<lparr>se_srtp_out := x\<rparr>)" "same_links se (se\<lparr>se_srtp_in := y\<rparr>)"
  by (simp_all add: same_links_def addrs_of_def tracks_of_def)

lemma se_view_srtp [simp]: "se_view (se\<lparr>se_srtp_out := x\<rparr>) = se_view se" "se_view (se\<lparr>se_srtp_in := y\<rparr>) = se_view se"
  by (simp_all add: se_view_def tracks_of_def)

lemma session_out_ok: "tables_ok s \<Longrightarrow> sess s k = Some se \<Longrightarrow> se_srtp_out se = Some x \<Longrightarrow> out_ok x"
  by (auto simp: session_ok_def srtp_ok_def dest: session_entry)

text \<open>A new outbound context of a session is stored.\<close>

lemma store_outbound_runs:
  assumes "shard_inv held s" "sess s k = Some se" "se_srtp_out se = Some x" "out_ok x'"
  shows "runs (update_session k (\<lambda>se. se\<lparr>se_srtp_out := Some x'\<rparr>) s) (\<lambda>s'. step held keep s s' \<and> sh_tx s' = sh_tx s \<and>
    sh_pool s' = sh_pool s \<and> sess s' = (sess s)(k \<mapsto> se\<lparr>se_srtp_out := Some x'\<rparr>) \<and> sh_tracks s' = sh_tracks s \<and> sh_subs s' = sh_subs s)"
proof -
  have ok: "session_ok (se\<lparr>se_srtp_out := Some x'\<rparr>)"
    using assms inv_tables(1) by (intro session_ok_out) (auto dest: session_entry)
  have "runs (update_session k (\<lambda>se. se\<lparr>se_srtp_out := Some x'\<rparr>) s) (sess_step k (se\<lparr>se_srtp_out := Some x'\<rparr>) s)"
    by (rule update_session_runs) (use assms ok inv_tables(1) in auto)
  then show ?thesis
    by (rule runs_mono) (auto dest: sess_stepD intro!: sess_step_step[OF assms(1) _ assms(2)])
qed

lemma protect_rtcp_of_runs:
  assumes E: "env_ok E" and inv: "shard_inv (buf_index buf # held) s" and k: "sess s k = Some se" "se_srtp_out se = Some x"
    and dst: "length dst = BUF_SIZE"
  shows "runs (protect_rtcp_of E k x buf dst n s) (\<lambda>(r, s'). step (buf_index buf # held) held s s' \<and>
    sh_tx s' = sh_tx s \<and> sh_tracks s' = sh_tracks s \<and> (\<forall>m. r = Some m \<longrightarrow> m \<le> BUF_SIZE))"
proof -
  have o: "out_ok x" using inv_tables(1)[OF inv] k by (rule session_out_ok)
  then obtain L M where "cipher_ok (out_cipher x)" "out_inv x L M" by (auto simp: out_ok_def)
  then obtain r x' where r: "outbound_protect_rtcp (ev_prims E) dst n x = Some (r, x')" "out_ok x'"
    using outbound_protect_rtcp_inv[of "ev_prims E" x L M dst n] E
    by (fastforce simp: env_ok_def out_ok_def split: option.splits prod.splits)
  have sz: "sized dst r" using ensD[OF outbound_sized(2) r(1)] by simp
  show ?thesis unfolding protect_rtcp_of_def r(1) bind.simps prod.case
  proof (rule runs_bind[OF store_outbound_runs[OF inv k r(2)]], elim conjE)
    fix t assume t: "step (buf_index buf # held) held s t" "sh_tx t = sh_tx s" "sh_tracks t = sh_tracks s"
    note b = inv_tables(2)[OF step_inv[OF t(1)]]
    show "runs (case r of None \<Rightarrow> Some (None, t) | Some (dst, n) \<Rightarrow> do { s \<leftarrow> write_buf buf dst t; Some (Some n, s) })
      (\<lambda>(r, s'). step (buf_index buf # held) held s s' \<and> sh_tx s' = sh_tx s \<and> sh_tracks s' = sh_tracks s \<and> (\<forall>m. r = Some m \<longrightarrow> m \<le> BUF_SIZE))"
    proof (cases r)
      case (Some p)
      obtain dst' m where p: "p = (dst', m)" by (cases p)
      then have "length dst' = BUF_SIZE" "m \<le> BUF_SIZE" using sz dst Some by simp_all
      note d = this
      have w: "runs (write_buf buf dst' t) (\<lambda>s'. io_step (buf_index buf # held) held t s' \<and>
          pool_buf (sh_pool s') buf = Some dst' \<and> sh_tx s' = sh_tx t)"
        by (rule write_buf_runs[OF b]) (use d held_fresh[OF b] in auto)
      show ?thesis unfolding Some p option.case prod.case
        by (rule runs_bind[OF w])
          (use t d io_step_step[OF step_inv[OF t(1)]] in \<open>auto dest: io_stepD(5) intro: step_trans[OF t(1)]\<close>)
    qed (use t in simp)
  qed
qed

section \<open>Sender reports\<close>

lemma write_report_total:
  assumes "length dst = BUF_SIZE" "length cname \<le> CNAME_CAPACITY"
  shows "\<exists>n d. write_report dst sub sr cname = Some (Some (n, d)) \<and> length d = BUF_SIZE"
proof -
  have "sdes_len cname \<le> 2020" using assms(2) by (simp add: sdes_len_def CNAME_CAPACITY_def)
  then show ?thesis using assms(1) by (simp add: write_report_def write_sr_eq write_sdes_cname_eq BUF_SIZE_def Let_def)
qed

text \<open>The tail of a handler that took a buffer: queue the protected packet or return the buffer.\<close>

lemma push_step:
  assumes "shard_inv (buf_index b # held) s" "length (sh_tx s) < SEND_BATCH" "n \<le> BUF_SIZE"
  shows "runs (tx_push \<lparr>dg_buf = b, dg_len = n, dg_addr = a\<rparr> s) (\<lambda>s'. step held keep s s' \<and> sh_tracks s' = sh_tracks s)"
  using tx_push_runs[of "\<lparr>dg_buf = b, dg_len = n, dg_addr = a\<rparr>" held s keep] assms inv_tables(2)[OF assms(1)]
  by (auto elim!: runs_mono intro: io_step_step[OF assms(1)] dest: io_stepD(5))

lemma put_step:
  assumes "shard_inv (buf_index b # held) s" shows "runs (put_buf b s) (step held keep s)"
  using put_buf_runs[OF inv_tables(2)[OF assms], of keep]
  by (auto elim!: runs_mono intro: io_step_step[OF assms])

lemma translate_one_runs:
  assumes E: "env_ok E" and inv: "shard_inv held s" and tr: "trks s tidx = Some tr" and i: "i < length (pt_subscribers tr)"
  shows "runs (translate_one E tidx sr i s) (step held held s)"
  unfolding translate_one_def
proof (rule runs_bind[OF flush_if_full_runs[OF E inv_tables(2)[OF inv]]], goal_cases)
  case (1 t)
  then have io: "io_step held held s t" and room: "length (sh_tx t) < SEND_BATCH" by simp_all
  note D = io_stepD[OF io] and st = io_step_step[OF inv io] and invt = step_inv[OF io_step_step[OF inv io]]
  note ok = inv_tables(1)[OF invt]
  have trt: "trks t tidx = Some tr" using tr D(5) by simp
  obtain sub where sub: "subs t (pt_subscribers tr ! i) = Some sub" using track_sub[OF ok trt nth_mem[OF i]] by blast
  obtain se where se: "sess t (sb_session sub) = Some se" using sub_session[OF ok sub] by blast
  have wf: "length (ts_cname (pt_spec tr)) \<le> CNAME_CAPACITY" using ok trt by (auto simp: tables_defs spec_wf_def)
  show ?case
  proof (cases "se_srtp_out se = None \<or> se_addr se = None \<or> \<not> rw_started (sb_rewrite sub) \<or> rw_layer (sb_rewrite sub) \<noteq> 0 \<or> pool_take (sh_pool t) = None")
    case True
    then show ?thesis using st tr i sub se D(5) by (auto simp: slab_get_lookup split: option.splits)
  next
    case False
    then obtain x addr out p where x: "se_srtp_out se = Some x" "se_addr se = Some addr" "pool_take (sh_pool t) = Some (out, p)" by auto
    define u where "u = t\<lparr>sh_pool := p\<rparr>"
    have tk: "io_step (buf_index out # held) held t u" unfolding u_def by (rule take_step(1)[OF D(1) x(3)])
    note invu = io_step_inv[OF invt tk] and Du = io_stepD[OF tk]
    obtain dst where dst: "pool_buf p out = Some dst" "length dst = BUF_SIZE" using held_buf[OF Du(1)] by (auto simp: u_def)
    obtain n d where w: "write_report dst sub sr (ts_cname (pt_spec tr)) = Some (Some (n, d))" "length d = BUF_SIZE"
      using write_report_total[OF dst(2) wf] by blast
    have pr: "runs (protect_rtcp_of E (sb_session sub) x out d n u) (\<lambda>(r, s'). step (buf_index out # held) held u s' \<and>
        sh_tx s' = sh_tx u \<and> sh_tracks s' = sh_tracks u \<and> (\<forall>m. r = Some m \<longrightarrow> m \<le> BUF_SIZE))"
      by (rule protect_rtcp_of_runs[OF E invu _ x(1) w(2)]) (use se Du in simp)
    have su: "step (buf_index out # held) held s u" using step_trans[OF st io_step_step[OF invt tk]] .
    have "runs (case r of Some n \<Rightarrow> tx_push \<lparr>dg_buf = out, dg_len = n, dg_addr = addr\<rparr> (count1 Sr_translated v)
        | None \<Rightarrow> put_buf out (count1 Drop_srtp_protect v)) (step held held s)"
      if v: "step (buf_index out # held) held u v" "sh_tx v = sh_tx u" "\<forall>m. r = Some m \<longrightarrow> m \<le> BUF_SIZE" for r v
    proof -
      have sv: "step (buf_index out # held) held s v" by (rule step_trans[OF su v(1)])
      then have iv: "shard_inv (buf_index out # held) v" by (rule step_inv)
      show ?thesis
      proof (cases r)
        case None
        then show ?thesis using put_step[of out held "count1 Drop_srtp_protect v" held] iv
          by (auto elim!: runs_mono intro: step_trans[OF sv])
      next
        case (Some m)
        then show ?thesis using push_step[of out held "count1 Sr_translated v" m addr held] iv v(2,3) room
          by (auto simp: u_def elim!: runs_mono intro: step_trans[OF sv])
      qed
    qed
    then show ?thesis using False tr i sub se D(5) x dst w
      by (auto simp: slab_get_lookup u_def[symmetric] intro!: runs_bind[OF pr])
  qed
qed

lemma translate_sr_runs:
  assumes E: "env_ok E" and inv: "shard_inv held s" and se: "sess s k = Some se"
  shows "runs (translate_sr E k ssrc sr s) (step held held s)"
proof (cases "track_of_ssrc se ssrc")
  case (Some tidx)
  obtain tr where tr: "trks s tidx = Some tr" using published_track[OF inv_tables(1)[OF inv] se Some] by blast
  define f where "f = (\<lambda>t :: published_track. t\<lparr>pt_layer := (pt_layer t)\<lparr>ly_last_sr := Some sr\<rparr>\<rparr>)"
  have up: "runs (update_track tidx f s) (trk_step tidx (f tr) s)"
    by (rule update_track_runs[OF inv_tables(1)[OF inv] tr]) (simp add: f_def same_track_def)
  have "runs (for_each (translate_one E tidx sr) [0..<length (pt_subscribers tr)] u) (step held held s)"
    if u: "trk_step tidx (f tr) s u" for u
  proof -
    have su: "step held held s u" by (rule trk_step_step[OF inv u tr]) (simp add: f_def tr_view_def)
    show ?thesis
    proof (rule for_each_step[OF _ su])
      fix i v assume i: "i \<in> set [0..<length (pt_subscribers tr)]" and v: "step held held s v"
      obtain tr' where t': "trks v tidx = Some tr'" "tr_view tr' = tr_view tr"
        using shape_track[OF _ tr, of v] v by (auto simp: step_def)
      show "runs (translate_one E tidx sr i v) (step held held v)"
        by (rule translate_one_runs[OF E step_inv[OF v] t'(1)]) (use i t'(2) in \<open>simp add: tr_view_def\<close>)
    qed
  qed
  note loop = this
  have same: "pt_subscribers (f tr) = pt_subscribers tr" by (simp add: f_def)
  have "runs (update_track tidx f s \<bind> (\<lambda>s. slab_get (sh_tracks s) tidx \<bind>
      (\<lambda>track. for_each (translate_one E tidx sr) [0..<length (pt_subscribers track)] s))) (step held held s)"
    by (rule runs_bind[OF up]) (use loop same in \<open>simp add: slab_get_lookup trk_step_def\<close>)
  then show ?thesis using se Some by (simp add: translate_sr_def slab_get_lookup f_def)
qed (use se inv in \<open>simp add: translate_sr_def slab_get_lookup step_refl\<close>)

section \<open>Keyframe requests\<close>

lemma request_keyframe_runs:
  assumes E: "env_ok E" and inv: "shard_inv held s" and tr: "trks s tidx = Some tr"
  shows "runs (request_keyframe E tidx now s) (step held held s)"
  unfolding request_keyframe_def
proof (rule runs_bind[OF flush_if_full_runs[OF E inv_tables(2)[OF inv]]], goal_cases)
  case (1 t)
  then have io: "io_step held held s t" and room: "length (sh_tx t) < SEND_BATCH" by simp_all
  note D = io_stepD[OF io] and st = io_step_step[OF inv io] and invt = step_inv[OF io_step_step[OF inv io]]
  note ok = inv_tables(1)[OF invt]
  have trt: "trks t tidx = Some tr" using tr D(5) by simp
  obtain se where se: "sess t (pt_session tr) = Some se" using track_session[OF ok trt] by blast
  show ?case
  proof (cases "(case pt_last_pli tr of None \<Rightarrow> False | Some at \<Rightarrow> since now at < PLI_THROTTLE) \<or> ly_ssrc (pt_layer tr) = None \<or>
      se_srtp_out se = None \<or> se_addr se = None \<or> pool_take (sh_pool t) = None")
    case True
    then show ?thesis using st trt se by (auto simp: slab_get_lookup split: option.splits)
  next
    case False
    then obtain media x addr out p where x: "ly_ssrc (pt_layer tr) = Some media" "se_srtp_out se = Some x" "se_addr se = Some addr"
      "pool_take (sh_pool t) = Some (out, p)" by auto
    define u where "u = t\<lparr>sh_pool := p\<rparr>"
    have tk: "io_step (buf_index out # held) held t u" unfolding u_def by (rule take_step(1)[OF D(1) x(4)])
    note invu = io_step_inv[OF invt tk] and Du = io_stepD[OF tk]
    obtain dst where dst: "pool_buf p out = Some dst" "length dst = BUF_SIZE" using held_buf[OF Du(1)] by (auto simp: u_def)
    define d where "d = feedback_head 12 0x81 206 (se_out_ssrc_base se) media @ drop 12 dst"
    have w: "write_pli dst (se_out_ssrc_base se) media = Some (Some (12, d))" "length d = BUF_SIZE"
      using dst(2) by (simp_all add: write_pli_eq d_def BUF_SIZE_def)
    have pr: "runs (protect_rtcp_of E (pt_session tr) x out d 12 u) (\<lambda>(r, s'). step (buf_index out # held) held u s' \<and>
        sh_tx s' = sh_tx u \<and> sh_tracks s' = sh_tracks u \<and> (\<forall>m. r = Some m \<longrightarrow> m \<le> BUF_SIZE))"
      by (rule protect_rtcp_of_runs[OF E invu _ x(2) w(2)]) (use se Du in simp)
    have su: "step (buf_index out # held) held s u" using step_trans[OF st io_step_step[OF invt tk]] .
    have "runs (case r of None \<Rightarrow> put_buf out (count1 Drop_srtp_protect v)
        | Some n \<Rightarrow> do { s \<leftarrow> tx_push \<lparr>dg_buf = out, dg_len = n, dg_addr = addr\<rparr> v;
            s \<leftarrow> update_track tidx (\<lambda>t. t\<lparr>pt_last_pli := Some now\<rparr>) s; Some (count1 Keyframe_requests s) }) (step held held s)"
      if v: "step (buf_index out # held) held u v" "sh_tx v = sh_tx u" "sh_tracks v = sh_tracks u" "\<forall>m. r = Some m \<longrightarrow> m \<le> BUF_SIZE" for r v
    proof -
      have sv: "step (buf_index out # held) held s v" by (rule step_trans[OF su v(1)])
      then have iv: "shard_inv (buf_index out # held) v" by (rule step_inv)
      show ?thesis
      proof (cases r)
        case None
        then show ?thesis using put_step[of out held "count1 Drop_srtp_protect v" held] iv
          by (auto elim!: runs_mono intro: step_trans[OF sv])
      next
        case (Some m)
        have push: "runs (tx_push \<lparr>dg_buf = out, dg_len = m, dg_addr = addr\<rparr> v) (\<lambda>s'. step held held v s' \<and> sh_tracks s' = sh_tracks v)"
          by (rule push_step[OF iv]) (use v Some room in \<open>auto simp: u_def\<close>)
        have up: "runs (update_track tidx (\<lambda>t. t\<lparr>pt_last_pli := Some now\<rparr>) y) (step held held s)"
          if y: "step held held v y" "sh_tracks y = sh_tracks v" for y
        proof -
          have ty: "trks y tidx = Some tr" using y(2) v(3) Du(5) trt by simp
          have "runs (update_track tidx (\<lambda>t. t\<lparr>pt_last_pli := Some now\<rparr>) y) (trk_step tidx (tr\<lparr>pt_last_pli := Some now\<rparr>) y)"
            by (rule update_track_runs[OF inv_tables(1)[OF step_inv[OF y(1)]] ty]) (simp add: same_track_def)
          then show ?thesis
            by (rule runs_mono) (auto intro!: step_trans[OF sv] step_trans[OF y(1)] trk_step_step[OF step_inv[OF y(1)] _ ty] simp: tr_view_def)
        qed
        show ?thesis unfolding Some option.case by (rule runs_bind[OF push], rule runs_bind[OF up]) auto
      qed
    qed
    then show ?thesis using False trt se x dst w
      by (auto simp: slab_get_lookup u_def[symmetric] split: option.splits intro!: runs_bind[OF pr])
  qed
qed

lemma find_sub_by_ssrc_runs:
  assumes "tables_ok s" "sess s k = Some se" "set ks \<subseteq> set (se_subs se)"
  shows "runs (find_sub_by_ssrc ssrc ks s) (\<lambda>r. \<forall>b. r = Some b \<longrightarrow> b \<in> set ks)"
  using assms(3)
proof (induction ks)
  case (Cons b ks)
  then obtain sb where "subs s b = Some sb" using session_sub[OF assms(1,2), of b] by auto
  then show ?case using Cons by (auto simp: slab_get_lookup elim!: runs_mono)
qed simp

lemma keyframe_wanted_runs:
  assumes E: "env_ok E" and inv: "shard_inv held s" and se: "sess s k = Some se"
  shows "runs (keyframe_wanted E k ssrc now s) (step held held s)"
proof -
  note ok = inv_tables(1)[OF inv]
  have f: "runs (find_sub_by_ssrc ssrc (se_subs se) s) (\<lambda>r. \<forall>b. r = Some b \<longrightarrow> b \<in> set (se_subs se))"
    by (rule find_sub_by_ssrc_runs[OF ok se]) simp
  have "runs (do { sub \<leftarrow> slab_get (sh_subs s) b; request_keyframe E (sb_track sub) now s }) (step held held s)"
    if b: "b \<in> set (se_subs se)" for b
  proof -
    obtain sb where sb: "subs s b = Some sb" using session_sub[OF ok se b] by blast
    obtain tr where "trks s (sb_track sb) = Some tr" using sub_track[OF ok sb] by blast
    then show ?thesis using sb request_keyframe_runs[OF E inv] by (simp add: slab_get_lookup)
  qed
  then show ?thesis using se inv
    by (auto simp: keyframe_wanted_def slab_get_lookup step_refl intro!: runs_bind[OF f] split: option.splits)
qed

section \<open>Compounds\<close>

lemma read_blocks_total: "\<exists>r. read_blocks es st = Some r"
proof (induction es arbitrary: st)
  case (Cons e es)
  have "\<exists>r. read_block e st = Some r"
    using sender_report_parse_total[of "snd e"] pli_parse_total[of "snd e"] by (cases st) (auto simp: read_block_def)
  then obtain r where r: "read_block e st = Some r" by blast
  then show ?case using Cons by (cases r) auto
qed simp

lemma read_compound_runs:
  assumes "bufs_ok held s" "buf_index b \<in> set held" "n \<le> BUF_SIZE"
  shows "runs (read_compound b n s) (\<lambda>(r, s'). s' = s \<or> (\<exists>c m. s' = count_by c m s))"
proof -
  obtain d where d: "pool_buf (sh_pool s) b = Some d" "length d = BUF_SIZE" using held_buf[OF assms(1,2)] by blast
  obtain c where c: "demux_compound (take n d) = Some c" using demux_compound_total by blast
  show ?thesis
  proof (cases c)
    case (Inr es)
    obtain r where "read_blocks es (\<lparr>rq_srs = [], rq_keyframes = []\<rparr>, 0) = Some r" using read_blocks_total by blast
    then show ?thesis using d c Inr assms(3) by (auto simp: read_compound_def split: option.splits)
  qed (use d c assms(3) in \<open>simp add: read_compound_def\<close>)
qed

lemma handle_rtcp_compound_runs:
  assumes E: "env_ok E" and inv: "shard_inv held s" and se: "sess s k = Some se" and b: "buf_index b \<in> set held" "n \<le> BUF_SIZE"
  shows "runs (handle_rtcp_compound E k b n now s) (step held held s)"
  unfolding handle_rtcp_compound_def
proof (rule runs_bind[OF read_compound_runs[OF inv_tables(2)[OF inv] b]], goal_cases)
  case (1 p)
  obtain r t where p: "p = (r, t)" by (cases p)
  have st: "step held held s t" using 1 p inv by (auto simp: step_refl)
  have kept: "\<exists>se. sess u k = Some se" if "step held held s u" for u
    using shape_session[OF _ se, of u] that by (auto simp: step_def)
  have srs: "runs (for_each (\<lambda>(ssrc, sr). translate_sr E k ssrc sr) xs t) (step held held s)" for xs
  proof (rule for_each_step[OF _ st])
    fix x u assume u: "step held held s u"
    then obtain se' where "sess u k = Some se'" using kept by blast
    from translate_sr_runs[OF E step_inv[OF u] this]
    show "runs ((case x of (ssrc, sr) \<Rightarrow> translate_sr E k ssrc sr) u) (step held held u)" by (simp add: case_prod_beta)
  qed
  have kf: "runs (for_each (\<lambda>ssrc. keyframe_wanted E k ssrc now) xs u) (step held held s)" if u: "step held held s u" for xs u
  proof (rule for_each_step[OF _ u])
    fix x v assume v: "step held held s v"
    then obtain se' where "sess v k = Some se'" using kept by blast
    from keyframe_wanted_runs[OF E step_inv[OF v] this] show "runs (keyframe_wanted E k x now v) (step held held v)" .
  qed
  show ?case unfolding p prod.case using st by (cases r) (simp_all add: runs_bind[OF srs kf])
qed

end
