(* ===== verification/Shard_Inv_Address.thy ===== *)
theory Shard_Inv_Address
  imports Shard_Inv_Rtcp
begin

text \<open>
  Address switches keep the invariant and do not panic: the eviction of
  other owners of an address, throttled nominations and the loop that applies
  the pending ones.
\<close>

lemmas session_defs = same_links_def addrs_of_def tracks_of_def session_ok_def srtp_ok_def session_track_count_def
  ring_abs_def se_view_def

section \<open>Sessions and addresses\<close>

lemma modify_slab:
  assumes "slab_ok t" "slab_lookup t k = Some v"
  obtains t' where "slab_modify k f t = Some t'" "slab_lookup t' = (slab_lookup t)(k \<mapsto> f v)" "slab_ok t'"
    "slab_slot_count t' = slab_slot_count t"
proof -
  obtain t' where "slab_modify k f t = Some t'" "slab_lookup t' = (slab_lookup t)(k \<mapsto> f v)"
    using slab_modify_lookup[OF assms(2)] by blast
  then show ?thesis using that slab_modify_ok[OF assms(1)] slab_modify_slots by blast
qed

text \<open>Sessions may change all but their links, with a new address map.\<close>

definition link_view :: "session \<Rightarrow> session_id \<times> ice_params \<times> key list \<times> key list \<times> bool" where
  "link_view se = (se_id se, se_ice se, tracks_of se, se_subs se, se_switch_listed se)"

lemma tables_sessions:
  assumes ok: "tables_ok s" and t: "slab_ok t" "slab_slot_count t = slab_slot_count (sh_sessions s)"
    and same: "\<And>k. map_option link_view (slab_lookup t k) = map_option link_view (sess s k)"
    and new: "\<And>k se. slab_lookup t k = Some se \<Longrightarrow> session_ok se" and idx: "index_ok m (slab_lookup t) addrs_of"
  shows "tables_ok (s\<lparr>sh_sessions := t, sh_by_addr := m\<rparr>)"
proof -
  have v: "map_option (g \<circ> link_view) (slab_lookup t k) = map_option (g \<circ> link_view) (sess s k)" for g k
    using same[of k] by (metis option.map_comp)
  have "map_option (\<lambda>se. {se_id se}) (slab_lookup t k) = map_option (\<lambda>se. {se_id se}) (sess s k)"
    "map_option (\<lambda>se. {ice_local_ufrag (se_ice se)}) (slab_lookup t k) = map_option (\<lambda>se. {ice_local_ufrag (se_ice se)}) (sess s k)"
    "map_option tracks_of (slab_lookup t k) = map_option tracks_of (sess s k)"
    "map_option se_subs (slab_lookup t k) = map_option se_subs (sess s k)" for k
    using v[of "\<lambda>(i, _). {i}" k] v[of "\<lambda>(_, i, _). {ice_local_ufrag i}" k] v[of "\<lambda>(_, _, ts, _). ts" k]
      v[of "\<lambda>(_, _, _, bs, _). bs" k] by (simp_all add: comp_def link_view_def)
  note c = index_cong[where F = "\<lambda>se. {se_id se}", OF this(1)] index_cong[where F = "\<lambda>se. {ice_local_ufrag (se_ice se)}", OF this(2)]
    owned_cong[OF this(3)] owned_cong[OF this(4)]
  have l: "(\<exists>se. slab_lookup t k = Some se \<and> se_switch_listed se) = (\<exists>se. sess s k = Some se \<and> se_switch_listed se)" for k
    using same[of k] by (cases "sess s k"; cases "slab_lookup t k") (auto simp: link_view_def)
  show ?thesis using ok t idx new by (auto simp: tables_defs c l)
qed

lemma addrs_of_forget:
  "addrs_of (se\<lparr>se_addr := (if se_addr se = Some a then None else se_addr se),
     se_prev_addr := (if se_prev_addr se = Some a then None else se_prev_addr se)\<rparr>) = addrs_of se - {a}"
  by (cases "se_addr se"; cases "se_prev_addr se") (auto simp: addrs_of_def)

lemma session_ok_forget:
  "session_ok se \<Longrightarrow> session_ok (se\<lparr>se_addr := (if se_addr se = Some a then None else se_addr se),
     se_prev_addr := (if se_prev_addr se = Some a then None else se_prev_addr se)\<rparr>)"
  by (auto simp: session_ok_def srtp_ok_def session_track_count_def ring_abs_def)

text \<open>The address map without the previous address of session \<open>k\<close>.\<close>

lemma unmap_prev:
  assumes ok: "tables_ok s" and k: "sess s k = Some se"
  obtains m where "unmap_addr k (se_prev_addr se) s = s\<lparr>sh_by_addr := m\<rparr>"
    "index_ok m ((sess s)(k \<mapsto> se\<lparr>se_prev_addr := None\<rparr>)) addrs_of"
proof (cases "se_prev_addr se")
  case None
  have "index_ok (sh_by_addr s) ((sess s)(k \<mapsto> se\<lparr>se_prev_addr := None\<rparr>)) addrs_of"
    using ok k None by (intro index_same[where v = se]) (auto simp: tables_defs addrs_of_def)
  then show ?thesis using that[of "sh_by_addr s"] None by (simp add: unmap_addr_def)
next
  case (Some a)
  have i: "index_ok (sh_by_addr s) (sess s) addrs_of" using ok by (simp add: tables_ok_def addrs_ok_def)
  have "se_addr se \<noteq> Some a" using session_entry[OF ok k] Some by (auto simp: session_ok_def)
  then have "index_ok (hm_remove a (sh_by_addr s)) ((sess s)(k \<mapsto> se\<lparr>se_prev_addr := None\<rparr>)) addrs_of"
    using Some by (intro index_shrink[OF i k]) (auto simp: addrs_of_def)
  moreover have "hm_get (sh_by_addr s) a = Some k" using index_mem[OF i k] Some by (simp add: addrs_of_def)
  ultimately show ?thesis using that[of "hm_remove a (sh_by_addr s)"] Some by (simp add: unmap_addr_def)
qed

lemma addr_session_update: "s\<lparr>sh_by_addr := m, sh_sessions := t\<rparr> = s\<lparr>sh_sessions := t, sh_by_addr := m\<rparr>"
  by (rule shard.equality) simp_all

lemma hm_insert_remove: "hm_insert a k (hm_remove a m) = hm_insert a k m"
  by (simp add: hm_insert_def hm_remove_def)

lemma report_switch_runs:
  assumes inv: "shard_inv held s" and k: "sess s k = Some se"
  shows "runs (report_switch E k reason s) (step held held s)"
proof (cases "se_addr se")
  case (Some addr)
  have em: "runs (emit E (AddressSelected (se_id se) addr reason) s) (\<lambda>(b, s'). emit_step s s')"
    using inv by (intro emit_runs) (simp_all add: shard_inv_def)
  have up: "runs (update_session k (\<lambda>se. se\<lparr>se_unreported_switch := r\<rparr>) t) (step held held s)" if t: "emit_step s t" for r t
  proof -
    have st: "step held held s t" by (rule emit_step_step[OF inv t])
    have kt: "sess t k = Some se" using t k by (simp add: emit_step_def same_tables_def)
    note ok = inv_tables(1)[OF step_inv[OF st]]
    have "runs (update_session k (\<lambda>se. se\<lparr>se_unreported_switch := r\<rparr>) t) (sess_step k (se\<lparr>se_unreported_switch := r\<rparr>) t)"
      by (rule update_session_runs[OF ok kt]) (use session_entry[OF ok kt] in
        \<open>auto simp: session_defs\<close>)
    then show ?thesis
      by (rule runs_mono) (auto intro!: step_trans[OF st] sess_step_step[OF step_inv[OF st] _ kt] simp: se_view_def tracks_of_def)
  qed
  show ?thesis unfolding report_switch_def slab_get_lookup k bind.simps Some option.case
    by (rule runs_bind[OF em]) (auto intro: up)
qed (use inv k in \<open>simp add: report_switch_def slab_get_lookup step_refl\<close>)

text \<open>The new selected address: its previous owner, if there is one, loses it.\<close>

definition moved :: "session \<Rightarrow> sock_addr \<Rightarrow> instant \<Rightarrow> session" where
  "moved se from now = se\<lparr>se_prev_addr := se_addr se, se_addr := Some from, se_last_rx_selected := now, se_last_switch := Some now\<rparr>"

lemma session_ok_moved:
  "session_ok se \<Longrightarrow> se_addr se \<noteq> Some from \<Longrightarrow> se_pending_nomination se = None \<Longrightarrow> session_ok (moved se from now)"
  by (auto simp: moved_def session_ok_def srtp_ok_def session_track_count_def ring_abs_def)

lemma moved_views [simp]: "link_view (moved se from now) = link_view se"
  by (simp add: moved_def link_view_def tracks_of_def)

lemma addrs_of_moved: "addrs_of (moved se from now) = insert from (addrs_of (se\<lparr>se_prev_addr := None\<rparr>))"
  by (auto simp: moved_def addrs_of_def)

lemma switch_tables:
  assumes ok: "tables_ok s" and k: "sess s k = Some se" and fr: "se_addr se \<noteq> Some from" "se_pending_nomination se = None"
  shows "runs (do {
      let s = unmap_addr k (se_prev_addr se) s;
      s \<leftarrow> update_session k (\<lambda>se. moved se from now) s;
      let other = hm_get (sh_by_addr s) from;
      let s = s\<lparr>sh_by_addr := hm_insert from k (sh_by_addr s)\<rparr>;
      case other of
        None \<Rightarrow> Some s
      | Some j \<Rightarrow> if j \<noteq> k then forget_address j from s else Some s })
    (\<lambda>s'. tables_ok s' \<and> (\<exists>t m. s' = s\<lparr>sh_sessions := t, sh_by_addr := m\<rparr>) \<and> sess s' k = Some (moved se from now) \<and>
      (\<forall>j. map_option link_view (sess s' j) = map_option link_view (sess s j)))"
proof -
  obtain m where m: "unmap_addr k (se_prev_addr se) s = s\<lparr>sh_by_addr := m\<rparr>"
    "index_ok m ((sess s)(k \<mapsto> se\<lparr>se_prev_addr := None\<rparr>)) addrs_of" using unmap_prev[OF ok k] by blast
  have so: "slab_ok (sh_sessions s)" using ok by (simp add: tables_defs)
  obtain t where t: "slab_modify k (\<lambda>se. moved se from now) (sh_sessions s) = Some t"
    "slab_lookup t = (sess s)(k \<mapsto> moved se from now)" "slab_ok t" "slab_slot_count t = slab_slot_count (sh_sessions s)"
    using modify_slab[OF so k] by metis
  have new: "session_ok (moved se from now)" using session_ok_moved session_entry[OF ok k] fr by blast
  show ?thesis
  proof (cases "hm_get m from")
    case None
    have "index_ok (hm_insert from k m) (((sess s)(k \<mapsto> se\<lparr>se_prev_addr := None\<rparr>))(k \<mapsto> moved se from now)) addrs_of"
      by (rule index_extend[OF m(2) _ addrs_of_moved None]) simp
    then have "tables_ok (s\<lparr>sh_sessions := t, sh_by_addr := hm_insert from k m\<rparr>)"
      using new session_entry[OF ok] k by (intro tables_sessions[OF ok t(3,4)]) (auto simp: t(2) split: if_splits)
    then show ?thesis using m(1) t(1,2) None k by (auto simp: update_session_def)
  next
    case (Some j)
    obtain sj where sj: "((sess s)(k \<mapsto> se\<lparr>se_prev_addr := None\<rparr>)) j = Some sj" "from \<in> addrs_of sj"
      using index_get[OF m(2) Some] by blast
    have "j \<noteq> k" using sj fr by (auto simp: addrs_of_def)
    then have j: "sess s j = Some sj" "slab_lookup t j = Some sj" using sj t(2) by simp_all
    define f where "f = (\<lambda>se :: session. se\<lparr>se_addr := (if se_addr se = Some from then None else se_addr se),
      se_prev_addr := (if se_prev_addr se = Some from then None else se_prev_addr se)\<rparr>)"
    have f: "addrs_of (f sj) = addrs_of sj - {from}" "session_ok (f sj)" "link_view (f sj) = link_view sj"
      using session_ok_forget[OF session_entry[OF ok j(1)]] addrs_of_forget
      by (auto simp: f_def link_view_def tracks_of_def)
    obtain u where u: "slab_modify j f t = Some u" "slab_lookup u = (slab_lookup t)(j \<mapsto> f sj)" "slab_ok u"
      "slab_slot_count u = slab_slot_count t" using modify_slab[OF t(3) j(2)] by metis
    have "index_ok (hm_remove from m) (((sess s)(k \<mapsto> se\<lparr>se_prev_addr := None\<rparr>))(j \<mapsto> f sj)) addrs_of"
      by (rule index_shrink[OF m(2) sj(1) f(1) sj(2)])
    then have "index_ok (hm_insert from k (hm_remove from m))
        ((((sess s)(k \<mapsto> se\<lparr>se_prev_addr := None\<rparr>))(j \<mapsto> f sj))(k \<mapsto> moved se from now)) addrs_of"
      by (rule index_extend[where v = "se\<lparr>se_prev_addr := None\<rparr>"]) (use \<open>j \<noteq> k\<close> in \<open>simp_all add: addrs_of_moved\<close>)
    then have "index_ok (hm_insert from k m) (slab_lookup u) addrs_of"
      using \<open>j \<noteq> k\<close> by (simp add: hm_insert_remove u(2) t(2) fun_upd_twist)
    then have "tables_ok (s\<lparr>sh_sessions := u, sh_by_addr := hm_insert from k m\<rparr>)"
      using new f session_entry[OF ok] k j u t by (intro tables_sessions[OF ok]) (auto split: if_splits)
    then show ?thesis using m(1) t(1,2) u(1,2) Some \<open>j \<noteq> k\<close> k j f(3)
      by (auto simp: update_session_def forget_address_def f_def[symmetric] addr_session_update)
  qed
qed

lemma link_view_shape:
  assumes "\<And>j. map_option link_view (slab_lookup t j) = map_option link_view (sess s j)"
  shows "shape (s\<lparr>sh_sessions := t, sh_by_addr := m\<rparr>) = shape s"
proof -
  have "map_option se_view (slab_lookup t j) = map_option se_view (sess s j)" for j
    using assms[of j] by (cases "sess s j"; cases "slab_lookup t j") (auto simp: link_view_def se_view_def)
  then show ?thesis by (simp add: shape_def)
qed

lemma switch_to_runs:
  assumes inv: "shard_inv held s" and k: "sess s k = Some se" and fr: "se_addr se \<noteq> Some from" "se_pending_nomination se = None"
  shows "runs (switch_to E k from reason now s) (step held held s)"
proof -
  note core = switch_tables[OF inv_tables(1)[OF inv] k fr, of now]
  have tail': "runs (report_switch E k reason (count1 c u)) (step held held s)"
    if u: "tables_ok u" "\<exists>t m. u = s\<lparr>sh_sessions := t, sh_by_addr := m\<rparr>" "sess u k = Some (moved se from now)"
      "\<forall>j. map_option link_view (sess u j) = map_option link_view (sess s j)" for u c
  proof -
    obtain t m where t: "u = s\<lparr>sh_sessions := t, sh_by_addr := m\<rparr>" using u(2) by blast
    have "shape u = shape s" unfolding t by (rule link_view_shape) (use u(4) t in simp)
    then have st: "step held held s u"
      using inv u(1) by (simp add: step_def shard_inv_def bufs_ok_def ctl_def same_bufs_def t)
    have "shard_inv held (count1 c u)" "sess (count1 c u) k = Some (moved se from now)"
      using step_inv[OF st] u(3) by simp_all
    from report_switch_runs[OF this] show ?thesis by (rule runs_mono) (auto intro: step_trans[OF st])
  qed
  have eq: "switch_to E k from reason now s = (do {
      let s = unmap_addr k (se_prev_addr se) s;
      s \<leftarrow> update_session k (\<lambda>se. moved se from now) s;
      let other = hm_get (sh_by_addr s) from;
      let s = s\<lparr>sh_by_addr := hm_insert from k (sh_by_addr s)\<rparr>;
      case other of
        None \<Rightarrow> Some s
      | Some j \<Rightarrow> if j \<noteq> k then forget_address j from s else Some s }) \<bind>
      (\<lambda>u. report_switch E k reason (count1 (case reason of Nominated \<Rightarrow> Nominations | Rebound \<Rightarrow> Rebinds) u))"
    using k fr by (simp add: switch_to_def slab_get_lookup moved_def Let_def)
  show ?thesis unfolding eq by (rule runs_bind[OF core]) (use tail' in blast)
qed

section \<open>Selecting an address\<close>

lemma session_ok_times: "session_ok (se\<lparr>se_last_rx_selected := now\<rparr>) = session_ok se"
  by (simp add: session_ok_def srtp_ok_def session_track_count_def ring_abs_def)

lemma sessions_bound:
  assumes "tables_ok s" shows "card (dom (sess s)) \<le> max_sessions s" "finite (dom (sess s))"
  using assms slab_len_card[of "sh_sessions s"] by (auto simp: tables_defs slab_len_def slab_slot_count_def slab_ok_def)

lemma pending_room:
  assumes ok: "tables_ok s" and k: "sess s k = Some se" "\<not> se_switch_listed se"
  shows "length (sh_pending_switches s) < max_sessions s" "k \<notin> set (sh_pending_switches s)"
proof -
  show n: "k \<notin> set (sh_pending_switches s)" using ok k by (auto simp: tables_defs)
  have "set (sh_pending_switches s) \<subseteq> dom (sess s) - {k}" using ok n by (auto simp: tables_defs)
  then have "card (set (sh_pending_switches s)) \<le> card (dom (sess s) - {k})"
    using sessions_bound[OF ok] by (intro card_mono) auto
  moreover have "card (dom (sess s) - {k}) < card (dom (sess s))"
    using sessions_bound[OF ok] k by (intro card_Diff1_less) auto
  moreover have "length (sh_pending_switches s) = card (set (sh_pending_switches s))"
    using ok by (simp add: tables_defs distinct_card)
  ultimately show "length (sh_pending_switches s) < max_sessions s" using sessions_bound[OF ok] by linarith
qed

text \<open>A session whose entry in the list of pending switches changes.\<close>

lemma tables_listing:
  assumes ok: "tables_ok s" and k: "sess s k = Some se" and t: "slab_ok t" "slab_slot_count t = slab_slot_count (sh_sessions s)"
    "slab_lookup t = (sess s)(k \<mapsto> se')" and new: "session_ok se'" and same: "same_links (se\<lparr>se_switch_listed := b\<rparr>) se'"
    and l: "distinct l" "set l = (if b then insert k (set (sh_pending_switches s)) else set (sh_pending_switches s) - {k})"
  shows "tables_ok (s\<lparr>sh_sessions := t, sh_pending_switches := l\<rparr>)"
proof -
  have f: "se_id se' = se_id se" "se_ice se' = se_ice se" "addrs_of se' = addrs_of se" "se_switch_listed se' = b"
    "tracks_of se' = tracks_of se" "se_subs se' = se_subs se"
    using same by (simp_all add: same_links_def addrs_of_def tracks_of_def)
  have d: "distinct (tracks_of se')" "distinct (se_subs se')"
    using ok k f owned_distinct unfolding tables_ok_def links_ok_def by metis+
  have o: "owned (trks s) ((sess s)(k \<mapsto> se')) pt_session tracks_of" "owned (subs s) ((sess s)(k \<mapsto> se')) sb_session se_subs"
    using ok k f d by (auto simp: tables_ok_def links_ok_def intro!: owned_parent)
  show ?thesis using ok k new f o l t(1,2)
    by (auto simp: tables_defs t(3) intro!: index_same[where v = se] split: if_splits)
qed

lemma shape_listing:
  "sess s k = Some se \<Longrightarrow> slab_lookup t = (sess s)(k \<mapsto> se') \<Longrightarrow> se_view se' = se_view se \<Longrightarrow>
   shape (s\<lparr>sh_sessions := t, sh_pending_switches := l\<rparr>) = shape s"
  by (auto simp: shape_def fun_eq_iff)

lemma select_address_runs:
  assumes inv: "shard_inv held s" and k: "sess s k = Some se"
  shows "runs (select_address E k from nominated now s) (step held held s)"
proof -
  note ok = inv_tables(1)[OF inv] and so = session_entry[OF inv_tables(1)[OF inv] k]
  have up: "runs (update_session k f s) (\<lambda>s'. step held held s s' \<and> sess s' k = Some (f se))"
    if "same_links se (f se)" "session_ok (f se)" for f
    using update_session_runs[where f = f, OF ok k that]
    by (rule runs_mono) (use that sess_step_step[OF inv _ k] in \<open>auto simp: sess_step_def same_links_def se_view_def\<close>)
  consider (same) "se_addr se = Some from"
    | (stay) "se_addr se \<noteq> Some from" "\<not> nominated" "\<not> (se_addr se \<noteq> None \<and> since now (se_last_rx_selected se) \<ge> sc_rebind_silence (sh_config s))"
    | (throttled) "se_addr se \<noteq> Some from" "nominated \<or> se_addr se \<noteq> None \<and> since now (se_last_rx_selected se) \<ge> sc_rebind_silence (sh_config s)"
        "case se_last_switch se of None \<Rightarrow> False | Some at \<Rightarrow> since now at < MIN_SWITCH_INTERVAL"
    | (switch) "se_addr se \<noteq> Some from" "nominated \<or> se_addr se \<noteq> None \<and> since now (se_last_rx_selected se) \<ge> sc_rebind_silence (sh_config s)"
        "\<not> (case se_last_switch se of None \<Rightarrow> False | Some at \<Rightarrow> since now at < MIN_SWITCH_INTERVAL)" by blast
  then show ?thesis
  proof cases
    case same
    let ?f = "\<lambda>se :: session. se\<lparr>se_last_rx_selected := now, se_pending_nomination := (if nominated then None else se_pending_nomination se)\<rparr>"
    have "runs (update_session k ?f s) (\<lambda>s'. step held held s s' \<and> sess s' k = Some (?f se))"
      by (rule up) (use so in \<open>auto simp: session_defs\<close>)
    then show ?thesis using k same by (auto simp: select_address_def slab_get_lookup elim!: runs_mono)
  next
    case stay
    then show ?thesis using k inv by (auto simp: select_address_def slab_get_lookup step_refl)
  next
    case throttled
    show ?thesis
    proof (cases "nominated \<and> \<not> se_switch_listed se")
      case True
      let ?f = "\<lambda>se :: session. se\<lparr>se_pending_nomination := Some from, se_switch_listed := True\<rparr>"
      obtain t where t: "update_session k ?f (count1 Switch_throttled s) = Some (count1 Switch_throttled s\<lparr>sh_sessions := t\<rparr>)"
        "slab_lookup t = (sess s)(k \<mapsto> ?f se)" "slab_ok t" "slab_slot_count t = slab_slot_count (sh_sessions s)"
        using modify_session[of "count1 Switch_throttled s" k se ?f] ok k by auto
      have tok: "tables_ok (s\<lparr>sh_sessions := t, sh_pending_switches := sh_pending_switches s @ [k]\<rparr>)"
        by (rule tables_listing[where b = True, OF ok k t(3,4,2)])
          (use so ok pending_room[OF ok k] True throttled(1) in \<open>auto simp: session_defs tables_defs\<close>)
      have "shape (s\<lparr>sh_sessions := t, sh_pending_switches := sh_pending_switches s @ [k]\<rparr>) = shape s"
        by (rule shape_listing[OF k t(2)]) (simp add: se_view_def tracks_of_def)
      then have "step held held s (s\<lparr>sh_sessions := t, sh_pending_switches := sh_pending_switches s @ [k]\<rparr>)"
        using inv tok by (simp add: step_def shard_inv_def bufs_ok_def ctl_def same_bufs_def)
      then have "step held held s (count1 Switch_throttled s\<lparr>sh_sessions := t, sh_pending_switches := sh_pending_switches s @ [k]\<rparr>)"
        by (simp add: step_def shard_inv_def bufs_ok_def ctl_def same_bufs_def count_by_def shape_def tables_defs)
      then show ?thesis using k throttled True t(1) pending_room[OF ok k]
        by (auto simp: select_address_def slab_get_lookup)
    next
      case False
      have "runs (update_session k (\<lambda>se. se\<lparr>se_pending_nomination := Some from\<rparr>) (count1 Switch_throttled s)) (step held held s)" if nominated
      proof -
        have inv': "shard_inv held (count1 Switch_throttled s)" and k': "sess (count1 Switch_throttled s) k = Some se" using inv k by simp_all
        have "runs (update_session k (\<lambda>se. se\<lparr>se_pending_nomination := Some from\<rparr>) (count1 Switch_throttled s))
            (sess_step k (se\<lparr>se_pending_nomination := Some from\<rparr>) (count1 Switch_throttled s))"
          by (rule update_session_runs[OF inv_tables(1)[OF inv'] k'])
            (use so throttled(1) False that in \<open>auto simp: session_defs\<close>)
        then show ?thesis
          by (rule runs_mono) (use sess_step_step[OF inv' _ k'] in \<open>auto simp: se_view_def tracks_of_def\<close>)
      qed
      then show ?thesis using k throttled False inv by (auto simp: select_address_def slab_get_lookup step_refl)
    qed
  next
    case switch
    let ?f = "\<lambda>se :: session. se\<lparr>se_pending_nomination := None\<rparr>"
    have u: "runs (update_session k ?f s) (\<lambda>s'. step held held s s' \<and> sess s' k = Some (?f se))"
      by (rule up) (use so in \<open>auto simp: session_defs\<close>)
    have "runs (switch_to E k from reason now t) (step held held s)" if "step held held s t" "sess t k = Some (?f se)" for t reason
      by (rule runs_mono[OF switch_to_runs[OF step_inv[OF that(1)] that(2)]]) (use switch(1) in \<open>auto intro: step_trans[OF that(1)]\<close>)
    then have "runs (update_session k ?f s \<bind> switch_to E k from reason now) (step held held s)" for reason
      by (intro runs_bind[OF u]) auto
    then show ?thesis using k switch by (auto simp: select_address_def slab_get_lookup)
  qed
qed

lemma pending_step_runs:
  assumes inv: "shard_inv held s" and i: "i < length (sh_pending_switches s)"
  shows "runs (pending_step E now i s) (\<lambda>(_, s'). step held held s s')"
proof -
  note ok = inv_tables(1)[OF inv]
  have sw: "switches_ok s" using ok by (simp add: tables_ok_def)
  define k where "k = sh_pending_switches s ! i"
  obtain se where k: "sess s k = Some se" "se_switch_listed se"
    using sw nth_mem[OF i] unfolding switches_ok_def k_def by blast
  note so = session_entry[OF ok k(1)]
  show ?thesis
  proof (cases "se_pending_nomination se \<noteq> None \<and> \<not> (case se_last_switch se of None \<Rightarrow> True | Some at \<Rightarrow> since now at \<ge> MIN_SWITCH_INTERVAL)")
    case True
    then show ?thesis using i k inv by (auto simp: pending_step_def slab_get_lookup k_def[symmetric] step_refl)
  next
    case False
    let ?f = "\<lambda>se :: session. se\<lparr>se_switch_listed := False, se_pending_nomination := None\<rparr>"
    let ?l = "swap_remove i (sh_pending_switches s)"
    have l: "distinct ?l" "set ?l = set (sh_pending_switches s) - {k}"
      using swap_remove_distinct[OF i] sw by (simp_all add: switches_ok_def k_def)
    have "slab_ok (sh_sessions s)" using ok by (simp add: tables_defs)
    from modify_slab[OF this k(1), of ?f] obtain t where t: "slab_modify k ?f (sh_sessions s) = Some t"
      "slab_lookup t = (sess s)(k \<mapsto> ?f se)" "slab_ok t" "slab_slot_count t = slab_slot_count (sh_sessions s)" .
    define u where "u = s\<lparr>sh_sessions := t, sh_pending_switches := ?l\<rparr>"
    have "tables_ok u" unfolding u_def
      by (rule tables_listing[where b = False, OF ok k(1) t(3,4,2)])
        (use so l in \<open>auto simp: session_defs\<close>)
    moreover have "shape u = shape s" unfolding u_def
      by (rule shape_listing[OF k(1) t(2)]) (simp add: se_view_def tracks_of_def)
    ultimately have su: "step held held s u"
      using inv by (simp add: step_def shard_inv_def bufs_ok_def ctl_def same_bufs_def u_def)
    have ku: "sess u k = Some (?f se)" by (simp add: u_def t(2))
    have eq: "update_session k ?f (s\<lparr>sh_pending_switches := ?l\<rparr>) = Some u"
      using t(1) by (simp add: update_session_def u_def)
    have "runs (switch_to E k addr Nominated now u) (step held held s)" if "se_pending_nomination se = Some addr" for addr
    proof -
      have "se_addr (?f se) \<noteq> Some addr" using so that by (auto simp: session_ok_def)
      from switch_to_runs[OF step_inv[OF su] ku this] show ?thesis
        by (simp, rule runs_mono) (auto intro: step_trans[OF su])
    qed
    then have "runs (case se_pending_nomination se of None \<Rightarrow> Some u | Some addr \<Rightarrow> switch_to E k addr Nominated now u) (step held held s)"
      using su by (cases "se_pending_nomination se") simp_all
    then have "runs ((case se_pending_nomination se of None \<Rightarrow> Some u | Some addr \<Rightarrow> switch_to E k addr Nominated now u) \<bind>
        (\<lambda>s. Some (i, s))) (\<lambda>(_, s'). step held held s s')" by (rule runs_bind) simp
    then show ?thesis unfolding pending_step_def Let_def
      using i k(1) eq False by (auto simp: slab_get_lookup k_def[symmetric])
  qed
qed

lemma pending_loop_runs: "shard_inv held s \<Longrightarrow> runs (pending_loop E now i s) (step held held s)"
proof (induction E now i s rule: pending_loop.induct)
  case (1 E now i s)
  show ?case
  proof (cases "i < length (sh_pending_switches s)")
    case True
    have "runs (pending_loop E now j t) (step held held s)" if "pending_step E now i s = Some (j, t)" "step held held s t" for j t
      using 1(1)[OF True that(1) refl step_inv[OF that(2)]] by (rule runs_mono) (auto intro: step_trans[OF that(2)])
    then show ?thesis using pending_step_runs[OF 1(2) True, of E now] True
      by (subst pending_loop.simps) (auto simp: runs_def)
  next
    case False
    then show ?thesis using 1(2) by (subst pending_loop.simps) (simp add: step_refl)
  qed
qed

lemma apply_pending_switches_runs: "shard_inv held s \<Longrightarrow> runs (apply_pending_switches E now s) (step held held s)"
  unfolding apply_pending_switches_def by (rule pending_loop_runs)

section \<open>What the loop leaves listed\<close>

text \<open>The nominations of all sessions but \<open>k\<close> are untouched.\<close>

definition nom :: "session \<Rightarrow> sock_addr option \<times> instant option" where
  "nom se = (se_pending_nomination se, se_last_switch se)"

definition noms_kept :: "key \<Rightarrow> ('io, 'snk) shard \<Rightarrow> ('io, 'snk) shard \<Rightarrow> bool" where
  "noms_kept k s s' \<longleftrightarrow> (\<forall>j. j \<noteq> k \<longrightarrow> map_option nom (sess s' j) = map_option nom (sess s j))"

lemma noms_kept_refl [simp]: "noms_kept k s s"
  by (simp add: noms_kept_def)

lemma noms_kept_trans: "noms_kept k s t \<Longrightarrow> noms_kept k t u \<Longrightarrow> noms_kept k s u"
  by (simp add: noms_kept_def)

lemma noms_keptD:
  assumes "noms_kept k s s'" "j \<noteq> k" "sess s j = Some se"
  shows "\<exists>se'. sess s' j = Some se' \<and> nom se' = nom se"
proof -
  have "map_option nom (sess s' j) = Some (nom se)" using assms by (simp add: noms_kept_def)
  then show ?thesis by (simp add: map_option_eq_Some)
qed

lemma noms_kept_sessions: "sh_sessions s' = sh_sessions s \<Longrightarrow> noms_kept k s s'"
  by (simp add: noms_kept_def)

lemma update_session_noms:
  assumes "update_session j f s = Some s'" "j = k \<or> (\<forall>se. nom (f se) = nom se)" shows "noms_kept k s s'"
proof -
  obtain t where t: "slab_modify j f (sh_sessions s) = Some t" "s' = s\<lparr>sh_sessions := t\<rparr>"
    using assms(1) by (auto simp: update_session_def bind_eq_Some_conv)
  then obtain se where se: "sess s j = Some se" by (auto simp: slab_modify_def slab_lookup_def panic_simps)
  then have "slab_lookup t = (sess s)(j \<mapsto> f se)" using slab_modify_lookup[OF se, of f] t(1) by auto
  then show ?thesis using assms(2) se by (auto simp: noms_kept_def t(2))
qed

lemma switch_to_noms: "ens (switch_to E k a reason now s) (noms_kept k s)"
proof -
  have e: "noms_kept k t s'" if "emit E e t = Some (b, s')" for e b t s'
    by (rule noms_kept_sessions, subst emit_frame[OF that]) simp
  have r: "ens (report_switch E k reason t) (noms_kept k t)" for t
  proof (rule ensI)
    fix u assume "report_switch E k reason t = Some u"
    then show "noms_kept k t u"
      by (auto simp: report_switch_def bind_eq_Some_conv split: option.splits
        dest!: e update_session_noms[where k = k] intro: noms_kept_trans)
  qed
  have f: "noms_kept k t u" if "forget_address j a t = Some u" for j t u
    using that unfolding forget_address_def by (rule update_session_noms) (simp add: nom_def)
  show ?thesis unfolding switch_to_def Let_def
  proof (intro ens_bind_any)
    fix se x t v
    assume t: "update_session k (\<lambda>se. se\<lparr>se_prev_addr := se_addr se, se_addr := Some a, se_last_rx_selected := now,
        se_last_switch := Some now\<rparr>) (unmap_addr k (se_prev_addr se) s) = Some t"
      and v: "(case hm_get (sh_by_addr t) a of None \<Rightarrow> Some (t\<lparr>sh_by_addr := hm_insert a k (sh_by_addr t)\<rparr>)
        | Some j \<Rightarrow> if j \<noteq> k then forget_address j a (t\<lparr>sh_by_addr := hm_insert a k (sh_by_addr t)\<rparr>)
                  else Some (t\<lparr>sh_by_addr := hm_insert a k (sh_by_addr t)\<rparr>)) = Some v"
    have "noms_kept k s (unmap_addr k (se_prev_addr se) s)"
      by (rule noms_kept_sessions) (simp add: unmap_addr_def split: option.splits)
    moreover have "noms_kept k (unmap_addr k (se_prev_addr se) s) t" by (rule update_session_noms[OF t]) simp
    moreover have "noms_kept k t (t\<lparr>sh_by_addr := hm_insert a k (sh_by_addr t)\<rparr>)" by (rule noms_kept_sessions) simp
    moreover have "noms_kept k (t\<lparr>sh_by_addr := hm_insert a k (sh_by_addr t)\<rparr>) v"
      using v by (auto split: option.splits if_splits dest: f)
    ultimately have sv: "noms_kept k s v" by (blast intro: noms_kept_trans)
    show "ens (report_switch E k reason (count1 (case reason of Nominated \<Rightarrow> Nominations | Rebound \<Rightarrow> Rebinds) v)) (noms_kept k s)"
    proof (rule ensI)
      fix u assume "report_switch E k reason (count1 (case reason of Nominated \<Rightarrow> Nominations | Rebound \<Rightarrow> Rebinds) v) = Some u"
      from ensD[OF r this] show "noms_kept k s u" using sv by (simp add: noms_kept_def)
    qed
  qed
qed

text \<open>A session whose nomination waits for the end of its interval.\<close>

definition waiting :: "instant \<Rightarrow> session \<Rightarrow> bool" where
  "waiting now se \<longleftrightarrow> se_pending_nomination se \<noteq> None \<and>
     (\<exists>at. se_last_switch se = Some at \<and> since now at < MIN_SWITCH_INTERVAL)"

definition all_waiting :: "instant \<Rightarrow> nat \<Rightarrow> ('io, 'snk) shard \<Rightarrow> bool" where
  "all_waiting now i s \<longleftrightarrow> (\<forall>j<i. j < length (sh_pending_switches s) \<longrightarrow>
     (\<exists>se. sess s (sh_pending_switches s ! j) = Some se \<and> waiting now se))"

lemma swap_remove_nth: "j < i \<Longrightarrow> i < length xs \<Longrightarrow> swap_remove i xs ! j = xs ! j"
  by (simp add: swap_remove_def nth_butlast)

lemma pending_step_waiting:
  assumes inv: "shard_inv held s" and i: "i < length (sh_pending_switches s)" and w: "all_waiting now i s"
    and step: "pending_step E now i s = Some (i', s')"
  shows "all_waiting now i' s'"
proof -
  define k where "k = sh_pending_switches s ! i"
  have dis: "distinct (sh_pending_switches s)" using inv_tables(1)[OF inv] by (simp add: tables_defs)
  obtain se where k: "sess s k = Some se"
    using inv_tables(1)[OF inv] nth_mem[OF i] unfolding tables_ok_def switches_ok_def k_def by blast
  show ?thesis
  proof (cases "waiting now se")
    case True
    then obtain at where "se_pending_nomination se \<noteq> None" "se_last_switch se = Some at" "\<not> MIN_SWITCH_INTERVAL \<le> since now at"
      by (auto simp: waiting_def)
    then have "i' = i + 1" "s' = s" using step i k by (auto simp: pending_step_def slab_get_lookup k_def[symmetric])
    then show ?thesis using w True k unfolding all_waiting_def k_def by (auto simp: less_Suc_eq)
  next
    case False
    let ?l = "swap_remove i (sh_pending_switches s)"
    let ?f = "\<lambda>se :: session. se\<lparr>se_switch_listed := False, se_pending_nomination := None\<rparr>"
    have nd: "\<not> (se_pending_nomination se \<noteq> None \<and> \<not> (case se_last_switch se of None \<Rightarrow> True | Some at \<Rightarrow> since now at \<ge> MIN_SWITCH_INTERVAL))"
      using False by (auto simp: waiting_def split: option.splits)
    obtain t where t: "update_session k ?f (s\<lparr>sh_pending_switches := ?l\<rparr>) = Some t" "i' = i"
      and s': "(case se_pending_nomination se of None \<Rightarrow> Some t | Some addr \<Rightarrow> switch_to E k addr Nominated now t) = Some s'"
      using step i k nd by (auto simp: pending_step_def slab_get_lookup k_def[symmetric] bind_eq_Some_conv simp del: not_None_eq)
    have "noms_kept k s t" using update_session_noms[OF t(1), of k] by (simp add: noms_kept_def)
    moreover have "noms_kept k t s'"
      using s' by (auto split: option.splits dest: ensD[OF switch_to_noms])
    ultimately have n: "noms_kept k s s'" by (rule noms_kept_trans)
    have l: "sh_pending_switches s' = ?l"
      using s' update_session_pending_switches[OF t(1)] by (auto split: option.splits dest!: ensD[OF switch_to_pending_switches])
    show ?thesis unfolding all_waiting_def l t(2)
    proof (intro allI impI)
      fix j assume j: "j < i" "j < length ?l"
      have "sh_pending_switches s ! j \<noteq> k" using dis i j(1) by (simp add: k_def nth_eq_iff_index_eq)
      moreover obtain sj where "sess s (sh_pending_switches s ! j) = Some sj" "waiting now sj"
        using w j i unfolding all_waiting_def by auto
      ultimately show "\<exists>se. sess s' (?l ! j) = Some se \<and> waiting now se"
        using noms_keptD[OF n] swap_remove_nth[OF j(1) i] by (fastforce simp: nom_def waiting_def)
    qed
  qed
qed

lemma pending_loop_waiting:
  "shard_inv held s \<Longrightarrow> all_waiting now i s \<Longrightarrow> pending_loop E now i s = Some s' \<Longrightarrow>
   \<exists>n\<ge>length (sh_pending_switches s'). all_waiting now n s'"
proof (induction E now i s rule: pending_loop.induct)
  case (1 E now i s)
  show ?case
  proof (cases "i < length (sh_pending_switches s)")
    case True
    then obtain j t where t: "pending_step E now i s = Some (j, t)" "pending_loop E now j t = Some s'"
      using 1(4) by (subst (asm) pending_loop.simps) (auto simp: bind_eq_Some_conv)
    have "step held held s t" using pending_step_runs[OF 1(2) True, of E now] t(1) by simp
    then show ?thesis using 1(1)[OF True t(1) refl _ pending_step_waiting[OF 1(2) True 1(3) t(1)] t(2)] step_inv by blast
  next
    case False
    then have "s' = s" using 1(4) by (subst (asm) pending_loop.simps) simp
    then show ?thesis using 1(3) False by (intro exI[of _ i]) auto
  qed
qed

lemma apply_pending_switches_waiting:
  assumes "shard_inv held s" "apply_pending_switches E now s = Some s'" "k \<in> set (sh_pending_switches s')"
  shows "\<exists>se. sess s' k = Some se \<and> waiting now se"
proof -
  obtain n where "length (sh_pending_switches s') \<le> n" "all_waiting now n s'"
    using pending_loop_waiting[OF assms(1), of now 0 E s'] assms(2) by (auto simp: all_waiting_def apply_pending_switches_def)
  then show ?thesis using assms(3) unfolding all_waiting_def by (metis in_set_conv_nth order_less_le_trans)
qed

end
