(* ===== verification/Shard_Inv_Ingress.thy ===== *)
theory Shard_Inv_Ingress
  imports Shard_Inv_Address
begin

text \<open>
  The packet path keeps the invariant and does not panic, whatever a datagram
  holds: binding requests, DTLS, authenticated SRTP with the learning of SSRCs
  and the fan-out of media, and authenticated SRTCP.
\<close>

lemma session_update_step:
  assumes inv: "shard_inv held s" and k: "sess s k = Some se" and f: "same_links se (f se)" "session_ok (f se)"
  shows "runs (update_session k f s) (\<lambda>s'. step held keep s s' \<and> sess s' = (sess s)(k \<mapsto> f se) \<and> sh_pool s' = sh_pool s \<and>
    sh_tx s' = sh_tx s \<and> sh_tracks s' = sh_tracks s \<and> sh_subs s' = sh_subs s)"
proof (rule runs_mono[OF update_session_runs[where f = f, OF inv_tables(1)[OF inv] k f]])
  fix s' assume s': "sess_step k (f se) s s'"
  have "step held keep s s'"
    by (rule sess_step_step[OF inv s' k]) (use f(1) in \<open>simp add: same_links_def se_view_def\<close>)
  then show "step held keep s s' \<and> sess s' = (sess s)(k \<mapsto> f se) \<and> sh_pool s' = sh_pool s \<and>
    sh_tx s' = sh_tx s \<and> sh_tracks s' = sh_tracks s \<and> sh_subs s' = sh_subs s"
    using sess_stepD[OF s'] by simp
qed

section \<open>Binding requests\<close>

lemma note_transaction_keeps:
  assumes "session_ok se"
  shows "\<exists>r se'. note_transaction i se = Some (r, se') \<and> session_ok se' \<and> same_links se se'"
proof -
  obtain hist where h: "ring_abs se hist" using assms by (auto simp: session_ok_def)
  obtain r se' hist' where r: "note_transaction i se = Some (r, se')" "ring_abs se' hist'"
    using note_transaction_spec[OF h, of i] by blast
  from r(1) have "same_links se se' \<and> (\<forall>h. ring_abs se' h \<longrightarrow> session_ok se')"
    using assms by (auto simp: note_transaction_def session_ok_def srtp_ok_def session_track_count_def same_links_def
      addrs_of_def tracks_of_def bind_eq_Some_conv split: if_splits)
  then show ?thesis using r by blast
qed

lemma note_request_runs:
  assumes inv: "shard_inv held s" and k: "sess s k = Some se"
  shows "runs (do {
      se \<leftarrow> slab_get (sh_sessions s) k;
      (replayed, se) \<leftarrow> note_transaction i se;
      s \<leftarrow> update_session k (\<lambda>_. se) s;
      if replayed then Some (count1 Stun_repeated s) else select_address E k a nominated now s }) (step held held s)"
proof -
  obtain r se' where r: "note_transaction i se = Some (r, se')" "session_ok se'" "same_links se se'"
    using note_transaction_keeps session_entry[OF inv_tables(1)[OF inv] k] by blast
  note up = session_update_step[OF inv k, where f = "\<lambda>_. se'" and keep = held, OF r(3,2)]
  have "runs (select_address E k a nominated now t) (step held held s)"
    if t: "step held held s t" "sess t = (sess s)(k \<mapsto> se')" for t
    by (rule runs_mono[OF select_address_runs[OF step_inv[OF t(1)], of k se']])
      (use t in \<open>auto intro: step_trans[OF t(1)]\<close>)
  then have "runs (update_session k (\<lambda>_. se') s \<bind>
      (\<lambda>s. if r then Some (count1 Stun_repeated s) else select_address E k a nominated now s)) (step held held s)"
    by (intro runs_bind[OF up]) auto
  then show ?thesis using k r(1) by (simp add: slab_get_lookup)
qed

lemma scan_tid:
  assumes "scan d = Some (Some b)" shows "length (br_transaction_id b) = 12"
proof -
  obtain found where f: "20 \<le> length d" "scan_request d found = Some (Some b)" using scan_total[of d] assms by auto
  from scan_request_fields[OF f(2)] have "sub_slice d 8 20 = Some (br_transaction_id b)" by blast
  then have "br_transaction_id b = take 12 (drop 8 d)" using f(1) by simp
  then show ?thesis using f(1) by simp
qed

lemma write_success_runs:
  assumes E: "env_ok E" and d: "length dst = BUF_SIZE" and p: "length pwd = 32" and r: "length (br_transaction_id r) = 12"
  shows "\<exists>n dst'. write_success (ev_hmac E) (ev_crc E) dst r a pwd = Some (Some n, dst') \<and> n \<le> BUF_SIZE \<and> length dst' = BUF_SIZE"
proof -
  have "pwd \<noteq> []" "length pwd \<le> 256" "\<forall>k x. length (ev_hmac E k x) = 20" "RESPONSE_MAX_LEN \<le> length dst"
    using E d p by (auto simp: env_ok_def RESPONSE_MAX_LEN_def BUF_SIZE_def STUN_HEADER_SIZE_def)
  note w = write_success_eq[where crc = "ev_crc E" and source = a, OF r this]
  show ?thesis
    by (intro exI conjI, rule w(1)) (use w(2) d in \<open>simp_all add: RESPONSE_MAX_LEN_def BUF_SIZE_def STUN_HEADER_SIZE_def\<close>)
qed

lemma answer_runs:
  assumes E: "env_ok E" and inv: "shard_inv (buf_index out # held) s" and dst: "length dst = BUF_SIZE" and n: "n \<le> BUF_SIZE"
  shows "runs (do { s \<leftarrow> write_buf out dst s; send E out n a (count1 Stun_answered s) }) (step held held s)"
proof -
  note b = inv_tables(2)[OF inv]
  have w: "runs (write_buf out dst s) (\<lambda>s'. io_step (buf_index out # held) held s s' \<and> pool_buf (sh_pool s') out = Some dst \<and> sh_tx s' = sh_tx s)"
    by (rule write_buf_runs[OF b]) (use dst held_fresh[OF b] in auto)
  have "runs (send E out n a (count1 Stun_answered t)) (step held held s)" if t: "io_step (buf_index out # held) held s t" for t
  proof -
    have "runs (send E out n a (count1 Stun_answered t)) (io_step held held (count1 Stun_answered t))"
      by (rule send_runs[OF E _ n]) (use io_stepD(1)[OF t] in simp)
    then show ?thesis
    proof (rule runs_mono)
      fix u assume u: "io_step held held (count1 Stun_answered t) u"
      have "shard_inv (buf_index out # held) (count1 Stun_answered t)" using io_step_inv[OF inv t] by simp
      from io_step_step[OF this u] show "step held held s u" using step_trans[OF io_step_step[OF inv t]] by simp
    qed
  qed
  then show ?thesis by (intro runs_bind[OF w]) auto
qed

lemma handle_stun_runs:
  assumes E: "env_ok E" and inv: "shard_inv held s" and b: "dg_index d \<in> set held" "dg_len d \<le> BUF_SIZE"
  shows "runs (handle_stun E d now s) (step held held s)"
proof -
  note ok = inv_tables(1)[OF inv] and bufs = inv_tables(2)[OF inv]
  obtain buf where buf: "pool_buf (sh_pool s) (dg_buf d) = Some buf" "length buf = BUF_SIZE" using held_buf[OF bufs b(1)] by blast
  define data where "data = take (dg_len d) buf"
  have data: "sub_slice buf 0 (dg_len d) = Some data" using buf(2) b(2) by (simp add: data_def)
  obtain r where r: "scan data = Some r" using scan_total by blast
  show ?thesis
  proof (cases "\<exists>request k. r = Some request \<and> hm_get (sh_by_ufrag s) (br_local_ufrag request) = Some k")
    case False
    then show ?thesis using buf data r inv by (auto simp: handle_stun_def step_refl split: option.splits)
  next
    case True
    then obtain rq k where rq: "r = Some rq" "hm_get (sh_by_ufrag s) (br_local_ufrag rq) = Some k" by blast
    obtain se where k: "sess s k = Some se"
      using ok index_get[of "sh_by_ufrag s" "sess s" _ "br_local_ufrag rq" k] rq(2) by (auto simp: tables_ok_def ids_ok_def)
    define pwd where "pwd = ice_local_pwd (se_ice se)"
    have pwd: "length pwd = 32" using session_entry[OF ok k] by (simp add: session_ok_def ice_wf_def pwd_def)
    have sc: "scan data = Some (Some rq)" using r rq(1) by simp
    have v: "ice_verify (ev_hmac E) (ev_crc E) data rq pwd = Some (signed_request (ev_hmac E) (ev_crc E) pwd (br_transaction_id rq) data)"
      by (rule verified_is_signed[OF sc]) (use pwd E in \<open>auto simp: env_ok_def\<close>)
    show ?thesis
    proof (cases "signed_request (ev_hmac E) (ev_crc E) pwd (br_transaction_id rq) data \<and> pool_take (sh_pool s) \<noteq> None")
      case False
      then show ?thesis using buf data sc rq k v inv
        by (cases "pool_take (sh_pool s)") (auto simp: handle_stun_def slab_get_lookup pwd_def[symmetric] step_refl)
    next
      case True
      then obtain out p where tk: "pool_take (sh_pool s) = Some (out, p)" by auto
      define u where "u = s\<lparr>sh_pool := p\<rparr>"
      have t: "io_step (buf_index out # held) held s u" unfolding u_def by (rule take_step(1)[OF bufs tk])
      note su = io_step_step[OF inv t] and bu = io_stepD(1)[OF t]
      have own: "pool_owns p (buf_index out # held @ map dg_index (sh_tx u))" using bu by (simp add: bufs_ok_def u_def)
      have pm: "\<exists>x. pool_pair_mut (dg_buf d) out p = Some x"
        by (intro exI, rule pool_pair_mut_disjoint[OF own])
          (use b(1) own held_fresh[OF bu] in \<open>auto simp: pool_owns_def\<close>)
      obtain dst where dst: "pool_buf p out = Some dst" "length dst = BUF_SIZE" using held_buf[OF bu] by (auto simp: u_def)
      obtain n dst' where w: "write_success (ev_hmac E) (ev_crc E) dst rq (dg_addr d) pwd = Some (Some n, dst')"
        "n \<le> BUF_SIZE" "length dst' = BUF_SIZE" using write_success_runs[OF E dst(2) pwd scan_tid[OF sc]] by blast
      have ans: "runs (do { s \<leftarrow> write_buf out dst' u; send E out n (dg_addr d) (count1 Stun_answered s) }) (step held held s)"
        by (rule runs_mono[OF answer_runs[OF E step_inv[OF su] w(3,2)]]) (rule step_trans[OF su])
      let ?rest = "\<lambda>s. do {
          se \<leftarrow> slab_get (sh_sessions s) k;
          (replayed, se) \<leftarrow> note_transaction (br_transaction_id rq) se;
          s \<leftarrow> update_session k (\<lambda>_. se) s;
          if replayed then Some (count1 Stun_repeated s) else select_address E k (dg_addr d) (br_use_candidate rq) now s }"
      have "runs (?rest v) (step held held s)" if v: "step held held s v" for v
      proof -
        obtain se' where "sess v k = Some se'" using shape_session[OF _ k, of v] v by (auto simp: step_def)
        from note_request_runs[OF step_inv[OF v] this] show ?thesis by (rule runs_mono) (rule step_trans[OF v])
      qed
      then have "runs (do { s \<leftarrow> write_buf out dst' u; send E out n (dg_addr d) (count1 Stun_answered s) } \<bind> ?rest) (step held held s)"
        by (rule runs_bind[OF ans])
      then show ?thesis using buf data sc rq k v True tk pm dst w(1)
        by (auto simp: handle_stun_def slab_get_lookup pwd_def[symmetric] u_def[symmetric])
    qed
  qed
qed

text \<open>A request no session's password signs is dropped, and only counted.\<close>

lemma handle_stun_unsigned:
  assumes E: "env_ok E" and inv: "shard_inv held s" and b: "dg_index d \<in> set held" "dg_len d \<le> BUF_SIZE"
    and buf: "pool_buf (sh_pool s) (dg_buf d) = Some buf"
    and no: "\<And>rq k se. scan (take (dg_len d) buf) = Some (Some rq) \<Longrightarrow> hm_get (sh_by_ufrag s) (br_local_ufrag rq) = Some k \<Longrightarrow>
      sess s k = Some se \<Longrightarrow>
      \<not> signed_request (ev_hmac E) (ev_crc E) (ice_local_pwd (se_ice se)) (br_transaction_id rq) (take (dg_len d) buf)"
  shows "handle_stun E d now s = Some (count1 Drop_stun s) \<or> handle_stun E d now s = Some (count1 Drop_stun_auth s)"
proof -
  note ok = inv_tables(1)[OF inv]
  have len: "length buf = BUF_SIZE" using held_buf[OF inv_tables(2)[OF inv] b(1)] buf by simp
  define data where "data = take (dg_len d) buf"
  have data: "sub_slice buf 0 (dg_len d) = Some data" using len b(2) by (simp add: data_def)
  obtain r where r: "scan data = Some r" using scan_total by blast
  show ?thesis
  proof (cases "\<exists>rq k. r = Some rq \<and> hm_get (sh_by_ufrag s) (br_local_ufrag rq) = Some k")
    case False
    then show ?thesis using buf data r by (auto simp: handle_stun_def split: option.splits)
  next
    case True
    then obtain rq k where rq: "r = Some rq" "hm_get (sh_by_ufrag s) (br_local_ufrag rq) = Some k" by blast
    obtain se where k: "sess s k = Some se"
      using ok index_get[of "sh_by_ufrag s" "sess s" _ "br_local_ufrag rq" k] rq(2) by (auto simp: tables_ok_def ids_ok_def)
    have "length (ice_local_pwd (se_ice se)) = 32" using session_entry[OF ok k] by (simp add: session_ok_def ice_wf_def)
    then have "ice_verify (ev_hmac E) (ev_crc E) data rq (ice_local_pwd (se_ice se)) =
        Some (signed_request (ev_hmac E) (ev_crc E) (ice_local_pwd (se_ice se)) (br_transaction_id rq) data)"
      using r rq(1) E by (intro verified_is_signed) (auto simp: env_ok_def)
    moreover have "\<not> signed_request (ev_hmac E) (ev_crc E) (ice_local_pwd (se_ice se)) (br_transaction_id rq) data"
      using no[of rq k se] r rq k by (simp add: data_def)
    ultimately show ?thesis using buf data r rq k by (simp add: handle_stun_def slab_get_lookup)
  qed
qed

section \<open>DTLS\<close>

lemma addr_session:
  "tables_ok s \<Longrightarrow> hm_get (sh_by_addr s) a = Some k \<Longrightarrow> \<exists>se. sess s k = Some se \<and> a \<in> addrs_of se"
  unfolding tables_ok_def addrs_ok_def by (auto dest: index_get)

lemma handle_dtls_runs:
  assumes inv: "shard_inv held s" and b: "dg_index d \<in> set held" "dg_len d \<le> BUF_SIZE"
  shows "runs (handle_dtls E d s) (step held held s)"
proof (cases "hm_get (sh_by_addr s) (dg_addr d)")
  case (Some k)
  note ok = inv_tables(1)[OF inv] and bufs = inv_tables(2)[OF inv]
  obtain se where k: "sess s k = Some se" using addr_session[OF ok Some] by blast
  obtain buf where buf: "pool_buf (sh_pool s) (dg_buf d) = Some buf" "length buf = BUF_SIZE" using held_buf[OF bufs b(1)] by blast
  let ?f = "\<lambda>se :: session. se\<lparr>se_dtls_budget := se_dtls_budget se - 1\<rparr>"
  have up: "runs (update_session k ?f s) (\<lambda>s'. step held held s s' \<and> sess s' = (sess s)(k \<mapsto> ?f se) \<and> sh_pool s' = sh_pool s \<and>
    sh_tx s' = sh_tx s \<and> sh_tracks s' = sh_tracks s \<and> sh_subs s' = sh_subs s)"
    by (rule session_update_step[OF inv k]) (use session_entry[OF ok k] in \<open>auto simp: session_defs\<close>)
  have em: "runs (emit E e u \<bind> (\<lambda>(_, s). Some s)) (step held held s)"
    if t: "step held held s t" and u: "u = t\<lparr>sh_dtls_budget := n\<rparr>" for t u e n
  proof -
    have "io_step held held t u"
      using inv_tables(2)[OF step_inv[OF t]] by (simp add: u io_step_def bufs_ok_def same_bufs_def)
    from step_trans[OF t io_step_step[OF step_inv[OF t] this]] have su: "step held held s u" .
    have "runs (emit E e u) (\<lambda>(b, s'). emit_step u s')"
      using step_inv[OF su] by (intro emit_runs) (simp_all add: shard_inv_def)
    then show ?thesis
      by (rule runs_bind) (auto intro!: step_trans[OF su] emit_step_step[OF step_inv[OF su]])
  qed
  have "runs (update_session k ?f s \<bind> (\<lambda>s. do {
         let s = s\<lparr>sh_dtls_budget := sh_dtls_budget s - 1\<rparr>;
         b \<leftarrow> pool_buf (sh_pool s) (dg_buf d);
         bytes \<leftarrow> sub_slice b 0 (dg_len d);
         (_, s) \<leftarrow> emit E (DtlsDatagram (se_id se) bytes) s;
         Some s })) (step held held s)"
    by (rule runs_bind[OF up]) (use buf b(2) em in \<open>simp add: Let_def\<close>)
  then show ?thesis using Some k inv by (simp add: handle_dtls_def slab_get_lookup step_refl)
qed (use inv in \<open>simp add: handle_dtls_def step_refl\<close>)

section \<open>SRTP contexts\<close>

lemma srtp_session_runs:
  assumes "shard_inv held s"
  shows "runs (srtp_session d s) (\<lambda>(r, s'). step held held s s' \<and>
    (\<forall>k. r = Some k \<longrightarrow> (\<exists>se x. sess s' k = Some se \<and> se_srtp_in se = Some x)))"
proof (cases "hm_get (sh_by_addr s) (dg_addr d)")
  case (Some k)
  obtain se where "sess s k = Some se" using addr_session[OF inv_tables(1)[OF assms] Some] by blast
  then show ?thesis using Some assms by (auto simp: srtp_session_def slab_get_lookup step_refl)
qed (use assms in \<open>simp add: srtp_session_def step_refl\<close>)

lemma authenticated_runs:
  assumes inv: "shard_inv held s" and k: "sess s k = Some se"
  shows "runs (authenticated E k a now s) (step held held s)"
proof -
  let ?f = "\<lambda>se :: session. if se_addr se = Some a then se\<lparr>se_last_rx_selected := now\<rparr> else se"
  have up: "runs (update_session k ?f s) (\<lambda>s'. step held held s s' \<and> sess s' = (sess s)(k \<mapsto> ?f se) \<and> sh_pool s' = sh_pool s \<and>
    sh_tx s' = sh_tx s \<and> sh_tracks s' = sh_tracks s \<and> sh_subs s' = sh_subs s)"
    by (rule session_update_step[OF inv k]) (use session_entry[OF inv_tables(1)[OF inv] k] in \<open>auto simp: session_defs\<close>)
  have verified: "runs (update_session k (\<lambda>se. se\<lparr>se_srtp_verified := True\<rparr>) u) (step held held s)"
    if u: "step held held s u" "sess u k = Some se'" for u se'
    by (rule runs_mono[OF session_update_step[OF step_inv[OF u(1)] u(2), where keep = held]])
      (use session_entry[OF inv_tables(1)[OF step_inv[OF u(1)]] u(2)] in \<open>auto simp: session_defs intro: step_trans[OF u(1)]\<close>)
  have em: "runs (do { (delivered, s) \<leftarrow> emit E e t;
      if delivered then update_session k (\<lambda>se. se\<lparr>se_srtp_verified := True\<rparr>) s else Some s }) (step held held s)"
    if t: "step held held s t" "sess t k = Some se'" for t e se'
  proof (rule runs_bind[OF emit_runs], goal_cases)
    case (3 p)
    then obtain b u where p: "p = (b, u)" "emit_step t u" by (cases p) auto
    have su: "step held held s u" by (rule step_trans[OF t(1) emit_step_step[OF step_inv[OF t(1)] p(2)]])
    have "sess u k = Some se'" using p(2) t(2) by (simp add: emit_step_def same_tables_def)
    then show ?case using verified[OF su] su p(1) by simp
  qed (use step_inv[OF t(1)] in \<open>simp_all add: shard_inv_def\<close>)
  show ?thesis unfolding authenticated_def
    by (rule runs_bind[OF up]) (use em in \<open>auto simp: slab_get_lookup\<close>)
qed

text \<open>What the shard relies on of the two ways to unprotect.\<close>

definition unprotect_ok :: "(bytes \<Rightarrow> nat \<Rightarrow> u32 \<Rightarrow> srtp_inbound \<Rightarrow> ((bytes \<times> nat) option \<times> srtp_inbound) option) \<Rightarrow> bool" where
  "unprotect_ok u \<longleftrightarrow> (\<forall>b n now x. in_inv x \<longrightarrow> runs (u b n now x) (\<lambda>(r, x'). in_inv x' \<and> pins_within x x' \<and> sized b r))"

lemma unprotect_both:
  assumes "prims_ok P" shows "unprotect_ok (inbound_unprotect_rtp P)" "unprotect_ok (inbound_unprotect_rtcp P)"
proof -
  have "runs (inbound_unprotect_rtp P b n now x) (\<lambda>(r, x'). in_inv x' \<and> pins_within x x' \<and> sized b r)" if x: "in_inv x" for b n now x
  proof -
    obtain r x' where r: "inbound_unprotect_rtp P b n now x = Some (r, x')" "in_inv x'"
      using inbound_unprotect_rtp_inv[OF assms x, of b n now] by blast
    then show ?thesis using ensD[OF inbound_unprotect_rtp_pins r(1)] ensD[OF inbound_sized(1) r(1)] by simp
  qed
  then show "unprotect_ok (inbound_unprotect_rtp P)" by (simp add: unprotect_ok_def)
  have "runs (inbound_unprotect_rtcp P b n now x) (\<lambda>(r, x'). in_inv x' \<and> pins_within x x' \<and> sized b r)" if x: "in_inv x" for b n now x
  proof -
    obtain r x' where r: "inbound_unprotect_rtcp P b n now x = Some (r, x')" "in_inv x'"
      using inbound_unprotect_rtcp_inv[OF assms x, of b n now] by blast
    then show ?thesis using ensD[OF inbound_unprotect_rtcp_pins r(1)] ensD[OF inbound_sized(2) r(1)] by simp
  qed
  then show "unprotect_ok (inbound_unprotect_rtcp P)" by (simp add: unprotect_ok_def)
qed

lemma session_ok_in:
  assumes "session_ok se" "se_srtp_in se = Some x" "in_inv x'" "pins_within x x'"
  shows "session_ok (se\<lparr>se_srtp_in := Some x'\<rparr>)"
  using assms by (auto simp: session_ok_def srtp_ok_def session_track_count_def ring_abs_def pins_within_def)

lemma unprotect_with_runs:
  assumes u: "unprotect_ok u" and inv: "shard_inv held s" and k: "sess s k = Some se" "se_srtp_in se = Some x"
    and b: "dg_index d \<in> set held"
  shows "runs (unprotect_with u k d now s) (\<lambda>(r, s'). step held [] s s' \<and> (\<forall>n. r = Some n \<longrightarrow> n \<le> BUF_SIZE))"
proof -
  note ok = inv_tables(1)[OF inv] and bufs = inv_tables(2)[OF inv]
  have so: "session_ok se" by (rule session_entry[OF ok k(1)])
  obtain buf where buf: "pool_buf (sh_pool s) (dg_buf d) = Some buf" "length buf = BUF_SIZE" using held_buf[OF bufs b] by blast
  have "in_inv x" using so k(2) by (simp add: session_ok_def srtp_ok_def)
  then obtain r x' where r: "u buf (dg_len d) (now_s s now) x = Some (r, x')" "in_inv x'" "pins_within x x'" "sized buf r"
    using u unfolding unprotect_ok_def runs_def by fastforce
  note up = session_update_step[OF inv k(1), where f = "\<lambda>se. se\<lparr>se_srtp_in := Some x'\<rparr>" and keep = "[]",
    OF _ session_ok_in[OF so k(2) r(2,3)], simplified]
  have wr: "runs (write_buf (dg_buf d) c t) (step held [] s)" if t: "step held [] s t" and c: "length c = BUF_SIZE" for c t
  proof -
    have "runs (write_buf (dg_buf d) c t) (\<lambda>s'. io_step held [] t s' \<and> pool_buf (sh_pool s') (dg_buf d) = Some c \<and> sh_tx s' = sh_tx t)"
      by (rule write_buf_runs[OF inv_tables(2)[OF step_inv[OF t]] b c]) simp
    then show ?thesis by (rule runs_mono) (auto intro!: step_trans[OF t] io_step_step[OF step_inv[OF t]])
  qed
  have "runs (case r of None \<Rightarrow> Some (None, count1 Drop_srtp_auth t)
      | Some (b, n) \<Rightarrow> do { s \<leftarrow> write_buf (dg_buf d) b t; Some (Some n, s) })
      (\<lambda>(r, s'). step held [] s s' \<and> (\<forall>n. r = Some n \<longrightarrow> n \<le> BUF_SIZE))" if t: "step held [] s t" for t
  proof (cases r)
    case (Some p)
    obtain c n where p: "p = (c, n)" by (cases p)
    then have "length c = BUF_SIZE" "n \<le> BUF_SIZE" using r(4) Some buf(2) by simp_all
    then show ?thesis using Some p by (auto intro!: runs_bind[OF wr[OF t]])
  qed (use t in simp)
  then have "runs (update_session k (\<lambda>se. se\<lparr>se_srtp_in := Some x'\<rparr>) s \<bind> (\<lambda>s. case r of None \<Rightarrow> Some (None, count1 Drop_srtp_auth s)
      | Some (b, n) \<Rightarrow> do { s \<leftarrow> write_buf (dg_buf d) b s; Some (Some n, s) }))
      (\<lambda>(r, s'). step held [] s s' \<and> (\<forall>n. r = Some n \<longrightarrow> n \<le> BUF_SIZE))" by (intro runs_bind[OF up]) blast
  then show ?thesis using buf k r(1) by (simp add: unprotect_with_def slab_get_lookup)
qed

section \<open>Learning an SSRC\<close>

text \<open>Tracks of a session may move between its lists.\<close>

lemma tables_tracks:
  assumes ok: "tables_ok s" and k: "sess s k = Some se" and t: "slab_ok t" "slab_slot_count t = slab_slot_count (sh_sessions s)"
    "slab_lookup t = (sess s)(k \<mapsto> se')" and new: "session_ok se'"
    and same: "se_id se' = se_id se" "se_ice se' = se_ice se" "addrs_of se' = addrs_of se" "se_switch_listed se' = se_switch_listed se"
      "se_subs se' = se_subs se" and tr: "distinct (tracks_of se')" "set (tracks_of se') = set (tracks_of se)"
  shows "tables_ok (s\<lparr>sh_sessions := t\<rparr>)"
proof -
  have "distinct (se_subs se')" using ok k same owned_distinct unfolding tables_ok_def links_ok_def by metis
  then have "owned (trks s) ((sess s)(k \<mapsto> se')) pt_session tracks_of" "owned (subs s) ((sess s)(k \<mapsto> se')) sb_session se_subs"
    using ok k same tr by (auto simp: tables_ok_def links_ok_def intro!: owned_parent)
  then show ?thesis using ok k same new t(1,2)
    by (auto simp: tables_defs t(3) intro!: index_same[where v = se] split: if_splits)
qed

text \<open>A change of the tables that keeps what the loop owns and the contents of buffers.\<close>

definition settled :: "nat list \<Rightarrow> nat list \<Rightarrow> ('io, 'snk) shard \<Rightarrow> ('io, 'snk) shard \<Rightarrow> bool" where
  "settled held keep s s' \<longleftrightarrow> shard_inv held s' \<and> ctl s' = ctl s \<and> same_bufs keep s s'"

lemma step_settled: "step held keep s s' \<Longrightarrow> settled held keep s s'"
  by (simp add: step_def settled_def)

lemma settled_trans: "settled h keep s t \<Longrightarrow> settled held keep t u \<Longrightarrow> settled held keep s u"
  by (auto simp: settled_def intro: same_bufs_trans)

lemma settled_inv: "settled held keep s s' \<Longrightarrow> shard_inv held s'"
  by (simp add: settled_def)

lemma settled_count [simp]: "settled held keep s (count_by c n s') = settled held keep s s'"
  by (simp add: settled_def)

lemma settled_from_count [simp]: "settled held keep (count_by c n s) = settled held keep s"
  by (simp add: settled_def same_bufs_def fun_eq_iff)

lemma find_unbound_runs:
  assumes "tables_ok s" "sess s k = Some se" "set ts \<subseteq> set (se_unbound se)"
  shows "runs (find_unbound packet h ts s) (\<lambda>r. \<forall>t. r = Some t \<longrightarrow> t \<in> set ts)"
  using assms(3)
proof (induction ts)
  case (Cons t ts)
  then obtain tr where tr: "trks s t = Some tr" using session_track[OF assms(1,2), of t] by (auto simp: tracks_of_def)
  obtain m where "ext_find packet h (xi_mid (ts_ext (pt_spec tr))) = Some m" using ext_find_total by blast
  then show ?case using tr Cons by (auto simp: slab_get_lookup elim!: runs_mono)
qed simp

lemma track_of_ssrc_fresh: "track_of_ssrc se ssrc = None \<Longrightarrow> ssrc \<notin> fst ` set (se_published se)"
  by (auto simp: track_of_ssrc_def find_None_iff)

lemma swap_remove_where_here:
  assumes "t \<in> set ts"
  obtains us where "swap_remove_where (\<lambda>u. u = t) ts = (Some t, us)" "mset ts = add_mset t (mset us)"
proof -
  obtain r us where r: "swap_remove_where (\<lambda>u. u = t) ts = (r, us)" by (cases "swap_remove_where (\<lambda>u. u = t) ts")
  then have "r \<noteq> None" using swap_remove_where_None[of "\<lambda>u. u = t" ts us] assms by auto
  then show ?thesis using that r swap_remove_where_Some[of "\<lambda>u. u = t" ts _ us] by auto
qed

text \<open>The session with the track moved from the unbound ones to the published ones.\<close>

lemma session_bound:
  fixes se :: session
  assumes so: "session_ok se" and dis: "distinct (tracks_of se)" and m: "mset (se_unbound se) = add_mset t (mset us)"
    and fresh: "ssrc \<notin> fst ` set (se_published se)"
  defines "se' \<equiv> se\<lparr>se_unbound := us, se_published := se_published se @ [(ssrc, t)]\<rparr>"
  shows "session_ok se'" "distinct (tracks_of se')" "set (tracks_of se') = set (tracks_of se)" "addrs_of se' = addrs_of se"
    "length (se_published se) < MAX_TRACKS_PER_SESSION"
proof -
  have len: "length (se_unbound se) = Suc (length us)" using m by (metis size_add_mset size_mset)
  have mt: "mset (tracks_of se') = mset (tracks_of se)" by (simp add: se'_def tracks_of_def m)
  then show "distinct (tracks_of se')" "set (tracks_of se') = set (tracks_of se)"
    using dis mset_eq_imp_distinct_iff mset_eq_setD by blast+
  show "addrs_of se' = addrs_of se" by (simp add: se'_def addrs_of_def)
  show "length (se_published se) < MAX_TRACKS_PER_SESSION" using so len by (simp add: session_ok_def session_track_count_def)
  show "session_ok se'" using so fresh len by (auto simp: session_ok_def se'_def srtp_ok_def session_track_count_def ring_abs_def)
qed

lemma pin_learned:
  assumes "in_inv x" "in_pins x \<subseteq> fst ` set ps" "length ps < MAX_TRACKS_PER_SESSION"
  shows "\<exists>x'. inbound_pin ssrc x = Some (Inr (), x') \<and> in_inv x' \<and> in_pins x' \<subseteq> insert ssrc (fst ` set ps)"
proof -
  obtain r x' where r: "inbound_pin ssrc x = Some (r, x')" "in_inv x'" using inbound_pin_inv[OF assms(1), of ssrc] by blast
  have "card (in_pins x) \<le> card (fst ` set ps)" using assms(2) by (intro card_mono) auto
  also have "\<dots> \<le> length ps" by (metis card_length length_map set_map)
  finally have "r = Inr ()" using inbound_pin_ok[OF assms(1) _ r(1)] assms(3)
    by (simp add: MAX_TRACKS_PER_SESSION_def INBOUND_PINNED_MAX_def INBOUND_SSRC_SLOTS_def)
  then show ?thesis using r ensD[OF inbound_pin_pins r(1)] assms(2) by auto
qed

lemma bind_track_runs:
  assumes inv: "shard_inv held s" and k: "sess s k = Some se" and t: "t \<in> set (se_unbound se)"
    and us: "mset (se_unbound se) = add_mset t (mset us)" and fresh: "ssrc \<notin> fst ` set (se_published se)"
    and ps: "ps = se_published se @ [(ssrc, t)]"
  shows "runs (do {
      s \<leftarrow> update_session k (\<lambda>se. se\<lparr>se_unbound := us, se_published := ps\<rparr>) s;
      s \<leftarrow> (case se_srtp_in se of
         None \<Rightarrow> Some s
       | Some inbound \<Rightarrow> do {
           (pinned, inbound) \<leftarrow> inbound_pin ssrc inbound;
           rassert (pinned = Inr ());
           update_session k (\<lambda>se. se\<lparr>se_srtp_in := Some inbound\<rparr>) s });
      s \<leftarrow> update_track t (\<lambda>t. t\<lparr>pt_layer := (pt_layer t)\<lparr>ly_ssrc := Some ssrc\<rparr>\<rparr>) s;
      Some (Some t, count1 Ssrcs_learned s) })
    (\<lambda>(r, s'). settled held held s s' \<and> r = Some t \<and> (\<exists>tr. trks s' t = Some tr))"
proof -
  note ok = inv_tables(1)[OF inv]
  have so: "session_ok se" by (rule session_entry[OF ok k])
  have dis: "distinct (tracks_of se)" using ok k owned_distinct unfolding tables_ok_def links_ok_def by metis
  let ?se = "se\<lparr>se_unbound := us, se_published := ps\<rparr>"
  note b = session_bound[OF so dis us fresh, folded ps]
  obtain st where st: "update_session k (\<lambda>se. se\<lparr>se_unbound := us, se_published := ps\<rparr>) s = Some (s\<lparr>sh_sessions := st\<rparr>)"
    "slab_lookup st = (sess s)(k \<mapsto> ?se)" "slab_ok st" "slab_slot_count st = slab_slot_count (sh_sessions s)"
    by (rule modify_session[OF ok k])
  define u where "u = s\<lparr>sh_sessions := st\<rparr>"
  have "tables_ok u" unfolding u_def
    by (rule tables_tracks[OF ok k st(3,4,2)]) (use b in simp_all)
  then have su: "settled held held s u"
    using inv by (simp add: settled_def shard_inv_def bufs_ok_def ctl_def same_bufs_def u_def)
  have ku: "sess u k = Some ?se" by (simp add: u_def st(2))
  have iu: "shard_inv held u" by (rule settled_inv[OF su])
  have pin: "runs (case se_srtp_in se of None \<Rightarrow> Some u
       | Some inbound \<Rightarrow> do {
           (pinned, inbound) \<leftarrow> inbound_pin ssrc inbound;
           rassert (pinned = Inr ());
           update_session k (\<lambda>se. se\<lparr>se_srtp_in := Some inbound\<rparr>) u })
      (\<lambda>s'. settled held held s s' \<and> sh_tracks s' = sh_tracks s)"
  proof (cases "se_srtp_in se")
    case (Some x)
    have x: "in_inv x" "in_pins x \<subseteq> fst ` set (se_published se)" using so Some by (simp_all add: session_ok_def srtp_ok_def)
    obtain x' where x': "inbound_pin ssrc x = Some (Inr (), x')" "in_inv x'" "in_pins x' \<subseteq> insert ssrc (fst ` set (se_published se))"
      using pin_learned[OF x b(5)] by blast
    have "session_ok (?se\<lparr>se_srtp_in := Some x'\<rparr>)"
      using b(1) x' Some by (auto simp: session_ok_def srtp_ok_def session_track_count_def ring_abs_def ps)
    then have "runs (update_session k (\<lambda>se. se\<lparr>se_srtp_in := Some x'\<rparr>) u) (\<lambda>s'. step held held u s' \<and>
        sess s' = (sess u)(k \<mapsto> ?se\<lparr>se_srtp_in := Some x'\<rparr>) \<and> sh_pool s' = sh_pool u \<and> sh_tx s' = sh_tx u \<and>
        sh_tracks s' = sh_tracks u \<and> sh_subs s' = sh_subs u)"
      by (intro session_update_step[OF iu ku]) simp_all
    then have "runs (update_session k (\<lambda>se. se\<lparr>se_srtp_in := Some x'\<rparr>) u) (\<lambda>s'. settled held held s s' \<and> sh_tracks s' = sh_tracks s)"
    proof (rule runs_mono)
      fix w assume w: "step held held u w \<and> sess w = (sess u)(k \<mapsto> ?se\<lparr>se_srtp_in := Some x'\<rparr>) \<and> sh_pool w = sh_pool u \<and>
        sh_tx w = sh_tx u \<and> sh_tracks w = sh_tracks u \<and> sh_subs w = sh_subs u"
      then have "settled held held s w" using settled_trans[OF su step_settled] by blast
      moreover have "sh_tracks w = sh_tracks s" using w by (simp add: u_def)
      ultimately show "settled held held s w \<and> sh_tracks w = sh_tracks s" by blast
    qed
    then show ?thesis using Some x'(1) by simp
  qed (use su in \<open>simp add: u_def\<close>)
  obtain tr where tr: "trks s t = Some tr" using session_track[OF ok k, of t] t by (auto simp: tracks_of_def)
  have tail: "runs (update_track t (\<lambda>t. t\<lparr>pt_layer := (pt_layer t)\<lparr>ly_ssrc := Some ssrc\<rparr>\<rparr>) v)
      (\<lambda>s'. settled held held s s' \<and> (\<exists>tr. trks s' t = Some tr))"
    if v: "settled held held s v" "sh_tracks v = sh_tracks s" for v
  proof -
    let ?tr = "tr\<lparr>pt_layer := (pt_layer tr)\<lparr>ly_ssrc := Some ssrc\<rparr>\<rparr>"
    have tv: "trks v t = Some tr" using tr v(2) by simp
    note iv = settled_inv[OF v(1)]
    have "runs (update_track t (\<lambda>t. t\<lparr>pt_layer := (pt_layer t)\<lparr>ly_ssrc := Some ssrc\<rparr>\<rparr>) v) (trk_step t ?tr v)"
      by (rule update_track_runs[OF inv_tables(1)[OF iv] tv]) (simp add: same_track_def)
    then show ?thesis
    proof (rule runs_mono, intro conjI)
      fix w assume w: "trk_step t ?tr v w"
      have "step held held v w" by (rule trk_step_step[OF iv w tv]) (simp add: tr_view_def)
      then show "settled held held s w" by (rule settled_trans[OF v(1) step_settled])
      show "\<exists>tr. trks w t = Some tr" using w by (simp add: trk_step_def)
    qed
  qed
  show ?thesis unfolding st(1) bind.simps u_def[symmetric]
    by (rule runs_bind[OF pin], rule runs_bind[OF tail]) auto
qed

lemma learn_ssrc_runs:
  assumes inv: "shard_inv held s" and k: "sess s k = Some se" and none: "track_of_ssrc se (rh_ssrc h) = None"
    and b: "buf_index b \<in> set held" "n \<le> BUF_SIZE"
  shows "runs (learn_ssrc k b n h s) (\<lambda>(r, s'). settled held held s s' \<and> (\<forall>t. r = Some t \<longrightarrow> (\<exists>tr. trks s' t = Some tr)))"
proof -
  note ok = inv_tables(1)[OF inv]
  obtain buf where buf: "pool_buf (sh_pool s) b = Some buf" "length buf = BUF_SIZE" using held_buf[OF inv_tables(2)[OF inv] b(1)] by blast
  obtain r where r: "find_unbound (take n buf) h (se_unbound se) s = Some r" "\<forall>t. r = Some t \<longrightarrow> t \<in> set (se_unbound se)"
    using find_unbound_runs[OF ok k subset_refl, of "take n buf" h] unfolding runs_def by blast
  show ?thesis
  proof (cases r)
    case None
    then show ?thesis using k buf b(2) r inv by (simp add: learn_ssrc_def slab_get_lookup step_settled step_refl)
  next
    case (Some t)
    then have t: "t \<in> set (se_unbound se)" using r(2) by blast
    obtain us where us: "swap_remove_where (\<lambda>u. u = t) (se_unbound se) = (Some t, us)" "mset (se_unbound se) = add_mset t (mset us)"
      by (rule swap_remove_where_here[OF t])
    have "distinct (tracks_of se)" using ok k owned_distinct unfolding tables_ok_def links_ok_def by metis
    then have "length (se_published se) < MAX_TRACKS_PER_SESSION"
      using session_bound(5)[OF session_entry[OF ok k] _ us(2) track_of_ssrc_fresh[OF none]] by blast
    then have push: "fixed_push MAX_TRACKS_PER_SESSION (rh_ssrc h, t) (se_published se) = (True, se_published se @ [(rh_ssrc h, t)])"
      by (simp add: fixed_push_def)
    note run = bind_track_runs[OF inv k t us(2) track_of_ssrc_fresh[OF none] refl]
    have "runs (learn_ssrc k b n h s) (\<lambda>(r, s'). settled held held s s' \<and> r = Some t \<and> (\<exists>tr. trks s' t = Some tr))"
      using run k buf b(2) r(1) Some us(1) push by (simp add: learn_ssrc_def slab_get_lookup)
    then show ?thesis by (rule runs_mono) auto
  qed
qed

section \<open>Fan-out\<close>

lemma rewrite_runs:
  assumes "rtp_parse src = Some (Inr hdr)" "sub_maps_ok sub"
  shows "runs (rewrite src hdr sub rng now dst) (\<lambda>(w, dst', rng'). length dst' = length dst)"
  by (rule rewrite_total[OF assms, where rng = rng and now = now and dst = dst]) simp_all

lemma protect_rtp_total:
  assumes E: "env_ok E" and x: "out_ok x"
  shows "\<exists>r x'. outbound_protect_rtp (ev_prims E) dst n x = Some (r, x') \<and> out_ok x' \<and> sized dst r"
proof -
  obtain L M where "cipher_ok (out_cipher x)" "out_inv x L M" using x by (auto simp: out_ok_def)
  then obtain r x' where r: "outbound_protect_rtp (ev_prims E) dst n x = Some (r, x')" "out_ok x'"
    using outbound_protect_rtp_inv[of "ev_prims E" x L M dst n] E
    by (fastforce simp: env_ok_def out_ok_def split: option.splits prod.splits)
  then show ?thesis using ensD[OF outbound_sized(1) r(1)] by auto
qed

text \<open>The rewritten packet is protected, counted and queued.\<close>

lemma protect_forward_runs:
  assumes E: "env_ok E" and inv: "shard_inv (buf_index out # held) s" and sub: "subs s sidx = Some sub"
    and se: "sess s (sb_session sub) = Some se" "se_srtp_out se = Some x"
    and dst: "length dst = BUF_SIZE" and room: "length (sh_tx s) < SEND_BATCH"
  shows "runs (do {
      (r, outbound) \<leftarrow> outbound_protect_rtp (ev_prims E) dst n x;
      s \<leftarrow> update_session (sb_session sub) (\<lambda>se. se\<lparr>se_srtp_out := Some outbound\<rparr>) s;
      case r of
        None \<Rightarrow> put_buf out (count1 Drop_srtp_protect s)
      | Some (dst, n) \<Rightarrow> do {
          s \<leftarrow> write_buf out dst s;
          s \<leftarrow> update_sub sidx (\<lambda>sub. sub\<lparr>sb_rewrite := commit (sb_rewrite sub) adv now,
             sb_sent_packets := sb_sent_packets sub + 1,
             sb_sent_octets := sb_sent_octets sub + of_nat m\<rparr>) s;
          tx_push \<lparr>dg_buf = out, dg_len = n, dg_addr = a\<rparr> (count_by Rebased_count q s) } }) (step held held s)"
proof -
  let ?held = "buf_index out # held"
  note ok = inv_tables(1)[OF inv]
  have x: "out_ok x" by (rule session_out_ok[OF ok se])
  obtain r x' where r: "outbound_protect_rtp (ev_prims E) dst n x = Some (r, x')" "out_ok x'" "sized dst r"
    using protect_rtp_total[OF E x] by blast
  define f where "f = (\<lambda>sub :: subscription. sub\<lparr>sb_rewrite := commit (sb_rewrite sub) adv now,
    sb_sent_packets := sb_sent_packets sub + 1, sb_sent_octets := sb_sent_octets sub + of_nat m\<rparr>)"
  have out: "runs (do { s \<leftarrow> update_sub sidx f v; tx_push \<lparr>dg_buf = out, dg_len = k, dg_addr = a\<rparr> (count_by Rebased_count q s) }) (step held held s)"
    if v: "step ?held held s v" "sh_subs v = sh_subs s" "sh_tx v = sh_tx s" and k: "k \<le> BUF_SIZE" for v k
  proof -
    have sv: "subs v sidx = Some sub" using sub v(2) by simp
    note okv = inv_tables(1)[OF step_inv[OF v(1)]]
    have "sub_maps_ok sub" using okv sv by (auto simp: tables_defs)
    then have up: "runs (update_sub sidx f v) (sub_step sidx (f sub) v)"
      by (intro update_sub_runs[OF okv sv]) (simp_all add: f_def sub_maps_ok_def)
    show ?thesis
    proof (rule runs_bind[OF up])
      fix w assume w: "sub_step sidx (f sub) v w"
      have "step ?held held v w" by (rule sub_step_step[OF step_inv[OF v(1)] w sv]) (simp add: f_def sb_view_def)
      then have sw: "step ?held held s w" by (rule step_trans[OF v(1)])
      obtain y where "w = v\<lparr>sh_subs := y\<rparr>" using w by (auto simp: sub_step_def)
      then have "runs (tx_push \<lparr>dg_buf = out, dg_len = k, dg_addr = a\<rparr> (count_by Rebased_count q w))
          (\<lambda>s'. step held held (count_by Rebased_count q w) s' \<and> sh_tracks s' = sh_tracks (count_by Rebased_count q w))"
        using step_inv[OF sw] room v(3) k by (intro push_step) simp_all
      then show "runs (tx_push \<lparr>dg_buf = out, dg_len = k, dg_addr = a\<rparr> (count_by Rebased_count q w)) (step held held s)"
        by (rule runs_mono) (use step_trans[OF sw] in auto)
    qed
  qed
  have "runs (case r of
        None \<Rightarrow> put_buf out (count1 Drop_srtp_protect t)
      | Some (dst, n) \<Rightarrow> do {
          s \<leftarrow> write_buf out dst t;
          s \<leftarrow> update_sub sidx f s;
          tx_push \<lparr>dg_buf = out, dg_len = n, dg_addr = a\<rparr> (count_by Rebased_count q s) }) (step held held s)"
    if t: "step ?held held s t" "sh_tx t = sh_tx s" "sh_subs t = sh_subs s" for t
  proof (cases r)
    case None
    then show ?thesis using put_step[of out held "count1 Drop_srtp_protect t" held] step_inv[OF t(1)]
      by (auto elim!: runs_mono intro: step_trans[OF t(1)])
  next
    case (Some p)
    obtain dst' k where p: "p = (dst', k)" by (cases p)
    then have d: "length dst' = BUF_SIZE" "k \<le> BUF_SIZE" using r(3) dst Some by simp_all
    note b = inv_tables(2)[OF step_inv[OF t(1)]]
    have w: "runs (write_buf out dst' t) (\<lambda>s'. io_step ?held held t s' \<and> pool_buf (sh_pool s') out = Some dst' \<and> sh_tx s' = sh_tx t)"
      by (rule write_buf_runs[OF b]) (use d held_fresh[OF b] in auto)
    show ?thesis unfolding Some p option.case prod.case
    proof (rule runs_bind[OF w], elim conjE)
      fix v assume v: "io_step ?held held t v" "sh_tx v = sh_tx t"
      show "runs (update_sub sidx f v \<bind> (\<lambda>s. tx_push \<lparr>dg_buf = out, dg_len = k, dg_addr = a\<rparr> (count_by Rebased_count q s))) (step held held s)"
        by (rule out[OF step_trans[OF t(1) io_step_step[OF step_inv[OF t(1)] v(1)]] _ _ d(2)])
          (use v(2) t io_stepD(6)[OF v(1)] in simp_all)
    qed
  qed
  then show ?thesis unfolding r(1) bind.simps prod.case f_def[symmetric]
    by (intro runs_bind[OF store_outbound_runs[OF inv se r(2), of held]]) auto
qed

lemma forward_into_runs:
  assumes E: "env_ok E" and inv: "shard_inv (buf_index out # held) s" and sub: "subs s sidx = Some sub"
    and se: "sess s (sb_session sub) = Some se" "se_srtp_out se = Some x" and room: "length (sh_tx s) < SEND_BATCH"
    and src: "buf_index src \<in> set held" "pool_buf (sh_pool s) src = Some input" "sub_slice input 0 len = Some packet"
    and h: "rtp_parse packet = Some (Inr h)"
  shows "runs (forward_into E sidx sub x a src out len h now s) (step held held s)"
proof -
  let ?held = "buf_index out # held"
  note ok = inv_tables(1)[OF inv] and bufs = inv_tables(2)[OF inv]
  have own: "pool_owns (sh_pool s) (?held @ map dg_index (sh_tx s))" using bufs by (simp add: bufs_ok_def)
  obtain y where pm: "pool_pair_mut src out (sh_pool s) = Some y"
    by (intro that, rule pool_pair_mut_disjoint[OF own]) (use src(1) own held_fresh[OF bufs] in \<open>auto simp: pool_owns_def\<close>)
  obtain dst where dst: "pool_buf (sh_pool s) out = Some dst" "length dst = BUF_SIZE" using held_buf[OF bufs] by auto
  define n where "n = BUF_SIZE - cipher_tag_len (out_cipher x) - 4"
  have hd: "sub_slice dst 0 n = Some (take n dst)" using dst(2) by (simp add: n_def)
  have sm: "sub_maps_ok sub" using ok sub by (auto simp: tables_defs)
  obtain w hd' rng where rw: "rewrite packet h sub (sh_rng s) now (take n dst) = Some (w, hd', rng)" "length hd' = length (take n dst)"
    using rewrite_runs[OF h sm, of "sh_rng s" now "take n dst"] unfolding runs_def by auto
  define dst' where "dst' = hd' @ drop n dst"
  have d': "length dst' = BUF_SIZE" using rw(2) dst(2) by (simp add: dst'_def)
  have io0: "io_step ?held held s (s\<lparr>sh_rng := rng\<rparr>)" using bufs by (simp add: io_step_def bufs_ok_def same_bufs_def)
  have wb: "runs (write_buf out dst' (s\<lparr>sh_rng := rng\<rparr>)) (\<lambda>s'. io_step ?held held (s\<lparr>sh_rng := rng\<rparr>) s' \<and>
      pool_buf (sh_pool s') out = Some dst' \<and> sh_tx s' = sh_tx (s\<lparr>sh_rng := rng\<rparr>))"
    by (rule write_buf_runs[OF io_stepD(1)[OF io0]]) (use d' held_fresh[OF bufs] in auto)
  let ?rest = "\<lambda>s. case w of
       Inl err \<Rightarrow> put_buf out (count1 (case err of UnmappedPt \<Rightarrow> Drop_unmapped_pt | TooLarge \<Rightarrow> Drop_too_large) s)
     | Inr (rtp_len, advance) \<Rightarrow> do {
         (r, outbound) \<leftarrow> outbound_protect_rtp (ev_prims E) dst' rtp_len x;
         s \<leftarrow> update_session (sb_session sub) (\<lambda>se. se\<lparr>se_srtp_out := Some outbound\<rparr>) s;
         case r of
           None \<Rightarrow> put_buf out (count1 Drop_srtp_protect s)
         | Some (dst, n) \<Rightarrow> do {
             s \<leftarrow> write_buf out dst s;
             s \<leftarrow> update_sub sidx (\<lambda>sub. sub\<lparr>sb_rewrite := commit (sb_rewrite sub) advance now,
                sb_sent_packets := sb_sent_packets sub + 1,
                sb_sent_octets := sb_sent_octets sub + of_nat (rtp_payload_len h len)\<rparr>) s;
             tx_push \<lparr>dg_buf = out, dg_len = n, dg_addr = a\<rparr>
               (count_by Rebased_count (if ad_rebased advance then 1 else 0) s) } }"
  have "runs (?rest t) (step held held s)" if t: "io_step ?held held s t" "sh_tx t = sh_tx s" for t
  proof -
    note it = io_step_inv[OF inv t(1)] and st = io_step_step[OF inv t(1)]
    have tr: "step held held t u \<Longrightarrow> step held held s u" for u by (rule step_trans[OF st])
    have "runs (put_buf out (count1 c t)) (step held held s)" for c
      using put_step[of out held "count1 c t" held] it by (auto elim!: runs_mono intro: tr)
    moreover have "subs t sidx = Some sub" "sess t (sb_session sub) = Some se" "length (sh_tx t) < SEND_BATCH"
      using sub se room t io_stepD(4,6)[OF t(1)] by simp_all
    note pf = runs_mono[OF protect_forward_runs[OF E it this(1,2) se(2) d' this(3)] tr]
    ultimately show ?thesis by (cases w) (simp_all add: pf case_prod_beta)
  qed
  then have "runs (write_buf out dst' (s\<lparr>sh_rng := rng\<rparr>) \<bind> ?rest) (step held held s)"
    by (intro runs_bind[OF wb]) (auto intro: io_step_trans[OF io0])
  then show ?thesis
    unfolding forward_into_def pm src(2,3) dst(1) bind.simps Let_def n_def[symmetric] hd rw(1) prod.case dst'_def[symmetric] .
qed

lemma forward_runs:
  assumes E: "env_ok E" and inv: "shard_inv held s" and sub: "subs s sidx = Some sub" and room: "length (sh_tx s) < SEND_BATCH"
    and src: "buf_index src \<in> set held" "pool_buf (sh_pool s) src = Some input" "sub_slice input 0 len = Some packet"
    and h: "rtp_parse packet = Some (Inr h)"
  shows "runs (forward E sidx src len h now s) (step held held s)"
proof -
  note ok = inv_tables(1)[OF inv] and bufs = inv_tables(2)[OF inv]
  obtain se where se: "sess s (sb_session sub) = Some se" using sub_session[OF ok sub] by blast
  show ?thesis
  proof (cases "se_srtp_out se = None \<or> se_addr se = None \<or> pool_take (sh_pool s) = None")
    case True
    then show ?thesis using sub se room inv by (auto simp: forward_def slab_get_lookup step_refl split: option.splits)
  next
    case False
    then obtain x a out p where x: "se_srtp_out se = Some x" "se_addr se = Some a" "pool_take (sh_pool s) = Some (out, p)" by auto
    let ?u = "s\<lparr>sh_pool := p\<rparr>"
    have tk: "io_step (buf_index out # held) held s ?u" by (rule take_step(1)[OF bufs x(3)])
    have "pool_buf (sh_pool ?u) src = Some input" using io_stepD(3)[OF tk] src(1,2) by (simp add: same_bufs_def)
    then have "runs (forward_into E sidx sub x a src out len h now ?u) (step held held ?u)"
      by (intro forward_into_runs[OF E io_step_inv[OF inv tk] _ _ x(1) _ src(1) _ src(3) h]) (use sub se room in simp_all)
    then have "runs (forward_into E sidx sub x a src out len h now ?u) (step held held s)"
      by (rule runs_mono) (rule step_trans[OF io_step_step[OF inv tk]])
    then show ?thesis using sub se room x by (simp add: forward_def slab_get_lookup)
  qed
qed

lemma fan_out_runs:
  assumes E: "env_ok E" and inv: "shard_inv held s" and tr: "trks s tidx = Some tr"
    and src: "buf_index src \<in> set held" "pool_buf (sh_pool s) src = Some input" "sub_slice input 0 len = Some packet"
    and h: "rtp_parse packet = Some (Inr h)"
  shows "runs (fan_out E tidx src len h now s) (step held held s)"
proof -
  have one: "runs (fan_out_one E tidx src len h now i t) (step held held t)"
    if i: "i < length (pt_subscribers tr)" and t: "step held held s t" for i t
    unfolding fan_out_one_def
  proof (rule runs_bind[OF flush_if_full_runs[OF E inv_tables(2)[OF step_inv[OF t]]]], goal_cases)
    case (1 u)
    then have io: "io_step held held t u" and room: "length (sh_tx u) < SEND_BATCH" by simp_all
    note tu = io_step_step[OF step_inv[OF t] io] and su = step_trans[OF t io_step_step[OF step_inv[OF t] io]]
    obtain tr' where t': "trks u tidx = Some tr'" "pt_subscribers tr' = pt_subscribers tr"
      using shape_track[OF _ tr, of u] su by (auto simp: step_def tr_view_def)
    obtain sub where sub: "subs u (pt_subscribers tr' ! i) = Some sub"
      using track_sub[OF inv_tables(1)[OF step_inv[OF su]] t'(1) nth_mem] i t'(2) by auto
    have "pool_buf (sh_pool u) src = Some input" using su src(1,2) by (simp add: step_def same_bufs_def)
    from forward_runs[OF E step_inv[OF su] sub room src(1) this src(3) h]
    have "runs (forward E (pt_subscribers tr' ! i) src len h now u) (step held held t)"
      by (rule runs_mono) (rule step_trans[OF tu])
    then show ?case using t' i by (simp add: slab_get_lookup)
  qed
  have "runs (for_each (fan_out_one E tidx src len h now) [0..<length (pt_subscribers tr)] s) (step held held s)"
    by (rule for_each_step[OF one step_refl[OF inv]]) simp_all
  then show ?thesis using tr by (simp add: fan_out_def slab_get_lookup)
qed

section \<open>Datagrams\<close>

lemma settled_refl: "shard_inv held s \<Longrightarrow> settled held keep s s"
  by (simp add: settled_def)

lemma settled_weak: "settled held keep s s' \<Longrightarrow> settled held [] s s'"
  by (simp add: settled_def same_bufs_def)

text \<open>An authenticated RTP packet: from the header to the fan-out.\<close>

lemma route_runs:
  assumes E: "env_ok E" and inv: "shard_inv held s" and k: "sess s k = Some se" and b: "buf_index src \<in> set held" "len \<le> BUF_SIZE"
  shows "runs (do {
      b \<leftarrow> pool_buf (sh_pool s) src;
      packet \<leftarrow> sub_slice b 0 len;
      parsed \<leftarrow> rtp_parse packet;
      case parsed of
        Inl _ \<Rightarrow> Some (count1 Drop_malformed s)
      | Inr h \<Rightarrow> do {
          se \<leftarrow> slab_get (sh_sessions s) k;
          (track, s) \<leftarrow> (case track_of_ssrc se (rh_ssrc h) of
             Some t \<Rightarrow> Some (Some t, s)
           | None \<Rightarrow> learn_ssrc k src len h s);
          case track of
            None \<Rightarrow> Some (count1 Drop_no_route s)
          | Some t \<Rightarrow> fan_out E t src len h now s } }) (settled held held s)"
proof -
  obtain buf where buf: "pool_buf (sh_pool s) src = Some buf" "length buf = BUF_SIZE" using held_buf[OF inv_tables(2)[OF inv] b(1)] by blast
  have sl: "sub_slice buf 0 len = Some (take len buf)" using buf(2) b(2) by simp
  obtain parsed where pa: "rtp_parse (take len buf) = Some parsed" using rtp_parse_total by blast
  show ?thesis
  proof (cases parsed)
    case (Inl e)
    then show ?thesis using buf sl pa inv by (simp add: settled_refl)
  next
    case (Inr h)
    have tr: "runs (case track_of_ssrc se (rh_ssrc h) of Some t \<Rightarrow> Some (Some t, s) | None \<Rightarrow> learn_ssrc k src len h s)
        (\<lambda>(r, s'). settled held held s s' \<and> (\<forall>t. r = Some t \<longrightarrow> (\<exists>tr. trks s' t = Some tr)))"
    proof (cases "track_of_ssrc se (rh_ssrc h)")
      case None
      then show ?thesis using learn_ssrc_runs[OF inv k None b] by simp
    next
      case (Some t)
      then show ?thesis using published_track[OF inv_tables(1)[OF inv] k Some] inv by (auto simp: settled_refl)
    qed
    have fan: "runs (fan_out E t src len h now u) (settled held held s)" if u: "settled held held s u" "\<exists>y. trks u t = Some y" for t u
    proof -
      obtain y where y: "trks u t = Some y" using u(2) by blast
      have "pool_buf (sh_pool u) src = Some buf" using u(1) b(1) buf(1) by (simp add: settled_def same_bufs_def)
      from fan_out_runs[OF E settled_inv[OF u(1)] y b(1) this sl] have "runs (fan_out E t src len h now u) (step held held u)"
        using pa Inr by simp
      then show ?thesis by (rule runs_mono) (rule settled_trans[OF u(1) step_settled])
    qed
    have "runs ((case track_of_ssrc se (rh_ssrc h) of Some t \<Rightarrow> Some (Some t, s) | None \<Rightarrow> learn_ssrc k src len h s) \<bind>
        (\<lambda>(track, s). case track of None \<Rightarrow> Some (count1 Drop_no_route s) | Some t \<Rightarrow> fan_out E t src len h now s)) (settled held held s)"
      by (rule runs_bind[OF tr]) (auto split: option.splits intro!: fan)
    then show ?thesis using buf sl pa Inr k by (simp add: slab_get_lookup)
  qed
qed

lemma srtp_in_runs:
  assumes E: "env_ok E" and u: "unprotect_ok u" and inv: "shard_inv held s" and b: "dg_index d \<in> set held"
    and body: "\<And>k se n t. shard_inv held t \<Longrightarrow> sess t k = Some se \<Longrightarrow> n \<le> BUF_SIZE \<Longrightarrow> runs (body k n t) (settled held [] t)"
  shows "runs (do {
      (k, s) \<leftarrow> srtp_session d s;
      case k of
        None \<Rightarrow> Some s
      | Some k \<Rightarrow> do {
          (len, s) \<leftarrow> unprotect_with u k d now s;
          case len of
            None \<Rightarrow> Some s
          | Some len \<Rightarrow> do { s \<leftarrow> authenticated E k (dg_addr d) now s; body k len s } } }) (settled held [] s)"
proof (rule runs_bind[OF srtp_session_runs[OF inv, of d]], goal_cases)
  case (1 p)
  obtain r t where p: "p = (r, t)" by (cases p)
  have st: "settled held [] s t" using 1 p by (auto intro: settled_weak step_settled)
  show ?case
  proof (cases r)
    case (Some k)
    then obtain se x where k: "sess t k = Some se" "se_srtp_in se = Some x" using 1 p by auto
    note it = settled_inv[OF st]
    have rest: "runs (authenticated E k (dg_addr d) now v \<bind> body k n) (settled held [] s)"
      if v: "step held [] t v" and n: "n \<le> BUF_SIZE" for v n
    proof -
      obtain se' where k': "sess v k = Some se'" using shape_session[OF _ k(1), of v] v by (auto simp: step_def)
      show ?thesis
      proof (rule runs_bind[OF authenticated_runs[OF step_inv[OF v] k']])
        fix w assume w: "step held held v w"
        obtain se'' where "sess w k = Some se''" using shape_session[OF _ k', of w] w by (auto simp: step_def)
        from body[OF step_inv[OF w] this n] show "runs (body k n w) (settled held [] s)"
          by (rule runs_mono) (use settled_trans[OF settled_trans[OF settled_trans[OF st step_settled[OF v]] settled_weak[OF step_settled[OF w]]]] in blast)
      qed
    qed
    have "runs (unprotect_with u k d now t \<bind> (\<lambda>(len, s). case len of None \<Rightarrow> Some s
        | Some len \<Rightarrow> do { s \<leftarrow> authenticated E k (dg_addr d) now s; body k len s })) (settled held [] s)"
      by (rule runs_bind[OF unprotect_with_runs[OF u it k b]])
        (auto split: option.splits intro!: rest settled_trans[OF st step_settled])
    then show ?thesis using p Some by simp
  qed (use p st in simp)
qed

lemma handle_rtp_runs:
  assumes E: "env_ok E" and inv: "shard_inv held s" and b: "dg_index d \<in> set held"
  shows "runs (handle_rtp E d now s) (settled held [] s)"
  unfolding handle_rtp_def
proof (rule srtp_in_runs[OF E unprotect_both(1) inv b])
  show "prims_ok (ev_prims E)" using E by (simp add: env_ok_def)
qed (rule runs_mono[OF route_runs[OF E _ _ b]], assumption+, rule settled_weak)

lemma handle_rtcp_runs:
  assumes E: "env_ok E" and inv: "shard_inv held s" and b: "dg_index d \<in> set held"
  shows "runs (handle_rtcp E d now s) (settled held [] s)"
  unfolding handle_rtcp_def
proof (rule srtp_in_runs[OF E unprotect_both(2) inv b])
  show "prims_ok (ev_prims E)" using E by (simp add: env_ok_def)
next
  fix k se n and t :: "('a, 'b) shard" assume t: "shard_inv held t" "sess t k = Some se" "n \<le> BUF_SIZE"
  have "runs (handle_rtcp_compound E k (dg_buf d) n now (count1 Rtcp_received t)) (step held held (count1 Rtcp_received t))"
    by (rule handle_rtcp_compound_runs[OF E]) (use t b in simp_all)
  then show "runs (handle_rtcp_compound E k (dg_buf d) n now (count1 Rtcp_received t)) (settled held [] t)"
    by (rule runs_mono) (use settled_weak[OF step_settled] in auto)
qed

lemma handle_datagram_runs:
  assumes E: "env_ok E" and inv: "shard_inv held s" and b: "dg_index d \<in> set held" "dg_len d \<le> BUF_SIZE"
  shows "runs (handle_datagram E d now s) (settled held [] s)"
proof -
  let ?s = "count_by Rx_bytes (dg_len d) (count1 Rx_datagrams s)"
  have iv: "shard_inv held ?s" using inv by simp
  obtain buf where buf: "pool_buf (sh_pool s) (dg_buf d) = Some buf" "length buf = BUF_SIZE" using held_buf[OF inv_tables(2)[OF inv] b(1)] by blast
  have w: "step held held ?s t \<Longrightarrow> settled held [] s t" for t using settled_weak[OF step_settled, of held held ?s t] by simp
  have "runs (handle_stun E d now ?s) (settled held [] s)" by (rule runs_mono[OF handle_stun_runs[OF E iv b] w])
  moreover have "runs (handle_dtls E d ?s) (settled held [] s)" by (rule runs_mono[OF handle_dtls_runs[OF iv b] w])
  moreover have "runs (handle_rtp E d now ?s) (settled held [] s)" using handle_rtp_runs[OF E iv b(1), of now] by simp
  moreover have "runs (handle_rtcp E d now ?s) (settled held [] s)" using handle_rtcp_runs[OF E iv b(1), of now] by simp
  ultimately show ?thesis using buf b(2) inv
    by (cases "classify (take (dg_len d) buf)") (simp_all add: handle_datagram_def settled_refl)
qed

end
