(* ===== verification/Shard_Inv_Commands.thy ===== *)
theory Shard_Inv_Commands
  imports Shard_Inv_Ingress
begin

text \<open>
  Commands keep the invariant and do not panic: sessions, tracks and
  subscriptions are opened and closed with every table that names them, and
  the counts of the tables agree after every command.
\<close>

section \<open>Changes of the tables\<close>

lemma session_parts:
  assumes ok: "tables_ok s" and k: "sess s k = Some se"
    and same: "se_id se' = se_id se" "se_ice se' = se_ice se" "addrs_of se' = addrs_of se" "se_switch_listed se' = se_switch_listed se"
    and new: "session_ok se'"
  shows "index_ok (sh_session_ids s) ((sess s)(k \<mapsto> se')) (\<lambda>se. {se_id se})"
    "index_ok (sh_by_ufrag s) ((sess s)(k \<mapsto> se')) (\<lambda>se. {ice_local_ufrag (se_ice se)})"
    "index_ok (sh_by_addr s) ((sess s)(k \<mapsto> se')) addrs_of"
    "j \<in> set (sh_pending_switches s) \<longleftrightarrow> (\<exists>se. ((sess s)(k \<mapsto> se')) j = Some se \<and> se_switch_listed se)"
    "((sess s)(k \<mapsto> se')) j = Some v \<Longrightarrow> session_ok v"
  using ok k same new by (auto simp: tables_defs intro!: index_same[where v = se] split: if_splits)

lemma session_lists:
  assumes "tables_ok s" "sess s k = Some se"
  shows "distinct (tracks_of se)" "distinct (se_subs se)" "length (tracks_of se) \<le> MAX_TRACKS_PER_SESSION"
    "length (se_subs se) \<le> MAX_SUBS_PER_SESSION"
proof -
  show "distinct (tracks_of se)" "distinct (se_subs se)"
    using assms owned_distinct unfolding tables_ok_def links_ok_def by metis+
  show "length (tracks_of se) \<le> MAX_TRACKS_PER_SESSION" "length (se_subs se) \<le> MAX_SUBS_PER_SESSION"
    using session_entry[OF assms] by (simp_all add: session_ok_def session_track_count_def tracks_of_def)
qed

text \<open>The slabs never run out of keys.\<close>

lemma slabs_room:
  assumes ok: "tables_ok s"
  shows "slab_count (sh_tracks s) < 2 ^ 32" "slab_count (sh_subs s) < 2 ^ 32"
proof -
  have o: "owned (trks s) (sess s) pt_session tracks_of" "owned (subs s) (sess s) sb_session se_subs"
    using ok by (simp_all add: tables_defs)
  have lim: "MAX_SUBS_PER_SESSION * max_sessions s < 2 ^ 32" "slab_ok (sh_tracks s)" "slab_ok (sh_subs s)"
    using ok by (simp_all add: tables_defs)
  note fin = sessions_bound(2)[OF ok] and few = sessions_bound(1)[OF ok]
  have "card (dom (trks s)) \<le> MAX_TRACKS_PER_SESSION * card (dom (sess s))"
    by (rule owned_card[OF o(1) fin]) (rule session_lists(3)[OF ok])
  also have "\<dots> \<le> MAX_SUBS_PER_SESSION * max_sessions s"
    using few by (intro mult_le_mono) (simp_all add: MAX_TRACKS_PER_SESSION_def MAX_SUBS_PER_SESSION_def)
  finally show "slab_count (sh_tracks s) < 2 ^ 32" using lim slab_len_card(1)[OF lim(2)] by (simp add: slab_len_def)
  have "card (dom (subs s)) \<le> MAX_SUBS_PER_SESSION * card (dom (sess s))"
    by (rule owned_card[OF o(2) fin]) (rule session_lists(4)[OF ok])
  also have "\<dots> \<le> MAX_SUBS_PER_SESSION * max_sessions s" using few by simp
  finally show "slab_count (sh_subs s) < 2 ^ 32" using lim slab_len_card(1)[OF lim(3)] by (simp add: slab_len_def)
qed

lemma insert_slab:
  assumes "slab_ok t" "slab_count t < 2 ^ 32"
  obtains k t' where "slab_insert v t = Some (k, t')" "slab_lookup t k = None" "slab_lookup t' = (slab_lookup t)(k \<mapsto> v)" "slab_ok t'"
    "slab_slot_count t' \<le> max (slab_slot_count t) (slab_len t + 1)"
proof -
  obtain k t' where i: "slab_insert v t = Some (k, t')" using slab_insert_total[OF assms] by blast
  show ?thesis
    by (rule that[OF i slab_insert_fresh[OF assms(1) i] slab_insert_lookup[OF assms(1) i] slab_insert_ok[OF assms(1) i]])
      (use slab_insert_slots[OF assms(1) i] slab_insert_len[OF i] in simp)
qed

lemma remove_slab:
  assumes "slab_ok t" "slab_lookup t k = Some v"
  obtains t' where "slab_remove k t = Some (v, t')" "slab_lookup t' = (slab_lookup t)(k := None)" "slab_ok t'"
    "slab_slot_count t' = slab_slot_count t"
proof -
  obtain t' where r: "slab_remove k t = Some (v, t')" using slab_remove_Some_iff[of k t v] assms(2) by blast
  show ?thesis
    by (rule that[OF r conjunct2[OF slab_remove_lookup[OF r]] slab_remove_ok[OF assms(1) r] slab_remove_slots[OF r]])
qed

section \<open>Creating sessions, sending datagrams\<close>

lemma create_session_runs:
  assumes inv: "shard_inv held s" and ice: "ice_wf ice"
  shows "runs (create_session i ice base now s) (\<lambda>(r, s'). settled held held s s')"
proof (cases "hm_get (sh_session_ids s) i \<noteq> None \<or> hm_get (sh_by_ufrag s) (ice_local_ufrag ice) \<noteq> None \<or>
    slab_len (sh_sessions s) \<ge> max_sessions s")
  case True
  then show ?thesis using inv by (auto simp: create_session_def settled_refl)
next
  case False
  note ok = inv_tables(1)[OF inv]
  let ?se = "session_new i ice base now"
  have so: "slab_ok (sh_sessions s)" using ok by (simp add: tables_defs)
  have "slab_count (sh_sessions s) < max_sessions s" using False by (auto simp: slab_len_def)
  also have "\<dots> < 2 ^ 32" by simp
  finally obtain k t where t: "slab_insert ?se (sh_sessions s) = Some (k, t)" "sess s k = None" "slab_lookup t = (sess s)(k \<mapsto> ?se)"
    "slab_ok t" "slab_slot_count t \<le> max (slab_slot_count (sh_sessions s)) (slab_len (sh_sessions s) + 1)"
    using insert_slab[OF so] by blast
  let ?s = "s\<lparr>sh_sessions := t, sh_session_ids := hm_insert i k (sh_session_ids s),
    sh_by_ufrag := hm_insert (ice_local_ufrag ice) k (sh_by_ufrag s)\<rparr>"
  have se: "session_ok ?se" "tracks_of ?se = []" "se_subs ?se = []" "addrs_of ?se = {}" "\<not> se_switch_listed ?se"
    "se_id ?se = i" "se_ice ?se = ice"
    using ice session_new_ring[of i ice base now]
    by (auto simp: session_ok_def srtp_ok_def session_track_count_def session_new_def tracks_of_def addrs_of_def)
  have "index_ok (hm_insert i k (sh_session_ids s)) ((sess s)(k \<mapsto> ?se)) (\<lambda>se. {se_id se})"
    "index_ok (hm_insert (ice_local_ufrag ice) k (sh_by_ufrag s)) ((sess s)(k \<mapsto> ?se)) (\<lambda>se. {ice_local_ufrag (se_ice se)})"
    using ok False t(2) se by (auto simp: tables_defs intro!: index_insert)
  moreover have "index_ok (sh_by_addr s) ((sess s)(k \<mapsto> ?se)) addrs_of"
    using ok t(2) se by (auto simp: tables_defs intro!: index_fresh)
  moreover have "owned (trks s) ((sess s)(k \<mapsto> ?se)) pt_session tracks_of" "owned (subs s) ((sess s)(k \<mapsto> ?se)) sb_session se_subs"
    using ok t(2) se by (auto simp: tables_defs intro!: owned_new_parent)
  moreover have "slab_slot_count t \<le> max_sessions s" using ok t(5) False by (auto simp: tables_defs)
  ultimately have "tables_ok ?s" using ok t(2,4) se by (auto simp: tables_defs t(3) split: if_splits)
  then have "settled held held s ?s" using inv by (simp add: settled_def shard_inv_def bufs_ok_def ctl_def same_bufs_def)
  then show ?thesis using False t(1) by (simp add: create_session_def)
qed

lemma id_track: "tables_ok s \<Longrightarrow> hm_get (sh_track_ids s) i = Some t \<Longrightarrow> \<exists>tr. trks s t = Some tr \<and> pt_id tr = i"
  unfolding tables_ok_def ids_ok_def by (auto dest: index_get)

lemma id_sub: "tables_ok s \<Longrightarrow> hm_get (sh_sub_ids s) i = Some b \<Longrightarrow> \<exists>sb. subs s b = Some sb \<and> sb_id sb = i"
  unfolding tables_ok_def ids_ok_def by (auto dest: index_get)

lemma write_part_runs:
  assumes "bufs_ok held s" "buf_index b \<in> set held" "length d \<le> BUF_SIZE" "buf_index b \<notin> set keep"
  shows "runs (write_buf b d s) (io_step held keep s)"
proof -
  obtain cur where cur: "pool_buf (sh_pool s) b = Some cur" "length cur = BUF_SIZE" using held_buf[OF assms(1,2)] by blast
  obtain p where p: "pool_write b 0 d (sh_pool s) = Some p"
    using pool_write_same[OF cur(1), of 0 d] assms(3) cur(2) by auto
  have "pool_owns p (held @ map dg_index (sh_tx s))" using assms(1) pool_write_owns[OF _ p] by (auto simp: bufs_ok_def)
  moreover have "pool_buf p c = pool_buf (sh_pool s) c" if "buf_index c \<in> set keep" for c
    using that assms(4) by (intro pool_write_frame[OF p]) auto
  ultimately show ?thesis using assms(1) p by (simp add: write_buf_def io_step_def bufs_ok_def same_bufs_def)
qed

lemma send_datagram_runs:
  assumes E: "env_ok E" and inv: "shard_inv held s"
  shows "runs (send_datagram E i bytes s) (\<lambda>(r, s'). settled held held s s')"
proof (cases "hm_get (sh_session_ids s) i")
  case (Some k)
  obtain se where k: "sess s k = Some se" using session_of_id[OF inv_tables(1)[OF inv] Some] by blast
  show ?thesis
  proof (cases "se_addr se = None \<or> bytes = [] \<or> length bytes > BUF_SIZE \<or> pool_take (sh_pool s) = None")
    case True
    then show ?thesis using Some k inv by (auto simp: send_datagram_def slab_get_lookup settled_refl split: option.splits)
  next
    case False
    then obtain a b p where a: "se_addr se = Some a" "pool_take (sh_pool s) = Some (b, p)" by auto
    let ?u = "s\<lparr>sh_pool := p\<rparr>"
    have tk: "io_step (buf_index b # held) held s ?u" by (rule take_step(1)[OF inv_tables(2)[OF inv] a(2)])
    note bu = io_stepD(1)[OF tk]
    have w: "runs (write_buf b bytes ?u) (io_step (buf_index b # held) held ?u)"
      by (rule write_part_runs[OF bu]) (use False held_fresh[OF bu] in auto)
    have "runs (send E b (length bytes) a v) (\<lambda>s'. settled held held s s')" if v: "io_step (buf_index b # held) held ?u v" for v
    proof -
      note sv = io_step_trans[OF tk v]
      have "runs (send E b (length bytes) a v) (io_step held held v)"
        by (rule send_runs[OF E io_stepD(1)[OF v]]) (use False in simp)
      then show ?thesis
        by (rule runs_mono) (rule settled_trans[OF step_settled[OF io_step_step[OF inv sv]] step_settled[OF io_step_step[OF io_step_inv[OF inv sv]]]])
    qed
    then have "runs (write_buf b bytes ?u \<bind> (\<lambda>s. send E b (length bytes) a s \<bind> (\<lambda>s. Some (Inr (), s)))) (\<lambda>(r, s'). settled held held s s')"
      by (intro runs_bind[OF w] runs_bind) auto
    then show ?thesis using Some k a False by (auto simp: send_datagram_def slab_get_lookup)
  qed
qed (use inv in \<open>simp add: send_datagram_def settled_refl\<close>)

section \<open>Installing SRTP\<close>

lemma register_all_runs:
  assumes "tables_ok s" "sess s k = Some se" "set ks \<subseteq> set (se_subs se)" "out_ok x"
  shows "runs (register_all ks s x) (\<lambda>r. \<forall>y. r = Some y \<longrightarrow> out_ok y)"
  using assms(3,4)
proof (induction ks arbitrary: x)
  case (Cons b ks)
  then obtain sb where sb: "subs s b = Some sb" using session_sub[OF assms(1,2), of b] by auto
  obtain L M where x: "cipher_ok (out_cipher x)" "out_inv x L M" using Cons.prems by (auto simp: out_ok_def)
  obtain r x' where r: "outbound_register (rw_out_ssrc (sb_rewrite sb)) x = Some (r, x')" "out_inv x' L M"
    using outbound_register_inv[OF x(2)] by blast
  have "out_cipher x' = out_cipher x" using r(1) by (auto simp: outbound_register_def Let_def panic_simps split: if_splits option.splits)
  then have "out_ok x'" using x(1) r(2) by (auto simp: out_ok_def)
  then show ?case using sb r(1) Cons.IH[of x'] Cons.prems(1) by (cases r) (simp_all add: slab_get_lookup)
qed simp

lemma pin_all_runs:
  assumes "in_inv x" "in_pins x \<subseteq> A" "set ssrcs \<subseteq> A"
  shows "runs (pin_all ssrcs x) (\<lambda>r. \<forall>y. r = Some y \<longrightarrow> in_inv y \<and> in_pins y \<subseteq> A)"
  using assms
proof (induction ssrcs arbitrary: x)
  case (Cons ssrc ssrcs)
  obtain r x' where r: "inbound_pin ssrc x = Some (r, x')" "in_inv x'" using inbound_pin_inv[OF Cons.prems(1), of ssrc] by blast
  have "in_pins x' \<subseteq> A" using ensD[OF inbound_pin_pins r(1)] Cons.prems by auto
  then show ?case using r Cons.IH[of x'] Cons.prems(3) by (cases r) simp_all
qed simp

lemma srtp_contexts_runs:
  assumes E: "env_ok E" and m: "material_ok (sx_local keys)" "material_ok (sx_remote keys)"
    and ok: "tables_ok s" and k: "sess s k = Some se"
  shows "runs (srtp_contexts (ev_prims E) se keys s)
    (\<lambda>r. \<forall>x y. r = Some (x, y) \<longrightarrow> in_inv x \<and> in_pins x \<subseteq> fst ` set (se_published se) \<and> out_ok y)"
proof -
  have P: "prims_ok (ev_prims E)" using E by (simp add: env_ok_def)
  obtain c where c: "inbound_from_material (ev_prims E) (sx_remote keys) = Some (Inr (inbound_new c))" "cipher_ok c"
    using cipher_of_material[OF P m(2)] by (auto simp: inbound_from_material_def)
  obtain d where d: "outbound_from_material (ev_prims E) (sx_local keys) (se_out_ssrc_base se) = Some (Inr (outbound_new d (se_out_ssrc_base se)))" "cipher_ok d"
    using cipher_of_material[OF P m(1)] by (auto simp: outbound_from_material_def)
  obtain r x where r: "outbound_register (session_rtcp_ssrc se) (outbound_new d (se_out_ssrc_base se)) = Some (r, x)" "out_inv x {} {}"
    using outbound_register_inv[OF out_inv_new] by blast
  have "out_cipher x = d" using r(1)
    by (auto simp: outbound_register_def outbound_new_def Let_def panic_simps split: if_splits option.splits)
  then have x: "out_ok x" using r(2) d(2) by (auto simp: out_ok_def)
  have a: "runs (register_all (se_subs se) s x) (\<lambda>r. \<forall>y. r = Some y \<longrightarrow> out_ok y)" by (rule register_all_runs[OF ok k _ x]) simp
  have b: "runs (pin_all (map fst (se_published se)) (inbound_new c)) (\<lambda>r. \<forall>y. r = Some y \<longrightarrow> in_inv y \<and> in_pins y \<subseteq> fst ` set (se_published se))"
    by (rule pin_all_runs[OF in_inv_new[OF c(2)]]) simp_all
  show ?thesis unfolding srtp_contexts_def c(1) d(1) r(1) bind.simps prod.case sum.case
    by (cases r) (auto intro!: runs_bind[OF a] runs_bind[OF b] split: option.splits)
qed

lemma keyframe_for_sub_runs:
  assumes E: "env_ok E" and inv: "shard_inv held s" and k: "sess s k = Some se" and i: "i < length (se_subs se)"
  shows "runs (keyframe_for_sub E k now i s) (step held held s)"
proof -
  note ok = inv_tables(1)[OF inv]
  obtain sb where sb: "subs s (se_subs se ! i) = Some sb" using session_sub[OF ok k nth_mem[OF i]] by blast
  obtain tr where "trks s (sb_track sb) = Some tr" using sub_track[OF ok sb] by blast
  from request_keyframe_runs[OF E inv this, of now] show ?thesis using k i sb by (simp add: keyframe_for_sub_def slab_get_lookup)
qed

lemma install_srtp_runs:
  assumes E: "env_ok E" and inv: "shard_inv held s" and m: "material_ok (sx_local keys)" "material_ok (sx_remote keys)"
  shows "runs (install_srtp E i keys now s) (\<lambda>(r, s'). settled held held s s')"
proof (cases "hm_get (sh_session_ids s) i")
  case (Some k)
  note ok = inv_tables(1)[OF inv]
  obtain se where k: "sess s k = Some se" using session_of_id[OF ok Some] by blast
  note so = session_entry[OF ok k]
  show ?thesis
  proof (cases "se_srtp_in se")
    case None
    obtain c where c: "srtp_contexts (ev_prims E) se keys s = Some c"
      "\<forall>x y. c = Some (x, y) \<longrightarrow> in_inv x \<and> in_pins x \<subseteq> fst ` set (se_published se) \<and> out_ok y"
      using srtp_contexts_runs[OF E m ok k] unfolding runs_def by blast
    have out: "se_srtp_out se = None" using so None by (simp add: session_ok_def srtp_ok_def)
    show ?thesis
    proof (cases c)
      case None
      then show ?thesis using Some k c(1) out \<open>se_srtp_in se = None\<close> inv
        by (simp add: install_srtp_def slab_get_lookup settled_refl)
    next
      case (Some p)
      obtain x y where p: "p = (x, y)" by (cases p)
      let ?f = "\<lambda>se :: session. se\<lparr>se_srtp_in := Some x, se_srtp_out := Some y\<rparr>"
      have "session_ok (?f se)" using so c(2) Some p by (auto simp: session_ok_def srtp_ok_def session_track_count_def ring_abs_def)
      then have up: "runs (update_session k ?f s) (\<lambda>s'. step held held s s' \<and> sess s' = (sess s)(k \<mapsto> ?f se) \<and>
          sh_pool s' = sh_pool s \<and> sh_tx s' = sh_tx s \<and> sh_tracks s' = sh_tracks s \<and> sh_subs s' = sh_subs s)"
        by (intro session_update_step[OF inv k]) (simp_all add: same_links_def addrs_of_def tracks_of_def)
      have loop: "runs (for_each (keyframe_for_sub E k now) [0..<length (se_subs se)] t) (step held held s)" if t: "step held held s t" for t
      proof (rule for_each_step[OF _ t])
        fix j v assume j: "j \<in> set [0..<length (se_subs se)]" and v: "step held held s v"
        obtain se' where "sess v k = Some se'" "se_subs se' = se_subs se"
          using shape_session[OF _ k, of v] v by (auto simp: step_def se_view_def)
        then show "runs (keyframe_for_sub E k now j v) (step held held v)"
          using keyframe_for_sub_runs[OF E step_inv[OF v]] j by simp
      qed
      have "runs (update_session k ?f s \<bind> (\<lambda>s. do {
             se \<leftarrow> slab_get (sh_sessions s) k;
             s \<leftarrow> for_each (keyframe_for_sub E k now) [0..<length (se_subs se)] s;
             Some (Inr (), s) })) (\<lambda>(r, s'). settled held held s s')"
        by (rule runs_bind[OF up]) (auto simp: slab_get_lookup intro!: runs_bind[OF loop] step_settled)
      then show ?thesis using \<open>hm_get (sh_session_ids s) i = Some k\<close> k c(1) Some p out None
        by (simp add: install_srtp_def slab_get_lookup)
    qed
  qed (use Some k inv in \<open>simp add: install_srtp_def slab_get_lookup settled_refl\<close>)
qed (use inv in \<open>simp add: install_srtp_def settled_refl\<close>)

section \<open>Tracks\<close>

text \<open>The session after a track was pushed: to the published ones when its SSRC is known.\<close>

definition with_track :: "track_spec \<Rightarrow> key \<Rightarrow> session \<Rightarrow> session" where
  "with_track spec t se = (case ts_ssrc spec of
     Some ssrc \<Rightarrow> se\<lparr>se_published := se_published se @ [(ssrc, t)]\<rparr>
   | None \<Rightarrow> se\<lparr>se_unbound := se_unbound se @ [t]\<rparr>)"

definition pins_fit :: "track_spec \<Rightarrow> session \<Rightarrow> srtp_inbound option \<Rightarrow> bool" where
  "pins_fit spec se y \<longleftrightarrow> (y = None) = (se_srtp_in se = None) \<and>
     (\<forall>x. y = Some x \<longrightarrow> in_inv x \<and> in_pins x \<subseteq> set_option (ts_ssrc spec) \<union> fst ` set (se_published se))"

lemma session_ok_track:
  assumes "session_ok se" "session_track_count se < MAX_TRACKS_PER_SESSION" "pins_fit spec se y"
    and "\<And>ssrc. ts_ssrc spec = Some ssrc \<Longrightarrow> ssrc \<notin> fst ` set (se_published se)"
  shows "session_ok (with_track spec t (se\<lparr>se_srtp_in := y\<rparr>))"
  using assms
  by (cases "ts_ssrc spec") (auto simp: session_ok_def srtp_ok_def session_track_count_def ring_abs_def with_track_def pins_fit_def)

lemma with_track_sel [simp]:
  "se_id (with_track spec t se) = se_id se" "se_ice (with_track spec t se) = se_ice se"
  "addrs_of (with_track spec t se) = addrs_of se" "se_switch_listed (with_track spec t se) = se_switch_listed se"
  "se_subs (with_track spec t se) = se_subs se"
  by (simp_all add: with_track_def addrs_of_def split: option.splits)

lemma with_track_tracks:
  assumes "distinct (tracks_of se)" "t \<notin> set (tracks_of se)"
  shows "set (tracks_of (with_track spec t se)) = insert t (set (tracks_of se))" "distinct (tracks_of (with_track spec t se))"
  using assms by (auto simp: with_track_def tracks_of_def split: option.splits)

lemma insert_track_runs:
  assumes inv: "shard_inv held s" and k: "sess s k = Some se" and y: "pins_fit spec se y"
    and t1: "slab_ok t1" "slab_slot_count t1 = slab_slot_count (sh_sessions s)" "slab_lookup t1 = (sess s)(k \<mapsto> se\<lparr>se_srtp_in := y\<rparr>)"
    and room: "session_track_count se < MAX_TRACKS_PER_SESSION" and fresh: "hm_get (sh_track_ids s) track = None"
    and ssrc: "\<And>ssrc. ts_ssrc spec = Some ssrc \<Longrightarrow> ssrc \<notin> fst ` set (se_published se)" and wf: "spec_wf spec"
  shows "runs (insert_track k track spec (s\<lparr>sh_sessions := t1\<rparr>)) (\<lambda>(r, s'). settled held held s s')"
proof -
  note ok = inv_tables(1)[OF inv]
  let ?tr = "published_track_new track k spec" and ?se1 = "se\<lparr>se_srtp_in := y\<rparr>"
  have "slab_ok (sh_tracks s)" using ok by (simp add: tables_defs)
  then obtain t ts where ts: "slab_insert ?tr (sh_tracks s) = Some (t, ts)" "trks s t = None"
    "slab_lookup ts = (trks s)(t \<mapsto> ?tr)" "slab_ok ts" using insert_slab[OF _ slabs_room(1)[OF ok]] by blast
  have k1: "slab_lookup t1 k = Some ?se1" by (simp add: t1(3))
  define f where "f = (\<lambda>se :: session. with_track spec t se)"
  obtain t2 where t2: "slab_modify k f t1 = Some t2" "slab_lookup t2 = (slab_lookup t1)(k \<mapsto> f ?se1)" "slab_ok t2"
    "slab_slot_count t2 = slab_slot_count t1" by (rule modify_slab[OF t1(1) k1])
  let ?s = "s\<lparr>sh_sessions := t2, sh_tracks := ts, sh_track_ids := hm_insert track t (sh_track_ids s)\<rparr>"
  have push: "fixed_push MAX_TRACKS_PER_SESSION x (se_published se) = (True, se_published se @ [x])"
    "fixed_push MAX_TRACKS_PER_SESSION z (se_unbound se) = (True, se_unbound se @ [z])" for x z
    using room by (auto simp: fixed_push_def session_track_count_def)
  have eq: "slab_modify k g t1 = Some t2" if "g ?se1 = f ?se1" for g
    using t2(1) that k1 by (auto simp: slab_modify_def slab_lookup_def panic_simps split: if_splits)
  have "insert_track k track spec (s\<lparr>sh_sessions := t1\<rparr>) = Some (Inr (), ?s)"
    using ts(1) k1 push by (cases "ts_ssrc spec")
      (auto simp: insert_track_def slab_get_lookup update_session_def f_def with_track_def intro!: bind_eq_Some_conv[THEN iffD2] eq exI)
  moreover have "tables_ok ?s"
  proof -
    have se': "session_ok (f ?se1)" unfolding f_def by (rule session_ok_track[OF session_entry[OF ok k] room y ssrc])
    have same: "se_id (f ?se1) = se_id se" "se_ice (f ?se1) = se_ice se" "addrs_of (f ?se1) = addrs_of se"
      "se_switch_listed (f ?se1) = se_switch_listed se" "se_subs (f ?se1) = se_subs se"
      by (simp_all add: f_def) (simp add: addrs_of_def)
    have "t \<notin> set (tracks_of se)" using session_track[OF ok k, of t] ts(2) by auto
    then have tr: "distinct (tracks_of (f ?se1))" "set (tracks_of (f ?se1)) = insert t (set (tracks_of se))"
      using with_track_tracks[of ?se1 t spec] session_lists(1)[OF ok k] by (simp_all add: f_def tracks_of_def)
    have L: "slab_lookup t2 = (sess s)(k \<mapsto> f ?se1)" by (simp add: t2(2) t1(3))
    have "owned ((trks s)(t \<mapsto> ?tr)) ((sess s)(pt_session ?tr \<mapsto> f ?se1)) pt_session tracks_of"
      by (rule owned_add) (use ok ts(2) k tr in \<open>simp_all add: tables_defs published_track_new_def\<close>)
    moreover have "owned (subs s) ((sess s)(k \<mapsto> f ?se1)) sb_session se_subs"
      by (rule owned_parent[where y = se]) (use ok k same session_lists(2)[OF ok k] in \<open>simp_all add: tables_defs\<close>)
    moreover have "owned (subs s) ((trks s)(t \<mapsto> ?tr)) sb_track pt_subscribers"
      by (rule owned_new_parent) (use ok ts(2) in \<open>simp_all add: tables_defs published_track_new_def\<close>)
    moreover have "index_ok (hm_insert track t (sh_track_ids s)) ((trks s)(t \<mapsto> ?tr)) (\<lambda>t. {pt_id t})"
      by (rule index_insert) (use ok ts(2) fresh in \<open>simp_all add: tables_defs published_track_new_def\<close>)
    moreover note session_parts[OF ok k same(1-4) se']
    ultimately show ?thesis using ok wf ts(3,4) t2(3,4) t1(2) L unfolding tables_ok_def
      by (auto simp: stores_ok_def ids_ok_def links_ok_def entries_ok_def switches_ok_def addrs_ok_def published_track_new_def split: if_splits)
  qed
  then have "settled held held s ?s" using inv by (simp add: settled_def shard_inv_def bufs_ok_def ctl_def same_bufs_def)
  ultimately show ?thesis by simp
qed

lemma add_track_runs:
  assumes inv: "shard_inv held s" and wf: "spec_wf spec"
  shows "runs (add_track i track spec s) (\<lambda>(r, s'). settled held held s s')"
proof (cases "hm_get (sh_session_ids s) i")
  case (Some k)
  note ok = inv_tables(1)[OF inv]
  obtain se where k: "sess s k = Some se" using session_of_id[OF ok Some] by blast
  note so = session_entry[OF ok k]
  consider (refused) "hm_get (sh_track_ids s) track \<noteq> None \<or> session_track_count se \<ge> MAX_TRACKS_PER_SESSION \<or>
      (\<exists>ssrc. ts_ssrc spec = Some ssrc \<and> track_of_ssrc se ssrc \<noteq> None)"
    | (plain) "hm_get (sh_track_ids s) track = None" "session_track_count se < MAX_TRACKS_PER_SESSION"
        "\<forall>ssrc. ts_ssrc spec = Some ssrc \<longrightarrow> track_of_ssrc se ssrc = None" "ts_ssrc spec = None \<or> se_srtp_in se = None"
    | (pinned) ssrc x where "hm_get (sh_track_ids s) track = None" "session_track_count se < MAX_TRACKS_PER_SESSION"
        "ts_ssrc spec = Some ssrc" "track_of_ssrc se ssrc = None" "se_srtp_in se = Some x"
    by (cases "ts_ssrc spec"; cases "se_srtp_in se") fastforce+
  then show ?thesis
  proof cases
    case refused
    then show ?thesis using Some k inv by (auto simp: add_track_def slab_get_lookup settled_refl)
  next
    case plain
    have y: "pins_fit spec se (se_srtp_in se)" using so by (auto simp: pins_fit_def session_ok_def srtp_ok_def)
    have t: "slab_ok (sh_sessions s)" "sess s = (sess s)(k \<mapsto> se\<lparr>se_srtp_in := se_srtp_in se\<rparr>)"
      using ok k by (simp add: tables_defs) (use k in auto)
    have fresh: "ts_ssrc spec = Some ssrc \<Longrightarrow> ssrc \<notin> fst ` set (se_published se)" for ssrc
      using plain(3) track_of_ssrc_fresh by blast
    have "runs (insert_track k track spec (s\<lparr>sh_sessions := sh_sessions s\<rparr>)) (\<lambda>(r, s'). settled held held s s')"
      by (rule insert_track_runs[OF inv k y t(1) refl t(2) plain(2,1) fresh wf])
    then show ?thesis using Some k plain by (auto simp: add_track_def slab_get_lookup split: option.splits)
  next
    case pinned
    have x: "in_inv x" "in_pins x \<subseteq> fst ` set (se_published se)" using so pinned(5) by (simp_all add: session_ok_def srtp_ok_def)
    have fresh: "ssrc \<notin> fst ` set (se_published se)" by (rule track_of_ssrc_fresh[OF pinned(4)])
    have "length (se_published se) < MAX_TRACKS_PER_SESSION" using pinned(2) by (simp add: session_track_count_def)
    then obtain x' where x': "inbound_pin ssrc x = Some (Inr (), x')" "in_inv x'" "in_pins x' \<subseteq> insert ssrc (fst ` set (se_published se))"
      using pin_learned[OF x] by blast
    obtain t where t: "update_session k (\<lambda>se. se\<lparr>se_srtp_in := Some x'\<rparr>) s = Some (s\<lparr>sh_sessions := t\<rparr>)"
      "slab_lookup t = (sess s)(k \<mapsto> se\<lparr>se_srtp_in := Some x'\<rparr>)" "slab_ok t" "slab_slot_count t = slab_slot_count (sh_sessions s)"
      by (rule modify_session[OF ok k])
    have "pins_fit spec se (Some x')" using x' pinned(3,5) by (simp add: pins_fit_def)
    then have "runs (insert_track k track spec (s\<lparr>sh_sessions := t\<rparr>)) (\<lambda>(r, s'). settled held held s s')"
      using pinned fresh by (intro insert_track_runs[OF inv k _ t(3,4,2) _ _ _ wf]) auto
    then show ?thesis using Some k pinned x'(1) t(1) by (simp add: add_track_def slab_get_lookup)
  qed
qed (use inv in \<open>simp add: add_track_def settled_refl\<close>)

section \<open>Closing subscriptions\<close>

lemma position_here:
  assumes "x \<in> set xs" "distinct xs"
  obtains i where "position (\<lambda>k. k = x) xs = Some i" "i < length xs" "xs ! i = x"
    "set (take i xs @ drop (i + 1) xs) = set xs - {x}" "distinct (take i xs @ drop (i + 1) xs)"
proof -
  have "position (\<lambda>k. k = x) xs \<noteq> None" using assms(1) by (auto simp: position_None)
  then obtain i where i: "position (\<lambda>k. k = x) xs = Some i" by blast
  then have at: "i < length xs" "xs ! i = x" using position_Some[OF i] by simp_all
  have xs: "xs = take i xs @ x # drop (i + 1) xs" using id_take_nth_drop[OF at(1)] at(2) by simp
  then have d: "distinct (take i xs @ x # drop (i + 1) xs)" using assms(2) by simp
  have "set xs = insert x (set (take i xs @ drop (i + 1) xs))" by (subst xs) simp
  moreover have "x \<notin> set (take i xs @ drop (i + 1) xs)" using d by simp
  ultimately show ?thesis using that[OF i at] d by auto
qed

text \<open>Subscriptions go: the sessions keep their identity and tracks, the tracks their identity.\<close>

definition sub_closed :: "nat list \<Rightarrow> ('io, 'snk) shard \<Rightarrow> ('io, 'snk) shard \<Rightarrow> bool" where
  "sub_closed held s s' \<longleftrightarrow> settled held held s s' \<and>
     (\<forall>k se. sess s k = Some se \<longrightarrow> (\<exists>se'. sess s' k = Some se' \<and> se_id se' = se_id se \<and> tracks_of se' = tracks_of se)) \<and>
     (\<forall>t tr. trks s t = Some tr \<longrightarrow> (\<exists>tr'. trks s' t = Some tr' \<and> pt_session tr' = pt_session tr))"

lemma sub_closed_refl: "shard_inv held s \<Longrightarrow> sub_closed held s s"
  by (auto simp: sub_closed_def settled_refl)

lemma sub_closed_trans:
  assumes "sub_closed held s t" "sub_closed held t u" shows "sub_closed held s u"
  unfolding sub_closed_def
proof (intro conjI allI impI)
  show "settled held held s u" using assms settled_trans unfolding sub_closed_def by blast
next
  fix k se assume "sess s k = Some se"
  then obtain se' where "sess t k = Some se'" "se_id se' = se_id se" "tracks_of se' = tracks_of se"
    using assms(1) unfolding sub_closed_def by blast
  moreover from this obtain se'' where "sess u k = Some se''" "se_id se'' = se_id se'" "tracks_of se'' = tracks_of se'"
    using assms(2) unfolding sub_closed_def by blast
  ultimately show "\<exists>se'. sess u k = Some se' \<and> se_id se' = se_id se \<and> tracks_of se' = tracks_of se" by simp
next
  fix k tr assume "trks s k = Some tr"
  then obtain tr' where "trks t k = Some tr'" "pt_session tr' = pt_session tr"
    using assms(1) unfolding sub_closed_def by blast
  moreover from this obtain tr'' where "trks u k = Some tr''" "pt_session tr'' = pt_session tr'"
    using assms(2) unfolding sub_closed_def by blast
  ultimately show "\<exists>tr'. trks u k = Some tr' \<and> pt_session tr' = pt_session tr" by simp
qed

lemma sub_closed_inv: "sub_closed held s s' \<Longrightarrow> shard_inv held s'"
  by (simp add: sub_closed_def settled_def)

lemma out_ok_retire: "out_ok x \<Longrightarrow> out_ok (outbound_retire ssrc x)"
  using outbound_retire_inv by (fastforce simp: out_ok_def outbound_retire_def split: option.splits)

lemma remove_subscription_runs:
  assumes inv: "shard_inv held s" and b: "subs s b = Some sub"
  shows "runs (remove_subscription b s) (sub_closed held s)"
proof -
  note ok = inv_tables(1)[OF inv]
  obtain se where se: "sess s (sb_session sub) = Some se" "b \<in> set (se_subs se)" using sub_session[OF ok b] by blast
  obtain tr where tr: "trks s (sb_track sub) = Some tr" "b \<in> set (pt_subscribers tr)" using sub_track[OF ok b] by blast
  have dt: "distinct (pt_subscribers tr)" using ok tr owned_distinct unfolding tables_ok_def links_ok_def by metis
  note sl = session_lists[OF ok se(1)]
  have slabs: "slab_ok (sh_sessions s)" "slab_ok (sh_tracks s)" "slab_ok (sh_subs s)" using ok by (simp_all add: tables_defs)
  obtain p where p: "position (\<lambda>k. k = b) (se_subs se) = Some p"
    "set (take p (se_subs se) @ drop (p + 1) (se_subs se)) = set (se_subs se) - {b}" "distinct (take p (se_subs se) @ drop (p + 1) (se_subs se))"
    using position_here[OF se(2) sl(2)] by metis
  obtain q where q: "position (\<lambda>k. k = b) (pt_subscribers tr) = Some q" "q < length (pt_subscribers tr)" "pt_subscribers tr ! q = b"
    using position_here[OF tr(2) dt] by metis
  define f where "f = (\<lambda>se :: session. se\<lparr>se_srtp_out := map_option (outbound_retire (rw_out_ssrc (sb_rewrite sub))) (se_srtp_out se),
    se_subs := take p (se_subs se) @ drop (p + 1) (se_subs se)\<rparr>)"
  define g where "g = (\<lambda>t :: published_track. t\<lparr>pt_subscribers := swap_remove q (pt_subscribers t)\<rparr>)"
  obtain bs where bs: "slab_remove b (sh_subs s) = Some (sub, bs)" "slab_lookup bs = (subs s)(b := None)" "slab_ok bs"
    by (rule remove_slab[OF slabs(3) b])
  obtain t1 where t1: "slab_modify (sb_session sub) f (sh_sessions s) = Some t1" "slab_lookup t1 = (sess s)(sb_session sub \<mapsto> f se)"
    "slab_ok t1" "slab_slot_count t1 = slab_slot_count (sh_sessions s)" by (rule modify_slab[OF slabs(1) se(1)])
  obtain t2 where t2: "slab_modify (sb_track sub) g (sh_tracks s) = Some t2" "slab_lookup t2 = (trks s)(sb_track sub \<mapsto> g tr)" "slab_ok t2"
    by (rule modify_slab[OF slabs(2) tr(1)])
  have ids: "index_ok (sh_sub_ids s) (subs s) (\<lambda>b. {sb_id b})" using ok by (simp add: tables_defs)
  have id: "hm_get (sh_sub_ids s) (sb_id sub) = Some b" by (rule index_mem[OF ids b]) simp
  let ?s = "s\<lparr>sh_subs := bs, sh_sessions := t1, sh_tracks := t2, sh_sub_ids := hm_remove (sb_id sub) (sh_sub_ids s)\<rparr>"
  have eq: "remove_subscription b s = Some ?s"
    using bs(1) se(1) tr(1) p(1) q(1) t1(1) t2(1) id
    by (simp add: remove_subscription_def slab_get_lookup update_session_def update_track_def f_def g_def)
  have same: "se_id (f se) = se_id se" "se_ice (f se) = se_ice se" "addrs_of (f se) = addrs_of se"
    "se_switch_listed (f se) = se_switch_listed se" "tracks_of (f se) = tracks_of se" "se_subs (f se) = take p (se_subs se) @ drop (p + 1) (se_subs se)"
    "pt_id (g tr) = pt_id tr" "pt_session (g tr) = pt_session tr" "pt_spec (g tr) = pt_spec tr" "pt_subscribers (g tr) = swap_remove q (pt_subscribers tr)"
    by (simp_all add: f_def g_def addrs_of_def tracks_of_def)
  have so: "session_ok (f se)"
  proof -
    have "length (se_subs (f se)) \<le> MAX_SUBS_PER_SESSION"
      using sl(4) distinct_card[OF p(3)] distinct_card[OF sl(2)] card_mono[of "set (se_subs se)" "set (se_subs se) - {b}"]
      unfolding same(6) p(2)[symmetric] by (simp add: p(2))
    moreover have "srtp_ok (f se)" using session_entry[OF ok se(1)]
      by (auto simp: session_ok_def srtp_ok_def f_def out_ok_retire)
    ultimately show ?thesis using session_entry[OF ok se(1)]
      by (simp add: session_ok_def f_def session_track_count_def ring_abs_def)
  qed
  have "tables_ok ?s"
  proof -
    note sw = swap_remove_distinct[OF q(2) dt]
    have l: "owned (trks s) (sess s) pt_session tracks_of" "owned (subs s) (sess s) sb_session se_subs" "owned (subs s) (trks s) sb_track pt_subscribers"
      using ok by (simp_all add: tables_defs)
    have "owned ((trks s)(sb_track sub \<mapsto> g tr)) (sess s) pt_session tracks_of" by (rule owned_child[OF l(1) tr(1) same(8)])
    then have "owned ((trks s)(sb_track sub \<mapsto> g tr)) ((sess s)(sb_session sub \<mapsto> f se)) pt_session tracks_of"
      by (rule owned_parent[where y = se]) (use se(1) sl(1) same(5) in simp_all)
    moreover have "owned ((subs s)(b := None)) ((sess s)(sb_session sub \<mapsto> f se)) sb_session se_subs"
      by (rule owned_remove[OF l(2) b se(1)]) (use p same(6) in simp_all)
    moreover have "owned ((subs s)(b := None)) ((trks s)(sb_track sub \<mapsto> g tr)) sb_track pt_subscribers"
      by (rule owned_remove[OF l(3) b tr(1)]) (use sw q(3) same(10) in simp_all)
    moreover have "index_ok (hm_remove (sb_id sub) (sh_sub_ids s)) ((subs s)(b := None)) (\<lambda>b. {sb_id b})"
      by (rule index_delete[OF ids b]) simp
    moreover have "index_ok (sh_track_ids s) ((trks s)(sb_track sub \<mapsto> g tr)) (\<lambda>t. {pt_id t})"
      by (rule index_same[where v = tr]) (use ok tr(1) same(7) in \<open>simp_all add: tables_defs\<close>)
    moreover note session_parts[OF ok se(1) same(1-4) so]
    moreover have "spec_wf (pt_spec (g tr))" using ok tr(1) same(9) by (auto simp: tables_defs)
    ultimately show ?thesis using ok bs(2,3) t1(2-4) t2(2,3) unfolding tables_ok_def
      by (auto simp: stores_ok_def ids_ok_def links_ok_def entries_ok_def switches_ok_def addrs_ok_def split: if_splits)
  qed
  then have "settled held held s ?s" using inv by (simp add: settled_def shard_inv_def bufs_ok_def ctl_def same_bufs_def)
  then have "sub_closed held s ?s" using se(1) tr(1) same(1,5,7,8) by (simp add: sub_closed_def t1(2) t2(2))
  then show ?thesis using eq by simp
qed

lemma unsubscribe_runs:
  assumes inv: "shard_inv held s" shows "runs (unsubscribe i s) (\<lambda>(r, s'). settled held held s s')"
proof (cases "hm_get (sh_sub_ids s) i")
  case (Some b)
  obtain sub where "subs s b = Some sub" using id_sub[OF inv_tables(1)[OF inv] Some] by blast
  from remove_subscription_runs[OF inv this] show ?thesis using Some
    by (simp add: unsubscribe_def) (erule runs_bind, simp add: sub_closed_def)
qed (use inv in \<open>simp add: unsubscribe_def settled_refl\<close>)

lemma remove_subscribers_runs:
  "shard_inv held s \<Longrightarrow> trks s t = Some tr \<Longrightarrow>
   runs (remove_subscribers t s) (\<lambda>s'. sub_closed held s s' \<and> (\<exists>tr'. trks s' t = Some tr' \<and> pt_subscribers tr' = []))"
proof (induction t s arbitrary: tr rule: remove_subscribers.induct)
  case (1 t s)
  note inv = 1(2) and tr = 1(3)
  show ?case
  proof (cases "pt_subscribers tr = []")
    case True
    then show ?thesis using tr inv by (subst remove_subscribers.simps) (simp add: slab_get_lookup sub_closed_refl)
  next
    case False
    let ?b = "last (pt_subscribers tr)"
    obtain sub where b: "subs s ?b = Some sub" using track_sub[OF inv_tables(1)[OF inv] tr last_in_set[OF False]] by blast
    obtain u where u: "remove_subscription ?b s = Some u" "sub_closed held s u"
      using remove_subscription_runs[OF inv b] unfolding runs_def by blast
    obtain tr' where tr': "trks u t = Some tr'" using u(2) tr unfolding sub_closed_def by blast
    have "runs (remove_subscribers t u) (\<lambda>s'. sub_closed held u s' \<and> (\<exists>tr'. trks s' t = Some tr' \<and> pt_subscribers tr' = []))"
      by (rule 1(1)[OF _ False u(1) sub_closed_inv[OF u(2)] tr']) (use tr in \<open>simp add: slab_get_lookup\<close>)
    then have "runs (remove_subscribers t u) (\<lambda>s'. sub_closed held s s' \<and> (\<exists>tr'. trks s' t = Some tr' \<and> pt_subscribers tr' = []))"
      by (rule runs_mono) (use sub_closed_trans[OF u(2)] in blast)
    then show ?thesis using tr False u(1) by (subst remove_subscribers.simps) (simp add: slab_get_lookup)
  qed
qed

lemma remove_subs_of_runs:
  "shard_inv held s \<Longrightarrow> sess s k = Some se \<Longrightarrow>
   runs (remove_subs_of k s) (\<lambda>s'. sub_closed held s s' \<and> (\<exists>se'. sess s' k = Some se' \<and> se_subs se' = []))"
proof (induction k s arbitrary: se rule: remove_subs_of.induct)
  case (1 k s)
  note inv = 1(2) and se = 1(3)
  show ?case
  proof (cases "se_subs se = []")
    case True
    then show ?thesis using se inv by (subst remove_subs_of.simps) (simp add: slab_get_lookup sub_closed_refl)
  next
    case False
    let ?b = "last (se_subs se)"
    obtain sub where b: "subs s ?b = Some sub" using session_sub[OF inv_tables(1)[OF inv] se last_in_set[OF False]] by blast
    obtain u where u: "remove_subscription ?b s = Some u" "sub_closed held s u"
      using remove_subscription_runs[OF inv b] unfolding runs_def by blast
    obtain se' where se': "sess u k = Some se'" using u(2) se unfolding sub_closed_def by blast
    have "runs (remove_subs_of k u) (\<lambda>s'. sub_closed held u s' \<and> (\<exists>se'. sess s' k = Some se' \<and> se_subs se' = []))"
      by (rule 1(1)[OF _ False u(1) sub_closed_inv[OF u(2)] se']) (use se in \<open>simp add: slab_get_lookup\<close>)
    then have "runs (remove_subs_of k u) (\<lambda>s'. sub_closed held s s' \<and> (\<exists>se'. sess s' k = Some se' \<and> se_subs se' = []))"
      by (rule runs_mono) (use sub_closed_trans[OF u(2)] in blast)
    then show ?thesis using se False u(1) by (subst remove_subs_of.simps) (simp add: slab_get_lookup)
  qed
qed

section \<open>Closing tracks\<close>

definition sessions_kept :: "nat list \<Rightarrow> ('io, 'snk) shard \<Rightarrow> ('io, 'snk) shard \<Rightarrow> bool" where
  "sessions_kept held s s' \<longleftrightarrow> settled held held s s' \<and>
     (\<forall>k se. sess s k = Some se \<longrightarrow> (\<exists>se'. sess s' k = Some se' \<and> se_id se' = se_id se))"

lemma sessions_kept_refl: "shard_inv held s \<Longrightarrow> sessions_kept held s s"
  by (auto simp: sessions_kept_def settled_refl)

lemma sessions_kept_trans:
  assumes "sessions_kept held s t" "sessions_kept held t u" shows "sessions_kept held s u"
  unfolding sessions_kept_def
proof (intro conjI allI impI)
  show "settled held held s u" using assms settled_trans unfolding sessions_kept_def by blast
next
  fix k se assume "sess s k = Some se"
  then obtain se' where "sess t k = Some se'" "se_id se' = se_id se"
    using assms(1) unfolding sessions_kept_def by blast
  moreover from this obtain se'' where "sess u k = Some se''" "se_id se'' = se_id se'"
    using assms(2) unfolding sessions_kept_def by blast
  ultimately show "\<exists>se'. sess u k = Some se' \<and> se_id se' = se_id se" by simp
qed

lemma sub_closed_kept: "sub_closed held s s' \<Longrightarrow> sessions_kept held s s'"
  unfolding sub_closed_def sessions_kept_def by blast

lemma sessions_kept_inv: "sessions_kept held s s' \<Longrightarrow> shard_inv held s'"
  by (simp add: sessions_kept_def settled_def)

text \<open>The session without a track: what its two lists lose and what is unpinned.\<close>

definition without_track :: "key \<Rightarrow> session \<Rightarrow> session" where
  "without_track t se = (case swap_remove_where (\<lambda>p. snd p = t) (se_published se) of (bound, ps) \<Rightarrow>
     se\<lparr>se_published := ps, se_unbound := snd (swap_remove_where (\<lambda>u. u = t) (se_unbound se)),
       se_srtp_in := (case bound of None \<Rightarrow> se_srtp_in se | Some (ssrc, _) \<Rightarrow> map_option (inbound_unpin ssrc) (se_srtp_in se))\<rparr>)"

lemma without_track_sel [simp]:
  "se_id (without_track t se) = se_id se" "se_ice (without_track t se) = se_ice se" "addrs_of (without_track t se) = addrs_of se"
  "se_switch_listed (without_track t se) = se_switch_listed se" "se_subs (without_track t se) = se_subs se"
  by (simp_all add: without_track_def addrs_of_def split: prod.splits)

lemma in_unpinned:
  assumes "in_inv x" "in_pins x \<subseteq> fst ` set ps" "mset ps = add_mset (ssrc, t) (mset qs)"
  shows "in_inv (inbound_unpin ssrc x) \<and> in_pins (inbound_unpin ssrc x) \<subseteq> fst ` set qs"
proof -
  have "set ps = insert (ssrc, t) (set qs)" using mset_eq_setD[of ps "(ssrc, t) # qs"] assms(3) by simp
  then show ?thesis using inbound_unpin_inv(1)[OF assms(1)] inbound_unpin_pins[OF assms(1), of ssrc] assms(2) by auto
qed

lemma without_bound:
  assumes so: "session_ok se" and b: "swap_remove_where (\<lambda>p. snd p = t) (se_published se) = (Some (ssrc, t'), ps)"
    and u: "swap_remove_where (\<lambda>u. u = t) (se_unbound se) = (None, us)"
  shows "session_ok (without_track t se)" "mset (tracks_of se) = add_mset t (mset (tracks_of (without_track t se)))"
proof -
  from swap_remove_where_Some[OF b] have t: "t' = t" and m: "mset (se_published se) = add_mset (ssrc, t) (mset ps)" by auto
  from swap_remove_where_None[OF u] have us: "us = se_unbound se" by simp
  have w: "without_track t se = se\<lparr>se_published := ps, se_unbound := se_unbound se, se_srtp_in := map_option (inbound_unpin ssrc) (se_srtp_in se)\<rparr>"
    using b u us by (simp add: without_track_def)
  have "mset (map snd (se_published se)) = add_mset t (mset (map snd ps))" using m by simp
  then show "mset (tracks_of se) = add_mset t (mset (tracks_of (without_track t se)))" by (simp add: w tracks_of_def)
  have "mset (map fst (se_published se)) = mset (ssrc # map fst ps)" using m by simp
  then have "distinct (map fst ps)" using so mset_eq_imp_distinct_iff unfolding session_ok_def by fastforce
  moreover have "length (se_published se) = Suc (length ps)" using m by (metis size_add_mset size_mset)
  moreover have "\<forall>x. se_srtp_in se = Some x \<longrightarrow> in_inv (inbound_unpin ssrc x) \<and> in_pins (inbound_unpin ssrc x) \<subseteq> fst ` set ps"
    using so in_unpinned[OF _ _ m] by (simp add: session_ok_def srtp_ok_def)
  ultimately show "session_ok (without_track t se)"
    using so by (auto simp: w session_ok_def srtp_ok_def session_track_count_def ring_abs_def)
qed

lemma without_unbound:
  assumes so: "session_ok se" and b: "swap_remove_where (\<lambda>p. snd p = t) (se_published se) = (None, ps)"
    and u: "swap_remove_where (\<lambda>u. u = t) (se_unbound se) = (Some t', us)"
  shows "session_ok (without_track t se)" "mset (tracks_of se) = add_mset t (mset (tracks_of (without_track t se)))"
proof -
  from swap_remove_where_Some[OF u] have t: "t' = t" and m: "mset (se_unbound se) = add_mset t (mset us)" by auto
  from swap_remove_where_None[OF b] have ps: "ps = se_published se" by simp
  have w: "without_track t se = se\<lparr>se_unbound := us\<rparr>" using b u ps by (simp add: without_track_def)
  show "mset (tracks_of se) = add_mset t (mset (tracks_of (without_track t se)))" using m by (simp add: w tracks_of_def)
  have "length (se_unbound se) = Suc (length us)" using m by (metis size_add_mset size_mset)
  then show "session_ok (without_track t se)"
    using so by (auto simp: w session_ok_def srtp_ok_def session_track_count_def ring_abs_def)
qed

lemma without_track_ok:
  assumes so: "session_ok se" and d: "distinct (tracks_of se)" and t: "t \<in> set (tracks_of se)"
  obtains bound ps unbound us where "swap_remove_where (\<lambda>p. snd p = t) (se_published se) = (bound, ps)"
    "swap_remove_where (\<lambda>u. u = t) (se_unbound se) = (unbound, us)" "(bound \<noteq> None) \<noteq> (unbound \<noteq> None)"
    "session_ok (without_track t se)" "distinct (tracks_of (without_track t se))"
    "set (tracks_of (without_track t se)) = set (tracks_of se) - {t}"
proof -
  obtain bound ps where b: "swap_remove_where (\<lambda>p. snd p = t) (se_published se) = (bound, ps)" by (rule prod.exhaust)
  obtain unbound us where u: "swap_remove_where (\<lambda>u. u = t) (se_unbound se) = (unbound, us)" by (rule prod.exhaust)
  have nb: "bound = None \<longleftrightarrow> t \<notin> snd ` set (se_published se)"
    using swap_remove_where_None[of "\<lambda>p. snd p = t" "se_published se" ps] swap_remove_where_Some[of "\<lambda>p. snd p = t" "se_published se" _ ps] b
    by (cases bound) force+
  have nu: "unbound = None \<longleftrightarrow> t \<notin> set (se_unbound se)"
    using swap_remove_where_None[of "\<lambda>u. u = t" "se_unbound se" us] swap_remove_where_Some[of "\<lambda>u. u = t" "se_unbound se" _ us] u
    by (cases unbound) force+
  have one: "(bound \<noteq> None) \<noteq> (unbound \<noteq> None)" using d t nb nu by (auto simp: tracks_of_def)
  have r: "session_ok (without_track t se)" "mset (tracks_of se) = add_mset t (mset (tracks_of (without_track t se)))"
  proof (atomize (full), cases bound)
    case None
    then obtain t' where "unbound = Some t'" using one by blast
    then show "session_ok (without_track t se) \<and> mset (tracks_of se) = add_mset t (mset (tracks_of (without_track t se)))"
      using without_unbound[OF so, of t ps t' us] b u None by simp
  next
    case (Some p)
    then have "unbound = None" using one by blast
    then show "session_ok (without_track t se) \<and> mset (tracks_of se) = add_mset t (mset (tracks_of (without_track t se)))"
      using without_bound[OF so, of t "fst p" "snd p" ps us] b u Some by simp
  qed
  have "mset (tracks_of se) = mset (t # tracks_of (without_track t se))" using r(2) by simp
  then have "distinct (t # tracks_of (without_track t se))" "set (tracks_of se) = set (t # tracks_of (without_track t se))"
    using d mset_eq_imp_distinct_iff mset_eq_setD by blast+
  then show ?thesis using that[OF b u one r(1)] by auto
qed

lemma detach_track:
  assumes inv: "shard_inv held s" and tr: "trks s t = Some tr" and none: "pt_subscribers tr = []"
  shows "runs (do {
     (track, ts) \<leftarrow> slab_remove t (sh_tracks s);
     let s = s\<lparr>sh_tracks := ts\<rparr>;
     se \<leftarrow> slab_get (sh_sessions s) (pt_session track);
     let (bound, ps) = swap_remove_where (\<lambda>p. snd p = t) (se_published se);
     let (unbound, us) = swap_remove_where (\<lambda>u. u = t) (se_unbound se);
     rassert ((bound \<noteq> None) \<noteq> (unbound \<noteq> None));
     s \<leftarrow> update_session (pt_session track) (\<lambda>se. se\<lparr>se_published := ps, se_unbound := us,
        se_srtp_in := (case bound of None \<Rightarrow> se_srtp_in se
          | Some (ssrc, _) \<Rightarrow> map_option (inbound_unpin ssrc) (se_srtp_in se))\<rparr>) s;
     rassert (hm_get (sh_track_ids s) (pt_id track) = Some t);
     Some (s\<lparr>sh_track_ids := hm_remove (pt_id track) (sh_track_ids s)\<rparr>) }) (sessions_kept held s)"
proof -
  note ok = inv_tables(1)[OF inv]
  let ?k = "pt_session tr"
  obtain se where se: "sess s ?k = Some se" "t \<in> set (tracks_of se)" using track_session[OF ok tr] by blast
  note sl = session_lists[OF ok se(1)]
  have slabs: "slab_ok (sh_sessions s)" "slab_ok (sh_tracks s)" using ok by (simp_all add: tables_defs)
  obtain bound ps unbound us where w: "swap_remove_where (\<lambda>p. snd p = t) (se_published se) = (bound, ps)"
    "swap_remove_where (\<lambda>u. u = t) (se_unbound se) = (unbound, us)" "(bound \<noteq> None) \<noteq> (unbound \<noteq> None)"
    and new: "session_ok (without_track t se)" "distinct (tracks_of (without_track t se))"
    "set (tracks_of (without_track t se)) = set (tracks_of se) - {t}"
    by (rule without_track_ok[OF session_entry[OF ok se(1)] sl(1) se(2)])
  define f where "f = (\<lambda>se :: session. se\<lparr>se_published := ps, se_unbound := us, se_srtp_in := (case bound of None \<Rightarrow> se_srtp_in se
          | Some (ssrc, _) \<Rightarrow> map_option (inbound_unpin ssrc) (se_srtp_in se))\<rparr>)"
  have f: "f se = without_track t se" using w by (simp add: f_def without_track_def)
  obtain ts where ts: "slab_remove t (sh_tracks s) = Some (tr, ts)" "slab_lookup ts = (trks s)(t := None)" "slab_ok ts"
    by (rule remove_slab[OF slabs(2) tr])
  obtain t1 where t1: "slab_modify ?k f (sh_sessions s) = Some t1" "slab_lookup t1 = (sess s)(?k \<mapsto> f se)"
    "slab_ok t1" "slab_slot_count t1 = slab_slot_count (sh_sessions s)" by (rule modify_slab[OF slabs(1) se(1)])
  have ids: "index_ok (sh_track_ids s) (trks s) (\<lambda>t. {pt_id t})" using ok by (simp add: tables_defs)
  have id: "hm_get (sh_track_ids s) (pt_id tr) = Some t" by (rule index_mem[OF ids tr]) simp
  let ?s = "s\<lparr>sh_tracks := ts, sh_sessions := t1, sh_track_ids := hm_remove (pt_id tr) (sh_track_ids s)\<rparr>"
  have "tables_ok ?s"
  proof -
    have l: "owned (trks s) (sess s) pt_session tracks_of" "owned (subs s) (sess s) sb_session se_subs" "owned (subs s) (trks s) sb_track pt_subscribers"
      using ok by (simp_all add: tables_defs)
    have "owned ((trks s)(t := None)) ((sess s)(?k \<mapsto> f se)) pt_session tracks_of"
      by (rule owned_remove[OF l(1) tr se(1)]) (use new f in simp_all)
    moreover have "owned (subs s) ((sess s)(?k \<mapsto> f se)) sb_session se_subs"
      by (rule owned_parent[OF l(2), where y = se]) (use se(1) sl(2) f in simp_all)
    moreover have "owned (subs s) ((trks s)(t := None)) sb_track pt_subscribers"
      by (rule owned_drop_parent[OF l(3), where y = tr]) (use tr none in simp_all)
    moreover have "index_ok (hm_remove (pt_id tr) (sh_track_ids s)) ((trks s)(t := None)) (\<lambda>t. {pt_id t})"
      by (rule index_delete[OF ids tr]) simp
    moreover have "se_id (f se) = se_id se" "se_ice (f se) = se_ice se" "addrs_of (f se) = addrs_of se"
      "se_switch_listed (f se) = se_switch_listed se" "session_ok (f se)" using f new(1) by simp_all
    note session_parts[OF ok se(1) this]
    ultimately show ?thesis using ok ts(2,3) t1(2-4) unfolding tables_ok_def
      by (auto simp: stores_ok_def ids_ok_def links_ok_def entries_ok_def switches_ok_def addrs_ok_def split: if_splits)
  qed
  then have "settled held held s ?s" using inv by (simp add: settled_def shard_inv_def bufs_ok_def ctl_def same_bufs_def)
  then have "sessions_kept held s ?s" using se(1) f by (simp add: sessions_kept_def t1(2))
  then show ?thesis using ts(1) se(1) w t1(1) id
    by (simp add: slab_get_lookup update_session_def f_def[symmetric])
qed

lemma remove_track_runs:
  assumes inv: "shard_inv held s" and tr: "trks s t = Some tr"
  shows "runs (remove_track t s) (sessions_kept held s)"
  unfolding remove_track_def
proof (rule runs_bind[OF remove_subscribers_runs[OF inv tr]], goal_cases)
  case (1 u)
  then obtain tr' where u: "sub_closed held s u" "trks u t = Some tr'" "pt_subscribers tr' = []" by blast
  from detach_track[OF sub_closed_inv[OF u(1)] u(2,3)] show ?case
    by (rule runs_mono) (rule sessions_kept_trans[OF sub_closed_kept[OF u(1)]])
qed

lemma remove_track_cmd_runs:
  assumes inv: "shard_inv held s" shows "runs (remove_track_cmd i s) (\<lambda>(r, s'). settled held held s s')"
proof (cases "hm_get (sh_track_ids s) i")
  case (Some t)
  obtain tr where "trks s t = Some tr" using id_track[OF inv_tables(1)[OF inv] Some] by blast
  from remove_track_runs[OF inv this] show ?thesis using Some
    by (simp add: remove_track_cmd_def) (erule runs_bind, simp add: sessions_kept_def)
qed (use inv in \<open>simp add: remove_track_cmd_def settled_refl\<close>)

lemma remove_tracks_of_runs:
  "shard_inv held s \<Longrightarrow> sess s k = Some se \<Longrightarrow>
   runs (remove_tracks_of k s) (\<lambda>s'. sessions_kept held s s' \<and> (\<exists>se'. sess s' k = Some se' \<and> tracks_of se' = []))"
proof (induction k s arbitrary: se rule: remove_tracks_of.induct)
  case (1 k s)
  note inv = 1(2) and se = 1(3)
  show ?case
  proof (cases "tracks_of se")
    case Nil
    then show ?thesis using se inv
      by (subst remove_tracks_of.simps) (simp add: slab_get_lookup sessions_kept_refl tracks_of_def)
  next
    case (Cons t ts)
    obtain tr where tr: "trks s t = Some tr" using session_track[OF inv_tables(1)[OF inv] se, of t] Cons by auto
    obtain u where u: "remove_track t s = Some u" "sessions_kept held s u"
      using remove_track_runs[OF inv tr] unfolding runs_def by blast
    obtain se' where se': "sess u k = Some se'" using u(2) se unfolding sessions_kept_def by blast
    have "runs (remove_tracks_of k u) (\<lambda>s'. sessions_kept held u s' \<and> (\<exists>se'. sess s' k = Some se' \<and> tracks_of se' = []))"
      by (rule 1(1)[OF _ _ u(1) sessions_kept_inv[OF u(2)] se']) (use se Cons in \<open>simp_all add: slab_get_lookup tracks_of_def\<close>)
    then have "runs (remove_tracks_of k u) (\<lambda>s'. sessions_kept held s s' \<and> (\<exists>se'. sess s' k = Some se' \<and> tracks_of se' = []))"
      by (rule runs_mono) (use sessions_kept_trans[OF u(2)] in blast)
    then show ?thesis using se Cons u(1) by (subst remove_tracks_of.simps) (simp add: slab_get_lookup tracks_of_def)
  qed
qed

section \<open>Closing sessions\<close>

text \<open>The address map without an address of session \<open>k\<close>.\<close>

definition unmapped :: "key \<Rightarrow> sock_addr option \<Rightarrow> (sock_addr, key) hmap \<Rightarrow> (sock_addr, key) hmap" where
  "unmapped k a m = (case a of None \<Rightarrow> m | Some addr \<Rightarrow> if hm_get m addr = Some k then hm_remove addr m else m)"

lemma unmap_addr_eq: "unmap_addr k a s = s\<lparr>sh_by_addr := unmapped k a (sh_by_addr s)\<rparr>"
  by (simp add: unmap_addr_def unmapped_def split: option.splits)

lemma unmapped_index:
  assumes i: "index_ok m L F" and k: "L k = Some v" and F: "F v' = F v - set_option a"
  shows "index_ok (unmapped k a m) (L(k \<mapsto> v')) F"
proof (cases "\<exists>x. a = Some x \<and> x \<in> F v")
  case True
  then obtain x where x: "a = Some x" "x \<in> F v" by blast
  then show ?thesis using index_shrink[OF i k, where i = x and v' = v'] index_mem[OF i k x(2)] F by (simp add: unmapped_def)
next
  case False
  then have "F v' = F v" using F by (cases a) auto
  moreover have "unmapped k a m = m" using False index_get[OF i] k by (fastforce simp: unmapped_def split: option.splits)
  ultimately show ?thesis using index_same[where v = v, OF i k] by simp
qed

lemma drop_session_runs:
  assumes inv: "shard_inv held s" and k: "sess s k = Some se" and none: "tracks_of se = []" "se_subs se = []" and i: "se_id se = i"
  shows "runs (do {
       let s = s\<lparr>sh_pending_switches := filter (\<lambda>j. j \<noteq> k) (sh_pending_switches s)\<rparr>;
       (se, t) \<leftarrow> slab_remove k (sh_sessions s);
       let s = s\<lparr>sh_sessions := t\<rparr>;
       let s = unmap_addr k (se_prev_addr se) (unmap_addr k (se_addr se) s);
       rassert (hm_get (sh_by_ufrag s) (ice_local_ufrag (se_ice se)) = Some k);
       let s = s\<lparr>sh_by_ufrag := hm_remove (ice_local_ufrag (se_ice se)) (sh_by_ufrag s)\<rparr>;
       Some (Inr (), s\<lparr>sh_session_ids := hm_remove i (sh_session_ids s)\<rparr>) })
    (\<lambda>(r, s'). settled held held s s' \<and> r = Inr () \<and> sess s' k = None \<and> hm_get (sh_session_ids s') i = None)"
proof -
  note ok = inv_tables(1)[OF inv]
  have so: "slab_ok (sh_sessions s)" using ok by (simp add: tables_defs)
  obtain t where t: "slab_remove k (sh_sessions s) = Some (se, t)" "slab_lookup t = (sess s)(k := None)" "slab_ok t"
    "slab_slot_count t = slab_slot_count (sh_sessions s)" by (rule remove_slab[OF so k])
  let ?m = "unmapped k (se_prev_addr se) (unmapped k (se_addr se) (sh_by_addr s))" and ?u = "ice_local_ufrag (se_ice se)"
  let ?s = "s\<lparr>sh_pending_switches := filter (\<lambda>j. j \<noteq> k) (sh_pending_switches s), sh_sessions := t, sh_by_addr := ?m,
    sh_by_ufrag := hm_remove ?u (sh_by_ufrag s), sh_session_ids := hm_remove i (sh_session_ids s)\<rparr>"
  let ?e = "se\<lparr>se_addr := None\<rparr>"
  have ad: "index_ok (sh_by_addr s) (sess s) addrs_of" using ok by (simp add: tables_defs)
  have "se_addr se \<noteq> se_prev_addr se \<or> se_addr se = None"
    using session_entry[OF ok k] by (auto simp: session_ok_def)
  then have "addrs_of ?e = addrs_of se - set_option (se_addr se)" by (cases "se_addr se"; cases "se_prev_addr se") (auto simp: addrs_of_def)
  from unmapped_index[where v' = ?e, OF ad k this]
  have "index_ok (unmapped k (se_addr se) (sh_by_addr s)) ((sess s)(k \<mapsto> ?e)) addrs_of" .
  then have "index_ok ?m (((sess s)(k \<mapsto> ?e))(k \<mapsto> ?e\<lparr>se_prev_addr := None\<rparr>)) addrs_of"
    by (rule unmapped_index[where v = ?e]) (simp_all add: addrs_of_def)
  then have "index_ok ?m ((((sess s)(k \<mapsto> ?e))(k \<mapsto> ?e\<lparr>se_prev_addr := None\<rparr>))(k := None)) addrs_of"
    by (rule index_drop[where v = "?e\<lparr>se_prev_addr := None\<rparr>"]) (simp_all add: addrs_of_def)
  then have a: "index_ok ?m ((sess s)(k := None)) addrs_of" by simp
  have ids: "index_ok (sh_session_ids s) (sess s) (\<lambda>se. {se_id se})" "index_ok (sh_by_ufrag s) (sess s) (\<lambda>se. {ice_local_ufrag (se_ice se)})"
    using ok by (simp_all add: tables_defs)
  have uf: "hm_get (sh_by_ufrag s) ?u = Some k" by (rule index_mem[OF ids(2) k]) simp
  have b: "index_ok (hm_remove i (sh_session_ids s)) ((sess s)(k := None)) (\<lambda>se. {se_id se})"
    "index_ok (hm_remove ?u (sh_by_ufrag s)) ((sess s)(k := None)) (\<lambda>se. {ice_local_ufrag (se_ice se)})"
    using index_delete[where v = se, OF ids(1) k, of i] index_delete[where v = se, OF ids(2) k, of ?u] i by simp_all
  have "owned (trks s) ((sess s)(k := None)) pt_session tracks_of" "owned (subs s) ((sess s)(k := None)) sb_session se_subs"
    using ok owned_drop_parent[where y = se and P = "sess s" and p = k] k none unfolding tables_ok_def links_ok_def by blast+
  then have "tables_ok ?s" using ok t(2-4) a b unfolding tables_ok_def
    by (auto simp: stores_ok_def ids_ok_def links_ok_def entries_ok_def switches_ok_def addrs_ok_def split: if_splits)
  then have "settled held held s ?s" using inv by (simp add: settled_def shard_inv_def bufs_ok_def ctl_def same_bufs_def)
  moreover have "hm_get (hm_remove i (sh_session_ids s)) i = None" using ids(1) by (simp add: index_ok_def)
  ultimately show ?thesis using t(1,2) uf by (simp add: unmap_addr_eq)
qed

lemma close_session_ok:
  assumes inv: "shard_inv held s" and i: "hm_get (sh_session_ids s) i = Some k"
  shows "runs (close_session i s) (\<lambda>(r, s'). settled held held s s' \<and> r = Inr () \<and> sess s' k = None \<and> hm_get (sh_session_ids s') i = None)"
proof -
  obtain se where se: "sess s k = Some se" "se_id se = i" using session_of_id[OF inv_tables(1)[OF inv] i] by blast
  show ?thesis unfolding close_session_def i option.case
  proof (rule runs_bind[OF remove_tracks_of_runs[OF inv se(1)]], goal_cases)
    case (1 u)
    then obtain se1 where u: "sessions_kept held s u" "sess u k = Some se1" "tracks_of se1 = []" by blast
    then have id1: "se_id se1 = i" using se unfolding sessions_kept_def by fastforce
    show ?case
    proof (rule runs_bind[OF remove_subs_of_runs[OF sessions_kept_inv[OF u(1)] u(2)]], goal_cases)
      case (1 v)
      then obtain se2 where v: "sub_closed held u v" "sess v k = Some se2" "se_subs se2 = []" by blast
      then have "se_id se2 = i" "tracks_of se2 = []" using u(2,3) id1 unfolding sub_closed_def by fastforce+
      note d = drop_session_runs[OF sub_closed_inv[OF v(1)] v(2) this(2) v(3) this(1)]
      have "settled held held s v" using settled_trans[of held held s u held v] u(1) v(1) by (simp add: sessions_kept_def sub_closed_def)
      then show ?case by (intro runs_mono[OF d]) (auto intro: settled_trans)
    qed
  qed
qed

lemma close_session_runs:
  assumes inv: "shard_inv held s"
  shows "runs (close_session i s) (\<lambda>(r, s'). settled held held s s')"
proof (cases "hm_get (sh_session_ids s) i")
  case (Some k)
  from close_session_ok[OF inv this] show ?thesis by (rule runs_mono) auto
qed (use inv in \<open>simp add: close_session_def settled_refl\<close>)

section \<open>Subscribing\<close>

definition sub_spec_wf :: "sub_spec \<Rightarrow> bool" where
  "sub_spec_wf sp \<longleftrightarrow> pt_map_ok (ss_pt_map sp) \<and> length (em_map (ss_ext_map sp)) = 15 \<and> ss_mid sp \<noteq> [] \<and>
     length (ss_mid sp) \<le> MID_CAPACITY"

lemma insert_subscription_runs:
  assumes E: "env_ok E" and inv: "shard_inv held s" and k: "sess s k = Some se" and t: "trks s t = Some tr"
    and room: "length (se_subs se) < MAX_SUBS_PER_SESSION" and fresh: "hm_get (sh_sub_ids s) sub = None"
    and wf: "sub_spec_wf spec" "ext_map_is_valid (ss_ext_map spec)"
  shows "runs (insert_subscription E k sub t spec now s) (\<lambda>(r, s'). settled held held s s')"
proof -
  note ok = inv_tables(1)[OF inv]
  define new where "new = \<lparr>sb_id = sub, sb_session = k, sb_track = t,
        sb_rewrite = rewrite_state_new (ss_out_ssrc spec), sb_ext_map = ss_ext_map spec,
        sb_pub_mid = xi_mid (ts_ext (pt_spec tr)), sb_clock_rate = cp_clock_rate (ts_codec (pt_spec tr)),
        sb_pt_map = ss_pt_map spec, sb_mid = ss_mid spec, sb_sent_packets = 0, sb_sent_octets = 0\<rparr>"
  have n: "sb_id new = sub" "sb_session new = k" "sb_track new = t" "sub_maps_ok new"
    using wf by (simp_all add: new_def sub_maps_ok_def sub_spec_wf_def)
  have slabs: "slab_ok (sh_sessions s)" "slab_ok (sh_tracks s)" "slab_ok (sh_subs s)" using ok by (simp_all add: tables_defs)
  obtain b bs where bs: "slab_insert new (sh_subs s) = Some (b, bs)" "subs s b = None" "slab_lookup bs = (subs s)(b \<mapsto> new)" "slab_ok bs"
    using insert_slab[OF slabs(3) slabs_room(2)[OF ok]] by blast
  define f where "f = (\<lambda>se :: session. se\<lparr>se_subs := se_subs se @ [b]\<rparr>)"
  define g where "g = (\<lambda>t :: published_track. t\<lparr>pt_subscribers := pt_subscribers t @ [b]\<rparr>)"
  obtain t1 where t1: "slab_modify k f (sh_sessions s) = Some t1" "slab_lookup t1 = (sess s)(k \<mapsto> f se)"
    "slab_ok t1" "slab_slot_count t1 = slab_slot_count (sh_sessions s)" by (rule modify_slab[OF slabs(1) k])
  obtain t2 where t2: "slab_modify t g (sh_tracks s) = Some t2" "slab_lookup t2 = (trks s)(t \<mapsto> g tr)" "slab_ok t2"
    by (rule modify_slab[OF slabs(2) t])
  define u where "u = s\<lparr>sh_subs := bs, sh_sessions := t1, sh_tracks := t2, sh_sub_ids := hm_insert sub b (sh_sub_ids s)\<rparr>"
  have same: "se_id (f se) = se_id se" "se_ice (f se) = se_ice se" "addrs_of (f se) = addrs_of se"
    "se_switch_listed (f se) = se_switch_listed se" "session_ok (f se)" "tracks_of (f se) = tracks_of se" "se_subs (f se) = se_subs se @ [b]"
    "pt_id (g tr) = pt_id tr" "pt_session (g tr) = pt_session tr" "pt_spec (g tr) = pt_spec tr" "pt_subscribers (g tr) = pt_subscribers tr @ [b]"
    using session_entry[OF ok k] room
    by (auto simp: f_def g_def addrs_of_def tracks_of_def session_ok_def srtp_ok_def session_track_count_def ring_abs_def)
  have "tables_ok u"
  proof -
    have l: "owned (trks s) (sess s) pt_session tracks_of" "owned (subs s) (sess s) sb_session se_subs" "owned (subs s) (trks s) sb_track pt_subscribers"
      using ok by (simp_all add: tables_defs)
    note d = session_lists[OF ok k] owned_distinct[OF l(3) t]
    have nin: "b \<notin> set (se_subs se)" "b \<notin> set (pt_subscribers tr)"
      using session_sub[OF ok k, of b] track_sub[OF ok t, of b] bs(2) by auto
    have "owned ((trks s)(t \<mapsto> g tr)) (sess s) pt_session tracks_of" by (rule owned_child[OF l(1) t same(9)])
    then have "owned ((trks s)(t \<mapsto> g tr)) ((sess s)(k \<mapsto> f se)) pt_session tracks_of"
      by (rule owned_parent[where y = se]) (use k d same(6) in simp_all)
    moreover have "owned ((subs s)(b \<mapsto> new)) ((sess s)(sb_session new \<mapsto> f se)) sb_session se_subs"
      by (rule owned_add[OF l(2) bs(2)]) (use k n same(7) d nin in simp_all)
    moreover have "owned ((subs s)(b \<mapsto> new)) ((trks s)(sb_track new \<mapsto> g tr)) sb_track pt_subscribers"
      by (rule owned_add[OF l(3) bs(2)]) (use t n same(11) d nin in simp_all)
    moreover have "index_ok (hm_insert sub b (sh_sub_ids s)) ((subs s)(b \<mapsto> new)) (\<lambda>b. {sb_id b})"
      by (rule index_insert) (use ok bs(2) n fresh in \<open>simp_all add: tables_defs\<close>)
    moreover have "index_ok (sh_track_ids s) ((trks s)(t \<mapsto> g tr)) (\<lambda>t. {pt_id t})"
      by (rule index_same[where v = tr]) (use ok t same(8) in \<open>simp_all add: tables_defs\<close>)
    moreover note session_parts[OF ok k same(1-5)]
    moreover have "spec_wf (pt_spec (g tr))" using ok t same(10) by (auto simp: tables_defs)
    ultimately show ?thesis using ok n bs(3,4) t1(2-4) t2(2,3) unfolding tables_ok_def u_def
      by (auto simp: stores_ok_def ids_ok_def links_ok_def entries_ok_def switches_ok_def addrs_ok_def split: if_splits)
  qed
  then have su: "settled held held s u" using inv by (simp add: settled_def shard_inv_def bufs_ok_def ctl_def same_bufs_def u_def)
  have tu: "trks u t = Some (g tr)" "sess u k = Some (f se)" by (simp_all add: u_def t1(2) t2(2))
  have "runs (request_keyframe E t now u) (\<lambda>s'. settled held held s s')"
    by (rule runs_mono[OF request_keyframe_runs[OF E settled_inv[OF su] tu(1)]]) (rule settled_trans[OF su step_settled])
  then have "runs (if se_srtp_out (f se) \<noteq> None then request_keyframe E t now u else Some u) (\<lambda>s'. settled held held s s')"
    using su by simp
  then have "runs ((if se_srtp_out (f se) \<noteq> None then request_keyframe E t now u else Some u) \<bind> (\<lambda>s. Some (Inr (), s)))
      (\<lambda>(r, s'). settled held held s s')" by (rule runs_bind) simp
  moreover have "update_track t g (s\<lparr>sh_subs := bs, sh_sessions := t1\<rparr>) = Some (s\<lparr>sh_subs := bs, sh_sessions := t1, sh_tracks := t2\<rparr>)"
    using t2(1) by (simp add: update_track_def)
  moreover have "update_session k f (s\<lparr>sh_subs := bs\<rparr>) = Some (s\<lparr>sh_subs := bs, sh_sessions := t1\<rparr>)"
    using t1(1) by (simp add: update_session_def)
  ultimately show ?thesis using t bs(1)
    by (simp add: insert_subscription_def slab_get_lookup t1(2) new_def[symmetric] f_def[symmetric] g_def[symmetric] u_def[symmetric])
qed

lemma out_ok_register:
  assumes "out_ok x" shows "\<exists>r x'. outbound_register ssrc x = Some (r, x') \<and> out_ok x'"
proof -
  obtain L M where x: "cipher_ok (out_cipher x)" "out_inv x L M" using assms by (auto simp: out_ok_def)
  obtain r x' where r: "outbound_register ssrc x = Some (r, x')" "out_inv x' L M" using outbound_register_inv[OF x(2)] by blast
  have "out_cipher x' = out_cipher x" using r(1) by (auto simp: outbound_register_def Let_def panic_simps split: if_splits option.splits)
  then show ?thesis using x(1) r by (auto simp: out_ok_def)
qed

lemma subscribe_runs:
  assumes E: "env_ok E" and inv: "shard_inv held s" and wf: "sub_spec_wf spec"
  shows "runs (subscribe E i sub track spec now s) (\<lambda>(r, s'). settled held held s s')"
proof (cases "\<exists>k t. hm_get (sh_session_ids s) i = Some k \<and> hm_get (sh_track_ids s) track = Some t")
  case True
  then obtain k t where ids: "hm_get (sh_session_ids s) i = Some k" "hm_get (sh_track_ids s) track = Some t" by blast
  note ok = inv_tables(1)[OF inv]
  obtain se where k: "sess s k = Some se" using session_of_id[OF ok ids(1)] by blast
  obtain tr where t: "trks s t = Some tr" using id_track[OF ok ids(2)] by blast
  note so = session_entry[OF ok k]
  let ?o = "out_ssrc_offset se (ss_out_ssrc spec)"
  show ?thesis
  proof (cases "hm_get (sh_sub_ids s) sub \<noteq> None \<or> (tr_shard (ss_source spec) \<noteq> sc_shard (sh_config s) \<or> tr_track (ss_source spec) \<noteq> track) \<or>
      \<not> ext_map_is_valid (ss_ext_map spec) \<or> length (se_subs se) \<ge> MAX_SUBS_PER_SESSION \<or>
      (?o \<le> se_last_out_ssrc_offset se \<or> ?o > MAX_OUT_SSRC_OFFSET)")
    case True
    then show ?thesis using ids k inv by (auto simp: subscribe_def slab_get_lookup settled_refl Let_def)
  next
    case False
    let ?f = "\<lambda>se :: session. se\<lparr>se_last_out_ssrc_offset := ?o\<rparr>"
    have ins: "runs (update_session k ?f u \<bind> insert_subscription E k sub t spec now) (\<lambda>(r, s'). settled held held s s')"
      if u: "step held held s u" "sess u k = Some se'" "se_subs se' = se_subs se" "sh_sub_ids u = sh_sub_ids s" for u se'
    proof (rule runs_bind[OF update_session_runs[where f = ?f, OF inv_tables(1)[OF step_inv[OF u(1)]] u(2)]], goal_cases)
      case (3 v)
      have sv: "step held held s v"
        by (rule step_trans[OF u(1) sess_step_step[OF step_inv[OF u(1)] 3 u(2)]]) (simp add: se_view_def tracks_of_def)
      obtain tr' where tr': "trks v t = Some tr'" using shape_track[OF _ t, of v] sv by (auto simp: step_def)
      have v: "sess v k = Some (?f se')" "sh_sub_ids v = sh_sub_ids s"
        using sess_stepD(2)[OF 3] sess_stepD(3)[OF 3] u(4) by auto
      have "runs (insert_subscription E k sub t spec now v) (\<lambda>(r, s'). settled held held v s')"
        by (rule insert_subscription_runs[OF E step_inv[OF sv] v(1) tr' _ _ wf]) (use False u(3) v(2) in simp_all)
      then show ?case by (rule runs_mono) (auto intro: settled_trans[OF step_settled[OF sv]])
    qed (use session_entry[OF inv_tables(1)[OF step_inv[OF u(1)]] u(2)] in \<open>auto simp: session_defs\<close>)
    show ?thesis
    proof (cases "se_srtp_out se")
      case None
      have "runs (update_session k ?f s \<bind> insert_subscription E k sub t spec now) (\<lambda>(r, s'). settled held held s s')"
        by (rule ins[OF step_refl[OF inv] k]) simp_all
      then show ?thesis using ids k False None by (simp add: subscribe_def slab_get_lookup Let_def)
    next
      case (Some x)
      obtain r x' where r: "outbound_register (ss_out_ssrc spec) x = Some (r, x')" "out_ok x'"
        using out_ok_register[OF session_out_ok[OF ok k Some]] by blast
      let ?g = "\<lambda>se :: session. se\<lparr>se_srtp_out := Some x'\<rparr>"
      have up: "runs (update_session k ?g s) (sess_step k (?g se) s)"
        by (rule update_session_runs[OF ok k]) (use session_ok_out[OF so _ r(2)] Some in simp_all)
      have "runs (case r of Inl _ \<Rightarrow> Some (Inl SrtpSetup, u)
         | Inr _ \<Rightarrow> update_session k ?f u \<bind> insert_subscription E k sub t spec now) (\<lambda>(r, s'). settled held held s s')"
        if u: "sess_step k (?g se) s u" for u
      proof -
        have su: "step held held s u" by (rule sess_step_step[OF inv u k]) simp
        have "sess u k = Some (?g se)" "sh_sub_ids u = sh_sub_ids s" using sess_stepD(2)[OF u] sess_stepD(3)[OF u] by auto
        from ins[OF su this(1) _ this(2)] show ?thesis using step_settled[OF su] by (cases r) simp_all
      qed
      then have "runs (update_session k ?g s \<bind> (\<lambda>u. case r of Inl _ \<Rightarrow> Some (Inl SrtpSetup, u)
         | Inr _ \<Rightarrow> update_session k ?f u \<bind> insert_subscription E k sub t spec now)) (\<lambda>(r, s'). settled held held s s')"
        by (rule runs_bind[OF up])
      then show ?thesis using ids k False Some r(1) by (simp add: subscribe_def slab_get_lookup Let_def)
    qed
  qed
qed (use inv in \<open>auto simp: subscribe_def settled_refl split: option.splits\<close>)

section \<open>Commands\<close>

text \<open>What the types of the source guarantee of a command's fields.\<close>

fun command_wf :: "command \<Rightarrow> bool" where
  "command_wf (CreateSession _ ice _) = ice_wf ice"
| "command_wf (InstallSrtp _ keys) = (material_ok (sx_local keys) \<and> material_ok (sx_remote keys))"
| "command_wf (AddTrack _ _ spec) = spec_wf spec"
| "command_wf (Subscribe _ _ _ spec) = sub_spec_wf spec"
| "command_wf _ = True"

lemma apply_command_runs:
  assumes "env_ok E" "shard_inv held s" "command_wf c"
  shows "runs (apply_command E c now s) (\<lambda>(r, s'). settled held held s s')"
  using assms
  by (cases c) (auto intro!: create_session_runs send_datagram_runs install_srtp_runs add_track_runs remove_track_cmd_runs
    subscribe_runs unsubscribe_runs close_session_runs)

lemma addrs_of_card: "card (addrs_of se) \<le> 2"
proof -
  have "card (set_option a) \<le> 1" for a :: "sock_addr option" by (cases a) simp_all
  then show ?thesis unfolding addrs_of_def using card_Un_le[of "set_option (se_addr se)" "set_option (se_prev_addr se)"]
    by (metis add_le_mono le_trans one_add_one)
qed

lemma check_tables_ok:
  assumes ok: "tables_ok s" shows "check_tables s = Some ()"
proof -
  have sl: "slab_ok (sh_sessions s)" "slab_ok (sh_tracks s)" "slab_ok (sh_subs s)" using ok by (simp_all add: tables_defs)
  note n = slab_len_card[OF sl(1)] slab_len_card[OF sl(2)] slab_len_card[OF sl(3)]
  have i: "index_ok (sh_session_ids s) (sess s) (\<lambda>se. {se_id se})" "index_ok (sh_by_ufrag s) (sess s) (\<lambda>se. {ice_local_ufrag (se_ice se)})"
    "index_ok (sh_track_ids s) (trks s) (\<lambda>t. {pt_id t})" "index_ok (sh_sub_ids s) (subs s) (\<lambda>b. {sb_id b})"
    "index_ok (sh_by_addr s) (sess s) addrs_of" using ok by (simp_all add: tables_defs)
  show ?thesis
    using index_length_eq[OF i(1) n(2)] index_length_eq[OF i(2) n(2)] index_length_eq[OF i(3) n(4)] index_length_eq[OF i(4) n(6)]
      index_length_le[OF i(5) n(2) addrs_of_card] n
    by (simp add: check_tables_def)
qed

lemma handle_command_runs:
  assumes E: "env_ok E" and inv: "shard_inv held s" and c: "command_wf c"
  shows "runs (handle_command E c now s) (settled held held s)"
  unfolding handle_command_def
proof (rule runs_bind[OF apply_command_runs[OF E _ c, of held]], goal_cases)
  case (2 p)
  obtain r t where p: "p = (r, t)" by (cases p)
  then have t: "settled held held s t" using 2 by simp
  have "runs (case r of Inr _ \<Rightarrow> Some t | Inl reason \<Rightarrow> do {
      (_, s) \<leftarrow> emit E (CommandRejected (command_session c) reason) (count1 Commands_rejected t); Some s }) (settled held held s)"
  proof (cases r)
    case (Inl reason)
    let ?t = "count1 Commands_rejected t"
    have it: "shard_inv held ?t" using settled_inv[OF t] by simp
    have "runs (emit E (CommandRejected (command_session c) reason) ?t) (\<lambda>(b, s'). emit_step ?t s')"
      using it by (intro emit_runs) (simp_all add: shard_inv_def)
    then have "runs (emit E (CommandRejected (command_session c) reason) ?t \<bind> (\<lambda>(_, s). Some s)) (settled held held s)"
    proof (rule runs_bind, goal_cases)
      case (1 q)
      then obtain b u where q: "q = (b, u)" "emit_step ?t u" by (cases q) auto
      have "settled held held ?t u" by (rule step_settled[OF emit_step_step[OF it q(2)]])
      then have "settled held held s u" using settled_trans[OF t] by simp
      then show ?case using q(1) by simp
    qed
    then show ?thesis using Inl by simp
  qed (use t in simp)
  then have "runs ((case r of Inr _ \<Rightarrow> Some t | Inl reason \<Rightarrow> do {
      (_, s) \<leftarrow> emit E (CommandRejected (command_session c) reason) (count1 Commands_rejected t); Some s }) \<bind>
      (\<lambda>s. do { check_tables s; Some s })) (settled held held s)"
    by (rule runs_bind) (simp add: check_tables_ok[OF inv_tables(1)[OF settled_inv]])
  then show ?case using p by simp
qed (use inv in simp)

text \<open>The budgeted loop: every command still in the channel stays well formed.\<close>

definition drained :: "('io, 'snk) shard \<Rightarrow> ('io, 'snk) shard \<Rightarrow> bool" where
  "drained s s' \<longleftrightarrow> (\<exists>n. sh_commands s' = drop n (sh_commands s)) \<and> sh_config s' = sh_config s \<and> sh_epoch s' = sh_epoch s \<and>
     sh_rx s' = sh_rx s \<and> sh_next_housekeeping s' = sh_next_housekeeping s"

lemma drain_loop_runs:
  assumes E: "env_ok E"
  shows "shard_inv held s \<Longrightarrow> \<forall>c\<in>set (sh_commands s). command_wf c \<Longrightarrow>
    runs (drain_loop n E now h s) (\<lambda>(h', s'). shard_inv held s' \<and> drained s s')"
proof (induction n arbitrary: h s)
  case (Suc n)
  show ?case
  proof (cases "sh_commands s")
    case Nil
    then show ?thesis using Suc.prems by (simp add: drained_def)
  next
    case (Cons c cs)
    let ?s = "s\<lparr>sh_commands := cs\<rparr>"
    have i: "shard_inv held ?s" using Suc.prems(1) by (simp add: shard_inv_def bufs_ok_def tables_defs)
    have "runs (drain_loop n E now (h + 1) t) (\<lambda>(h', s'). shard_inv held s' \<and> drained s s')" if t: "settled held held ?s t" for t
    proof -
      have ct: "ctl t = ctl ?s" using t by (simp add: settled_def)
      then have "sh_commands t = cs" by (simp add: ctl_def)
      then have "\<forall>c\<in>set (sh_commands t). command_wf c" using Suc.prems(2) Cons by simp
      from Suc.IH[OF settled_inv[OF t] this] show ?thesis
      proof (rule runs_mono, goal_cases)
        case (1 p)
        then obtain h' u m where p: "p = (h', u)" "shard_inv held u" "sh_commands u = drop m (sh_commands t)" and d: "drained t u"
          by (cases p) (auto simp: drained_def)
        have "sh_commands u = drop (Suc m) (sh_commands s)" using p(3) \<open>sh_commands t = cs\<close> Cons by simp
        then show ?case using p(1,2) d ct unfolding drained_def ctl_def by auto
      qed
    qed
    then have "runs (handle_command E c now ?s \<bind> drain_loop n E now (h + 1)) (\<lambda>(h', s'). shard_inv held s' \<and> drained s s')"
      using Suc.prems(2) Cons by (intro runs_bind[OF handle_command_runs[OF E i]]) auto
    then show ?thesis using Cons by simp
  qed
qed (simp add: drained_def exI[of _ 0])

lemma drain_loop_count:
  assumes E: "env_ok E"
  shows "shard_inv held s \<Longrightarrow> \<forall>c\<in>set (sh_commands s). command_wf c \<Longrightarrow>
    runs (drain_loop n E now h s) (\<lambda>(h', s'). h' = h + min n (length (sh_commands s)) \<and>
      sh_commands s' = drop n (sh_commands s))"
proof (induction n arbitrary: h s)
  case (Suc n)
  show ?case
  proof (cases "sh_commands s")
    case (Cons c cs)
    let ?s = "s\<lparr>sh_commands := cs\<rparr>"
    have i: "shard_inv held ?s" using Suc.prems(1) by (simp add: shard_inv_def bufs_ok_def tables_defs)
    have "runs (drain_loop n E now (h + 1) t) (\<lambda>(h', s'). h' = h + Suc (min n (length cs)) \<and> sh_commands s' = drop n cs)"
      if t: "settled held held ?s t" for t
    proof -
      have "sh_commands t = cs" using t by (simp add: settled_def ctl_def)
      then show ?thesis using Suc.IH[OF settled_inv[OF t], of "h + 1"] Suc.prems(2) Cons by simp
    qed
    then have "runs (handle_command E c now ?s \<bind> drain_loop n E now (h + 1))
        (\<lambda>(h', s'). h' = h + Suc (min n (length cs)) \<and> sh_commands s' = drop n cs)"
      using Suc.prems(2) Cons by (intro runs_bind[OF handle_command_runs[OF E i]]) auto
    then show ?thesis using Cons by simp
  qed simp
qed simp

section \<open>Refusals\<close>

text \<open>A refused command left the state as it was.\<close>

definition refused_same :: "('io, 'snk) shard \<Rightarrow> (reject_reason + unit) \<times> ('io, 'snk) shard \<Rightarrow> bool" where
  "refused_same s p \<longleftrightarrow> (case fst p of Inl _ \<Rightarrow> snd p = s | Inr _ \<Rightarrow> True)"

lemma refused_same_simps [simp]: "refused_same s (Inl e, s') \<longleftrightarrow> s' = s" "refused_same s (Inr u, s')"
  by (simp_all add: refused_same_def)

lemma update_session_same:
  assumes "slab_get (sh_sessions s) k = Some se" "f se = se" "update_session k f s = Some s'" shows "s' = s"
proof -
  let ?i = "key_index k"
  have "?i < length (slab_slots (sh_sessions s))" "slot_entry (slab_slots (sh_sessions s) ! ?i) = Some se"
    using assms(1) by (auto simp: slab_get_def panic_simps)
  then have "slab_modify k f (sh_sessions s) = Some u \<Longrightarrow> u = sh_sessions s" for u
    using assms(2) by (auto simp: slab_modify_def panic_simps list_update_same_conv)
  then show ?thesis using assms(3) by (auto simp: update_session_def bind_eq_Some_conv)
qed

lemma inbound_pin_refused: "inbound_pin ssrc x = Some (Inl e, x') \<Longrightarrow> x' = x"
  by (auto simp: inbound_pin_def Let_def panic_simps split: if_splits option.splits)

lemma outbound_register_refused: "outbound_register ssrc x = Some (Inl e, x') \<Longrightarrow> x' = x"
  by (auto simp: outbound_register_def Let_def panic_simps split: if_splits option.splits)

lemma insert_accepted:
  "ens (insert_track k track spec s) (\<lambda>p. refused_same t p)" "ens (insert_subscription E k b tr sp now s) (\<lambda>p. refused_same t p)"
  unfolding insert_track_def insert_subscription_def Let_def by (intro ens_intros; simp)+

lemma add_track_refused: "ens (add_track i track spec s) (refused_same s)"
proof -
  have pin: "s' = s" if "update_session k (\<lambda>se. se\<lparr>se_srtp_in := Some x'\<rparr>) s = Some s'" "slab_get (sh_sessions s) k = Some se"
      "se_srtp_in se = Some x" "inbound_pin ssrc x = Some (Inl e, x')" for k se x ssrc e x' s'
    using update_session_same[OF that(2) _ that(1)] that(3) inbound_pin_refused[OF that(4)] by simp
  show ?thesis unfolding add_track_def
    by (intro ens_intros) (auto intro: insert_accepted dest: pin)
qed

lemma subscribe_refused: "ens (subscribe E i sub track spec now s) (refused_same s)"
proof -
  have reg: "s' = s" if "update_session k (\<lambda>se. se\<lparr>se_srtp_out := Some x'\<rparr>) s = Some s'" "slab_get (sh_sessions s) k = Some se"
      "se_srtp_out se = Some x" "outbound_register ssrc x = Some (Inl e, x')" for k se x ssrc e x' s'
    using update_session_same[OF that(2) _ that(1)] that(3) outbound_register_refused[OF that(4)] by simp
  show ?thesis unfolding subscribe_def Let_def
    by (intro ens_intros) (auto intro: insert_accepted dest: reg)
qed

lemma apply_command_refused: "ens (apply_command E c now s) (refused_same s)"
proof (cases c)
  case (InstallSrtp i keys)
  show ?thesis unfolding InstallSrtp apply_command.simps install_srtp_def by (intro ens_intros) auto
next
  case (SendDatagram i bytes)
  show ?thesis unfolding SendDatagram apply_command.simps send_datagram_def by (intro ens_intros) auto
next
  case (CloseSession i)
  show ?thesis unfolding CloseSession apply_command.simps close_session_def Let_def by (intro ens_intros) auto
next
  case (CreateSession i ice base)
  show ?thesis unfolding CreateSession apply_command.simps create_session_def by (intro ens_intros) auto
next
  case (RemoveTrack t)
  show ?thesis unfolding RemoveTrack apply_command.simps remove_track_cmd_def by (intro ens_intros) auto
next
  case (Unsubscribe b)
  show ?thesis unfolding Unsubscribe apply_command.simps unsubscribe_def by (intro ens_intros) auto
qed (simp_all add: add_track_refused subscribe_refused)

end
