(* ===== verification/Shard_Inv_Loop.thy ===== *)
theory Shard_Inv_Loop
  imports Shard_Inv_Commands
begin

text \<open>
  A new shard is in order, and an iteration of a shard that is in order does
  not panic and leaves it in order: every received datagram is handled and its
  buffer returned, the batch is flushed, commands are drained within their
  budget, and the sweep visits every session.
\<close>

section \<open>Housekeeping\<close>

lemma check_consent_runs:
  assumes inv: "shard_inv held s" and k: "sess s k = Some se"
  shows "runs (check_consent E k now s) (step held held s)"
proof -
  have lost: "runs (update_session k (\<lambda>se. se\<lparr>se_consent_lost := True\<rparr>) u \<bind> (\<lambda>s. Some (count1 Consent_lost_count s))) (step held held s)"
    if u: "emit_step s u" for u
  proof -
    have su: "step held held s u" by (rule emit_step_step[OF inv u])
    have ku: "sess u k = Some se" using u k by (simp add: emit_step_def same_tables_def)
    have "runs (update_session k (\<lambda>se. se\<lparr>se_consent_lost := True\<rparr>) u) (sess_step k (se\<lparr>se_consent_lost := True\<rparr>) u)"
      by (rule update_session_runs[OF inv_tables(1)[OF step_inv[OF su]] ku])
        (use session_entry[OF inv_tables(1)[OF inv] k] in \<open>auto simp: session_defs\<close>)
    then show ?thesis
    proof (rule runs_bind)
      fix v assume "sess_step k (se\<lparr>se_consent_lost := True\<rparr>) u v"
      then have "step held held u v" by (rule sess_step_step[OF step_inv[OF su] _ ku]) (simp add: se_view_def tracks_of_def)
      then show "runs (Some (count1 Consent_lost_count v)) (step held held s)" using step_trans[OF su] by simp
    qed
  qed
  have "runs (emit E (ConsentLost (se_id se)) s) (\<lambda>(b, s'). emit_step s s')"
    using inv by (intro emit_runs) (simp_all add: shard_inv_def)
  then have "runs (emit E (ConsentLost (se_id se)) s \<bind> (\<lambda>(delivered, s). if delivered then
      update_session k (\<lambda>se. se\<lparr>se_consent_lost := True\<rparr>) s \<bind> (\<lambda>s. Some (count1 Consent_lost_count s)) else Some s)) (step held held s)"
    by (rule runs_bind) (auto intro!: lost emit_step_step[OF inv] simp del: One_nat_def)
  then show ?thesis using k inv by (auto simp: check_consent_def slab_get_lookup step_refl)
qed

text \<open>The grace of the previous address is over.\<close>

lemma forget_prev_runs:
  assumes inv: "shard_inv held s" and k: "sess s k = Some se"
  shows "runs (do { s \<leftarrow> update_session k (\<lambda>se. se\<lparr>se_prev_addr := None\<rparr>) s; Some (unmap_addr k (se_prev_addr se) s) })
    (step held held s)"
proof -
  note ok = inv_tables(1)[OF inv]
  let ?se = "se\<lparr>se_prev_addr := None\<rparr>"
  obtain t where t: "update_session k (\<lambda>se. se\<lparr>se_prev_addr := None\<rparr>) s = Some (s\<lparr>sh_sessions := t\<rparr>)"
    "slab_lookup t = (sess s)(k \<mapsto> ?se)" "slab_ok t" "slab_slot_count t = slab_slot_count (sh_sessions s)"
    by (rule modify_session[OF ok k])
  obtain m where m: "unmap_addr k (se_prev_addr se) s = s\<lparr>sh_by_addr := m\<rparr>" "index_ok m ((sess s)(k \<mapsto> ?se)) addrs_of"
    by (rule unmap_prev[OF ok k])
  have mt: "unmap_addr k (se_prev_addr se) (s\<lparr>sh_sessions := t\<rparr>) = s\<lparr>sh_sessions := t, sh_by_addr := m\<rparr>"
    using arg_cong[OF m(1), of sh_by_addr] by (simp add: unmap_addr_eq)
  have lv: "map_option link_view (slab_lookup t j) = map_option link_view (sess s j)" for j
    using k by (simp add: t(2) link_view_def tracks_of_def)
  have "session_ok ?se" using session_entry[OF ok k] by (auto simp: session_ok_def srtp_ok_def session_track_count_def ring_abs_def)
  then have "tables_ok (s\<lparr>sh_sessions := t, sh_by_addr := m\<rparr>)"
    using session_entry[OF ok] m(2) by (intro tables_sessions[OF ok t(3,4) lv]) (auto simp: t(2) split: if_splits)
  then have "step held held s (s\<lparr>sh_sessions := t, sh_by_addr := m\<rparr>)"
    using inv link_view_shape[OF lv, of m] by (simp add: step_def shard_inv_def bufs_ok_def ctl_def same_bufs_def)
  then show ?thesis using t(1) mt by simp
qed

lemma sweep_session_runs:
  assumes inv: "shard_inv held s" and k: "sess s k = Some se"
  shows "runs (sweep_session E k now s) (step held held s)"
proof -
  note so = session_entry[OF inv_tables(1)[OF inv] k]
  have kept: "\<exists>se. sess u k = Some se" if "step held held s u" for u
    using shape_session[OF _ k, of u] that by (auto simp: step_def)
  define f where "f = (\<lambda>se :: session. se\<lparr>se_dtls_budget := DTLS_BUDGET_PER_SWEEP,
        se_srtp_in := map_option (\<lambda>x. snd (inbound_evict_idle (now_s s now) INBOUND_IDLE_EVICT_S x)) (se_srtp_in se)\<rparr>)"
  have "session_ok (f se)" using so inbound_evict_idle_inv(1)
    by (auto simp: f_def session_ok_def srtp_ok_def session_track_count_def ring_abs_def inbound_evict_pins)
  then have up: "runs (update_session k f s) (\<lambda>s'. step held held s s' \<and> sess s' = (sess s)(k \<mapsto> f se) \<and> sh_pool s' = sh_pool s \<and>
      sh_tx s' = sh_tx s \<and> sh_tracks s' = sh_tracks s \<and> sh_subs s' = sh_subs s)"
    by (intro session_update_step[OF inv k]) (simp_all add: f_def same_links_def addrs_of_def tracks_of_def)
  have con: "runs (check_consent E k now u) (step held held s)" if u: "step held held s u" for u
  proof -
    obtain se' where "sess u k = Some se'" using kept[OF u] by blast
    from check_consent_runs[OF step_inv[OF u] this] show ?thesis by (rule runs_mono) (rule step_trans[OF u])
  qed
  have rep: "runs (case r of None \<Rightarrow> Some u | Some reason \<Rightarrow> report_switch E k reason u) (step held held s)" if u: "step held held s u" for u r
  proof -
    obtain se' where se': "sess u k = Some se'" using kept[OF u] by blast
    have "runs (report_switch E k reason u) (step held held s)" for reason
      by (rule runs_mono[OF report_switch_runs[OF step_inv[OF u] se']]) (rule step_trans[OF u])
    then show ?thesis using u by (cases r) simp_all
  qed
  have prev: "runs (if b then do { s \<leftarrow> update_session k (\<lambda>se. se\<lparr>se_prev_addr := None\<rparr>) u; Some (unmap_addr k (se_prev_addr se') s) } else Some u)
      (step held held s)" if u: "step held held s u" "sess u k = Some se'" for u se' b
    using runs_mono[OF forget_prev_runs[OF step_inv[OF u(1)] u(2)] step_trans[OF u(1)]] u(1) by simp
  show ?thesis unfolding sweep_session_def f_def[symmetric] Let_def
  proof (rule runs_bind[OF up], goal_cases)
    case (1 u)
    then have u: "step held held s u" "sess u k = Some (f se)" by simp_all
    have "runs ((if b then do { s \<leftarrow> update_session k (\<lambda>se. se\<lparr>se_prev_addr := None\<rparr>) u; Some (unmap_addr k (se_prev_addr (f se)) s) } else Some u) \<bind>
        (\<lambda>s. (case r of None \<Rightarrow> Some s | Some reason \<Rightarrow> report_switch E k reason s) \<bind> check_consent E k now)) (step held held s)" for b r
      by (rule runs_bind[OF prev[OF u]], rule runs_bind[OF rep], assumption, rule con)
    then show ?case unfolding slab_get_lookup u(2) bind.simps .
  qed
qed

lemma sweep_runs:
  assumes inv: "shard_inv held s"
  shows "runs (for_each (sweep_slot E now) is s) (step held held s)"
proof (rule for_each_step[OF _ step_refl[OF inv]])
  fix i t assume t: "step held held s t"
  show "runs (sweep_slot E now i t) (step held held t)"
  proof (cases "slab_key_at (sh_sessions t) i")
    case (Some k)
    have "slab_ok (sh_sessions t)" using inv_tables(1)[OF step_inv[OF t]] by (simp add: tables_defs)
    then obtain se where "sess t k = Some se" using slab_key_at_lookup Some by blast
    then show ?thesis using sweep_session_runs[OF step_inv[OF t]] Some by (simp add: sweep_slot_def)
  qed (use step_inv[OF t] in \<open>simp add: sweep_slot_def step_refl\<close>)
qed

text \<open>Fields that no part of the invariant mentions.\<close>

lemma shard_inv_frame [simp]:
  "shard_inv held (s\<lparr>sh_rx_pps := x\<rparr>) = shard_inv held s" "shard_inv held (s\<lparr>sh_last_sweep := l\<rparr>) = shard_inv held s"
  "shard_inv held (s\<lparr>sh_stats := st\<rparr>) = shard_inv held s" "shard_inv held (s\<lparr>sh_dtls_budget := b\<rparr>) = shard_inv held s"
  "shard_inv held (s\<lparr>sh_rx := r\<rparr>) = shard_inv held s" "shard_inv held (s\<lparr>sh_next_housekeeping := h\<rparr>) = shard_inv held s"
  "shard_inv held (s\<lparr>sh_io := io\<rparr>) = shard_inv held s" "shard_inv held (s\<lparr>sh_events := e\<rparr>) = shard_inv held s"
  "shard_inv held (s\<lparr>sh_commands := cs\<rparr>) = shard_inv held s"
  by (simp_all add: shard_inv_def bufs_ok_def tables_defs)

lemma report_switch_tx: "ens (report_switch E k reason s) (\<lambda>s'. sh_tx s' = sh_tx s)"
proof -
  have e: "sh_tx s' = sh_tx s" if "emit E e s = Some (b, s')" for e b s' by (subst emit_frame[OF that]) simp
  have u: "sh_tx s' = sh_tx t" if "update_session j f t = Some s'" for j f t s' by (subst update_session_frame[OF that]) simp
  show ?thesis unfolding report_switch_def by (intro ens_intros) (auto simp: ens_def dest!: u e)
qed

lemma sweep_session_tx: "ens (sweep_session E k now s) (\<lambda>s'. sh_tx s' = sh_tx s)"
proof -
  have e: "sh_tx s' = sh_tx t" if "emit E e t = Some (b, s')" for e b t s' by (subst emit_frame[OF that]) simp
  have u: "sh_tx s' = sh_tx t" if "update_session j f t = Some s'" for j f t s' by (subst update_session_frame[OF that]) simp
  have c: "ens (check_consent E k now t) (\<lambda>s'. sh_tx s' = sh_tx t)" for t
    unfolding check_consent_def Let_def by (intro ens_intros) (auto dest!: u e)
  show ?thesis unfolding sweep_session_def Let_def
    by (intro ens_intros) (auto simp: ens_def unmap_addr_eq bind_eq_Some_conv dest!: u ensD[OF c] ensD[OF report_switch_tx] split: option.splits if_splits)
qed

lemma sweep_tx: "ens (for_each (sweep_slot E now) is s) (\<lambda>s'. sh_tx s' = sh_tx s)"
proof (induction "is" arbitrary: s)
  case (Cons i "is")
  have "sh_tx t = sh_tx s" if "sweep_slot E now i s = Some t" for t
    using that by (auto simp: sweep_slot_def split: option.splits dest: ensD[OF sweep_session_tx])
  then show ?case using Cons unfolding for_each.simps by (intro ens_bind_any) (auto simp: ens_def)
qed simp

text \<open>The channel, the clock and the configuration are the loop's own.\<close>

definition own_kept :: "('io, 'snk) shard \<Rightarrow> ('io, 'snk) shard \<Rightarrow> bool" where
  "own_kept s s' \<longleftrightarrow> sh_config s' = sh_config s \<and> sh_epoch s' = sh_epoch s \<and> sh_commands s' = sh_commands s"

lemma housekeeping_runs:
  assumes inv: "shard_inv held s"
  shows "runs (housekeeping E now s) (\<lambda>s'. shard_inv held s' \<and> sh_tx s' = sh_tx s \<and> sh_rx s' = sh_rx s \<and> own_kept s s')"
proof -
  let ?s = "s\<lparr>sh_dtls_budget := sc_dtls_budget_per_sweep (sh_config s)\<rparr>"
  have i: "shard_inv held ?s" using inv by simp
  have slots: "slab_slot_count (sh_sessions s) \<le> max_sessions s" using inv_tables(1)[OF inv] by (simp add: tables_defs)
  have sw: "runs (for_each (sweep_slot E now) [0..<slab_slot_count (sh_sessions s)] ?s)
      (\<lambda>t. shard_inv held t \<and> sh_tx t = sh_tx s \<and> ctl t = ctl s)"
  proof -
    obtain t where t: "for_each (sweep_slot E now) [0..<slab_slot_count (sh_sessions s)] ?s = Some t" "step held held ?s t"
      using sweep_runs[OF i, of E now "[0..<slab_slot_count (sh_sessions s)]"] unfolding runs_def by blast
    have "sh_tx t = sh_tx s" using ensD[OF sweep_tx t(1)] by simp
    moreover have "ctl t = ctl s" using t(2) by (simp add: step_def ctl_def)
    ultimately show ?thesis using t step_inv[OF t(2)] by simp
  qed
  have "runs (for_each (sweep_slot E now) [0..<slab_slot_count (sh_sessions s)] ?s \<bind> (\<lambda>s. do {
     let (last_rx, last_at) = sh_last_sweep s;
     let elapsed_ms = (of_nat (as_millis (since now last_at)) :: u64);
     let received = sh_counters s Rx_datagrams - last_rx;
     let s = (if elapsed_ms > 0 then s\<lparr>sh_rx_pps := pps received elapsed_ms\<rparr> else s);
     Some (publish_stats (s\<lparr>sh_last_sweep := (sh_counters s Rx_datagrams, now)\<rparr>)) }))
    (\<lambda>s'. shard_inv held s' \<and> sh_tx s' = sh_tx s \<and> sh_rx s' = sh_rx s \<and> own_kept s s')"
    by (rule runs_bind[OF sw]) (auto simp: publish_stats_def Let_def own_kept_def ctl_def split: prod.splits)
  then show ?thesis using slots by (simp add: housekeeping_def)
qed

section \<open>Receiving\<close>

lemma receive_runs:
  assumes E: "env_ok E" and inv: "shard_inv [] s" and idle: "sh_rx s = []" "sh_tx s = []"
  shows "runs (receive E s) (\<lambda>(r, s'). shard_inv (map dg_index (sh_rx s')) s' \<and> (\<forall>d\<in>set (sh_rx s'). dg_len d \<le> BUF_SIZE) \<and>
    sh_tx s' = [] \<and> own_kept s s' \<and> sh_next_housekeeping s' = sh_next_housekeeping s)"
proof -
  have io: "datagram_io (ev_recv E) (ev_flush E)" using E by (simp add: env_ok_def)
  have "pool_owns (sh_pool s) []" using inv_tables(2)[OF inv] idle by (simp add: bufs_ok_def)
  from datagram_io.recv_ok[OF io this, of "sh_io s"] obtain r rx p io' where
    r: "ev_recv E (sh_io s) [] (sh_pool s) = Some (r, rx, p, io')" "pool_owns p (map dg_index rx)"
      "\<forall>d\<in>set rx. dg_len d \<le> BUF_SIZE" "length rx = (case r of None \<Rightarrow> 0 | Some r \<Rightarrow> rv_received r)" by auto
  let ?u = "s\<lparr>sh_rx := rx, sh_pool := p, sh_io := io'\<rparr>"
  have "tables_ok ?u" using inv_tables(1)[OF inv] by (simp add: tables_defs)
  then have u: "shard_inv (map dg_index rx) ?u"
    using inv r(2) idle by (simp add: shard_inv_def bufs_ok_def SEND_BATCH_def)
  have cu: "(count1 Iterations s)\<lparr>sh_rx := rx, sh_pool := p, sh_io := io'\<rparr> = count1 Iterations ?u" by (simp add: count_by_def)
  have nh: "sh_next_housekeeping (count_by c n t) = sh_next_housekeeping t" for c n and t :: "('a, 'b) shard" by (simp add: count_by_def)
  show ?thesis unfolding receive_def Let_def count_by_sel idle r(1) bind.simps prod.case cu
    using r(3,4) u idle by (cases r) (simp_all add: own_kept_def recv_default_def nh)
qed

lemma handle_received_runs:
  assumes E: "env_ok E" and inv: "shard_inv (map dg_index (drop i rx)) s" and rx: "sh_rx s = rx"
    and i: "i < length rx" and len: "\<forall>d\<in>set rx. dg_len d \<le> BUF_SIZE"
  shows "runs (handle_received E now i s) (\<lambda>s'. shard_inv (map dg_index (drop (Suc i) rx)) s' \<and> ctl s' = ctl s)"
proof -
  let ?rest = "map dg_index (drop (Suc i) rx)"
  have held: "map dg_index (drop i rx) = dg_index (rx ! i) # ?rest" using i by (simp add: Cons_nth_drop_Suc[symmetric])
  have put: "runs (put_buf (dg_buf (rx ! i)) t) (\<lambda>s'. shard_inv ?rest s' \<and> ctl s' = ctl s)"
    if t: "settled (map dg_index (drop i rx)) [] s t" for t
  proof -
    have it: "shard_inv (dg_index (rx ! i) # ?rest) t" using settled_inv[OF t] held by simp
    have "runs (put_buf (dg_buf (rx ! i)) t) (step ?rest ?rest t)" by (rule put_step[OF it])
    then show ?thesis by (rule runs_mono) (use t in \<open>auto simp: step_def settled_def\<close>)
  qed
  have "runs (handle_datagram E (rx ! i) now s \<bind> put_buf (dg_buf (rx ! i))) (\<lambda>s'. shard_inv ?rest s' \<and> ctl s' = ctl s)"
    by (rule runs_bind[OF handle_datagram_runs[OF E inv] put]) (use held i len in auto)
  then show ?thesis using rx i by (simp add: handle_received_def)
qed

lemma handle_all_runs:
  assumes E: "env_ok E" and len: "\<forall>d\<in>set rx. dg_len d \<le> BUF_SIZE"
  shows "i \<le> length rx \<Longrightarrow> shard_inv (map dg_index (drop i rx)) s \<Longrightarrow> sh_rx s = rx \<Longrightarrow>
    runs (for_each (handle_received E now) [i..<length rx] s) (\<lambda>s'. shard_inv [] s' \<and> ctl s' = ctl s)"
proof (induction "length rx - i" arbitrary: i s)
  case (Suc n)
  then have i: "i < length rx" by simp
  have "runs (for_each (handle_received E now) [Suc i..<length rx] t) (\<lambda>s'. shard_inv [] s' \<and> ctl s' = ctl s)"
    if t: "shard_inv (map dg_index (drop (Suc i) rx)) t" "ctl t = ctl s" for t
  proof -
    have "sh_rx t = rx" using t(2) Suc.prems(3) by (simp add: ctl_def)
    then have "runs (for_each (handle_received E now) [Suc i..<length rx] t) (\<lambda>s'. shard_inv [] s' \<and> ctl s' = ctl t)"
      using Suc i t(1) by simp
    then show ?thesis using t(2) by simp
  qed
  then have "runs (handle_received E now i s \<bind> for_each (handle_received E now) [Suc i..<length rx]) (\<lambda>s'. shard_inv [] s' \<and> ctl s' = ctl s)"
    by (intro runs_bind[OF handle_received_runs[OF E Suc.prems(2,3) i len]]) auto
  then show ?case using i by (simp add: upt_rec)
qed simp

section \<open>One iteration\<close>

text \<open>A shard between two iterations.\<close>

definition idle_inv :: "('io, 'snk) shard \<Rightarrow> bool" where
  "idle_inv s \<longleftrightarrow> shard_inv [] s \<and> sh_rx s = [] \<and> sh_tx s = [] \<and> (\<forall>c\<in>set (sh_commands s). command_wf c)"

lemma push_pending_shorter: "push_pending_loop E es snk n = (es', snk', n') \<Longrightarrow> length es' \<le> length es"
  by (induction E es snk n rule: push_pending_loop.induct) (auto split: prod.splits sink_answer.splits)

lemma push_pending_inv:
  assumes "shard_inv held s"
  shows "shard_inv held (push_pending E s) \<and> ctl (push_pending E s) = ctl s \<and> sh_tx (push_pending E s) = sh_tx s"
proof -
  obtain es snk n where p: "push_pending_loop E (sh_pending s) (sh_events s) 0 = (es, snk, n)" by (rule prod_cases3)
  have "tables_ok (s\<lparr>sh_pending := es, sh_events := snk\<rparr>)" using inv_tables(1)[OF assms] by (simp add: tables_defs)
  then have "shard_inv held (s\<lparr>sh_pending := es, sh_events := snk\<rparr>)"
    using assms push_pending_shorter[OF p] by (simp add: shard_inv_def bufs_ok_def)
  then show ?thesis using p by (simp add: push_pending_def) (simp add: ctl_def)
qed

lemma flush_keeps:
  assumes "env_ok E" "shard_inv held s"
  shows "runs (flush E s) (\<lambda>s'. shard_inv held s' \<and> ctl s' = ctl s \<and> sh_tx s' = [])"
  by (rule runs_mono[OF flush_runs[OF assms(1) inv_tables(2)[OF assms(2)]]])
    (auto dest: io_stepD(7) intro: io_step_inv[OF assms(2)])

text \<open>The part of an iteration after the received datagrams.\<close>

lemma iterate_rest_runs:
  assumes E: "env_ok E" and inv: "shard_inv [] s" and rx: "sh_rx s = []" and c: "\<forall>c\<in>set (sh_commands s). command_wf c"
  shows "runs (do {
     s \<leftarrow> (if sh_pending_switches s \<noteq> [] then apply_pending_switches E now s else Some s);
     s \<leftarrow> flush E s;
     (commands, s) \<leftarrow> drain_commands E now s;
     s \<leftarrow> flush E s;
     let s = push_pending E s;
     s \<leftarrow> (if now \<ge> sh_next_housekeeping s then do {
          s \<leftarrow> housekeeping E now s;
          Some (s\<lparr>sh_next_housekeeping := now + HOUSEKEEPING_INTERVAL\<rparr>) }
        else Some s);
     rassert (sh_tx s = []);
     Some (f commands, s) }) (\<lambda>(_, s'). idle_inv s' \<and> sh_config s' = sh_config s \<and> (\<exists>n. sh_commands s' = drop n (sh_commands s)))"
proof -
  define same where "same = (\<lambda>s' :: ('a, 'b) shard. shard_inv [] s' \<and> ctl s' = ctl s)"
  have "runs (apply_pending_switches E now s) same"
    by (rule runs_mono[OF apply_pending_switches_runs[OF inv]]) (simp add: same_def step_def)
  then have a: "runs (if sh_pending_switches s \<noteq> [] then apply_pending_switches E now s else Some s) same"
    using inv by (simp add: same_def)
  have b: "runs (flush E t) (\<lambda>s'. same s' \<and> sh_tx s' = [])" if "same t" for t
    by (rule runs_mono[OF flush_keeps[OF E]]) (use that in \<open>auto simp: same_def\<close>)
  define left where "left = (\<lambda>s' :: ('a, 'b) shard. shard_inv [] s' \<and> drained s s')"
  have d: "runs (drain_commands E now t) (\<lambda>(_, s'). left s')" if t: "same t" for t
  proof -
    have "runs (drain_loop COMMAND_BUDGET E now 0 t) (\<lambda>(h', s'). shard_inv [] s' \<and> drained t s')"
      by (rule drain_loop_runs[OF E]) (use t c in \<open>auto simp: same_def ctl_def\<close>)
    then show ?thesis unfolding drain_commands_def
      by (rule runs_mono) (use t in \<open>auto simp: left_def drained_def same_def ctl_def\<close>)
  qed
  have l: "runs (flush E t) (\<lambda>s'. left s' \<and> sh_tx s' = [])" if "left t" for t
    by (rule runs_mono[OF flush_keeps[OF E]]) (use that in \<open>auto simp: left_def drained_def ctl_def\<close>)
  have h: "runs (if now \<ge> sh_next_housekeeping t then do {
          s \<leftarrow> housekeeping E now t; Some (s\<lparr>sh_next_housekeeping := now + HOUSEKEEPING_INTERVAL\<rparr>) } else Some t)
      (\<lambda>s'. idle_inv s' \<and> sh_config s' = sh_config s \<and> (\<exists>n. sh_commands s' = drop n (sh_commands s)))" if t: "left t" "sh_tx t = []" for t
  proof -
    obtain n where n: "sh_commands t = drop n (sh_commands s)" "sh_config t = sh_config s" "sh_rx t = []" "shard_inv [] t"
      using t(1) rx by (auto simp: left_def drained_def)
    then have "\<forall>c\<in>set (sh_commands t). command_wf c" using c by (auto dest: in_set_dropD)
    then have "runs (housekeeping E now t) (\<lambda>s'. shard_inv [] s' \<and> sh_tx s' = [] \<and> sh_rx s' = [] \<and> sh_config s' = sh_config s \<and>
        sh_commands s' = drop n (sh_commands s) \<and> (\<forall>c\<in>set (sh_commands s'). command_wf c))"
      by (intro runs_mono[OF housekeeping_runs[OF n(4)]]) (use n t(2) in \<open>auto simp: own_kept_def\<close>)
    then have "runs (housekeeping E now t \<bind> (\<lambda>s. Some (s\<lparr>sh_next_housekeeping := now + HOUSEKEEPING_INTERVAL\<rparr>)))
        (\<lambda>s'. idle_inv s' \<and> sh_config s' = sh_config s \<and> (\<exists>n. sh_commands s' = drop n (sh_commands s)))"
      by (rule runs_bind) (auto simp: idle_inv_def)
    then show ?thesis using n t(2) \<open>\<forall>c\<in>set (sh_commands t). command_wf c\<close> by (auto simp: idle_inv_def)
  qed
  have p: "left (push_pending E t) \<and> sh_tx (push_pending E t) = []" if "left t" "sh_tx t = []" for t
    using push_pending_inv[of "[]" t E] that by (auto simp: left_def drained_def ctl_def)
  have e: "runs (do {
     s \<leftarrow> flush E t;
     let s = push_pending E s;
     s \<leftarrow> (if now \<ge> sh_next_housekeeping s then do {
          s \<leftarrow> housekeeping E now s; Some (s\<lparr>sh_next_housekeeping := now + HOUSEKEEPING_INTERVAL\<rparr>) } else Some s);
     rassert (sh_tx s = []);
     Some (f n, s) }) (\<lambda>(_, s'). idle_inv s' \<and> sh_config s' = sh_config s \<and> (\<exists>n. sh_commands s' = drop n (sh_commands s)))"
    if "left t" for t n
    unfolding Let_def by (rule runs_bind[OF l[OF that]], rule runs_bind[OF h]) (use p in \<open>auto simp: idle_inv_def\<close>)
  show ?thesis
    by (rule runs_bind[OF a], rule runs_bind[OF b], assumption, rule runs_bind[OF d], blast) (auto intro!: e)
qed

lemma iterate_runs:
  assumes E: "env_ok E" and inv: "idle_inv s"
  shows "runs (iterate E now s) (\<lambda>(st, s'). idle_inv s' \<and> sh_config s' = sh_config s \<and> (\<exists>n. sh_commands s' = drop n (sh_commands s)))"
  unfolding iterate_def
proof (rule runs_bind[OF receive_runs[OF E]], goal_cases)
  case (4 p)
  obtain r t where p: "p = (r, t)" by (cases p)
  then have t: "shard_inv (map dg_index (sh_rx t)) t" "\<forall>d\<in>set (sh_rx t). dg_len d \<le> BUF_SIZE" "own_kept s t" using 4 by simp_all
  have all: "runs (for_each (handle_received E now) [0..<length (sh_rx t)] t) (\<lambda>s'. shard_inv [] s' \<and> ctl s' = ctl t)"
    by (rule handle_all_runs[OF E t(2)]) (use t(1) in simp_all)
  show ?case unfolding p prod.case
  proof (rule runs_bind[OF all], goal_cases)
    case (1 u)
    then have u: "shard_inv [] (u\<lparr>sh_rx := []\<rparr>)" "sh_config u = sh_config s" "sh_commands u = sh_commands s"
      using t(3) by (simp_all add: ctl_def own_kept_def)
    have "\<forall>c\<in>set (sh_commands (u\<lparr>sh_rx := []\<rparr>)). command_wf c" using inv u(3) by (simp add: idle_inv_def)
    from iterate_rest_runs[OF E u(1) _ this, of now "\<lambda>n. \<lparr>is_received = rv_received r, is_taken = recv_taken r,
       is_would_block = rv_would_block r, is_commands = n\<rparr>"]
    show ?case using u(2,3) by (simp add: Let_def)
  qed
qed (use inv in \<open>simp_all add: idle_inv_def\<close>)

section \<open>A new shard\<close>

lemma shard_new_inv:
  assumes "shard_new c io events now = Some (Inr s)" "MAX_SUBS_PER_SESSION * unat (sc_max_sessions c) < 2 ^ 32"
  shows "idle_inv s" "sh_config s = c"
proof -
  obtain p where p: "pool_new (sc_shard c) (unat (sc_pool_buffers c)) = Some p" "sh_pool s = p"
    and s: "sh_config s = c" "sh_commands s = []" "sh_rx s = []" "sh_tx s = []" "sh_sessions s = slab_new" "sh_tracks s = slab_new"
      "sh_subs s = slab_new" "sh_session_ids s = []" "sh_track_ids s = []" "sh_sub_ids s = []" "sh_by_addr s = []" "sh_by_ufrag s = []"
      "sh_pending_switches s = []" "sh_pending s = []"
    using assms(1) by (auto simp: shard_new_def bind_eq_Some_conv split: sum.splits)
  have "tables_ok s" using assms(2)
    by (simp add: tables_defs s index_empty owned_empty slab_slot_count_def slab_new_def)
      (simp add: slab_new_def[symmetric] index_empty owned_empty)
  then show "idle_inv s" using pool_new_owns[OF p(1)] p(2)
    by (simp add: idle_inv_def shard_inv_def bufs_ok_def s SEND_BATCH_def)
  show "sh_config s = c" by (rule s)
qed

section \<open>Reachable states\<close>

text \<open>
  What a shard goes through: iterations, commands other threads push, and a
  world that puts what it likes into the socket and the event channel between
  two iterations.
\<close>

inductive reachable :: "('io, 'snk) env \<Rightarrow> shard_config \<Rightarrow> ('io, 'snk) shard \<Rightarrow> bool" for E c where
  start: "shard_new c io events now = Some (Inr s) \<Longrightarrow> reachable E c s"
| iteration: "reachable E c s \<Longrightarrow> iterate E now s = Some (st, s') \<Longrightarrow> reachable E c s'"
| command: "reachable E c s \<Longrightarrow> command_wf cmd \<Longrightarrow> push_command cmd s = (ok, s') \<Longrightarrow> reachable E c s'"
| world: "reachable E c s \<Longrightarrow> reachable E c (s\<lparr>sh_io := io, sh_events := events\<rparr>)"

lemma idle_inv_world: "idle_inv s \<Longrightarrow> idle_inv (s\<lparr>sh_io := io, sh_events := events\<rparr>)"
  by (simp add: idle_inv_def)

lemma idle_inv_command: "idle_inv s \<Longrightarrow> command_wf cmd \<Longrightarrow> push_command cmd s = (ok, s') \<Longrightarrow> idle_inv s'"
  by (auto simp: push_command_def idle_inv_def split: if_splits)

lemma reachable_inv:
  assumes "reachable E c s" "env_ok E" "MAX_SUBS_PER_SESSION * unat (sc_max_sessions c) < 2 ^ 32"
  shows "idle_inv s"
  using assms(1)
proof induction
  case (start io events now s)
  then show ?case by (rule shard_new_inv(1)) (rule assms(3))
next
  case (iteration s now st s')
  then show ?case using iterate_runs[OF assms(2), of s now] by (simp add: runs_def)
next
  case (command s cmd ok s')
  then show ?case using idle_inv_command by blast
next
  case world
  from world.IH show ?case by (rule idle_inv_world)
qed

lemma shard_new_total:
  assumes "config_validate c = Inr ()" shows "\<exists>s. shard_new c io events now = Some (Inr s)"
proof -
  have "0 < unat (sc_pool_buffers c)" using assms by (auto simp: config_validate_def RECV_BATCH_def split: if_splits)
  then obtain p where "pool_new (sc_shard c) (unat (sc_pool_buffers c)) = Some p" using pool_new_total by blast
  then show ?thesis using assms by (simp add: shard_new_def)
qed

end
