(* ===== verification/Spec2Isabelle.thy ===== *)
theory Spec2Isabelle
  imports Shard_Inv_Loop
begin

text \<open>
  A verification library for the data plane of the nexus selective forwarding
  unit, the Rust sources under \<^verbatim>\<open>src/crates\<close>: \<^verbatim>\<open>nexus-dataplane\<close> (the shard),
  and what the shard uses of \<^verbatim>\<open>nexus-transport\<close> (SRTP, STUN) and
  \<^verbatim>\<open>nexus-media\<close> (RTP and RTCP codecs).

  \<^bold>\<open>The program.\<close>  A shard is a single-threaded loop.  One iteration
  (\<^verbatim>\<open>Shard::iterate\<close>) receives a batch of datagrams into pool buffers,
  classifies each one and handles it: STUN binding requests authenticate a
  peer and select the address of its session, DTLS goes to the control plane
  as events, SRTP is authenticated, its SSRC routed to a published track and
  the packet rewritten, protected and queued for every subscriber, and SRTCP
  is read for sender reports, which are translated toward the subscribers, and
  keyframe requests, which are passed to publishers.  Then deferred address
  switches are applied, the send batch is flushed, up to \<^verbatim>\<open>COMMAND_BUDGET\<close>
  commands of the control plane are handled, retained events are retried, and
  once a second a sweep visits every session.

  \<^bold>\<open>How code is modelled.\<close>  Structs are records, enums datatypes, machine
  integers words of their width.  A function that can panic (a failed
  assertion, an index or slice out of range, an \<^verbatim>\<open>expect\<close>) returns an option
  whose \<open>None\<close> is the panic; an \<^verbatim>\<open>Option\<close> or \<^verbatim>\<open>Result\<close> of the code is an option or
  a sum inside it.  State is passed explicitly: an operation on \<^verbatim>\<open>&mut self\<close>
  takes the record and returns it updated, a buffer written through a mutable
  slice is returned.  Loops are recursive functions with a termination proof;
  no fuel is used, except that a loop with a bound of its own (the command
  budget, the number of FCI entries) recurses on that bound.  Hash maps are
  association lists with distinct keys, the lock-free command queue is a list,
  time is a natural number of nanoseconds.  Debug assertions are panics in the
  slab and the shard (\<open>Slab\<close>, \<open>Shard_*\<close>) and are compiled out elsewhere.

  \<^bold>\<open>Parameters.\<close>  Code outside the sources is an argument: AES-GCM,
  AES-CTR, the AES block and HMAC-SHA1 (record \<open>prims\<close>, assumed to satisfy
  \<open>prims_ok\<close>: opening inverts sealing, lengths are kept, tags have their length),
  HMAC-SHA1 and CRC-32 of STUN (a 20-byte digest is all that is assumed), the
  socket backend (locale \<open>datagram_io\<close>: it hands over and takes back pool
  buffers it owns and stays within its batches) and the event channel (any
  answer).  The shard takes them as one record \<open>env\<close>, with \<open>env_ok\<close> as the
  assumption; \<open>demo_env\<close> below satisfies it.

  \<^bold>\<open>The theories.\<close>
  \<^item> \<open>Nexus_Prelude\<close>: words, checked slices, big-endian encodings, hash maps,
    and the two program logics, \<open>runs m Q\<close> (\<open>m\<close> does not panic and its result
    satisfies \<open>Q\<close>) and \<open>ens m Q\<close> (if it returns).
  \<^item> \<open>Slab\<close> (\<^verbatim>\<open>slab.rs\<close>) and \<open>Buffer_Pool\<close> (\<^verbatim>\<open>pool.rs\<close>): the storage.  Locale
    \<open>keyed_store\<close> is the contract of a slab, \<open>buffer_allocator\<close> that of the pool;
    both are interpreted on the code's operations.
  \<^item> \<open>Replay_Window\<close> (\<^verbatim>\<open>srtp/replay.rs\<close>), \<open>Roc_Index\<close> (\<^verbatim>\<open>srtp/index.rs\<close>),
    \<open>Srtp_Crypto\<close> (\<^verbatim>\<open>srtp/crypto.rs\<close>), \<open>Srtp_Keys\<close> (\<^verbatim>\<open>srtp/keys.rs\<close>),
    \<open>Srtp_Direction\<close> (\<^verbatim>\<open>srtp/direction.rs\<close>) and \<open>Srtp_Pins\<close>: SRTP.  The replay window
    interprets the locale \<open>once_filter\<close>; the directions carry invariants over any
    run of operations; \<open>Srtp_Pins\<close> proves what the shard needs of them.
  \<^item> \<open>Rtp_Header\<close> (\<^verbatim>\<open>rtp/header.rs\<close>, with the SIMD and batch parsers), \<open>Rtp_Ext\<close>
    (\<^verbatim>\<open>ext.rs\<close>), \<open>Rtp_Rewrite\<close> (\<^verbatim>\<open>rewrite.rs\<close>): RTP and the forwarding rewrite.
  \<^item> \<open>Stun_Attr\<close>, \<open>Stun_Message\<close> (\<^verbatim>\<open>ice/stun\<close>) and \<open>Ice_Lite\<close> (\<^verbatim>\<open>ice.rs\<close>): STUN and
    the checks of the ICE-lite agent.
  \<^item> \<open>Rtcp_Packet\<close> (\<^verbatim>\<open>nexus-media/src/rtcp\<close>) and \<open>Rtcp_Write\<close> (\<^verbatim>\<open>rtcp.rs\<close> of the data
    plane): RTCP.
  \<^item> \<open>Plane_Types\<close> (\<^verbatim>\<open>command.rs\<close>, \<^verbatim>\<open>session.rs\<close>, \<^verbatim>\<open>track.rs\<close>, \<^verbatim>\<open>subscription.rs\<close>),
    \<open>Shard_State\<close> (\<^verbatim>\<open>shard/mod.rs\<close>, \<^verbatim>\<open>io.rs\<close>, \<^verbatim>\<open>stats.rs\<close>, \<^verbatim>\<open>config.rs\<close>), \<open>Shard_Rtcp\<close>
    (\<^verbatim>\<open>shard/rtcp.rs\<close>), \<open>Shard_Commands\<close> (\<^verbatim>\<open>shard/commands.rs\<close>), \<open>Shard_Ingress\<close>
    (\<^verbatim>\<open>shard/ingress.rs\<close>) and \<open>Shard_Loop\<close> (\<^verbatim>\<open>shard/housekeeping.rs\<close> and \<^verbatim>\<open>iterate\<close>): the
    shard, one definition per method.
  \<^item> \<open>Plane_Tables\<close>: indexes and ownership between tables, in general.
    \<open>Shard_Inv\<close>: the invariant \<open>shard_inv held s\<close> (every buffer is free, queued or in
    \<open>held\<close>; the maps, tables and lists of owners agree; the SRTP contexts of
    every session are in order) and the operations all handlers share.
    \<open>Shard_Inv_Rtcp\<close>, \<open>Shard_Inv_Address\<close>, \<open>Shard_Inv_Ingress\<close>, \<open>Shard_Inv_Commands\<close>,
    \<open>Shard_Inv_Loop\<close>: every handler returns and keeps it, up to the iteration and
    the reachable states of a shard (\<open>reachable\<close>).

  \<^bold>\<open>What is shown.\<close>  The shard (C1, C2, C6, C10, C15 to C17): no reachable
  state panics, the tables agree, unsigned requests change nothing, closing a
  session is complete, refused commands have no effect.  The bound
  \<open>31 * max_sessions < 2^32\<close> keeps the indices of the slabs within 32 bits; the
  settings check of the code does not imply it.  SRTP (C3 to C5, C7, C11, C12,
  C18, C27): no nonce or index is used twice, a pinned SSRC never accepts a
  packet twice, the transforms invert each other.  Forwarding (C8, C9).  ICE
  (C13, C14, C24, C26, C31).  Storage (C19 to C22).  RTP (C23, C28 to C30).
  RTCP (C25, C32 to C38).  C39 and C40 show two defects: message types the
  STUN parser confuses, and losses the NACK builder drops.

  \<^bold>\<open>Not modelled.\<close>  The sockets and threads of the shard (system calls;
  \<open>datagram_io\<close> is their contract and the in-memory backend its instance), DTLS
  (OpenSSL), the floating-point code (bandwidth estimation, RTCP intervals,
  loss percentages), and the control plane: signalling, SDP, rooms, gossip and
  replicated state, REST, metrics and configuration files, which are
  asynchronous code over third-party frameworks and reach the shard only
  through its commands and events.
\<close>

section \<open>A concrete set of primitives\<close>

text \<open>
  An instance of the cryptographic parameters that satisfies \<open>prims_ok\<close>:
  the key stream flips a fixed pattern, tags are zero.  It shows that the
  hypotheses on the primitives can hold, and lets concrete runs be evaluated.
\<close>

definition demo_prims :: prims where
  "demo_prims = \<lparr>
     pr_gcm_seal = (\<lambda>k n a d. Some (map (\<lambda>b. b XOR 0x5A) d, replicate 16 0)),
     pr_gcm_open = (\<lambda>k n a d. if length d < 16 then None
       else Some (map (\<lambda>b. b XOR 0x5A) (take (length d - 16) d))),
     pr_aes_ctr = (\<lambda>k iv d. map (\<lambda>b. b XOR 0x5A) d),
     pr_aes_block = (\<lambda>k b. b),
     pr_hmac_sha1 = (\<lambda>k d. replicate 20 0)\<rparr>"

definition demo_gcm :: gcm_cipher where
  "demo_gcm = \<lparr>gc_rtp_key = replicate 16 1, gc_rtp_salt = replicate 12 2,
     gc_rtcp_key = replicate 16 3, gc_rtcp_salt = replicate 12 4\<rparr>"

definition demo_packet :: bytes where
  "demo_packet = [0x80, 111, 0, 7, 0, 0, 0, 9, 0, 0, 0, 5, 1, 2, 3] @ replicate 40 0"

lemma demo_prims_ok: "prims_ok demo_prims"
  by (auto simp: prims_ok_def demo_prims_def xor.assoc o_def)

lemma demo_gcm_ok: "cipher_ok (AesGcm demo_gcm)"
  by (simp add: demo_gcm_def)

section \<open>SRTP\<close>





text \<open>
  C5. An inbound context accepts every (SSRC, index) of a pinned SSRC at most
  once: after any history, from a successful pin until the matching unpin,
  the operations run without a panic and the accepted indices are distinct.
\<close>

theorem inbound_pinned_at_most_once:
  assumes "prims_ok P" "cipher_ok c"
    "in_run P before ([], inbound_new c) = Some (L0, x0)" "inbound_pin t x0 = Some (Inr (), x)"
    "In_Unpin t \<notin> set ops"
  shows "\<exists>L x'. in_run P ops ([], x) = Some (L, x') \<and> distinct (log_of t L)"
proof -
  have "in_inv x0"
    using in_run_inv[OF assms(1), of "([], inbound_new c)" before] in_inv_new[OF assms(2)] assms(3) by auto
  then obtain A where "in_inv x" "in_track x t A"
    using inbound_pin_inv[of x0 t] assms(4) by auto
  then have "in_good t A ([], x)" by (simp add: in_good_def log_of_def)
  from in_run_good[OF assms(1) this assms(5)]
  obtain st where "in_run P ops ([], x) = Some st" "in_good t A st" by blast
  then show ?thesis by (cases st) (auto simp: in_good_def)
qed

definition demo_pinned :: srtp_inbound where
  "demo_pinned = set_in_slot 0 ((ssrc_in_fresh 5 0)\<lparr>si_pinned := True\<rparr>) (inbound_new (AesGcm demo_gcm))"

theorem inbound_pinned_at_most_once_witness:
  "inbound_pin 5 (inbound_new (AesGcm demo_gcm)) = Some (Inr (), demo_pinned) \<and>
   (\<exists>L x'. in_run demo_prims [In_Rtp demo_packet 31 0, In_Rtp demo_packet 31 0] ([], demo_pinned) = Some (L, x') \<and>
      distinct (log_of 5 L))"
proof
  show pin: "inbound_pin 5 (inbound_new (AesGcm demo_gcm)) = Some (Inr (), demo_pinned)"
    by (simp add: demo_pinned_def inbound_pin_def inbound_new_def set_in_slot_def slot_to_replace_def
        ssrc_in_empty_def ssrc_in_fresh_def in_pinned_count_def INBOUND_SSRC_SLOTS_def INBOUND_PINNED_MAX_def
        eval_nat_numeral)
  show "\<exists>L x'. in_run demo_prims [In_Rtp demo_packet 31 0, In_Rtp demo_packet 31 0] ([], demo_pinned) = Some (L, x') \<and>
      distinct (log_of 5 L)"
    by (rule inbound_pinned_at_most_once[OF demo_prims_ok demo_gcm_ok _ pin, of "[]" "[]"]) simp_all
qed

text \<open>
  C7. The replay filter is exact: for a state that has accepted the set
  \<open>A\<close>, the check never panics and passes an index if and only if nothing
  was accepted yet, or the index is above the highest accepted one, or it is
  inside the window and not in \<open>A\<close>; and it does not change \<open>A\<close>.
\<close>

theorem replay_filter_exact:
  assumes "replay_abs r A"
  shows "\<exists>r'. replay_check i r = Some (replay_admits A (rp_highest r) (rp_window_size r) i, r') \<and> replay_abs r' A"
  using assms by (rule replay_check_spec)

theorem replay_filter_exact_witness:
  "replay_abs replay_new {} \<and> (\<exists>r'. replay_check 5 replay_new =
     Some (replay_admits {} (rp_highest replay_new) (rp_window_size replay_new) 5, r') \<and> replay_abs r' {})"
  using replay_filter_exact[OF replay_new_abs] by simp

text \<open>
  C18. The rollover counter recovers the 48-bit index of every packet of a
  stream in which each index is closer than \<open>2^15\<close> to the largest one
  before it, from the 16-bit sequence numbers alone.
\<close>

theorem roc_tracks_stream:
  assumes "rs_initialized st" "near_stream (roc_index st) is"
  shows "roc_feed (map of_nat is) st = Inr (map of_nat is)"
  using assms by (rule roc_feed_near)

theorem roc_tracks_stream_witness:
  "roc_feed (map of_nat [65530, 65537, 65534, 70000]) \<lparr>rs_roc = 0, rs_highest_seq = 65000, rs_initialized = True\<rparr>
   = Inr (map of_nat [65530, 65537, 65534, 70000])"
  by (rule roc_tracks_stream) (simp_all add: roc_index_def)

text \<open>
  C11. Protecting an RTP packet and unprotecting the result under the same
  index gives back the packet and its length, for both cipher suites, as long
  as the protected packet is within the size limit of the receiver.
\<close>

theorem srtp_rtp_roundtrip:
  assumes "prims_ok P" "cipher_ok c" "cipher_protect_rtp P c pkt n i = Some (Inr (pkt', n'))"
    "n' \<le> MAX_PACKET_SIZE"
  shows "\<exists>pkt''. cipher_unprotect_rtp P c pkt' n' i = Some (Inr (pkt'', n)) \<and> take n pkt'' = take n pkt"
proof (cases c)
  case (AesGcm g)
  then show ?thesis using gcm_rtp_roundtrip[OF assms(1), of g] assms by simp
next
  case (AesCmHmac m)
  then show ?thesis using cm_rtp_roundtrip[OF assms(1), of m] assms by auto
qed

lemma demo_protect:
  "cipher_protect_rtp demo_prims (AesGcm demo_gcm) demo_packet 15 7 = Some (Inr (take 12 demo_packet @
     [1 XOR 0x5A, 2 XOR 0x5A, 3 XOR 0x5A] @ replicate 40 0, 31))"
  by code_simp

theorem srtp_rtp_roundtrip_witness:
  "\<exists>pkt''. cipher_unprotect_rtp demo_prims (AesGcm demo_gcm)
     (take 12 demo_packet @ [1 XOR 0x5A, 2 XOR 0x5A, 3 XOR 0x5A] @ replicate 40 0) 31 7 =
       Some (Inr (pkt'', 15)) \<and> take 15 pkt'' = take 15 demo_packet"
  by (rule srtp_rtp_roundtrip[OF demo_prims_ok demo_gcm_ok demo_protect]) (simp add: MAX_PACKET_SIZE_def)

text \<open>
  C12. The same for RTCP: unprotecting a protected compound packet gives back
  the packet, its length and the SRTCP index it was protected under.
\<close>

theorem srtp_rtcp_roundtrip:
  assumes "prims_ok P" "cipher_ok c" "cipher_protect_rtcp P c pkt n i = Some (Inr (pkt', n'))"
    "n' \<le> MAX_PACKET_SIZE"
  shows "\<exists>pkt''. cipher_unprotect_rtcp P c pkt' n' = Some (Inr (pkt'', n, i)) \<and> take n pkt'' = take n pkt"
proof (cases c)
  case (AesGcm g)
  then show ?thesis using gcm_rtcp_roundtrip[OF assms(1), of g] assms by simp
next
  case (AesCmHmac m)
  then show ?thesis using cm_rtcp_roundtrip[OF assms(1), of m] assms by auto
qed

lemma demo_protect_rtcp:
  "cipher_protect_rtcp demo_prims (AesGcm demo_gcm) demo_packet 9 3 = Some (Inr (take 8 demo_packet @
     [0x5A] @ replicate 16 0 @ [0x80, 0, 0, 3] @ drop 29 demo_packet, 29))"
  by code_simp

theorem srtp_rtcp_roundtrip_witness:
  "\<exists>pkt''. cipher_unprotect_rtcp demo_prims (AesGcm demo_gcm) (take 8 demo_packet @
     [0x5A] @ replicate 16 0 @ [0x80, 0, 0, 3] @ drop 29 demo_packet) 29 =
       Some (Inr (pkt'', 9, 3)) \<and> take 9 pkt'' = take 9 demo_packet"
  by (rule srtp_rtcp_roundtrip[OF demo_prims_ok demo_gcm_ok demo_protect_rtcp]) (simp add: MAX_PACKET_SIZE_def)

text \<open>
  C27. Key material exported from DTLS always yields working session keys: the
  derivation and the cipher constructor run without a panic or an error, the
  cipher has the salt and tag lengths the transforms rely on, and the tag
  length is that of the negotiated profile.
\<close>

theorem dtls_export_gives_cipher:
  assumes "prims_ok P" "from_dtls_export d p = Inr m"
  shows "\<exists>k c. derive_keys P m = Some k \<and> cipher_new k = Some (Inr c) \<and> cipher_ok c \<and>
    cipher_tag_len c = profile_tag_len p"
  using cipher_of_material[OF assms(1)] from_dtls_export_ok[OF assms(2)] by blast

theorem dtls_export_gives_cipher_witness:
  "\<exists>k c. derive_keys demo_prims \<lparr>km_key = replicate 16 7, km_salt = replicate 14 7, km_profile = Aes128CmHmacSha1_80\<rparr>
     = Some k \<and> cipher_new k = Some (Inr c) \<and> cipher_ok c \<and> cipher_tag_len c = profile_tag_len Aes128CmHmacSha1_80"
  by (rule dtls_export_gives_cipher[OF demo_prims_ok, of "replicate 30 7"]) (simp add: from_dtls_export_def)

section \<open>Slab and buffer pool\<close>

text \<open>
  C20. The keys a slab hands out are pairwise distinct over any sequence of
  inserts and removes, as long as it has made at most \<open>2^32\<close> inserts, so
  a stale key never reaches a later entry.
\<close>

theorem slab_keys_never_reused:
  assumes "slab_run ops [] slab_new = Some (ks, s)" "length ks \<le> 2 ^ 32"
  shows "distinct ks"
proof (rule slab_run_distinct[OF _ _ assms])
  show "gen_trace slab_new [] []" by (simp add: gen_trace_def slab_new_def)
qed simp

theorem slab_keys_never_reused_witness:
  "distinct [\<lparr>key_index = 0, key_gen = 1\<rparr>, \<lparr>key_index = 0, key_gen = 0\<rparr>]"
proof (rule slab_keys_never_reused)
  show "slab_run [Op_Insert True, Op_Remove \<lparr>key_index = 0, key_gen = 0\<rparr>, Op_Insert False] [] slab_new =
    Some ([\<lparr>key_index = 0, key_gen = 1\<rparr>, \<lparr>key_index = 0, key_gen = 0\<rparr>],
      \<lparr>slab_slots = [\<lparr>slot_gen = 1, slot_entry = Some False\<rparr>], slab_free = [], slab_count = 1\<rparr>)"
    by (simp add: slab_new_def slab_insert_def slab_remove_def)
qed simp

text \<open>
  C19. A slab implements a map from keys to entries: while fewer than
  \<open>2^32\<close> entries are live, inserting succeeds, under a key that was not
  in the map; it adds exactly that entry and keeps the invariant; removing the
  key gives the entry back and restores the map.
\<close>

theorem slab_refines_map:
  assumes "slab_ok s" "slab_count s < 2 ^ 32"
  shows "\<exists>k s'. slab_insert v s = Some (k, s') \<and> slab_ok s' \<and> slab_lookup s k = None \<and>
    slab_lookup s' = (slab_lookup s)(k \<mapsto> v) \<and>
    (\<exists>s''. slab_remove k s' = Some (v, s'') \<and> slab_ok s'' \<and> slab_lookup s'' = slab_lookup s)"
proof -
  obtain k s' where ins: "slab_insert v s = Some (k, s')" using slab_insert_total[OF assms] by blast
  show ?thesis
    using ins sl.insert_inv[OF assms(1) ins] sl.insert_fresh[OF assms(1) ins] sl.insert_lookup[OF assms(1) ins]
      sl.insert_remove[OF assms(1) ins] by blast
qed

theorem slab_refines_map_witness:
  "\<exists>k s'. slab_insert True slab_new = Some (k, s') \<and> slab_ok s' \<and> slab_lookup (slab_new :: bool slab) k = None \<and>
    slab_lookup s' = (slab_lookup (slab_new :: bool slab))(k \<mapsto> True) \<and>
    (\<exists>s''. slab_remove k s' = Some (True, s'') \<and> slab_ok s'' \<and> slab_lookup s'' = slab_lookup (slab_new :: bool slab))"
  by (rule slab_refines_map) (simp_all add: slab_new_def slab_ok_def)

text \<open>
  C21. Buffer conservation: whatever takes and puts a holder makes, no call
  panics, the buffers held are pairwise distinct and inside the pool, and free
  and held buffers always add up to the pool's capacity.
\<close>

theorem pool_buffers_conserved:
  assumes "pool_new shard n = Some p"
  shows "\<exists>held p'. pool_run ops [] p = Some (held, p') \<and> distinct (map buf_index held) \<and>
    (\<forall>b\<in>set held. buf_index b < n) \<and> pool_available p' + length held = n"
proof -
  have o: "pool_owns p (map buf_index ([] :: buf_ref list))" and c: "pool_capacity p = n"
    using pool_new_owns[OF assms] by simp_all
  obtain held p' where r: "pool_run ops [] p = Some (held, p')" "pool_owns p' (map buf_index held)"
    "pool_capacity p' = n" using pool_run_owns[OF o] c by blast
  then have "distinct (map buf_index held)" "\<forall>b\<in>set held. buf_index b < n"
    by (auto simp: pool_owns_def)
  then show ?thesis using r pool_conservation[OF r(2)] by simp
qed

theorem pool_buffers_conserved_witness:
  "\<exists>held p'. pool_run [Pool_Take, Pool_Take, Pool_Put 1, Pool_Take] []
      \<lparr>pool_shard = 0, pool_memory = replicate (2 * BUF_SIZE) 0, pool_free = [0..<2]\<rparr> = Some (held, p') \<and>
    distinct (map buf_index held) \<and> (\<forall>b\<in>set held. buf_index b < 2) \<and> pool_available p' + length held = 2"
  by (rule pool_buffers_conserved[of 0 2]) (simp add: pool_new_def pool_available_def)

text \<open>
  C22. The two slices \<^verbatim>\<open>pair_mut\<close> returns for two different buffers of the
  pool never overlap, and the call does not panic; a write into one buffer
  leaves every other buffer unchanged.
\<close>

theorem pool_slices_disjoint:
  assumes "pool_owns p out" "buf_index rd < pool_capacity p" "buf_index wr < pool_capacity p"
    "buf_index rd \<noteq> buf_index wr"
  shows "(\<exists>r w. pool_pair_mut rd wr p = Some ((r, BUF_SIZE), (w, BUF_SIZE)) \<and>
      {r..<r + BUF_SIZE} \<inter> {w..<w + BUF_SIZE} = {} \<and>
      r + BUF_SIZE \<le> length (pool_memory p) \<and> w + BUF_SIZE \<le> length (pool_memory p)) \<and>
    (\<forall>i d p'. pool_write wr i d p = Some p' \<longrightarrow> pool_buf p' rd = pool_buf p rd)"
proof
  have lt: "a < b \<Longrightarrow> a * BUF_SIZE + BUF_SIZE \<le> b * BUF_SIZE" for a b
    by (metis Suc_leI add.commute mult_Suc mult_le_mono1)
  have "{buf_index rd * BUF_SIZE..<buf_index rd * BUF_SIZE + BUF_SIZE} \<inter>
      {buf_index wr * BUF_SIZE..<buf_index wr * BUF_SIZE + BUF_SIZE} = {}"
    using lt[of "buf_index rd" "buf_index wr"] lt[of "buf_index wr" "buf_index rd"] assms(4)
    by (cases "buf_index rd" "buf_index wr" rule: linorder_cases) auto
  then show "\<exists>r w. pool_pair_mut rd wr p = Some ((r, BUF_SIZE), (w, BUF_SIZE)) \<and>
      {r..<r + BUF_SIZE} \<inter> {w..<w + BUF_SIZE} = {} \<and>
      r + BUF_SIZE \<le> length (pool_memory p) \<and> w + BUF_SIZE \<le> length (pool_memory p)"
    using pool_pair_mut_disjoint[OF assms] pool_slot_bound[OF assms(1)] assms(2,3) by blast
  show "\<forall>i d p'. pool_write wr i d p = Some p' \<longrightarrow> pool_buf p' rd = pool_buf p rd"
    using pool_write_frame assms(4) by blast
qed

theorem pool_slices_disjoint_witness:
  "\<exists>p. pool_new 0 2 = Some p \<and> (\<exists>r w. pool_pair_mut \<lparr>buf_shard = 0, buf_index = 0\<rparr> \<lparr>buf_shard = 0, buf_index = 1\<rparr> p =
      Some ((r, BUF_SIZE), (w, BUF_SIZE)) \<and> {r..<r + BUF_SIZE} \<inter> {w..<w + BUF_SIZE} = {} \<and>
      r + BUF_SIZE \<le> length (pool_memory p) \<and> w + BUF_SIZE \<le> length (pool_memory p))"
proof -
  obtain p where p: "pool_new 0 2 = Some p" using pool_new_total[of 2] by auto
  then show ?thesis
    using pool_slices_disjoint[of p "[]" "\<lparr>buf_shard = 0, buf_index = 0\<rparr>" "\<lparr>buf_shard = 0, buf_index = 1\<rparr>"]
      pool_new_owns[OF p] by simp
qed

section \<open>RTP headers\<close>

text \<open>
  C23. The RTP parser never panics, whatever the bytes; and when it accepts a
  packet, the version is 2, the CSRC list (and the extension header, if
  there is one) lies inside the header, and header, payload and padding
  together are exactly the packet.
\<close>

theorem rtp_parse_safe:
  "\<exists>r. rtp_parse d = Some r \<and> (\<forall>h. r = Inr h \<longrightarrow>
     rh_version h = 2 \<and> 12 + 4 * unat (rh_csrc_count h) + (if rh_extension h then 4 else 0) \<le> unat (rh_header_len h) \<and>
     unat (rh_header_len h) + rtp_payload_len h (length d) + unat (rh_padding_len h) = length d \<and>
     (rh_padding h \<longleftrightarrow> rh_padding_len h \<noteq> 0))"
  using rtp_parse_total[of d] rtp_parse_bounds[of d] by fastforce

theorem rtp_parse_safe_witness:
  "\<exists>h. rtp_parse (take 15 demo_packet) = Some (Inr h) \<and> rh_version h = 2 \<and>
     unat (rh_header_len h) + rtp_payload_len h (length (take 15 demo_packet)) + unat (rh_padding_len h) =
       length (take 15 demo_packet)"
proof -
  have "(case rtp_parse (take 15 demo_packet) of Some (Inr h) \<Rightarrow> True | _ \<Rightarrow> False)" by code_simp
  then show ?thesis using rtp_parse_safe[of "take 15 demo_packet"] by (auto split: option.splits sum.splits)
qed

text \<open>
  C28. The SIMD parsers compute the same header as the byte-by-byte one, on
  every architecture and every input, and refuse exactly what it refuses; in
  particular their unchecked reads are always in range.
\<close>

theorem simd_parse_equals_scalar:
  "parse_simd arch d = map_option (case_sum (\<lambda>_. None) Some) (rtp_parse d)"
  by (rule parse_simd_eq)

text \<open>
  C29. Every batch parser (AVX-512 and AVX2 chunking, scalar) fills the output
  slice with the result of the scalar parser for each packet, leaves the rest
  of the slice alone, and returns the number of entries written.
\<close>

theorem batch_parse_equals_scalar:
  "parse_batch_optimal cpu arch packets out =
     (let n = min (length packets) (length out) in
      Some (n, map (\<lambda>d. case rtp_parse d of Some (Inr h) \<Rightarrow> Some h | _ \<Rightarrow> None) (take n packets) @ drop n out))"
  unfolding Let_def by (rule parse_batch_optimal_eq[OF refl])

text \<open>
  C30. Serializing a parsed header over any buffer of at least 12 bytes
  writes exactly the 12 fixed header bytes of the packet it was parsed from.
\<close>

theorem rtp_serialize_restores:
  assumes "rtp_parse d = Some (Inr h)" "12 \<le> length buf"
  shows "rtp_serialize h buf = Some (12, take 12 d @ drop 12 buf)"
  using assms by (rule rtp_serialize_parsed)

theorem rtp_serialize_restores_witness:
  "\<exists>h. rtp_parse (take 15 demo_packet) = Some (Inr h) \<and>
     rtp_serialize h (replicate 12 0) = Some (12, take 12 (take 15 demo_packet) @ drop 12 (replicate 12 0))"
proof -
  have "(case rtp_parse (take 15 demo_packet) of Some (Inr h) \<Rightarrow> True | _ \<Rightarrow> False)" by code_simp
  then show ?thesis using rtp_serialize_restores[of "take 15 demo_packet" _ "replicate 12 0"]
    by (auto split: option.splits sum.splits)
qed

section \<open>Forwarding one packet\<close>

text \<open>
  C8. Rewriting an accepted RTP packet for a subscription never panics.  It
  writes nothing past the length it returns; what it wrote is an RTP packet
  that parses, with the mapped payload type, the shifted sequence number and
  timestamp and the subscription's SSRC, the CSRCs, payload and padding of
  the input, and as extension elements the mapped ones followed by the
  subscriber's \<^verbatim>\<open>mid\<close> (a reader stops at 16).  It refuses with
  \<open>UnmappedPt\<close> exactly when the payload type has no mapping.
\<close>

theorem rewrite_parses_back:
  assumes "rtp_parse src = Some (Inr hdr)" "sub_maps_ok sub"
  shows "\<exists>r dst' rng'. rewrite src hdr sub rng now dst = Some (r, dst', rng') \<and> length dst' = length dst \<and>
    (\<forall>n ad. r = Inr (n, ad) \<longrightarrow> n \<le> length dst \<and> drop n dst' = drop n dst \<and> rewritten src hdr sub ad (take n dst')) \<and>
    (r = Inl UnmappedPt \<longleftrightarrow> pt_map_map (sb_pt_map sub) (rh_payload_type hdr) = None)"
proof (rule rewrite_total[OF assms, of rng now dst])
  assume "pt_map_map (sb_pt_map sub) (rh_payload_type hdr) = None" "rewrite src hdr sub rng now dst = Some (Inl UnmappedPt, dst, rng)"
  then show ?thesis by simp
next
  fix dst' assume a: "length dst' = length dst" "rewrite src hdr sub rng now dst = Some (Inl TooLarge, dst', rng)"
  then show ?thesis using rewrite_unmapped[of sub hdr src rng now dst] by auto
next
  fix out ad rng' assume "length out \<le> length dst" "rewrite src hdr sub rng now dst = Some (Inr (length out, ad), overwrite 0 out dst, rng')"
    "rewritten src hdr sub ad out"
  then show ?thesis using take_overwrite0[of out dst] rewrite_unmapped[of sub hdr src rng now dst]
    by (auto simp: overwrite_def)
qed

definition demo_sub :: subscription where
  "demo_sub = \<lparr>sb_id = 1, sb_session = \<lparr>key_index = 0, key_gen = 0\<rparr>, sb_track = \<lparr>key_index = 0, key_gen = 0\<rparr>,
     sb_rewrite = rewrite_state_new 77, sb_ext_map = \<lparr>em_map = replicate 15 0, em_mid = 3\<rparr>, sb_pub_mid = 4,
     sb_clock_rate = 48000, sb_pt_map = [(111, 96)], sb_mid = [97], sb_sent_packets = 0, sb_sent_octets = 0\<rparr>"

lemma demo_sub_ok: "sub_maps_ok demo_sub"
  by (simp add: sub_maps_ok_def demo_sub_def pt_map_ok_def ext_map_is_valid_iff MID_CAPACITY_def)

lemma demo_packet_parses: "\<exists>h. rtp_parse (take 15 demo_packet) = Some (Inr h)"
proof -
  have "(case rtp_parse (take 15 demo_packet) of Some (Inr h) \<Rightarrow> True | _ \<Rightarrow> False)" by code_simp
  then show ?thesis by (auto split: option.splits sum.splits)
qed

theorem rewrite_parses_back_witness:
  "\<exists>h. rtp_parse (take 15 demo_packet) = Some (Inr h) \<and>
    (\<exists>r dst' rng'. rewrite (take 15 demo_packet) h demo_sub 7 0 (replicate 100 0) = Some (r, dst', rng') \<and>
      length dst' = length (replicate 100 (0 :: u8)) \<and>
      (\<forall>n ad. r = Inr (n, ad) \<longrightarrow> n \<le> length (replicate 100 (0 :: u8)) \<and> drop n dst' = drop n (replicate 100 0) \<and>
        rewritten (take 15 demo_packet) h demo_sub ad (take n dst')) \<and>
      (r = Inl UnmappedPt \<longleftrightarrow> pt_map_map (sb_pt_map demo_sub) (rh_payload_type h) = None))"
  using demo_packet_parses rewrite_parses_back[OF _ demo_sub_ok, of "take 15 demo_packet" _ 7 0 "replicate 100 0"] by blast






text \<open>
  C31. A session remembers exactly the last 16 binding-request transactions:
  for every history, noting an identifier never panics, reports it as seen
  iff it is among the 16 most recent different ones recorded, and records it
  otherwise.
\<close>

theorem transactions_remembered:
  assumes "ring_abs s hist"
  shows "\<exists>s'. note_transaction i s = Some (i \<in> set (take RECENT_TRANSACTIONS hist), s') \<and>
    ring_abs s' (if i \<in> set (take RECENT_TRANSACTIONS hist) then hist else i # hist)"
  using assms by (rule note_transaction_spec)

theorem transactions_remembered_witness:
  "\<exists>s'. note_transaction [1] (session_new 1 \<lparr>ice_local_ufrag = [], ice_local_pwd = []\<rparr> 5 0) =
     Some (([1] :: bytes) \<in> set (take RECENT_TRANSACTIONS []), s') \<and>
    ring_abs s' (if ([1] :: bytes) \<in> set (take RECENT_TRANSACTIONS []) then [] else [[1]])"
  using transactions_remembered[OF session_new_ring[of 1 "\<lparr>ice_local_ufrag = [], ice_local_pwd = []\<rparr>" 5 0], of "[1]"] .

section \<open>STUN and ICE\<close>

text \<open>
  C26. A STUN message is read back from its encoding: for every message with
  at most 16 well-formed attributes and every buffer with room, the encoder
  writes only its own bytes, and the parser returns the same message.
\<close>

theorem stun_message_roundtrip:
  assumes "msg_canon m as" "STUN_BUFFER_SIZE \<le> length buf" "44 + length (attrs_bytes (sm_transaction_id m) as) \<le> length buf"
    "length (attrs_bytes (sm_transaction_id m) as) < 65536"
  shows "\<exists>n buf'. stun_encode m buf = Some (n, buf') \<and> drop n buf' = drop n buf \<and> stun_parse (take n buf') = Some (Inr m)"
proof -
  let ?tid = "sm_transaction_id m"
  let ?out = "msg_bytes (sm_class m) (sm_method m) ?tid (attrs_bytes ?tid as)"
  have "stun_encode m buf = Some (length ?out, ?out @ drop (length ?out) buf)"
    using assms by (intro stun_encode_msg) simp_all
  moreover have "stun_parse ?out = Some (Inr m)"
    using stun_parse_msg[of ?tid as "sm_class m" "sm_method m"] assms by (simp add: msg_canon_def)
  ultimately show ?thesis by simp
qed

definition demo_msg :: stun_message where
  "demo_msg = \<lparr>sm_class = Request, sm_method = Binding, sm_transaction_id = replicate 12 9,
     sm_attributes = map Some [Priority 5, UseCandidate] @ replicate 14 None, sm_attribute_count = 2\<rparr>"

theorem stun_message_roundtrip_witness:
  "\<exists>n buf'. stun_encode demo_msg (replicate 600 0) = Some (n, buf') \<and> drop n buf' = drop n (replicate 600 0) \<and>
     stun_parse (take n buf') = Some (Inr demo_msg)"
  by (rule stun_message_roundtrip[of demo_msg "[Priority 5, UseCandidate]"])
    (simp_all add: demo_msg_def msg_canon_def STUN_MAX_ATTRIBUTES_def STUN_BUFFER_SIZE_def attr_canon_def attr_type_def attr_codes
      length_attr_bytes attr_value_def padded_len_def)


text \<open>
  C13. The shard accepts a binding request exactly when the whole datagram is
  authenticated: for a scanned request the verification does not panic, and it
  succeeds iff the datagram is a binding request followed by the message
  integrity (under the session's password) and the fingerprint of everything
  before them, with nothing after.
\<close>

theorem ice_request_authenticated:
  assumes "scan d = Some (Some b)" "pwd \<noteq> []" "length pwd \<le> 256" "\<forall>k x. length (hmac k x) = 20"
  shows "ice_verify hmac crc d b pwd = Some (signed_request hmac crc pwd (br_transaction_id b) d)"
  using assms by (rule verified_is_signed)

definition demo_user :: bytes where "demo_user = replicate 16 97 @ [58, 98]"
definition demo_hmac :: "bytes \<Rightarrow> bytes \<Rightarrow> bytes" where "demo_hmac k d = replicate 20 (of_nat (length d))"
definition demo_crc :: "bytes \<Rightarrow> u32" where "demo_crc d = of_nat (length d)"

lemma demo_user_ok: "length demo_user \<le> 128" "UFRAG_LEN < length demo_user" "demo_user ! UFRAG_LEN = 58" "utf8_valid demo_user"
  by (simp_all add: demo_user_def UFRAG_LEN_def nth_append) code_simp

lemma demo_hmac_ok: "\<forall>k x. length (demo_hmac k x) = 20"
  by (simp add: demo_hmac_def)

theorem ice_request_authenticated_witness:
  "\<exists>d b. scan d = Some (Some b) \<and>
     ice_verify demo_hmac demo_crc d b [1] = Some (signed_request demo_hmac demo_crc [1] (br_transaction_id b) d)"
proof -
  obtain d b where "scan d = Some (Some b)"
    using created_request_accepted[OF _ demo_user_ok _ _ demo_hmac_ok, of "replicate 12 0" "[1]" 0 True 0 True demo_crc] by auto
  then show ?thesis using ice_request_authenticated[OF _ _ _ demo_hmac_ok, of d b "[1]" demo_crc] by auto
qed

text \<open>
  C14. A connectivity check works end to end: the request an ICE agent builds
  with the session's user name and password is scanned and verified by the
  shard, the shard's response fits its buffer, and the agent's parser reads
  the agent's own address back from it.
\<close>

theorem ice_check_end_to_end:
  assumes "length tid = 12" "length username \<le> 128" "UFRAG_LEN < length username" "username ! UFRAG_LEN = 58" "utf8_valid username"
    "pwd \<noteq> []" "length pwd \<le> 256" "\<forall>k x. length (hmac k x) = 20"
    "80 + padded_len (length username) \<le> length buf" "128 \<le> length buf" "RESPONSE_MAX_LEN \<le> length dst" "plain_addr source"
  shows "\<exists>n buf' b k dst' m.
    create_binding_request hmac crc buf tid username priority controlling tie uc pwd = Some (n, buf') \<and>
    scan (take n buf') = Some (Some b) \<and> br_local_ufrag b = take UFRAG_LEN username \<and> br_use_candidate b = (uc \<and> controlling) \<and>
    ice_verify hmac crc (take n buf') b pwd = Some True \<and>
    write_success hmac crc dst b source pwd = Some (Some k, dst') \<and> k \<le> RESPONSE_MAX_LEN \<and>
    stun_parse (take k dst') = Some (Inr m) \<and> sm_class m = SuccessResponse \<and> sm_transaction_id m = tid \<and>
    get_xor_mapped_address m = Some source"
proof -
  obtain n d buf' where c: "create_binding_request hmac crc buf tid username priority controlling tie uc pwd = Some (n, buf')"
      "take n buf' = d"
    and d: "d = msg_bytes Request Binding tid (attrs_bytes tid (request_attrs username priority controlling tie uc @
      sig_attrs hmac crc pwd (encode_type Request Binding) tid (request_attrs username priority controlling tie uc)))"
    using create_binding_request_eq[OF assms(1,2,6,7,8,10,9), of crc priority controlling tie uc] by simp
  obtain b where b: "scan d = Some (Some b)" "br_transaction_id b = tid" "br_local_ufrag b = take UFRAG_LEN username"
    "br_use_candidate b = (uc \<and> controlling)" "ice_verify hmac crc d b pwd = Some True"
    using created_request_accepted[OF assms(1-8), of priority controlling tie uc crc] unfolding d by blast
  have t: "length (br_transaction_id b) = 12" using b(2) assms(1) by simp
  note w = write_success_eq[OF t assms(6-8,11), where source = source and crc = crc]
  obtain m where m: "stun_parse (msg_bytes SuccessResponse Binding tid (attrs_bytes tid ([XorMappedAddress source] @
      sig_attrs hmac crc pwd (encode_type SuccessResponse Binding) tid [XorMappedAddress source]))) = Some (Inr m)"
    "sm_class m = SuccessResponse" "sm_transaction_id m = tid" "get_xor_mapped_address m = Some source"
    using response_read[OF assms(1,12,8), where pwd = pwd and crc = crc and ty = "encode_type SuccessResponse Binding"] by blast
  show ?thesis using c b w m unfolding b(2) by auto
qed

theorem ice_check_end_to_end_witness:
  "\<exists>n buf' b k dst' m.
    create_binding_request demo_hmac demo_crc (replicate 200 0) (replicate 12 0) demo_user 5 True 6 True [1] = Some (n, buf') \<and>
    scan (take n buf') = Some (Some b) \<and> br_local_ufrag b = take UFRAG_LEN demo_user \<and> br_use_candidate b = (True \<and> True) \<and>
    ice_verify demo_hmac demo_crc (take n buf') b [1] = Some True \<and>
    write_success demo_hmac demo_crc (replicate 100 0) b (SockV4 1 2) [1] = Some (Some k, dst') \<and> k \<le> RESPONSE_MAX_LEN \<and>
    stun_parse (take k dst') = Some (Inr m) \<and> sm_class m = SuccessResponse \<and> sm_transaction_id m = replicate 12 0 \<and>
    get_xor_mapped_address m = Some (SockV4 1 2)"
  by (rule ice_check_end_to_end[OF _ demo_user_ok _ _ demo_hmac_ok])
    (simp_all add: demo_user_def padded_len_def RESPONSE_MAX_LEN_def STUN_HEADER_SIZE_def plain_addr_def)

text \<open>
  C39. The parser takes some message types for another method: it reads the
  method bits 4 to 6 of the type from the wrong place, so the reserved
  type \<open>0x0021\<close> is accepted as a binding request although no class and
  method encode to it.
\<close>

theorem stun_type_confusion:
  "(\<exists>m. stun_parse (to_be16 0x0021 @ to_be16 0 @ to_be32 STUN_MAGIC_COOKIE @ replicate 12 0) = Some (Inr m) \<and>
     sm_class m = Request \<and> sm_method m = Binding) \<and> (\<forall>c m. encode_type c m \<noteq> 0x0021)"
proof
  have "(case stun_parse (to_be16 0x0021 @ to_be16 0 @ to_be32 STUN_MAGIC_COOKIE @ replicate 12 0) of
      Some (Inr m) \<Rightarrow> sm_class m = Request \<and> sm_method m = Binding | _ \<Rightarrow> False)"
    by code_simp
  then show "\<exists>m. stun_parse (to_be16 0x0021 @ to_be16 0 @ to_be32 STUN_MAGIC_COOKIE @ replicate 12 0) = Some (Inr m) \<and>
     sm_class m = Request \<and> sm_method m = Binding"
    by (auto split: option.splits sum.splits)
  have "list_all (\<lambda>(c, m). encode_type c m \<noteq> 0x0021) (List.product [Request, Indication, SuccessResponse, ErrorResponse]
    [Binding, Allocate, Refresh, Send, MethodData, CreatePermission, ChannelBind])" by code_simp
  moreover have "c \<in> set [Request, Indication, SuccessResponse, ErrorResponse]" for c by (cases c) simp_all
  moreover have "m \<in> set [Binding, Allocate, Refresh, Send, MethodData, CreatePermission, ChannelBind]" for m by (cases m) simp_all
  ultimately show "\<forall>c m. encode_type c m \<noteq> 0x0021" unfolding list_all_iff set_product by fast
qed

section \<open>The shard\<close>

text \<open>
  An environment over the in-memory backend that satisfies \<open>env_ok\<close>; its
  event channel takes everything.
\<close>

definition demo_env :: "(mem_io, unit) env" where
  "demo_env = \<lparr>ev_prims = demo_prims, ev_hmac = demo_hmac, ev_crc = demo_crc, ev_recv = mem_recv_batch, ev_flush = mem_flush,
     ev_try_send = (\<lambda>e u. (Sink_Ok, u))\<rparr>"

definition demo_io :: mem_io where
  "demo_io = \<lparr>mi_inbound = [(SockV4 1 2, [0x80, 96, 0, 1]), (SockV4 1 2, demo_packet), (SockV4 3 4, [0, 1, 0, 0])],
     mi_out_bytes = [], mi_out = [], mi_dropped_oversize = 0\<rparr>"

lemma demo_env_ok: "env_ok demo_env"
  using demo_prims_ok demo_hmac_ok mio.datagram_io_axioms by (simp add: env_ok_def demo_env_def)

lemma demo_config_ok: "config_validate config_default = Inr ()" "MAX_SUBS_PER_SESSION * unat (sc_max_sessions config_default) < 2 ^ 32"
  by (simp_all add: config_validate_def config_default_def RECV_BATCH_def SEND_BATCH_def MAX_POOL_BUFFERS_def secs_def
    MAX_SUBS_PER_SESSION_def)

lemma demo_shard: "\<exists>s. shard_new config_default demo_io () 0 = Some (Inr s) \<and> reachable demo_env config_default s \<and> idle_inv s"
proof -
  obtain s where s: "shard_new config_default demo_io () 0 = Some (Inr s)"
    using shard_new_total[OF demo_config_ok(1), of demo_io "()" 0] by blast
  show ?thesis by (intro exI conjI, rule s, rule reachable.start[OF s], rule shard_new_inv(1)[OF s demo_config_ok(2)])
qed



text \<open>
  C2. The tables of a shard agree in every reachable state: the address map
  holds exactly the selected and previous addresses of the sessions, the four
  identifier maps hold exactly the identifiers of the entries, and every track
  and subscription is listed by the session and the track it names.  Between
  iterations no buffer is lost: all are free.
\<close>

theorem shard_tables_exact:
  assumes "env_ok E" "MAX_SUBS_PER_SESSION * unat (sc_max_sessions c) < 2 ^ 32" "reachable E c s"
  shows "(hm_get (sh_by_addr s) a = Some k \<longleftrightarrow>
      (\<exists>se. slab_lookup (sh_sessions s) k = Some se \<and> (se_addr se = Some a \<or> se_prev_addr se = Some a))) \<and>
    (hm_get (sh_session_ids s) i = Some k \<longleftrightarrow> (\<exists>se. slab_lookup (sh_sessions s) k = Some se \<and> se_id se = i)) \<and>
    (hm_get (sh_by_ufrag s) u = Some k \<longleftrightarrow>
      (\<exists>se. slab_lookup (sh_sessions s) k = Some se \<and> ice_local_ufrag (se_ice se) = u)) \<and>
    (hm_get (sh_track_ids s) j = Some k \<longleftrightarrow> (\<exists>t. slab_lookup (sh_tracks s) k = Some t \<and> pt_id t = j)) \<and>
    (hm_get (sh_sub_ids s) l = Some k \<longleftrightarrow> (\<exists>b. slab_lookup (sh_subs s) k = Some b \<and> sb_id b = l)) \<and>
    (\<forall>t. slab_lookup (sh_tracks s) k = Some t \<longrightarrow>
      (\<exists>se. slab_lookup (sh_sessions s) (pt_session t) = Some se \<and> k \<in> set (map snd (se_published se) @ se_unbound se))) \<and>
    (\<forall>b. slab_lookup (sh_subs s) k = Some b \<longrightarrow>
      (\<exists>se t. slab_lookup (sh_sessions s) (sb_session b) = Some se \<and> k \<in> set (se_subs se) \<and>
        slab_lookup (sh_tracks s) (sb_track b) = Some t \<and> k \<in> set (pt_subscribers t))) \<and>
    pool_owns (sh_pool s) []"
proof -
  have inv: "idle_inv s" by (rule reachable_inv[OF assms(3,1,2)])
  then have ok: "tables_ok s" and own: "pool_owns (sh_pool s) []" by (auto simp: idle_inv_def shard_inv_def bufs_ok_def)
  have ad: "a \<in> addrs_of se \<longleftrightarrow> se_addr se = Some a \<or> se_prev_addr se = Some a" for se
    by (cases "se_addr se"; cases "se_prev_addr se") (auto simp: addrs_of_def)
  have m: "index_ok (sh_session_ids s) (sess s) (\<lambda>se. {se_id se})" "index_ok (sh_by_ufrag s) (sess s) (\<lambda>se. {ice_local_ufrag (se_ice se)})"
    "index_ok (sh_track_ids s) (trks s) (\<lambda>t. {pt_id t})" "index_ok (sh_sub_ids s) (subs s) (\<lambda>b. {sb_id b})"
    "index_ok (sh_by_addr s) (sess s) addrs_of" using ok by (simp_all add: tables_defs)
  show ?thesis
  proof (intro conjI allI impI)
    fix t assume "slab_lookup (sh_tracks s) k = Some t"
    from track_session[OF ok this] show "\<exists>se. slab_lookup (sh_sessions s) (pt_session t) = Some se \<and> k \<in> set (map snd (se_published se) @ se_unbound se)"
      by (simp add: tracks_of_def)
  next
    fix b assume "slab_lookup (sh_subs s) k = Some b"
    from sub_session[OF ok this] sub_track[OF ok this]
    show "\<exists>se t. slab_lookup (sh_sessions s) (sb_session b) = Some se \<and> k \<in> set (se_subs se) \<and>
        slab_lookup (sh_tracks s) (sb_track b) = Some t \<and> k \<in> set (pt_subscribers t)" by blast
  qed (use index_iff[OF m(1)] index_iff[OF m(2)] index_iff[OF m(3)] index_iff[OF m(4)] index_iff[OF m(5)] ad own in auto)
qed

theorem shard_tables_exact_witness:
  "\<exists>s. shard_new config_default demo_io () 0 = Some (Inr s) \<and>
    (hm_get (sh_by_addr s) (SockV4 1 2) = Some \<lparr>key_index = 0, key_gen = 0\<rparr> \<longleftrightarrow>
      (\<exists>se. slab_lookup (sh_sessions s) \<lparr>key_index = 0, key_gen = 0\<rparr> = Some se \<and>
        (se_addr se = Some (SockV4 1 2) \<or> se_prev_addr se = Some (SockV4 1 2))))"
proof -
  obtain s where s: "shard_new config_default demo_io () 0 = Some (Inr s)" "reachable demo_env config_default s" using demo_shard by blast
  from conjunct1[OF shard_tables_exact[OF demo_env_ok demo_config_ok(2) s(2)]] s(1) show ?thesis by blast
qed

text \<open>
  C6. Nobody moves a session's address without its password: a datagram of
  the STUN class that is not signed under the password of the session its user
  name names changes nothing of the shard but a drop counter.
\<close>

theorem stun_needs_password:
  assumes "env_ok E" "shard_inv held s" "buf_index (dg_buf d) \<in> set held" "dg_len d \<le> BUF_SIZE"
    and "pool_buf (sh_pool s) (dg_buf d) = Some buf"
    and "\<forall>rq k se. scan (take (dg_len d) buf) = Some (Some rq) \<and> hm_get (sh_by_ufrag s) (br_local_ufrag rq) = Some k \<and>
      slab_lookup (sh_sessions s) k = Some se \<longrightarrow>
      \<not> signed_request (ev_hmac E) (ev_crc E) (ice_local_pwd (se_ice se)) (br_transaction_id rq) (take (dg_len d) buf)"
  shows "\<exists>c. handle_stun E d now s = Some (s\<lparr>sh_counters := (sh_counters s)(c := sh_counters s c + 1)\<rparr>)"
proof -
  have "handle_stun E d now s = Some (count1 Drop_stun s) \<or> handle_stun E d now s = Some (count1 Drop_stun_auth s)"
    by (rule handle_stun_unsigned[OF assms(1-5)]) (use assms(6) in blast)
  then show ?thesis by (auto simp: count_by_def)
qed

text \<open>A shard with a session and one empty buffer in the hands of the loop.\<close>

definition demo_ice :: ice_params where
  "demo_ice = \<lparr>ice_local_ufrag = replicate 16 97, ice_local_pwd = replicate 32 98\<rparr>"

lemma pool_new_zeros: "pool_new sh n = Some p \<Longrightarrow> pool_memory p = replicate (n * BUF_SIZE) 0 \<and> pool_take p \<noteq> None"
  by (auto simp: pool_new_def pool_take_def panic_simps split: list.splits)

lemma demo_state:
  "\<exists>(s :: (mem_io, unit) shard) (b :: buf_ref) k. shard_inv [buf_index b] s \<and> hm_get (sh_session_ids s) 9 = Some k \<and> sh_track_ids s = [] \<and>
     pool_buf (sh_pool s) b = Some (replicate BUF_SIZE 0)"
proof -
  obtain s where s: "shard_new config_default demo_io () 0 = Some (Inr s)" "idle_inv s" using demo_shard by blast
  then have f: "sh_session_ids s = []" "sh_by_ufrag s = []" "sh_track_ids s = []" "sh_sessions s = slab_new" "sh_config s = config_default"
    and p: "pool_new 0 1024 = Some (sh_pool s)"
    by (auto simp: shard_new_def bind_eq_Some_conv config_default_def split: sum.splits)
  have inv: "shard_inv [] s" using s(2) by (simp add: idle_inv_def)
  have "ice_wf demo_ice" by (simp add: ice_wf_def demo_ice_def)
  from create_session_runs[OF inv this, of 9 5 0] obtain r s1 where
    s1: "create_session 9 demo_ice 5 0 s = Some (r, s1)" "shard_inv [] s1" by (auto simp: runs_def settled_def)
  have e: "hm_get (sh_session_ids s1) 9 \<noteq> None" "sh_track_ids s1 = []" "sh_pool s1 = sh_pool s"
    using s1(1) f by (auto simp: create_session_def config_default_def slab_len_def slab_new_def bind_eq_Some_conv split: if_splits)
  have mem: "pool_memory (sh_pool s1) = replicate (1024 * BUF_SIZE) 0" "pool_take (sh_pool s1) \<noteq> None"
    using pool_new_zeros[OF p] e(3) by simp_all
  then obtain b q where b: "pool_take (sh_pool s1) = Some (b, q)" by auto
  note t = take_step(1)[OF inv_tables(2)[OF s1(2)] b, of "[]"]
  have "pool_memory q = replicate (1024 * BUF_SIZE) 0" using b mem(1) by (auto simp: pool_take_def split: list.splits)
  moreover obtain d where "pool_buf q b = Some d" using held_buf[OF io_stepD(1)[OF t], of b] by auto
  ultimately have "pool_buf q b = Some (replicate BUF_SIZE 0)" by (auto simp: pool_buf_def Let_def sub_slice_eq_Some_iff min_def BUF_SIZE_def)
  then show ?thesis using io_step_inv[OF s1(2) t] e by (intro exI[of _ "s1\<lparr>sh_pool := q\<rparr>"] exI[of _ b]) auto
qed

theorem stun_needs_password_witness:
  "\<exists>(s :: (mem_io, unit) shard) (b :: buf_ref) k c. hm_get (sh_session_ids s) 9 = Some k \<and>
     handle_stun demo_env \<lparr>dg_buf = b, dg_len = 20, dg_addr = SockV4 1 2\<rparr> 0 s =
       Some (s\<lparr>sh_counters := (sh_counters s)(c := sh_counters s c + 1)\<rparr>)"
proof -
  obtain s :: "(mem_io, unit) shard" and b :: buf_ref and k where s: "shard_inv [buf_index b] s" "hm_get (sh_session_ids s) 9 = Some k"
    "pool_buf (sh_pool s) b = Some (replicate BUF_SIZE 0)" using demo_state by blast
  let ?d = "\<lparr>dg_buf = b, dg_len = 20, dg_addr = SockV4 1 2\<rparr>"
  have n: "dg_index ?d \<in> set [buf_index b]" "dg_len ?d \<le> BUF_SIZE" "pool_buf (sh_pool s) (dg_buf ?d) = Some (replicate BUF_SIZE 0)"
    using s(3) by (simp_all add: BUF_SIZE_def)
  have "take (dg_len ?d) (replicate BUF_SIZE 0) = replicate 20 (0 :: u8)" using n(2) by simp
  moreover have "scan (replicate 20 0) = Some None"
    by (simp add: scan_def STUN_HEADER_SIZE_def BINDING_REQUEST_def be16_def)
  ultimately have "scan (take (dg_len ?d) (replicate BUF_SIZE 0)) = Some None" by (simp only:)
  then have "\<exists>c. handle_stun demo_env ?d 0 s = Some (s\<lparr>sh_counters := (sh_counters s)(c := sh_counters s c + 1)\<rparr>)"
    by (intro stun_needs_password[OF demo_env_ok s(1) n]) (simp only: option.inject option.distinct simp_thms)
  then show ?thesis using s(2) by blast
qed

text \<open>
  C10. Closing a session leaves nothing of it: the command succeeds, and then
  no map names the session, no address leads to it, and no track or
  subscription of it is left.
\<close>

theorem close_session_complete:
  assumes "shard_inv held s" "hm_get (sh_session_ids s) i = Some k"
  shows "\<exists>s'. close_session i s = Some (Inr (), s') \<and> shard_inv held s' \<and>
    hm_get (sh_session_ids s') i = None \<and> slab_lookup (sh_sessions s') k = None \<and> hm_get (sh_by_addr s') a \<noteq> Some k \<and>
    hm_get (sh_by_ufrag s') u \<noteq> Some k \<and> k \<notin> set (sh_pending_switches s') \<and>
    (\<forall>t tr. slab_lookup (sh_tracks s') t = Some tr \<longrightarrow> pt_session tr \<noteq> k) \<and>
    (\<forall>b sb. slab_lookup (sh_subs s') b = Some sb \<longrightarrow> sb_session sb \<noteq> k)"
proof -
  obtain s' where s': "close_session i s = Some (Inr (), s')" "shard_inv held s'" "sess s' k = None" "hm_get (sh_session_ids s') i = None"
    using close_session_ok[OF assms] by (auto simp: runs_def settled_def)
  note ok = inv_tables(1)[OF s'(2)]
  have "pt_session tr \<noteq> k" if "trks s' t = Some tr" for t tr using track_session[OF ok that] s'(3) by auto
  moreover have "sb_session sb \<noteq> k" if "subs s' b = Some sb" for b sb using sub_session[OF ok that] s'(3) by auto
  moreover have "hm_get (sh_by_addr s') a \<noteq> Some k" using addr_session[OF ok, of a k] s'(3) by auto
  moreover have "hm_get (sh_by_ufrag s') u \<noteq> Some k" "k \<notin> set (sh_pending_switches s')"
    using ok index_get[of "sh_by_ufrag s'" "sess s'" _ u k] s'(3) by (auto simp: tables_ok_def ids_ok_def switches_ok_def)
  ultimately show ?thesis using s' by blast
qed

theorem close_session_complete_witness:
  "\<exists>(s :: (mem_io, unit) shard) k s'. hm_get (sh_session_ids s) 9 = Some k \<and> close_session 9 s = Some (Inr (), s') \<and>
     hm_get (sh_session_ids s') 9 = None \<and> slab_lookup (sh_sessions s') k = None"
proof -
  obtain s :: "(mem_io, unit) shard" and b :: buf_ref and k where s: "shard_inv [buf_index b] s" "hm_get (sh_session_ids s) 9 = Some k"
    using demo_state by blast
  from close_session_complete[OF this] s(2) show ?thesis by blast
qed

text \<open>
  C15. A refused command has no effect: when a handler answers with a reason,
  the shard is what it was before the command.
\<close>

theorem refused_command_changes_nothing:
  assumes "apply_command E c now s = Some (Inl reason, s')"
  shows "s' = s"
  using ensD[OF apply_command_refused assms] by simp

theorem refused_command_changes_nothing_witness:
  "\<exists>(s :: (mem_io, unit) shard) s'. apply_command demo_env (RemoveTrack 3) 0 s = Some (Inl UnknownTrack, s') \<and> s' = s"
proof -
  obtain s :: "(mem_io, unit) shard" where "sh_track_ids s = []" using demo_state by blast
  then have "apply_command demo_env (RemoveTrack 3) 0 s = Some (Inl UnknownTrack, s)" by (simp add: remove_track_cmd_def)
  with refused_command_changes_nothing[OF this] show ?thesis by blast
qed



text \<open>
  C17. The loop over the pending nominations ends, and what it leaves in the
  list is what must wait: every session still listed has a nomination and
  switched less than the minimum interval ago.
\<close>

theorem pending_switches_applied:
  assumes "shard_inv held s"
  shows "\<exists>s'. apply_pending_switches E now s = Some s' \<and> shard_inv held s' \<and>
    (\<forall>k\<in>set (sh_pending_switches s'). \<exists>se at. slab_lookup (sh_sessions s') k = Some se \<and>
       se_pending_nomination se \<noteq> None \<and> se_last_switch se = Some at \<and> since now at < MIN_SWITCH_INTERVAL)"
proof -
  obtain s' where s': "apply_pending_switches E now s = Some s'" "shard_inv held s'"
    using apply_pending_switches_runs[OF assms, of E now] by (auto simp: runs_def step_def)
  moreover have "\<exists>se at. sess s' k = Some se \<and> se_pending_nomination se \<noteq> None \<and> se_last_switch se = Some at \<and>
      since now at < MIN_SWITCH_INTERVAL" if "k \<in> set (sh_pending_switches s')" for k
    using apply_pending_switches_waiting[OF assms s'(1) that] by (auto simp: waiting_def)
  ultimately show ?thesis by blast
qed

theorem pending_switches_applied_witness:
  "\<exists>(s :: (mem_io, unit) shard) (b :: buf_ref) s'. apply_pending_switches demo_env 0 s = Some s' \<and> shard_inv [buf_index b] s' \<and>
    (\<forall>k\<in>set (sh_pending_switches s'). \<exists>se at. slab_lookup (sh_sessions s') k = Some se \<and>
       se_pending_nomination se \<noteq> None \<and> se_last_switch se = Some at \<and> since 0 at < MIN_SWITCH_INTERVAL)"
proof -
  obtain s :: "(mem_io, unit) shard" and b :: buf_ref where "shard_inv [buf_index b] s" using demo_state by blast
  from pending_switches_applied[OF this, of demo_env 0] show ?thesis by blast
qed

section \<open>RTCP\<close>


text \<open>
  C33. The compound splitter cuts the datagram into consecutive blocks: each
  starts with the header returned for it and has the length that header says,
  together they are a prefix of the datagram, there are at most 16, and the
  splitter stops only at that limit or when less than 8 bytes are left.
\<close>

theorem compound_blocks_partition:
  assumes "demux_compound d = Some (Inr es)"
  shows "blocks_at d 0 es \<and> length es \<le> 16 \<and> concat (map snd es) = take (sum_list (map (\<lambda>e. length (snd e)) es)) d \<and>
    (length es = 16 \<or> length d < sum_list (map (\<lambda>e. length (snd e)) es) + 8)"
  using assms by (rule demux_compound_blocks)

theorem compound_blocks_partition_witness:
  "\<exists>h1 h2 es. demux_compound (sr_bytes 1 2 3 4 5 @ sdes_bytes 1 [97]) = Some (Inr es) \<and>
     es = [(h1, sr_bytes 1 2 3 4 5), (h2, sdes_bytes 1 [97])] \<and> blocks_at (sr_bytes 1 2 3 4 5 @ sdes_bytes 1 [97]) 0 es"
proof -
  obtain h1 h2 where h: "demux_compound (sr_bytes 1 2 3 4 5 @ sdes_bytes 1 [97]) =
      Some (Inr [(h1, sr_bytes 1 2 3 4 5), (h2, sdes_bytes 1 [97])])" using report_demux[of "[97]" 1 2 3 4 5] by auto
  from conjunct1[OF compound_blocks_partition[OF h]] h show ?thesis by blast
qed

text \<open>
  C32. The sender report the shard writes for a subscriber is what the
  subscriber reads: when the buffer is large enough the packet is a compound
  of two blocks, the report with the subscription's SSRC and counters, the
  publisher's NTP time and its RTP time moved by the offset of the rewriter,
  and a source description.
\<close>

theorem translated_report_readable:
  assumes "length name \<le> 255" "28 + sdes_len name \<le> length dst"
  shows "\<exists>n out h1 b1 h2 b2. write_report dst sub sr name = Some (Some (n, out)) \<and> length out = length dst \<and>
    n = 28 + sdes_len name \<and> drop n out = drop n dst \<and>
    demux_compound (take n out) = Some (Inr [(h1, b1), (h2, b2)]) \<and>
    rc_packet_type h1 = RtSenderReport \<and> rc_packet_type h2 = RtSourceDescription \<and>
    sender_report_parse b1 = Some (Inr \<lparr>srp_ssrc = rw_out_ssrc (sb_rewrite sub), srp_ntp_timestamp = sr_ntp sr,
      srp_rtp_timestamp = sr_rtp sr + rw_ts_offset (sb_rewrite sub), srp_packet_count = sb_sent_packets sub,
      srp_octet_count = sb_sent_octets sub\<rparr>)"
proof -
  let ?ssrc = "rw_out_ssrc (sb_rewrite sub)"
  let ?a = "sr_bytes ?ssrc (sr_ntp sr) (sr_rtp sr + rw_ts_offset (sb_rewrite sub)) (sb_sent_packets sub) (sb_sent_octets sub)"
  let ?b = "sdes_bytes ?ssrc name" and ?n = "28 + sdes_len name"
  have w: "write_report dst sub sr name = Some (Some (?n, ?a @ ?b @ drop ?n dst))"
    using assms(2) by (simp add: write_report_def write_sr_eq write_sdes_cname_eq Let_def add.commute)
  moreover have "take ?n (?a @ ?b @ drop ?n dst) = ?a @ ?b" by simp
  moreover have "length (?a @ ?b @ drop ?n dst) = length dst" "drop ?n (?a @ ?b @ drop ?n dst) = drop ?n dst" using assms(2) by simp_all
  moreover note report_demux[OF assms(1), of ?ssrc "sr_ntp sr" "sr_rtp sr + rw_ts_offset (sb_rewrite sub)" "sb_sent_packets sub" "sb_sent_octets sub"]
    sr_bytes_parse[where r = "[]", simplified]
  ultimately show ?thesis by metis
qed

theorem translated_report_readable_witness:
  "\<exists>n out. write_report (replicate 64 0) demo_sub \<lparr>sr_ntp = 7, sr_rtp = 8\<rparr> [97, 98] = Some (Some (n, out)) \<and> length out = 64"
proof -
  have "length [97, 98 :: u8] \<le> 255" "28 + sdes_len [97, 98] \<le> length (replicate 64 (0 :: u8))" by (simp_all add: sdes_len_def)
  from translated_report_readable[OF this, of demo_sub "\<lparr>sr_ntp = 7, sr_rtp = 8\<rparr>"] show ?thesis by (simp only: length_replicate) blast
qed

text \<open>
  C34. A NACK for at most 64 losses with at most 32 different sequence numbers
  is read back as the sorted list of those numbers, whatever their distances
  and their order.
\<close>

theorem nack_packet_roundtrip:
  assumes "length (nk_lost_packets k) \<le> 64" "card (set (nk_lost_packets k)) \<le> 32"
  shows "\<exists>b. nack_build k = Some b \<and>
    nack_parse b = Some (Inr (k\<lparr>nk_lost_packets := sorted_list_of_set (set (nk_lost_packets k))\<rparr>))"
  using assms by (rule nack_roundtrip)

theorem nack_packet_roundtrip_witness:
  "\<exists>b. nack_build \<lparr>nk_sender_ssrc = 1, nk_media_ssrc = 2, nk_lost_packets = [90, 7, 65535, 7]\<rparr> = Some b \<and>
    nack_parse b = Some (Inr \<lparr>nk_sender_ssrc = 1, nk_media_ssrc = 2, nk_lost_packets = [7, 90, 65535]\<rparr>)"
proof -
  let ?k = "\<lparr>nk_sender_ssrc = 1, nk_media_ssrc = 2, nk_lost_packets = [90, 7, 65535, 7]\<rparr>"
  have l: "length (nk_lost_packets ?k) \<le> 64" by simp
  have c: "card (set (nk_lost_packets ?k)) \<le> 32" by (rule order_trans[OF card_length]) simp
  have "sort (remdups (nk_lost_packets ?k)) = [7, 90, 65535]" by code_simp
  then have "?k\<lparr>nk_lost_packets := sorted_list_of_set (set (nk_lost_packets ?k))\<rparr> =
      \<lparr>nk_sender_ssrc = 1, nk_media_ssrc = 2, nk_lost_packets = [7, 90, 65535]\<rparr>"
    by (simp only: sorted_list_of_set_sort_remdups nack_packet.simps)
  then show ?thesis using nack_packet_roundtrip[OF l c] by (simp only:)
qed

text \<open>
  C35. A FIR with one to 31 entries is read back unchanged.
\<close>

theorem fir_packet_roundtrip:
  assumes "fir_entries f \<noteq> []" "length (fir_entries f) \<le> 31"
  shows "\<exists>b. fir_build f = Some b \<and> fir_parse b = Some (Inr f)"
  using assms by (rule fir_roundtrip)

theorem fir_packet_roundtrip_witness:
  "\<exists>b. fir_build \<lparr>fir_sender_ssrc = 1, fir_entries = [\<lparr>fe_ssrc = 5, fe_seq_nr = 6\<rparr>]\<rparr> = Some b \<and>
     fir_parse b = Some (Inr \<lparr>fir_sender_ssrc = 1, fir_entries = [\<lparr>fe_ssrc = 5, fe_seq_nr = 6\<rparr>]\<rparr>)"
  using fir_packet_roundtrip[of "\<lparr>fir_sender_ssrc = 1, fir_entries = [\<lparr>fe_ssrc = 5, fe_seq_nr = 6\<rparr>]\<rparr>"] by simp

text \<open>
  C36. A REMB for one to 32 SSRCs is read back with the same SSRCs and the bit
  rate rounded down to its 18 most significant bits: exactly when it has no
  more, and otherwise keeping at least 18.
\<close>

theorem remb_packet_roundtrip:
  assumes "rb_bitrate_bps r > 0" "rb_ssrcs r \<noteq> []" "length (rb_ssrcs r) \<le> 32"
  shows "\<exists>b e. remb_build r = Some b \<and> e < 64 \<and>
    remb_parse b = Some (Inr (r\<lparr>rb_bitrate_bps := push_bit e (drop_bit e (rb_bitrate_bps r))\<rparr>)) \<and>
    (e = 0 \<or> 2 ^ 17 \<le> unat (drop_bit e (rb_bitrate_bps r)))"
  using assms by (rule remb_roundtrip)

theorem remb_packet_roundtrip_witness:
  "\<exists>b e. remb_build \<lparr>rb_sender_ssrc = 1, rb_bitrate_bps = 2500000, rb_ssrcs = [4, 5]\<rparr> = Some b \<and> e < 64 \<and>
    remb_parse b = Some (Inr \<lparr>rb_sender_ssrc = 1, rb_bitrate_bps = push_bit e (drop_bit e 2500000), rb_ssrcs = [4, 5]\<rparr>)"
  using remb_packet_roundtrip[of "\<lparr>rb_sender_ssrc = 1, rb_bitrate_bps = 2500000, rb_ssrcs = [4, 5]\<rparr>"] by auto

text \<open>
  C37. The reader of FIR targets the shard uses agrees with the parser of the
  media crate: on every packet the parser accepts, it returns the SSRCs of the
  first 16 entries.
\<close>

theorem fir_targets_agree:
  assumes "fir_parse d = Some (Inr f)"
  shows "fir_targets d = take 16 (map fe_ssrc (fir_entries f))"
  using assms by (rule fir_targets_eq)

theorem fir_targets_agree_witness:
  "\<exists>b f. fir_build \<lparr>fir_sender_ssrc = 1, fir_entries = [\<lparr>fe_ssrc = 5, fe_seq_nr = 6\<rparr>]\<rparr> = Some b \<and> fir_parse b = Some (Inr f) \<and>
     fir_targets b = take 16 (map fe_ssrc (fir_entries f))"
proof -
  obtain b f where b: "fir_build \<lparr>fir_sender_ssrc = 1, fir_entries = [\<lparr>fe_ssrc = 5, fe_seq_nr = 6\<rparr>]\<rparr> = Some b" "fir_parse b = Some (Inr f)"
    using fir_roundtrip[of "\<lparr>fir_sender_ssrc = 1, fir_entries = [\<lparr>fe_ssrc = 5, fe_seq_nr = 6\<rparr>]\<rparr>"] by auto
  from fir_targets_agree[OF b(2)] b show ?thesis by blast
qed

text \<open>
  C38. The FIR sequence numbers of one SSRC are consecutive modulo 256, while
  no more than 64 SSRCs are asked for.
\<close>

theorem fir_numbers_consecutive:
  assumes "distinct (map fst t)" "card (fst ` set t \<union> set ss) \<le> 64" "fir_entries_for ss t = (es, t')" "i < length ss"
  shows "length es = length ss \<and> fe_ssrc (es ! i) = ss ! i \<and>
    fe_seq_nr (es ! i) = (case map_of t (ss ! i) of None \<Rightarrow> 0 | Some k \<Rightarrow> k) + of_nat (count_list (take i ss) (ss ! i))"
  using assms by (rule fir_entries_numbers)

theorem fir_numbers_consecutive_witness:
  "\<exists>es t'. fir_entries_for [5, 6, 5] [(5, 255)] = (es, t') \<and> fe_seq_nr (es ! 2) = 0"
proof -
  obtain es t' where e: "fir_entries_for [5, 6, 5] [(5, 255)] = (es, t')" by fastforce
  have "card (fst ` set [(5 :: u32, 255 :: u8)] \<union> set [5, 6, 5]) \<le> 64" by (simp add: card_insert_if)
  from fir_numbers_consecutive[OF _ this e, of 2] e show ?thesis by simp
qed


end
